(* ===== verification/Prelude.thy ===== *)
theory Prelude
  imports Main "HOL-Library.Word"
begin

text \<open>
  Shared vocabulary of the development: the machine integer types of the C code (an LP64,
  little-endian host), the error monad in which undefined behaviour is a value, windows of
  byte lists and updates of such windows, the byte order functions of libc, and the
  arithmetic facts on 64-bit sizes that every component uses.
\<close>

unbundle bit_operations_syntax

section \<open>Machine types\<close>

type_synonym byte = "8 word"
type_synonym u16 = "16 word"
type_synonym u32 = "32 word"
type_synonym size_t = "64 word"
type_synonym ssize_t = "64 word"

named_theorems layout \<comment> \<open>sizes and offsets of the packed structs\<close>
named_theorems bindE_simps \<comment> \<open>sequencing of steps that may fault\<close>

lemma unat_byte_less [simp]: "unat (b :: byte) < 256"
  using unsigned_less [of b] by simp

lemma unat_byte_le [simp]: "unat (b :: byte) \<le> 255"
  using unat_byte_less [of b] by linarith

lemma unat_size_less [simp]: "unat (x :: size_t) < 2 ^ 64"
  using unsigned_less [of x] by simp

lemma take_bit_unat_size [simp]: "take_bit 64 (unat (x :: size_t)) = unat x"
  using unsigned_less [of x] by (intro take_bit_nat_eq_self) simp

lemma unat_ucast_byte [simp]: "unat (ucast (b :: byte) :: size_t) = unat b"
proof -
  have "unat b < 2 ^ 64" using unat_byte_less [of b] by (simp del: unat_byte_less)
  then show ?thesis by (simp add: unsigned_ucast_eq take_bit_nat_eq_self)
qed

lemma size_eq_of_nat: "unat (l :: size_t) = k \<Longrightarrow> l = of_nat k"
  by auto

section \<open>Undefined behaviour as a value\<close>

text \<open>
  Whatever the C standard leaves undefined, or whatever a conforming machine would trap, is
  an explicit fault. A function of the model returns \<^typ>\<open>'f + 'a\<close> with \<open>Inl\<close> for the fault.
\<close>

datatype fault =
    NullDeref       \<comment> \<open>access through a null pointer\<close>
  | DeadBlock       \<comment> \<open>access to storage that is not (or no longer) allocated\<close>
  | OutOfBounds     \<comment> \<open>access outside the object\<close>
  | UninitRead      \<comment> \<open>use of an indeterminate value\<close>
  | BadFree         \<comment> \<open>free of something malloc did not return\<close>
  | BadVla          \<comment> \<open>variable length array of no or of impossible size\<close>
  | WildPointer     \<comment> \<open>store through an indeterminate pointer\<close>
  | Deadlock        \<comment> \<open>locking a mutex that the thread holds\<close>
  | SignedOverflow  \<comment> \<open>arithmetic on \<open>int\<close> beyond its range\<close>

fun bindE :: "'e + 'a \<Rightarrow> ('a \<Rightarrow> 'e + 'b) \<Rightarrow> 'e + 'b" where
  "bindE (Inl e) f = Inl e"
| "bindE (Inr x) f = f x"

lemma bindE_Inr_iff [bindE_simps]:
  "bindE x f = Inr y \<longleftrightarrow> (\<exists>v. x = Inr v \<and> f v = Inr y)"
  by (cases x) auto

lemma bindE_Inl_iff [bindE_simps]:
  "bindE x f = Inl e \<longleftrightarrow> x = Inl e \<or> (\<exists>v. x = Inr v \<and> f v = Inl e)"
  by (cases x) auto

lemma bindE_assoc: "bindE (bindE x f) g = bindE x (\<lambda>v. bindE (f v) g)"
  by (cases x) auto

lemma bindE_cong [fundef_cong]:
  "x = y \<Longrightarrow> (\<And>v. y = Inr v \<Longrightarrow> f v = g v) \<Longrightarrow> bindE x f = bindE y g"
  by (cases y) auto

text \<open>
  Functions with a loop that may run forever return an option on top: \<open>None\<close> is not returning.
\<close>

type_synonym 'a run = "(fault + 'a) option"

abbreviation return :: "'a \<Rightarrow> 'a run" where
  "return x \<equiv> Some (Inr x)"

abbreviation fail :: "fault \<Rightarrow> 'a run" where
  "fail f \<equiv> Some (Inl f)"

fun bindR :: "'a run \<Rightarrow> ('a \<Rightarrow> 'b run) \<Rightarrow> 'b run" where
  "bindR None g = None"
| "bindR (Some (Inl f)) g = Some (Inl f)"
| "bindR (Some (Inr x)) g = g x"

lemma bindR_return_iff [bindE_simps]:
  "bindR x g = return y \<longleftrightarrow> (\<exists>v. x = return v \<and> g v = return y)"
  by (cases "(x, g)" rule: bindR.cases) auto

lemma bindR_fail_iff [bindE_simps]:
  "bindR x g = fail f \<longleftrightarrow> x = fail f \<or> (\<exists>v. x = return v \<and> g v = fail f)"
  by (cases "(x, g)" rule: bindR.cases) auto

lemma bindR_None_iff [bindE_simps]:
  "bindR x g = None \<longleftrightarrow> x = None \<or> (\<exists>v. x = return v \<and> g v = None)"
  by (cases "(x, g)" rule: bindR.cases) auto

lemma bindR_assoc: "bindR (bindR x f) g = bindR x (\<lambda>v. bindR (f v) g)"
  by (cases "(x, f)" rule: bindR.cases) auto

section \<open>Windows of lists\<close>

definition window :: "nat \<Rightarrow> nat \<Rightarrow> 'a list \<Rightarrow> 'a list" where
  "window i n xs = take n (drop i xs)"

definition overwrite :: "nat \<Rightarrow> 'a list \<Rightarrow> 'a list \<Rightarrow> 'a list" where
  "overwrite i ys xs = take i xs @ ys @ drop (i + length ys) xs"

lemma window_0 [simp]: "window i 0 xs = []"
  by (simp add: window_def)

lemma length_window [simp]: "length (window i n xs) = min n (length xs - i)"
  by (simp add: window_def)

lemma window_all [simp]: "window 0 (length xs) xs = xs"
  by (simp add: window_def)

lemma nth_window: "k < n \<Longrightarrow> i + k < length xs \<Longrightarrow> window i n xs ! k = xs ! (i + k)"
  by (simp add: window_def)

lemma window_map: "window i n (map f xs) = map f (window i n xs)"
  by (simp add: window_def take_map drop_map)

lemma window_window:
  "j + k \<le> n \<Longrightarrow> window j k (window i n xs) = window (i + j) k xs"
  by (simp add: window_def drop_take add.commute min_def)

lemma drop_window: "drop j (window i n xs) = window (i + j) (n - j) xs"
  by (simp add: window_def drop_take add.commute)

lemma window_append1 [simp]: "window (length xs) n (xs @ ys) = take n ys"
  by (simp add: window_def)

lemma window_eq_drop: "length xs \<le> i + n \<Longrightarrow> window i n xs = drop i xs"
  by (simp add: window_def)

lemma length_overwrite [simp]:
  "i + length ys \<le> length xs \<Longrightarrow> length (overwrite i ys xs) = length xs"
  by (simp add: overwrite_def)

lemma overwrite_Nil [simp]: "overwrite i [] xs = xs"
  by (simp add: overwrite_def)

lemma nth_overwrite:
  "i + length ys \<le> length xs \<Longrightarrow> k < length xs \<Longrightarrow>
   overwrite i ys xs ! k = (if k < i \<or> i + length ys \<le> k then xs ! k else ys ! (k - i))"
  by (auto simp: overwrite_def nth_append min_def)

lemma window_overwrite_same:
  "i + length ys \<le> length xs \<Longrightarrow> n = length ys \<Longrightarrow> window i n (overwrite i ys xs) = ys"
  by (simp add: window_def overwrite_def)

lemma overwrite_app_right:
  "overwrite (length xs + i) zs (xs @ ys) = xs @ overwrite i zs ys"
  by (simp add: overwrite_def)

lemma overwrite_app_left:
  "i + length zs \<le> length xs \<Longrightarrow> overwrite i zs (xs @ ys) = overwrite i zs xs @ ys"
  by (simp add: overwrite_def)

lemma overwrite_full [simp]: "length zs = length xs \<Longrightarrow> overwrite 0 zs xs = zs"
  by (simp add: overwrite_def)

section \<open>Byte order\<close>

text \<open>
  The host is little-endian: the first byte in memory is the least significant one. The
  network byte order of \<open>htons\<close>, \<open>ntohs\<close> and \<open>htonl\<close> is the other one, so each of them
  reverses the bytes of its argument.
\<close>

definition le16 :: "u16 \<Rightarrow> byte list" where
  "le16 w = [ucast w, ucast (drop_bit 8 w)]"

definition le32 :: "u32 \<Rightarrow> byte list" where
  "le32 w = [ucast w, ucast (drop_bit 8 w), ucast (drop_bit 16 w), ucast (drop_bit 24 w)]"

definition of_le16 :: "byte list \<Rightarrow> u16" where
  "of_le16 bs = ucast (bs ! 0) OR push_bit 8 (ucast (bs ! 1))"

definition htons :: "u16 \<Rightarrow> u16" where
  "htons w = push_bit 8 w OR drop_bit 8 w"

definition ntohs :: "u16 \<Rightarrow> u16" where
  "ntohs w = push_bit 8 w OR drop_bit 8 w"

definition htonl :: "u32 \<Rightarrow> u32" where
  "htonl w = push_bit 24 w OR (push_bit 8 w AND 0xff0000) OR (drop_bit 8 w AND 0xff00)
     OR drop_bit 24 w"

lemma length_le16 [simp]: "length (le16 w) = 2"
  by (simp add: le16_def)

lemma length_le32 [simp]: "length (le32 w) = 4"
  by (simp add: le32_def)

lemma of_le16_le16 [simp]: "of_le16 (le16 w) = w"
  by (rule bit_word_eqI) (auto simp: of_le16_def le16_def bit_simps)

lemma le16_of_le16: "length bs = 2 \<Longrightarrow> le16 (of_le16 bs) = bs"
proof -
  assume "length bs = 2"
  then obtain a b where bs: "bs = [a, b]"
    by (auto simp: length_Suc_conv eval_nat_numeral)
  have "ucast (of_le16 [a, b]) = a"
    by (rule bit_word_eqI) (auto simp: of_le16_def bit_simps)
  moreover have "ucast (drop_bit 8 (of_le16 [a, b])) = b"
    by (rule bit_word_eqI) (auto simp: of_le16_def bit_simps dest: bit_imp_le_length)
  ultimately show ?thesis by (simp add: le16_def bs)
qed

lemma ntohs_htons [simp]: "ntohs (htons w) = w"
  by (rule bit_word_eqI) (auto simp: ntohs_def htons_def bit_simps)

lemma htons_ntohs [simp]: "htons (ntohs w) = w"
  by (rule bit_word_eqI) (auto simp: ntohs_def htons_def bit_simps)

end
