(* ===== verification/QueueLoops.thy ===== *)
theory QueueLoops
  imports Prelude
begin

text \<open>
  The for loops of the traversal macros of \<open>lib_convert/bsd_queue.h\<close>. The four families write
  the same two loops with their own NEXT, so the loops are written once, over the function
  that follows a link, together with the abstract traversal of a list they come down to.
\<close>

text \<open>
  The body of a loop gets the element, may change the heap, and may break out with a result.
  \<open>each\<close> follows the link of the element after the body ran (\<open>FOREACH\<close>), \<open>each_safe\<close> reads
  it before (\<open>FOREACH_SAFE\<close>). A loop over a cycle may run forever: \<open>None\<close>.
\<close>

partial_function (option) each ::
  "('h \<Rightarrow> nat \<Rightarrow> fault + nat option) \<Rightarrow> (nat \<Rightarrow> 'h \<Rightarrow> fault + 'h \<times> 'r option) \<Rightarrow>
   'h \<Rightarrow> nat option \<Rightarrow> ('h \<times> (nat \<times> 'r) option) run"
where
  "each nxt body h var =
     (case var of
        None \<Rightarrow> return (h, None)
      | Some e \<Rightarrow> (case body e h of
          Inl f \<Rightarrow> fail f
        | Inr q \<Rightarrow> (case snd q of
            Some r \<Rightarrow> return (fst q, Some (e, r))
          | None \<Rightarrow> (case nxt (fst q) e of Inl f \<Rightarrow> fail f | Inr v \<Rightarrow> each nxt body (fst q) v))))"

partial_function (option) each_safe ::
  "('h \<Rightarrow> nat \<Rightarrow> fault + nat option) \<Rightarrow> (nat \<Rightarrow> 'h \<Rightarrow> fault + 'h \<times> 'r option) \<Rightarrow>
   'h \<Rightarrow> nat option \<Rightarrow> ('h \<times> (nat \<times> 'r) option) run"
where
  "each_safe nxt body h var =
     (case var of
        None \<Rightarrow> return (h, None)
      | Some e \<Rightarrow> (case nxt h e of
          Inl f \<Rightarrow> fail f
        | Inr tvar \<Rightarrow> (case body e h of
            Inl f \<Rightarrow> fail f
          | Inr q \<Rightarrow> (case snd q of
              Some r \<Rightarrow> return (fst q, Some (e, r))
            | None \<Rightarrow> each_safe nxt body (fst q) tvar))))"

text \<open>The start of a loop: at \<open>var\<close> if it is not null (the FROM macros), else at the first element.\<close>

definition start_at :: "nat option \<Rightarrow> fault + nat option \<Rightarrow> fault + nat option" where
  "start_at var first = (case var of Some e \<Rightarrow> Inr (Some e) | None \<Rightarrow> first)"

definition loop_from :: "fault + nat option \<Rightarrow> (nat option \<Rightarrow> 'b run) \<Rightarrow> 'b run" where
  "loop_from start loop = (case start of Inl f \<Rightarrow> fail f | Inr v \<Rightarrow> loop v)"

lemma loop_from_Inr [simp]: "loop_from (Inr v) loop = loop v"
  by (simp add: loop_from_def)

section \<open>What the loops compute\<close>

text \<open>The body on one element after the other, until it breaks or faults.\<close>

fun visit ::
  "(nat \<Rightarrow> 'h \<Rightarrow> fault + 'h \<times> 'r option) \<Rightarrow> 'h \<Rightarrow> nat list \<Rightarrow> fault + 'h \<times> (nat \<times> 'r) option"
where
  "visit body h [] = Inr (h, None)"
| "visit body h (e # es) =
     bindE (body e h) (\<lambda>q. case snd q of
       Some r \<Rightarrow> Inr (fst q, Some (e, r)) | None \<Rightarrow> visit body (fst q) es)"

text \<open>\<open>walk nxt h v es\<close>: from the pointer \<open>v\<close>, \<open>nxt\<close> leads through \<open>es\<close> to the end.\<close>

fun walk :: "('h \<Rightarrow> nat \<Rightarrow> fault + nat option) \<Rightarrow> 'h \<Rightarrow> nat option \<Rightarrow> nat list \<Rightarrow> bool" where
  "walk nxt h v [] \<longleftrightarrow> v = None"
| "walk nxt h v (e # es) \<longleftrightarrow> v = Some e \<and>
     (case nxt h e of Inl f \<Rightarrow> False | Inr n \<Rightarrow> walk nxt h n es)"

lemma walk_cong: "(\<And>e. e \<in> set es \<Longrightarrow> nxt h' e = nxt h e) \<Longrightarrow> walk nxt h' v es = walk nxt h v es"
  by (induction es arbitrary: v) (auto split: sum.splits)

lemma walk_drop: "walk nxt h v (xs @ e # es) \<Longrightarrow> walk nxt h (Some e) (e # es)"
  by (induction xs arbitrary: v) (auto split: sum.splits)

text \<open>A plain loop whose body leaves the links of the elements alone visits them in order.\<close>

lemma each_visits:
  assumes "walk nxt h v es"
    and "\<And>h h' r e a. body e h = Inr (h', r) \<Longrightarrow> e \<in> set es \<Longrightarrow> a \<in> set es \<Longrightarrow> nxt h' a = nxt h a"
  shows "each nxt body h v = Some (visit body h es)"
  using assms
proof (induction es arbitrary: h v)
  case (Cons e es)
  obtain n where n: "v = Some e" "nxt h e = Inr n" "walk nxt h n es"
    using Cons.prems(1) by (auto split: sum.splits)
  have "each nxt body h' n = Some (visit body h' es)" if "body e h = Inr (h', None)" for h'
  proof (rule Cons.IH)
    have "nxt h' a = nxt h a" if "a \<in> set es" for a
      using Cons.prems(2) [OF \<open>body e h = Inr (h', None)\<close>, of a] that by simp
    then show "walk nxt h' n es" using n(3) walk_cong [of es nxt h' h n] by blast
  qed (use Cons.prems(2) in auto)
  moreover have "nxt h' e = Inr n" if "body e h = Inr (h', None)" for h'
    using Cons.prems(2) [OF that] n(2) by simp
  ultimately show ?case
    using n by (subst each.simps) (auto split: sum.splits option.splits)
qed (simp add: each.simps)

text \<open>A safe loop lets the body do whatever it likes with the element itself.\<close>

lemma each_safe_visits:
  assumes "walk nxt h v es" and "distinct es"
    and "\<And>h h' r e a. body e h = Inr (h', r) \<Longrightarrow> e \<in> set es \<Longrightarrow> a \<in> set es \<Longrightarrow> a \<noteq> e \<Longrightarrow> nxt h' a = nxt h a"
  shows "each_safe nxt body h v = Some (visit body h es)"
  using assms
proof (induction es arbitrary: h v)
  case (Cons e es)
  obtain n where n: "v = Some e" "nxt h e = Inr n" "walk nxt h n es"
    using Cons.prems(1) by (auto split: sum.splits)
  have "each_safe nxt body h' n = Some (visit body h' es)" if "body e h = Inr (h', None)" for h'
  proof (rule Cons.IH)
    have "nxt h' a = nxt h a" if "a \<in> set es" for a
      using Cons.prems(3) [OF \<open>body e h = Inr (h', None)\<close>, of a] Cons.prems(2) that by auto
    then show "walk nxt h' n es" using n(3) walk_cong [of es nxt h' h n] by blast
  qed (use Cons.prems(2,3) in auto)
  then show ?case
    using n by (subst each_safe.simps) (auto split: sum.splits option.splits)
qed (simp add: each_safe.simps)

text \<open>The pointers a traversal meets are those of the list: it is unique.\<close>

lemma walk_unique: "walk nxt h v es \<Longrightarrow> walk nxt h v es' \<Longrightarrow> es = es'"
  by (induction es arbitrary: v es') (case_tac es'; auto split: sum.splits)+

section \<open>The search of the REMOVE macros\<close>

text \<open>
  \<open>while (NEXT(curelm) != elm) curelm = NEXT(curelm)\<close>: nothing stops the loop at the end of
  the list, where the next access goes through a null pointer.
\<close>

partial_function (option) find_before ::
  "('h \<Rightarrow> nat \<Rightarrow> fault + nat option) \<Rightarrow> 'h \<Rightarrow> nat \<Rightarrow> nat option \<Rightarrow> nat run"
where
  "find_before nxt h elm curelm =
     (case curelm of
        None \<Rightarrow> fail NullDeref
      | Some c \<Rightarrow> (case nxt h c of
          Inl f \<Rightarrow> fail f
        | Inr n \<Rightarrow> (if n = Some elm then return c else find_before nxt h elm n)))"

lemma find_before_finds:
  "walk nxt h v (xs @ b # e # ys) \<Longrightarrow> distinct (xs @ b # e # ys) \<Longrightarrow> find_before nxt h e v = return b"
proof (induction xs arbitrary: v)
  case (Cons x xs)
  obtain n where n: "v = Some x" "nxt h x = Inr n" "walk nxt h n (xs @ b # e # ys)"
    using Cons.prems(1) by (auto split: sum.splits)
  have "n \<noteq> Some e" using n(3) Cons.prems(2) by (cases xs) auto
  then show ?case using n Cons.IH [OF n(3)] Cons.prems(2) by (subst find_before.simps) simp
qed (subst find_before.simps, auto split: sum.splits)

lemma find_before_absent:
  "walk nxt h v es \<Longrightarrow> e \<notin> set es \<Longrightarrow> find_before nxt h e v = fail NullDeref"
proof (induction es arbitrary: v)
  case (Cons x es)
  obtain n where n: "v = Some x" "nxt h x = Inr n" "walk nxt h n es"
    using Cons.prems(1) by (auto split: sum.splits)
  have "n \<noteq> Some e" using n(3) Cons.prems(2) by (cases es) auto
  then show ?case using n Cons.IH [OF n(3)] Cons.prems(2) by (subst find_before.simps) simp
qed (simp add: find_before.simps)

section \<open>The contract of a traversable family\<close>

text \<open>
  What the loops rely on: the links of a representation lead from the first element of every
  list through the list. Each family of macros provides it for its FIRST and NEXT, and the
  tail queues also for their LAST and PREV.
\<close>

locale linked =
  fixes represents :: "'h \<Rightarrow> nat list list \<Rightarrow> bool"
    and first_of :: "'h \<Rightarrow> nat \<Rightarrow> fault + nat option"
    and nxt :: "'h \<Rightarrow> nat \<Rightarrow> fault + nat option"
  assumes leads_through:
      "represents h LL \<Longrightarrow> i < length LL \<Longrightarrow> \<exists>v. first_of h i = Inr v \<and> walk nxt h v (LL ! i)"
    and no_repeats: "represents h LL \<Longrightarrow> i < length LL \<Longrightarrow> distinct (LL ! i)"
begin

lemma first_nth:
  assumes "represents h LL" and "i < length LL"
  shows "first_of h i = Inr (if LL ! i = [] then None else Some (hd (LL ! i)))"
  using leads_through [OF assms] by (cases "LL ! i") auto

lemma walks:
  assumes "represents h LL" and "i < length LL"
  shows "walk nxt h (if LL ! i = [] then None else Some (hd (LL ! i))) (LL ! i)"
  using leads_through [OF assms] first_nth [OF assms] by auto

lemma walks_from:
  assumes "represents h LL" and "i < length LL" and "LL ! i = xs @ e # ys"
  shows "walk nxt h (Some e) (e # ys)"
  using walks [OF assms(1,2)] walk_drop [of nxt h _ xs e ys] unfolding assms(3) by blast

text \<open>A loop whose body keeps the links visits the list, or what follows \<open>var\<close>.\<close>

lemma visits:
  assumes "represents h LL" and "i < length LL"
    and "\<And>h h' r e. body e h = Inr (h', r) \<Longrightarrow> nxt h' = nxt h"
  shows "loop_from (first_of h i) (each nxt body h) = Some (visit body h (LL ! i))"
proof -
  obtain v where "first_of h i = Inr v" "walk nxt h v (LL ! i)" using leads_through [OF assms(1,2)] by blast
  then show ?thesis using each_visits [of nxt h v "LL ! i" body] assms(3) by fastforce
qed

lemma visits_from:
  assumes "represents h LL" and "i < length LL" and "LL ! i = xs @ e # ys"
    and "\<And>h h' r e. body e h = Inr (h', r) \<Longrightarrow> nxt h' = nxt h"
  shows "loop_from (start_at (Some e) (first_of h i)) (each nxt body h) = Some (visit body h (e # ys))"
    and "loop_from (start_at None (first_of h i)) (each nxt body h) = Some (visit body h (LL ! i))"
proof -
  have "each nxt body h (Some e) = Some (visit body h (e # ys))"
    by (rule each_visits [OF walks_from [OF assms(1-3)]]) (simp add: assms(4))
  then show "loop_from (start_at (Some e) (first_of h i)) (each nxt body h) = Some (visit body h (e # ys))"
    by (simp add: start_at_def)
  show "loop_from (start_at None (first_of h i)) (each nxt body h) = Some (visit body h (LL ! i))"
    using visits [OF assms(1,2,4)] by (simp add: start_at_def)
qed

text \<open>A safe loop does so if its body keeps the links of the other elements.\<close>

lemma visits_safe:
  assumes "represents h LL" and "i < length LL"
    and "\<And>h h' r e a. body e h = Inr (h', r) \<Longrightarrow> a \<noteq> e \<Longrightarrow> nxt h' a = nxt h a"
  shows "loop_from (first_of h i) (each_safe nxt body h) = Some (visit body h (LL ! i))"
proof -
  obtain v where "first_of h i = Inr v" "walk nxt h v (LL ! i)" using leads_through [OF assms(1,2)] by blast
  then show ?thesis
    using each_safe_visits [of nxt h v "LL ! i" body] no_repeats [OF assms(1,2)] assms(3) by fastforce
qed

lemma visits_from_safe:
  assumes "represents h LL" and "i < length LL" and "LL ! i = xs @ e # ys"
    and "\<And>h h' r e a. body e h = Inr (h', r) \<Longrightarrow> a \<noteq> e \<Longrightarrow> nxt h' a = nxt h a"
  shows "loop_from (start_at (Some e) (first_of h i)) (each_safe nxt body h) = Some (visit body h (e # ys))"
    and "loop_from (start_at None (first_of h i)) (each_safe nxt body h) = Some (visit body h (LL ! i))"
proof -
  have "each_safe nxt body h (Some e) = Some (visit body h (e # ys))"
    by (rule each_safe_visits [OF walks_from [OF assms(1-3)]])
      (use no_repeats [OF assms(1,2)] assms(3,4) in auto)
  then show "loop_from (start_at (Some e) (first_of h i)) (each_safe nxt body h) = Some (visit body h (e # ys))"
    by (simp add: start_at_def)
  show "loop_from (start_at None (first_of h i)) (each_safe nxt body h) = Some (visit body h (LL ! i))"
    using visits_safe [OF assms(1,2,4)] by (simp add: start_at_def)
qed

text \<open>The search finds the element before the one to remove, or runs off the list.\<close>

lemma search_present:
  assumes "represents h LL" and "i < length LL" and "LL ! i = xs @ b # e # ys"
  shows "\<exists>v. first_of h i = Inr v \<and> v \<noteq> Some e \<and> find_before nxt h e v = return b"
proof -
  obtain v where v: "first_of h i = Inr v" "walk nxt h v (xs @ b # e # ys)"
    using leads_through [OF assms(1,2)] assms(3) by auto
  have d: "distinct (xs @ b # e # ys)" using no_repeats [OF assms(1,2)] assms(3) by simp
  then have "v \<noteq> Some e" using v(2) by (cases xs) auto
  then show ?thesis using find_before_finds [OF v(2) d] v(1) by blast
qed

lemma search_absent:
  assumes "represents h LL" and "i < length LL" and "e \<notin> set (LL ! i)"
  shows "\<exists>v. first_of h i = Inr v \<and> v \<noteq> Some e \<and> find_before nxt h e v = fail NullDeref"
proof -
  obtain v where v: "first_of h i = Inr v" "walk nxt h v (LL ! i)" using leads_through [OF assms(1,2)] by blast
  then have "v \<noteq> Some e" using assms(3) by (cases "LL ! i") auto
  then show ?thesis using find_before_absent [OF v(2) assms(3)] v(1) by blast
qed

end

end
