(* ===== verification/BsdList.thy ===== *)
theory BsdList
  imports QueueLoops
begin

text \<open>
  The doubly linked lists of \<open>lib_convert/bsd_queue.h\<close>: an array of list heads and a heap of
  elements, each element with a forward pointer and the address of the pointer that points
  to it. The macros are functions that fault on a dead element, a missing head or an
  indeterminate link. A representation relation connects them with plain lists, one locale
  states what users of the lists rely on, and it is interpreted on the macros.
\<close>

section \<open>Elements, heads and links\<close>

text \<open>
  \<open>le_prev\<close> is the address of a \<open>le_next\<close> field or of a head. An element fresh from \<open>malloc\<close>
  has indeterminate links.
\<close>

datatype link = Nowhere | HeadOf nat | NextOf nat

record 'a elem =
  le_next :: "nat option"
  le_prev :: link
  content :: 'a            \<comment> \<open>the other members of the struct\<close>

record 'a lheap =
  heads :: "nat option list"
  elems :: "nat \<rightharpoonup> 'a elem"

definition get_elem :: "'a lheap \<Rightarrow> nat \<Rightarrow> fault + 'a elem" where
  "get_elem h e = (case elems h e of None \<Rightarrow> Inl DeadBlock | Some x \<Rightarrow> Inr x)"

definition set_next :: "nat \<Rightarrow> nat option \<Rightarrow> 'a lheap \<Rightarrow> fault + 'a lheap" where
  "set_next e v h =
     bindE (get_elem h e) (\<lambda>x. Inr (h\<lparr>elems := (elems h)(e \<mapsto> x\<lparr>le_next := v\<rparr>)\<rparr>))"

definition set_prev :: "nat \<Rightarrow> link \<Rightarrow> 'a lheap \<Rightarrow> fault + 'a lheap" where
  "set_prev e l h =
     bindE (get_elem h e) (\<lambda>x. Inr (h\<lparr>elems := (elems h)(e \<mapsto> x\<lparr>le_prev := l\<rparr>)\<rparr>))"

definition set_first :: "nat \<Rightarrow> nat option \<Rightarrow> 'a lheap \<Rightarrow> fault + 'a lheap" where
  "set_first i v h =
     (if i < length (heads h) then Inr (h\<lparr>heads := (heads h)[i := v]\<rparr>) else Inl OutOfBounds)"

text \<open>A store through \<open>le_prev\<close>.\<close>

fun store_link :: "link \<Rightarrow> nat option \<Rightarrow> 'a lheap \<Rightarrow> fault + 'a lheap" where
  "store_link Nowhere v h = Inl WildPointer"
| "store_link (HeadOf i) v h = set_first i v h"
| "store_link (NextOf e) v h = set_next e v h"

section \<open>The macros\<close>

definition LIST_FIRST :: "'a lheap \<Rightarrow> nat \<Rightarrow> fault + nat option" where
  "LIST_FIRST h i = (if i < length (heads h) then Inr (heads h ! i) else Inl OutOfBounds)"

definition LIST_EMPTY :: "'a lheap \<Rightarrow> nat \<Rightarrow> fault + bool" where
  "LIST_EMPTY h i = bindE (LIST_FIRST h i) (\<lambda>first. Inr (first = None))"

definition LIST_NEXT :: "'a lheap \<Rightarrow> nat \<Rightarrow> fault + nat option" where
  "LIST_NEXT h e = bindE (get_elem h e) (\<lambda>x. Inr (le_next x))"

definition LIST_PREV :: "'a lheap \<Rightarrow> nat \<Rightarrow> nat \<Rightarrow> fault + nat option" where
  "LIST_PREV h e i =
     bindE (get_elem h e) (\<lambda>x.
       if le_prev x = HeadOf i then Inr None
       else case le_prev x of NextOf p \<Rightarrow> Inr (Some p) | _ \<Rightarrow> Inl WildPointer)"

definition LIST_INIT :: "nat \<Rightarrow> 'a lheap \<Rightarrow> fault + 'a lheap" where
  "LIST_INIT i h = set_first i None h"

definition LIST_INSERT_HEAD :: "nat \<Rightarrow> nat \<Rightarrow> 'a lheap \<Rightarrow> fault + 'a lheap" where
  "LIST_INSERT_HEAD i elm h =
     bindE (LIST_FIRST h i) (\<lambda>first.
     bindE (set_next elm first h) (\<lambda>h.
     bindE (case first of None \<Rightarrow> Inr h | Some f \<Rightarrow> set_prev f (NextOf elm) h) (\<lambda>h.
     bindE (set_first i (Some elm) h) (\<lambda>h.
     set_prev elm (HeadOf i) h))))"

definition LIST_INSERT_AFTER :: "nat \<Rightarrow> nat \<Rightarrow> 'a lheap \<Rightarrow> fault + 'a lheap" where
  "LIST_INSERT_AFTER listelm elm h =
     bindE (LIST_NEXT h listelm) (\<lambda>nxt.
     bindE (set_next elm nxt h) (\<lambda>h.
     bindE (case nxt of None \<Rightarrow> Inr h | Some n \<Rightarrow> set_prev n (NextOf elm) h) (\<lambda>h.
     bindE (set_next listelm (Some elm) h) (\<lambda>h.
     set_prev elm (NextOf listelm) h))))"

definition LIST_INSERT_BEFORE :: "nat \<Rightarrow> nat \<Rightarrow> 'a lheap \<Rightarrow> fault + 'a lheap" where
  "LIST_INSERT_BEFORE listelm elm h =
     bindE (get_elem h listelm) (\<lambda>x.
     bindE (set_prev elm (le_prev x) h) (\<lambda>h.
     bindE (set_next elm (Some listelm) h) (\<lambda>h.
     bindE (store_link (le_prev x) (Some elm) h) (\<lambda>h.
     set_prev listelm (NextOf elm) h))))"

definition LIST_REMOVE :: "nat \<Rightarrow> 'a lheap \<Rightarrow> fault + 'a lheap" where
  "LIST_REMOVE elm h =
     bindE (get_elem h elm) (\<lambda>x.
     bindE (case le_next x of None \<Rightarrow> Inr h | Some n \<Rightarrow> set_prev n (le_prev x) h) (\<lambda>h.
     bindE (LIST_NEXT h elm) (\<lambda>nxt.
     store_link (le_prev x) nxt h)))"

definition LIST_SWAP :: "nat \<Rightarrow> nat \<Rightarrow> 'a lheap \<Rightarrow> fault + 'a lheap" where
  "LIST_SWAP i j h =
     bindE (LIST_FIRST h i) (\<lambda>swap_tmp.
     bindE (LIST_FIRST h j) (\<lambda>other.
     bindE (set_first i other h) (\<lambda>h.
     bindE (set_first j swap_tmp h) (\<lambda>h.
     bindE (LIST_FIRST h i) (\<lambda>f.
     bindE (case f of None \<Rightarrow> Inr h | Some e \<Rightarrow> set_prev e (HeadOf i) h) (\<lambda>h.
     bindE (LIST_FIRST h j) (\<lambda>f.
     case f of None \<Rightarrow> Inr h | Some e \<Rightarrow> set_prev e (HeadOf j) h)))))))"

text \<open>
  \<open>LIST_FOREACH\<close> with a body that looks at the members of one element and may break out of the loop with a
  result. On a cyclic list the loop may run forever: \<open>None\<close>.
\<close>

partial_function (option) foreach_from ::
  "('a \<Rightarrow> 'r option) \<Rightarrow> 'a lheap \<Rightarrow> nat option \<Rightarrow> (fault + (nat \<times> 'r) option) option"
where
  "foreach_from body h var =
     (case var of
        None \<Rightarrow> Some (Inr None)
      | Some e \<Rightarrow> (case get_elem h e of
          Inl f \<Rightarrow> Some (Inl f)
        | Inr x \<Rightarrow> (case body (content x) of
            Some r \<Rightarrow> Some (Inr (Some (e, r)))
          | None \<Rightarrow> foreach_from body h (le_next x))))"

definition LIST_FOREACH ::
  "('a \<Rightarrow> 'r option) \<Rightarrow> 'a lheap \<Rightarrow> nat \<Rightarrow> (fault + (nat \<times> 'r) option) option"
where
  "LIST_FOREACH body h i =
     (case LIST_FIRST h i of Inl f \<Rightarrow> Some (Inl f) | Inr first \<Rightarrow> foreach_from body h first)"

text \<open>The other traversals, with a body that may change the heap.\<close>

definition LIST_FOREACH_FROM ::
  "nat option \<Rightarrow> (nat \<Rightarrow> 'a lheap \<Rightarrow> fault + 'a lheap \<times> 'r option) \<Rightarrow> nat \<Rightarrow> 'a lheap \<Rightarrow> ('a lheap \<times> (nat \<times> 'r) option) run"
where
  "LIST_FOREACH_FROM var body i h =
     loop_from (start_at var (LIST_FIRST h i)) (each LIST_NEXT body h)"

definition LIST_FOREACH_SAFE ::
  "(nat \<Rightarrow> 'a lheap \<Rightarrow> fault + 'a lheap \<times> 'r option) \<Rightarrow> nat \<Rightarrow> 'a lheap \<Rightarrow> ('a lheap \<times> (nat \<times> 'r) option) run"
where
  "LIST_FOREACH_SAFE body i h = loop_from (LIST_FIRST h i) (each_safe LIST_NEXT body h)"

definition LIST_FOREACH_FROM_SAFE ::
  "nat option \<Rightarrow> (nat \<Rightarrow> 'a lheap \<Rightarrow> fault + 'a lheap \<times> 'r option) \<Rightarrow> nat \<Rightarrow> 'a lheap \<Rightarrow> ('a lheap \<times> (nat \<times> 'r) option) run"
where
  "LIST_FOREACH_FROM_SAFE var body i h =
     loop_from (start_at var (LIST_FIRST h i)) (each_safe LIST_NEXT body h)"

section \<open>Segments\<close>

text \<open>
  \<open>seg h l f es v\<close>: starting with the pointer \<open>f\<close> that lies at \<open>l\<close>, the elements \<open>es\<close> are
  linked both ways, and the pointer behind them is \<open>v\<close>. It lies at \<open>end_link l es\<close>.
\<close>

fun seg :: "'a lheap \<Rightarrow> link \<Rightarrow> nat option \<Rightarrow> nat list \<Rightarrow> nat option \<Rightarrow> bool" where
  "seg h l f [] v \<longleftrightarrow> f = v"
| "seg h l f (e # es) v \<longleftrightarrow> f = Some e \<and>
     (case elems h e of None \<Rightarrow> False
      | Some x \<Rightarrow> le_prev x = l \<and> seg h (NextOf e) (le_next x) es v)"

fun end_link :: "link \<Rightarrow> nat list \<Rightarrow> link" where
  "end_link l [] = l"
| "end_link l (e # es) = end_link (NextOf e) es"

lemma end_link_snoc [simp]: "end_link l (es @ [e]) = NextOf e"
  by (induction es arbitrary: l) auto

lemma seg_append:
  "seg h l f (xs @ ys) v \<longleftrightarrow> (\<exists>u. seg h l f xs u \<and> seg h (end_link l xs) u ys v)"
  by (induction xs arbitrary: l f) (auto split: option.splits)

lemma seg_cong:
  "(\<And>e. e \<in> set es \<Longrightarrow> elems h' e = elems h e) \<Longrightarrow> seg h' l f es v = seg h l f es v"
  by (induction es arbitrary: l f) (auto split: option.splits)

lemma seg_frame:
  "seg h l f es v \<Longrightarrow> (\<And>e. e \<in> set es \<Longrightarrow> elems h' e = elems h e) \<Longrightarrow> seg h' l f es v"
  using seg_cong [of es h' h] by blast

lemma seg_elems: "seg h l f es v \<Longrightarrow> e \<in> set es \<Longrightarrow> elems h e \<noteq> None"
  by (induction es arbitrary: l f) (auto split: option.splits)

lemma seg_unique: "seg h l f es None \<Longrightarrow> seg h l f es' None \<Longrightarrow> es = es'"
  by (induction es arbitrary: l f es') (case_tac es'; auto split: option.splits)+

text \<open>Writing the last forward pointer, and the first backward pointer.\<close>

lemma seg_write_end:
  assumes "seg h l f (es @ [e]) v" and "e \<notin> set es"
    and "elems h e = Some x" and "h' = h\<lparr>elems := (elems h)(e \<mapsto> x\<lparr>le_next := w\<rparr>)\<rparr>"
  shows "seg h' l f (es @ [e]) w"
proof -
  have "seg h' l f es (Some e)"
    using assms by (subst seg_cong [of es h' h]) (auto simp: seg_append)
  then show ?thesis using assms by (auto simp: seg_append)
qed

lemma seg_write_start:
  assumes "seg h l f (e # es) v" and "e \<notin> set es"
    and "elems h e = Some x" and "h' = h\<lparr>elems := (elems h)(e \<mapsto> x\<lparr>le_prev := l'\<rparr>)\<rparr>"
  shows "seg h' l' f (e # es) v"
proof -
  have "seg h' (NextOf e) (le_next x) es v = seg h (NextOf e) (le_next x) es v"
    by (rule seg_cong) (use assms in auto)
  then show ?thesis using assms by simp
qed

section \<open>The lists of a heap\<close>

text \<open>
  \<open>rep h LL\<close>: the \<open>i\<close>-th head starts the list \<open>LL ! i\<close>, and no element is on two lists or
  twice on one.
\<close>

definition separate :: "nat list list \<Rightarrow> bool" where
  "separate LL \<longleftrightarrow> (\<forall>i < length LL. distinct (LL ! i)) \<and>
     (\<forall>i < length LL. \<forall>j < length LL. i \<noteq> j \<longrightarrow> set (LL ! i) \<inter> set (LL ! j) = {})"

lemma separate_swap:
  assumes "separate LL" and "i < length LL" and "j < length LL"
  shows "separate (LL[i := LL ! j, j := LL ! i])"
  using assms by (auto simp: separate_def nth_list_update)

definition rep :: "'a lheap \<Rightarrow> nat list list \<Rightarrow> bool" where
  "rep h LL \<longleftrightarrow> length LL = length (heads h) \<and> separate LL \<and>
     (\<forall>i < length LL. seg h (HeadOf i) (heads h ! i) (LL ! i) None)"

definition members :: "nat list list \<Rightarrow> nat set" where
  "members LL = set (concat LL)"

lemma members_iff: "e \<in> members LL \<longleftrightarrow> (\<exists>i < length LL. e \<in> set (LL ! i))"
  unfolding members_def set_concat UN_iff by (metis in_set_conv_nth)

lemma membersI: "i < length LL \<Longrightarrow> e \<in> set (LL ! i) \<Longrightarrow> e \<in> members LL"
  by (auto simp: members_iff)

lemma rep_seg: "rep h LL \<Longrightarrow> i < length LL \<Longrightarrow> seg h (HeadOf i) (heads h ! i) (LL ! i) None"
  by (simp add: rep_def)

lemma rep_elems: "rep h LL \<Longrightarrow> e \<in> members LL \<Longrightarrow> elems h e \<noteq> None"
  unfolding members_iff by (blast dest: rep_seg seg_elems)

lemma rep_frame:
  assumes "rep h LL" and "heads h' = heads h" and "\<And>e. e \<in> members LL \<Longrightarrow> elems h' e = elems h e"
  shows "rep h' LL"
  unfolding rep_def
proof (intro conjI allI impI)
  fix i assume i: "i < length LL"
  have "seg h (HeadOf i) (heads h ! i) (LL ! i) None" using rep_seg [OF assms(1) i] .
  then have "seg h' (HeadOf i) (heads h ! i) (LL ! i) None"
    by (rule seg_frame) (use assms(3) membersI [OF i] in blast)
  then show "seg h' (HeadOf i) (heads h' ! i) (LL ! i) None" by (simp add: assms(2))
qed (use assms(1,2) in \<open>simp_all add: rep_def\<close>)

lemma members_UN: "members LL = (\<Union>i < length LL. set (LL ! i))"
  by (auto simp: members_iff)

lemma rep_unique: "rep h LL \<Longrightarrow> rep h LL' \<Longrightarrow> LL = LL'"
  by (rule nth_equalityI) (metis rep_def, metis rep_def seg_unique)

lemma rep_distinct: "rep h LL \<Longrightarrow> i < length LL \<Longrightarrow> distinct (LL ! i)"
  by (simp add: rep_def separate_def)

lemma rep_other: "rep h LL \<Longrightarrow> i < length LL \<Longrightarrow> j < length LL \<Longrightarrow> i \<noteq> j \<Longrightarrow> e \<in> set (LL ! i) \<Longrightarrow> e \<notin> set (LL ! j)"
  unfolding rep_def separate_def by blast

text \<open>Changing one list only.\<close>

lemma rep_update:
  assumes "rep h LL" and "i < length LL" and "length (heads h') = length (heads h)"
    and heads: "\<And>j. j \<noteq> i \<Longrightarrow> heads h' ! j = heads h ! j"
    and elems: "\<And>e j. j < length LL \<Longrightarrow> j \<noteq> i \<Longrightarrow> e \<in> set (LL ! j) \<Longrightarrow> elems h' e = elems h e"
    and new: "seg h' (HeadOf i) (heads h' ! i) es None" "distinct es"
    and apart: "\<And>j. j < length LL \<Longrightarrow> j \<noteq> i \<Longrightarrow> set es \<inter> set (LL ! j) = {}"
  shows "rep h' (LL[i := es])"
proof -
  have "seg h' (HeadOf j) (heads h' ! j) (LL[i := es] ! j) None" if "j < length LL" for j
  proof (cases "j = i")
    case False
    then show ?thesis
      using rep_seg [OF assms(1) that] heads seg_cong [of "LL ! j" h' h] elems that by simp
  qed (use new assms(2) in simp)
  moreover have "separate (LL[i := es])"
    using assms(1,2) new(2) apart by (auto simp: rep_def separate_def nth_list_update)
  ultimately show ?thesis using assms(1,3) by (simp add: rep_def)
qed

text \<open>The other members of the structs are never touched.\<close>

definition keeps :: "'a lheap \<Rightarrow> 'a lheap \<Rightarrow> bool" where
  "keeps h h' \<longleftrightarrow> length (heads h') = length (heads h) \<and>
     (\<forall>a. map_option content (elems h' a) = map_option content (elems h a))"

lemma keeps_trans: "keeps h h' \<Longrightarrow> keeps h' h'' \<Longrightarrow> keeps h h''"
  by (simp add: keeps_def)

lemma keeps_refl [simp]: "keeps h h"
  by (simp add: keeps_def)

lemma keeps_upd:
  "elems h e = Some x \<Longrightarrow> content y = content x \<Longrightarrow> keeps h (h\<lparr>elems := (elems h)(e \<mapsto> y)\<rparr>)"
  "keeps h (h\<lparr>heads := (heads h)[i := v]\<rparr>)"
  by (auto simp: keeps_def)

text \<open>Redirecting the backward pointer of whatever follows.\<close>

definition fix_prev :: "nat option \<Rightarrow> link \<Rightarrow> 'a lheap \<Rightarrow> fault + 'a lheap" where
  "fix_prev v l h = (case v of None \<Rightarrow> Inr h | Some e \<Rightarrow> set_prev e l h)"

lemma fix_prev_seg:
  assumes "seg h l f es None" and "distinct es"
  obtains h' where "fix_prev f l' h = Inr h'" "seg h' l' f es None" "heads h' = heads h"
    "\<And>a. a \<notin> set es \<Longrightarrow> elems h' a = elems h a" "keeps h h'"
proof (cases es)
  case Nil
  then show ?thesis using that [of h] assms by (simp add: fix_prev_def)
next
  case (Cons e es')
  then obtain x where x: "f = Some e" "elems h e = Some x"
    using assms by (auto split: option.splits)
  let ?h = "h\<lparr>elems := (elems h)(e \<mapsto> x\<lparr>le_prev := l'\<rparr>)\<rparr>"
  have "seg ?h l' f es None"
    using seg_write_start [of h l f e es' None x ?h l'] assms x Cons by simp
  then show ?thesis using that [of ?h] x Cons keeps_upd(1) [OF x(2)]
    by (simp add: fix_prev_def set_prev_def get_elem_def)
qed

text \<open>Storing through the link behind the first elements of a list.\<close>

lemma store_end_link:
  assumes "seg h (HeadOf i) (heads h ! i) es v" and "distinct es" and "i < length (heads h)"
  obtains h' where "store_link (end_link (HeadOf i) es) w h = Inr h'"
    "seg h' (HeadOf i) (heads h' ! i) es w" "\<And>j. j \<noteq> i \<Longrightarrow> heads h' ! j = heads h ! j"
    "\<And>a. a \<notin> set es \<Longrightarrow> elems h' a = elems h a" "keeps h h'"
proof (cases es rule: rev_cases)
  case Nil
  then show ?thesis
    using that [of "h\<lparr>heads := (heads h)[i := w]\<rparr>"] assms keeps_upd(2) [of h i w]
    by (simp add: set_first_def)
next
  case (snoc es' e)
  then obtain x where x: "elems h e = Some x"
    using assms by (auto simp: seg_append split: option.splits)
  let ?h = "h\<lparr>elems := (elems h)(e \<mapsto> x\<lparr>le_next := w\<rparr>)\<rparr>"
  have "seg ?h (HeadOf i) (heads h ! i) es w"
    using seg_write_end [of h _ _ es' e v x ?h w] assms x snoc by simp
  then show ?thesis using that [of ?h] x snoc keeps_upd(1) [OF x]
    by (simp add: set_next_def get_elem_def)
qed


section \<open>The macros on lists\<close>

lemma LIST_REMOVE_split:
  assumes r: "rep h LL" and i: "i < length LL" and es: "LL ! i = xs @ e # ys"
  shows "\<exists>h'. LIST_REMOVE e h = Inr h' \<and> rep h' (LL[i := xs @ ys]) \<and> keeps h h'"
proof -
  have d: "distinct (xs @ e # ys)" using rep_distinct [OF r i] es by simp
  have il: "i < length (heads h)" using r i by (simp add: rep_def)
  obtain x where x: "elems h e = Some x" "le_prev x = end_link (HeadOf i) xs"
      and sx: "seg h (HeadOf i) (heads h ! i) xs (Some e)" and sy: "seg h (NextOf e) (le_next x) ys None"
    using rep_seg [OF r i] unfolding es by (auto simp: seg_append split: option.splits)
  obtain h1 where h1: "fix_prev (le_next x) (le_prev x) h = Inr h1"
      "seg h1 (le_prev x) (le_next x) ys None" "heads h1 = heads h"
      "\<And>a. a \<notin> set ys \<Longrightarrow> elems h1 a = elems h a" "keeps h h1"
    using fix_prev_seg [OF sy, of "le_prev x"] d by auto
  have "seg h1 (HeadOf i) (heads h1 ! i) xs (Some e)"
    using sx h1(3,4) d by (subst seg_cong [of xs h1 h]) auto
  then obtain h2 where h2: "store_link (le_prev x) (le_next x) h1 = Inr h2"
      "seg h2 (HeadOf i) (heads h2 ! i) xs (le_next x)" "\<And>j. j \<noteq> i \<Longrightarrow> heads h2 ! j = heads h1 ! j"
      "\<And>a. a \<notin> set xs \<Longrightarrow> elems h2 a = elems h1 a" "keeps h1 h2"
    using store_end_link [of h1 i xs "Some e" "le_next x"] d il h1(3) x(2) by auto
  have "elems h1 e = Some x" using h1(4) d x(1) by simp
  then have "LIST_REMOVE e h = Inr h2"
    using x(1) h1(1) h2(1) by (simp add: LIST_REMOVE_def get_elem_def LIST_NEXT_def fix_prev_def)
  moreover have "rep h2 (LL[i := xs @ ys])"
  proof (rule rep_update [OF r i])
    show "seg h2 (HeadOf i) (heads h2 ! i) (xs @ ys) None"
      using h2(2) x(2) seg_frame [OF h1(2), of h2] h2(4) d by (fastforce simp: seg_append)
    show "elems h2 a = elems h a" if "j < length LL" "j \<noteq> i" "a \<in> set (LL ! j)" for a j
      using rep_other [OF r that(1) i that(2,3)] es h2(4) h1(4) by simp
    show "set (xs @ ys) \<inter> set (LL ! j) = {}" if "j < length LL" "j \<noteq> i" for j
      using rep_other [OF r that(1) i that(2)] es by auto
    show "length (heads h2) = length (heads h)" using h1(5) h2(5) by (simp add: keeps_def)
  qed (use d h1(3) h2(3) in auto)
  ultimately show ?thesis using keeps_trans [OF h1(5) h2(5)] by blast
qed

lemma LIST_REMOVE_rep:
  assumes "rep h LL" and "i < length LL" and "e \<in> set (LL ! i)"
  shows "\<exists>h'. LIST_REMOVE e h = Inr h' \<and> rep h' (LL[i := remove1 e (LL ! i)]) \<and> keeps h h'"
proof -
  obtain xs ys where es: "LL ! i = xs @ e # ys" using assms(3) by (meson split_list)
  then have "remove1 e (LL ! i) = xs @ ys"
    using rep_distinct [OF assms(1,2)] by (simp add: remove1_append)
  then show ?thesis using LIST_REMOVE_split [OF assms(1,2) es] by simp
qed

text \<open>Linking an element that is on no list behind the first elements of one.\<close>

lemma LIST_INSERT_HEAD_rep:
  assumes r: "rep h LL" and i: "i < length LL" and e: "e \<notin> members LL" "elems h e = Some x"
  shows "\<exists>h'. LIST_INSERT_HEAD i e h = Inr h' \<and> rep h' (LL[i := e # LL ! i]) \<and> keeps h h'"
proof -
  have il: "i < length (heads h)" using r i by (simp add: rep_def)
  have fresh: "e \<notin> set (LL ! j)" if "j < length LL" for j using e(1) that by (auto simp: members_iff)
  let ?h1 = "h\<lparr>elems := (elems h)(e \<mapsto> x\<lparr>le_next := heads h ! i\<rparr>)\<rparr>"
  have "seg ?h1 (HeadOf i) (heads h ! i) (LL ! i) None"
    by (rule seg_frame [OF rep_seg [OF r i]]) (use fresh [OF i] in auto)
  from fix_prev_seg [OF this rep_distinct [OF r i]]
  obtain h2 where h2: "fix_prev (heads h ! i) (NextOf e) ?h1 = Inr h2"
      "seg h2 (NextOf e) (heads h ! i) (LL ! i) None" "heads h2 = heads ?h1"
      "\<And>a. a \<notin> set (LL ! i) \<Longrightarrow> elems h2 a = elems ?h1 a" "keeps ?h1 h2"
    by blast
  let ?h3 = "h2\<lparr>heads := (heads h2)[i := Some e]\<rparr>"
  let ?x = "x\<lparr>le_next := heads h ! i, le_prev := HeadOf i\<rparr>"
  let ?h4 = "?h3\<lparr>elems := (elems ?h3)(e \<mapsto> ?x)\<rparr>"
  have e2: "elems h2 e = Some (x\<lparr>le_next := heads h ! i\<rparr>)" using h2(4) fresh [OF i] by simp
  have run: "LIST_INSERT_HEAD i e h = Inr ?h4"
    using il e(2) h2(1,3) e2
    by (simp add: LIST_INSERT_HEAD_def LIST_FIRST_def set_next_def set_prev_def get_elem_def fix_prev_def set_first_def)
  have k: "keeps h ?h4"
    using keeps_upd(1) [OF e(2), of "x\<lparr>le_next := heads h ! i\<rparr>"] h2(5) e2 e(2) by (simp add: keeps_def)
  have s: "seg ?h4 (NextOf e) (heads h ! i) (LL ! i) None"
    by (rule seg_frame [OF h2(2)]) (use fresh [OF i] in auto)
  have "rep ?h4 (LL[i := e # LL ! i])"
  proof (rule rep_update [OF r i])
    show "seg ?h4 (HeadOf i) (heads ?h4 ! i) (e # LL ! i) None" using s il h2(3) by simp
    show "distinct (e # LL ! i)" using rep_distinct [OF r i] fresh [OF i] by simp
    show "elems ?h4 a = elems h a" if "j < length LL" "j \<noteq> i" "a \<in> set (LL ! j)" for a j
      using rep_other [OF r that(1) i that(2,3)] h2(4) fresh [OF that(1)] that(3) by auto
    show "set (e # LL ! i) \<inter> set (LL ! j) = {}" if "j < length LL" "j \<noteq> i" for j
      using rep_other [OF r that(1) i that(2)] fresh [OF that(1)] by auto
  qed (use h2(3) in auto)
  then show ?thesis using run k by blast
qed


lemma LIST_INSERT_AFTER_rep:
  assumes r: "rep h LL" and i: "i < length LL" and es: "LL ! i = xs @ b # ys"
    and e: "e \<notin> members LL" "elems h e = Some x"
  shows "\<exists>h'. LIST_INSERT_AFTER b e h = Inr h' \<and> rep h' (LL[i := xs @ b # e # ys]) \<and> keeps h h'"
proof -
  have d: "distinct (xs @ b # ys)" using rep_distinct [OF r i] es by simp
  have fresh: "e \<notin> set (LL ! j)" if "j < length LL" for j using e(1) that by (auto simp: members_iff)
  then have f: "e \<notin> set xs" "e \<noteq> b" "e \<notin> set ys" using i es by fastforce+
  obtain y where y: "elems h b = Some y" "seg h (NextOf b) (le_next y) ys None"
      and sx: "seg h (HeadOf i) (heads h ! i) (xs @ [b]) (le_next y)"
    using rep_seg [OF r i] unfolding es by (auto simp: seg_append split: option.splits)
  let ?x = "x\<lparr>le_next := le_next y\<rparr>"
  let ?h1 = "h\<lparr>elems := (elems h)(e \<mapsto> ?x)\<rparr>"
  have "seg ?h1 (NextOf b) (le_next y) ys None" by (rule seg_frame [OF y(2)]) (use f in auto)
  from fix_prev_seg [OF this] d
  obtain h2 where h2: "fix_prev (le_next y) (NextOf e) ?h1 = Inr h2"
      "seg h2 (NextOf e) (le_next y) ys None" "heads h2 = heads ?h1"
      "\<And>a. a \<notin> set ys \<Longrightarrow> elems h2 a = elems ?h1 a" "keeps ?h1 h2"
    by auto
  let ?h3 = "h2\<lparr>elems := (elems h2)(b \<mapsto> y\<lparr>le_next := Some e\<rparr>)\<rparr>"
  let ?h4 = "?h3\<lparr>elems := (elems ?h3)(e \<mapsto> ?x\<lparr>le_prev := NextOf b\<rparr>)\<rparr>"
  have e2: "elems h2 e = Some ?x" "elems h2 b = Some y" using h2(4) f d y(1) by auto
  have run: "LIST_INSERT_AFTER b e h = Inr ?h4"
    using f e(2) h2(1) e2 y(1)
    by (simp add: LIST_INSERT_AFTER_def LIST_NEXT_def set_next_def set_prev_def get_elem_def fix_prev_def)
  have k: "keeps h ?h4"
    using keeps_upd(1) [OF e(2), of ?x] h2(5) e2 e(2) y(1) by (simp add: keeps_def)
  have "seg h2 (HeadOf i) (heads h2 ! i) (xs @ [b]) (le_next y)"
    unfolding h2(3) by (simp, rule seg_frame [OF sx]) (use h2(4) d f in fastforce)
  then have "seg ?h3 (HeadOf i) (heads h2 ! i) (xs @ [b]) (Some e)"
    using d e2 by (intro seg_write_end [of h2 _ _ xs b "le_next y" y ?h3]) auto
  then have s1: "seg ?h4 (HeadOf i) (heads h2 ! i) (xs @ [b]) (Some e)"
    by (rule seg_frame) (use f in auto)
  have s2: "seg ?h4 (NextOf e) (le_next y) ys None"
    by (rule seg_frame [OF h2(2)]) (use f d in auto)
  have s3: "seg ?h4 (HeadOf i) (heads h2 ! i) ((xs @ [b]) @ e # ys) None"
    unfolding seg_append [of _ _ _ "xs @ [b]"] using s1 s2 by auto
  have "rep ?h4 (LL[i := xs @ b # e # ys])"
  proof (rule rep_update [OF r i])
    show "seg ?h4 (HeadOf i) (heads ?h4 ! i) (xs @ b # e # ys) None" using s3 by simp
    show "distinct (xs @ b # e # ys)" using d f by auto
    show "elems ?h4 a = elems h a" if "j < length LL" "j \<noteq> i" "a \<in> set (LL ! j)" for a j
      using rep_other [OF r that(1) i that(2,3)] es h2(4) fresh [OF that(1)] that(3) by auto
    show "set (xs @ b # e # ys) \<inter> set (LL ! j) = {}" if "j < length LL" "j \<noteq> i" for j
      using rep_other [OF r that(1) i that(2)] es fresh [OF that(1)] by auto
  qed (use h2(3) in auto)
  then show ?thesis using run k by blast
qed


lemma LIST_INSERT_BEFORE_rep:
  assumes r: "rep h LL" and i: "i < length LL" and es: "LL ! i = xs @ b # ys"
    and e: "e \<notin> members LL" "elems h e = Some x"
  shows "\<exists>h'. LIST_INSERT_BEFORE b e h = Inr h' \<and> rep h' (LL[i := xs @ e # b # ys]) \<and> keeps h h'"
proof -
  have d: "distinct (xs @ b # ys)" using rep_distinct [OF r i] es by simp
  have il: "i < length (heads h)" using r i by (simp add: rep_def)
  have fresh: "e \<notin> set (LL ! j)" if "j < length LL" for j using e(1) that by (auto simp: members_iff)
  then have f: "e \<notin> set xs" "e \<noteq> b" "e \<notin> set ys" using i es by fastforce+
  obtain y where y: "elems h b = Some y" "seg h (NextOf b) (le_next y) ys None"
      "le_prev y = end_link (HeadOf i) xs" and sx: "seg h (HeadOf i) (heads h ! i) xs (Some b)"
    using rep_seg [OF r i] unfolding es by (auto simp: seg_append split: option.splits)
  let ?x = "x\<lparr>le_prev := le_prev y, le_next := Some b\<rparr>"
  let ?h1 = "h\<lparr>elems := (elems h)(e \<mapsto> ?x)\<rparr>"
  have "seg ?h1 (HeadOf i) (heads ?h1 ! i) xs (Some b)"
    by (simp, rule seg_frame [OF sx]) (use f in auto)
  from store_end_link [OF this, where w = "Some e"] d il
  obtain h2 where h2: "store_link (le_prev y) (Some e) ?h1 = Inr h2"
      "seg h2 (HeadOf i) (heads h2 ! i) xs (Some e)" "\<And>j. j \<noteq> i \<Longrightarrow> heads h2 ! j = heads ?h1 ! j"
      "\<And>a. a \<notin> set xs \<Longrightarrow> elems h2 a = elems ?h1 a" "keeps ?h1 h2"
    unfolding y(3) by auto
  let ?h3 = "h2\<lparr>elems := (elems h2)(b \<mapsto> y\<lparr>le_prev := NextOf e\<rparr>)\<rparr>"
  have e2: "elems h2 e = Some ?x" "elems h2 b = Some y" using h2(4) f d y(1) by auto
  have "elems (h\<lparr>elems := (elems h)(e \<mapsto> x\<lparr>le_prev := le_prev y\<rparr>)\<rparr>) e = Some (x\<lparr>le_prev := le_prev y\<rparr>)"
    by simp
  then have run: "LIST_INSERT_BEFORE b e h = Inr ?h3"
    using f e(2) h2(1) e2 y(1)
    by (simp add: LIST_INSERT_BEFORE_def set_next_def set_prev_def get_elem_def)
  have k: "keeps h ?h3"
    using keeps_upd(1) [OF e(2), of ?x] h2(5) e2 e(2) y(1) by (simp add: keeps_def)
  have s1: "seg ?h3 (HeadOf i) (heads h2 ! i) xs (Some e)"
    by (rule seg_frame [OF h2(2)]) (use d in auto)
  have s2: "seg ?h3 (NextOf b) (le_next y) ys None"
  proof (rule seg_frame [OF y(2)])
    fix a assume "a \<in> set ys"
    then have "a \<notin> set xs" "a \<noteq> b" "a \<noteq> e" using d f by auto
    then show "elems ?h3 a = elems h a" using h2(4) by simp
  qed
  have "rep ?h3 (LL[i := xs @ e # b # ys])"
  proof (rule rep_update [OF r i])
    show "seg ?h3 (HeadOf i) (heads ?h3 ! i) (xs @ e # b # ys) None"
      using s1 s2 e2 f y(3) by (auto simp: seg_append)
    show "distinct (xs @ e # b # ys)" using d f by auto
    show "elems ?h3 a = elems h a" if "j < length LL" "j \<noteq> i" "a \<in> set (LL ! j)" for a j
      using rep_other [OF r that(1) i that(2,3)] es h2(4) fresh [OF that(1)] that(3) by auto
    show "set (xs @ e # b # ys) \<inter> set (LL ! j) = {}" if "j < length LL" "j \<noteq> i" for j
      using rep_other [OF r that(1) i that(2)] es fresh [OF that(1)] by auto
  qed (use h2(3,5) in \<open>auto simp: keeps_def\<close>)
  then show ?thesis using run k by blast
qed

section \<open>Traversal\<close>

text \<open>The first element of a list that makes the body break.\<close>

fun first_match :: "('a \<Rightarrow> 'r option) \<Rightarrow> (nat \<Rightarrow> 'a option) \<Rightarrow> nat list \<Rightarrow> (nat \<times> 'r) option" where
  "first_match body c [] = None"
| "first_match body c (e # es) =
     (case Option.bind (c e) body of Some r \<Rightarrow> Some (e, r) | None \<Rightarrow> first_match body c es)"

definition cont :: "'a lheap \<Rightarrow> nat \<Rightarrow> 'a option" where
  "cont h e = map_option content (elems h e)"

lemma cont_elems: "elems h e = Some x \<Longrightarrow> cont h e = Some (content x)"
  by (simp add: cont_def)

lemma foreach_seg:
  "seg h l f es None \<Longrightarrow> foreach_from body h f = Some (Inr (first_match body (cont h) es))"
proof (induction es arbitrary: l f)
  case (Cons e es)
  then obtain x where "f = Some e" "elems h e = Some x" "seg h (NextOf e) (le_next x) es None"
    by (auto split: option.splits)
  then show ?case using Cons.IH
    by (subst foreach_from.simps) (auto simp: get_elem_def cont_elems split: option.splits)
qed (simp add: foreach_from.simps)

lemma LIST_FOREACH_rep:
  assumes "rep h LL" and "i < length LL"
  shows "LIST_FOREACH body h i = Some (Inr (first_match body (cont h) (LL ! i)))"
  using foreach_seg [OF rep_seg [OF assms]] assms
  by (simp add: LIST_FOREACH_def LIST_FIRST_def rep_def)

lemma keeps_cont: "keeps h h' \<Longrightarrow> cont h' = cont h"
  by (auto simp: keeps_def cont_def)

lemma LIST_FIRST_rep: "rep h LL \<Longrightarrow> i < length LL \<Longrightarrow> LIST_FIRST h i = Inr (heads h ! i)"
  by (simp add: LIST_FIRST_def rep_def)

lemma seg_walk: "seg h l f es None \<Longrightarrow> walk LIST_NEXT h f es"
  by (induction es arbitrary: l f) (auto simp: LIST_NEXT_def get_elem_def split: option.splits)

interpretation ls: linked rep LIST_FIRST LIST_NEXT
  by unfold_locales (use LIST_FIRST_rep seg_walk rep_seg rep_distinct in blast)+

lemma LIST_SWAP_rep:
  assumes r: "rep h LL" and i: "i < length LL" and j: "j < length LL" and ij: "i \<noteq> j"
  shows "\<exists>h'. LIST_SWAP i j h = Inr h' \<and> rep h' (LL[i := LL ! j, j := LL ! i]) \<and> keeps h h'"
proof -
  have l: "i < length (heads h)" "j < length (heads h)" using r i j by (simp_all add: rep_def)
  let ?h1 = "h\<lparr>heads := (heads h)[i := heads h ! j, j := heads h ! i]\<rparr>"
  have "seg ?h1 (HeadOf j) (heads h ! j) (LL ! j) None" "seg ?h1 (HeadOf i) (heads h ! i) (LL ! i) None"
    using seg_cong [of _ ?h1 h] rep_seg [OF r i] rep_seg [OF r j] by auto
  note s1 = this
  obtain h2 where h2: "fix_prev (heads h ! j) (HeadOf i) ?h1 = Inr h2"
      "seg h2 (HeadOf i) (heads h ! j) (LL ! j) None" "heads h2 = heads ?h1"
      "\<And>a. a \<notin> set (LL ! j) \<Longrightarrow> elems h2 a = elems ?h1 a" "keeps ?h1 h2"
    using fix_prev_seg [OF s1(1) rep_distinct [OF r j]] by blast
  have "seg h2 (HeadOf i) (heads h ! i) (LL ! i) None"
    by (rule seg_frame [OF s1(2)]) (use h2(4) rep_other [OF r i j ij] in blast)
  then obtain h3 where h3: "fix_prev (heads h ! i) (HeadOf j) h2 = Inr h3"
      "seg h3 (HeadOf j) (heads h ! i) (LL ! i) None" "heads h3 = heads h2"
      "\<And>a. a \<notin> set (LL ! i) \<Longrightarrow> elems h3 a = elems h2 a" "keeps h2 h3"
    using fix_prev_seg [OF _ rep_distinct [OF r i]] by blast
  have "LIST_SWAP i j h = Inr h3"
    using l ij h2(1,3) h3(1)
    by (simp add: LIST_SWAP_def LIST_FIRST_def set_first_def fix_prev_def nth_list_update)
  moreover have "keeps h h3"
    using h2(5) h3(5) by (simp add: keeps_def)
  moreover have "rep h3 (LL[i := LL ! j, j := LL ! i])"
    unfolding rep_def
  proof (intro conjI allI impI)
    fix k assume k: "k < length (LL[i := LL ! j, j := LL ! i])"
    have "seg h3 (HeadOf i) (heads h ! j) (LL ! j) None"
      by (rule seg_frame [OF h2(2)]) (use h3(4) rep_other [OF r j i] ij in blast)
    moreover have "seg h3 (HeadOf k) (heads h ! k) (LL ! k) None" if "k \<noteq> i" "k \<noteq> j"
      by (rule seg_frame [OF rep_seg [OF r]])
        (use k that h2(4) h3(4) rep_other [OF r _ i that(1)] rep_other [OF r _ j that(2)] in auto)
    ultimately show "seg h3 (HeadOf k) (heads h3 ! k) (LL[i := LL ! j, j := LL ! i] ! k) None"
      using h3(2,3) h2(3) l i j by (auto simp: nth_list_update)
  qed (use r h2(3) h3(3) separate_swap [OF _ i j] in \<open>simp_all add: rep_def\<close>)
  ultimately show ?thesis by blast
qed

section \<open>The contract of the lists\<close>

text \<open>
  What a user of an array of lists relies on: three operations that follow the lists of a
  representation and leave the members of the elements alone.
\<close>

locale list_array =
  fixes represents :: "'h \<Rightarrow> nat list list \<Rightarrow> bool"
    and contents :: "'h \<Rightarrow> nat \<Rightarrow> 'a option"
    and insert_head :: "nat \<Rightarrow> nat \<Rightarrow> 'h \<Rightarrow> fault + 'h"
    and remove :: "nat \<Rightarrow> 'h \<Rightarrow> fault + 'h"
    and search :: "('a \<Rightarrow> 'r option) \<Rightarrow> 'h \<Rightarrow> nat \<Rightarrow> (fault + (nat \<times> 'r) option) option"
  assumes insert_ok: "represents h LL \<Longrightarrow> i < length LL \<Longrightarrow> e \<notin> members LL \<Longrightarrow> contents h e \<noteq> None \<Longrightarrow>
      \<exists>h'. insert_head i e h = Inr h' \<and> represents h' (LL[i := e # LL ! i]) \<and> contents h' = contents h"
    and remove_ok: "represents h LL \<Longrightarrow> i < length LL \<Longrightarrow> e \<in> set (LL ! i) \<Longrightarrow>
      \<exists>h'. remove e h = Inr h' \<and> represents h' (LL[i := remove1 e (LL ! i)]) \<and> contents h' = contents h"
    and search_ok: "represents h LL \<Longrightarrow> i < length LL \<Longrightarrow>
      search body h i = Some (Inr (first_match body (contents h) (LL ! i)))"
begin

text \<open>An element that was just inserted is found first if the body accepts it.\<close>

lemma search_inserted:
  assumes "represents h LL" and "i < length LL" and "e \<notin> members LL"
    and "contents h e = Some x" and "body x = Some v"
  shows "\<exists>h'. insert_head i e h = Inr h' \<and> search body h' i = Some (Inr (Some (e, v)))"
  using insert_ok [OF assms(1-3)] assms search_ok [where LL = "LL[i := e # LL ! i]" and i = i and body = body]
  by fastforce

text \<open>Removing what was just inserted gives back the lists.\<close>

lemma insert_remove:
  assumes "represents h LL" and "i < length LL" and "e \<notin> members LL" and "contents h e \<noteq> None"
  shows "\<exists>h' h''. insert_head i e h = Inr h' \<and> remove e h' = Inr h'' \<and>
    represents h'' LL \<and> contents h'' = contents h"
proof -
  obtain h' where h': "insert_head i e h = Inr h'" "represents h' (LL[i := e # LL ! i])" "contents h' = contents h"
    using insert_ok [OF assms] by blast
  then show ?thesis using remove_ok [OF h'(2), of i e] assms(2) by auto
qed

end

interpretation lists: list_array rep cont LIST_INSERT_HEAD LIST_REMOVE LIST_FOREACH
proof
  fix h :: "'a lheap" and LL i e
  assume a: "rep h LL" "i < length LL"
  show "\<exists>h'. LIST_INSERT_HEAD i e h = Inr h' \<and> rep h' (LL[i := e # LL ! i]) \<and> cont h' = cont h"
    if "e \<notin> members LL" "cont h e \<noteq> None"
    using LIST_INSERT_HEAD_rep [OF a that(1)] that(2) keeps_cont by (auto simp: cont_def)
  show "\<exists>h'. LIST_REMOVE e h = Inr h' \<and> rep h' (LL[i := remove1 e (LL ! i)]) \<and> cont h' = cont h"
    if "e \<in> set (LL ! i)"
    using LIST_REMOVE_rep [OF a that] keeps_cont by auto
  show "LIST_FOREACH body h i = Some (Inr (first_match body (cont h) (LL ! i)))" for body :: "'a \<Rightarrow> 'r option"
    using a by (rule LIST_FOREACH_rep)
qed


section \<open>Properties\<close>

text \<open>A heap with two heads and three elements, none of them linked.\<close>

definition sample_heap :: "nat lheap" where
  "sample_heap = \<lparr>heads = [None, None],
     elems = (\<lambda>e. if e < 3 then Some \<lparr>le_next = None, le_prev = Nowhere, content = e\<rparr> else None)\<rparr>"

lemma rep_sample: "rep sample_heap [[], []]"
  by (auto simp: rep_def sample_heap_def separate_def less_Suc_eq)

lemma elems_sample: "e < 3 \<Longrightarrow> elems sample_heap e \<noteq> None"
  by (simp add: sample_heap_def)

text \<open>
  \<open>LIST_INSERT_HEAD\<close> puts an element that is on no list in front of one, whatever its
  links held before, and leaves all other lists and the contents of the elements alone.
\<close>

theorem list_insert_head_conses:
  assumes "rep h LL" and "i < length LL" and "e \<notin> members LL" and "elems h e \<noteq> None"
  shows "\<exists>h'. LIST_INSERT_HEAD i e h = Inr h' \<and> rep h' (LL[i := e # LL ! i]) \<and> cont h' = cont h"
  using lists.insert_ok [OF assms(1-3)] assms(4) by (simp add: cont_def)

lemma list_insert_head_conses_witness:
  "\<exists>h'. LIST_INSERT_HEAD 1 2 sample_heap = Inr h' \<and> rep h' [[], [2]]"
  using list_insert_head_conses [OF rep_sample, of 1 2] elems_sample [of 2] by (auto simp: members_def)

text \<open>
  \<open>LIST_REMOVE\<close>, which is not told the list, unlinks an element from the one it is on.
\<close>

theorem list_remove_unlinks:
  assumes "rep h LL" and "i < length LL" and "e \<in> set (LL ! i)"
  shows "\<exists>h'. LIST_REMOVE e h = Inr h' \<and> rep h' (LL[i := remove1 e (LL ! i)]) \<and> cont h' = cont h"
  by (rule lists.remove_ok [OF assms])

lemma list_remove_unlinks_witness:
  "\<exists>h h'. LIST_INSERT_HEAD 1 2 sample_heap = Inr h \<and> LIST_REMOVE 2 h = Inr h' \<and> rep h' [[], []]"
proof -
  obtain h where h: "LIST_INSERT_HEAD 1 2 sample_heap = Inr h" "rep h [[], [2]]"
    using lists.insert_ok [OF rep_sample, of 1 2] elems_sample [of 2] by (auto simp: members_def cont_def)
  then show ?thesis using list_remove_unlinks [OF h(2), of 1 2] by auto
qed

text \<open>
  \<open>LIST_INSERT_AFTER\<close> puts an element that is on no list right behind a given one.
\<close>

theorem list_insert_after_splices:
  assumes "rep h LL" and "i < length LL" and "LL ! i = xs @ b # ys"
    and "e \<notin> members LL" and "elems h e \<noteq> None"
  shows "\<exists>h'. LIST_INSERT_AFTER b e h = Inr h' \<and> rep h' (LL[i := xs @ b # e # ys]) \<and> cont h' = cont h"
  using LIST_INSERT_AFTER_rep [OF assms(1-4)] assms(5) keeps_cont by blast

lemma list_insert_after_splices_witness:
  "\<exists>h h'. LIST_INSERT_HEAD 1 2 sample_heap = Inr h \<and> LIST_INSERT_AFTER 2 0 h = Inr h' \<and> rep h' [[], [2, 0]]"
proof -
  obtain h where h: "LIST_INSERT_HEAD 1 2 sample_heap = Inr h" "rep h [[], [2]]" "cont h = cont sample_heap"
    using lists.insert_ok [OF rep_sample, of 1 2] elems_sample [of 2] by (auto simp: members_def cont_def)
  have "cont h 0 = cont sample_heap 0" using h(3) by simp
  then have "elems h 0 \<noteq> None" using elems_sample [of 0] by (auto simp: cont_def)
  then show ?thesis
    using list_insert_after_splices [OF h(2), of 1 "[]" 2 "[]" 0] h(1) by (auto simp: members_def)
qed

text \<open>
  \<open>LIST_INSERT_BEFORE\<close> puts an element that is on no list right in front of a given one,
  without knowing the list.
\<close>

theorem list_insert_before_splices:
  assumes "rep h LL" and "i < length LL" and "LL ! i = xs @ b # ys"
    and "e \<notin> members LL" and "elems h e \<noteq> None"
  shows "\<exists>h'. LIST_INSERT_BEFORE b e h = Inr h' \<and> rep h' (LL[i := xs @ e # b # ys]) \<and> cont h' = cont h"
  using LIST_INSERT_BEFORE_rep [OF assms(1-4)] assms(5) keeps_cont by blast

lemma list_insert_before_splices_witness:
  "\<exists>h h'. LIST_INSERT_HEAD 1 2 sample_heap = Inr h \<and> LIST_INSERT_BEFORE 2 0 h = Inr h' \<and> rep h' [[], [0, 2]]"
proof -
  obtain h where h: "LIST_INSERT_HEAD 1 2 sample_heap = Inr h" "rep h [[], [2]]" "cont h = cont sample_heap"
    using lists.insert_ok [OF rep_sample, of 1 2] elems_sample [of 2] by (auto simp: members_def cont_def)
  have "cont h 0 = cont sample_heap 0" using h(3) by simp
  then have "elems h 0 \<noteq> None" using elems_sample [of 0] by (auto simp: cont_def)
  then show ?thesis
    using list_insert_before_splices [OF h(2), of 1 "[]" 2 "[]" 0] h(1) by (auto simp: members_def)
qed

end
