(* ===== verification/CMem.thy ===== *)
theory CMem
  imports Prelude
begin

text \<open>
  The memory the C code works on: numbered blocks of cells, each block an automatic array, a
  malloc'ed byte array or a malloc'ed struct whose fields the model keeps as a record of its
  own. A cell holds a byte or is indeterminate. Every access is checked: reading or writing
  outside a block, through a null pointer, in released storage or of an indeterminate cell is
  a fault. Whether \<open>malloc\<close> succeeds is decided by an oracle of the model, so that theorems
  hold for every allocator.
\<close>

section \<open>Blocks and pointers\<close>

type_synonym cell = "byte option"

datatype block = Auto "cell list" | Heap "cell list" | Struct

record mem =
  blocks :: "nat \<rightharpoonup> block"
  nextb :: nat

datatype ptr = Null | Ptr nat nat \<comment> \<open>block and byte offset\<close>

fun padd :: "ptr \<Rightarrow> nat \<Rightarrow> ptr" where
  "padd Null k = Null"
| "padd (Ptr b i) k = Ptr b (i + k)"

fun cells :: "block \<Rightarrow> cell list option" where
  "cells (Auto cs) = Some cs"
| "cells (Heap cs) = Some cs"
| "cells Struct = None"

fun set_cells :: "block \<Rightarrow> cell list \<Rightarrow> block" where
  "set_cells (Auto _) cs = Auto cs"
| "set_cells (Heap _) cs = Heap cs"
| "set_cells Struct cs = Struct"

definition bytes_at :: "mem \<Rightarrow> nat \<Rightarrow> cell list option" where
  "bytes_at m b = Option.bind (blocks m b) cells"

section \<open>Checked accesses\<close>

fun read_cells :: "mem \<Rightarrow> ptr \<Rightarrow> nat \<Rightarrow> fault + cell list" where
  "read_cells m Null n = (if n = 0 then Inr [] else Inl NullDeref)"
| "read_cells m (Ptr b i) n =
     (if n = 0 then Inr []
      else case bytes_at m b of
        None \<Rightarrow> Inl DeadBlock
      | Some cs \<Rightarrow> if i + n \<le> length cs then Inr (window i n cs) else Inl OutOfBounds)"

fun write_cells :: "mem \<Rightarrow> ptr \<Rightarrow> cell list \<Rightarrow> fault + mem" where
  "write_cells m Null ys = (if ys = [] then Inr m else Inl NullDeref)"
| "write_cells m (Ptr b i) ys =
     (if ys = [] then Inr m
      else case blocks m b of
        None \<Rightarrow> Inl DeadBlock
      | Some k \<Rightarrow> (case cells k of
          None \<Rightarrow> Inl DeadBlock
        | Some cs \<Rightarrow>
            if i + length ys \<le> length cs
            then Inr (m\<lparr>blocks := (blocks m)(b \<mapsto> set_cells k (overwrite i ys cs))\<rparr>)
            else Inl OutOfBounds))"

text \<open>Reading a value: every cell of it has to be determinate.\<close>

fun determinate :: "cell list \<Rightarrow> fault + byte list" where
  "determinate [] = Inr []"
| "determinate (None # cs) = Inl UninitRead"
| "determinate (Some v # cs) = bindE (determinate cs) (\<lambda>vs. Inr (v # vs))"

definition load_bytes :: "mem \<Rightarrow> ptr \<Rightarrow> nat \<Rightarrow> fault + byte list" where
  "load_bytes m p n = bindE (read_cells m p n) determinate"

definition load8 :: "mem \<Rightarrow> ptr \<Rightarrow> fault + byte" where
  "load8 m p = bindE (load_bytes m p 1) (\<lambda>bs. Inr (bs ! 0))"

definition load16 :: "mem \<Rightarrow> ptr \<Rightarrow> fault + u16" where
  "load16 m p = bindE (load_bytes m p 2) (\<lambda>bs. Inr (of_le16 bs))"

definition store_bytes :: "mem \<Rightarrow> ptr \<Rightarrow> byte list \<Rightarrow> fault + mem" where
  "store_bytes m p bs = write_cells m p (map Some bs)"

definition memset :: "mem \<Rightarrow> ptr \<Rightarrow> byte \<Rightarrow> nat \<Rightarrow> fault + mem" where
  "memset m p v n = write_cells m p (replicate n (Some v))"

text \<open>\<open>memcpy\<close> copies cells, determinate or not, as the C library does.\<close>

definition memcpy :: "mem \<Rightarrow> ptr \<Rightarrow> ptr \<Rightarrow> nat \<Rightarrow> fault + mem" where
  "memcpy m dst src n = bindE (read_cells m src n) (write_cells m dst)"

section \<open>Allocation\<close>

text \<open>
  \<open>mal k n\<close> tells whether an allocation of \<open>n\<close> bytes succeeds, when \<open>k\<close> blocks were created
  before it. A block number is never used twice.
\<close>

type_synonym alloc = "nat \<Rightarrow> nat \<Rightarrow> bool"

definition new_block :: "block \<Rightarrow> mem \<Rightarrow> nat \<times> mem" where
  "new_block k m = (nextb m, m\<lparr>blocks := (blocks m)(nextb m \<mapsto> k), nextb := Suc (nextb m)\<rparr>)"

definition malloc :: "alloc \<Rightarrow> nat \<Rightarrow> mem \<Rightarrow> ptr \<times> mem" where
  "malloc mal n m =
     (if mal (nextb m) n
      then (let (b, m') = new_block (Heap (replicate n None)) m in (Ptr b 0, m'))
      else (Null, m))"

text \<open>\<open>calloc\<close> of one struct: the block number, or \<open>None\<close> for a null pointer.\<close>

definition calloc_struct :: "alloc \<Rightarrow> nat \<Rightarrow> mem \<Rightarrow> nat option \<times> mem" where
  "calloc_struct mal n m =
     (if mal (nextb m) n
      then (let (b, m') = new_block Struct m in (Some b, m'))
      else (None, m))"

definition drop_block :: "nat \<Rightarrow> mem \<Rightarrow> mem" where
  "drop_block b m = m\<lparr>blocks := (blocks m)(b := None)\<rparr>"

fun free :: "ptr \<Rightarrow> mem \<Rightarrow> fault + mem" where
  "free Null m = Inr m"
| "free (Ptr b i) m =
     (case blocks m b of
        Some (Heap cs) \<Rightarrow> if i = 0 then Inr (drop_block b m) else Inl BadFree
      | _ \<Rightarrow> Inl BadFree)"

definition free_struct :: "nat \<Rightarrow> mem \<Rightarrow> fault + mem" where
  "free_struct b m = (if blocks m b = Some Struct then Inr (drop_block b m) else Inl BadFree)"

text \<open>
  The documented limits of the C library: \<open>malloc\<close> fails for requests beyond
  \<open>PTRDIFF_MAX\<close>. An allocator that fails only there never runs out of memory.
\<close>

definition PTRDIFF_MAX :: nat where
  "PTRDIFF_MAX = 2 ^ 63 - 1"

definition alloc_sane :: "alloc \<Rightarrow> bool" where
  "alloc_sane mal \<longleftrightarrow> (\<forall>k n. mal k n \<longrightarrow> n \<le> PTRDIFF_MAX)"

definition plenty :: alloc where
  "plenty k n \<longleftrightarrow> n \<le> PTRDIFF_MAX"

lemma alloc_sane_plenty [simp]: "alloc_sane plenty"
  by (simp add: alloc_sane_def plenty_def)

text \<open>A variable length array must have a size that an object can have, and not zero.\<close>

definition vla :: "nat \<Rightarrow> mem \<Rightarrow> fault + nat \<times> mem" where
  "vla n m = (if n = 0 \<or> PTRDIFF_MAX < n then Inl BadVla
              else Inr (new_block (Auto (replicate n None)) m))"

text \<open>The length of a C string: the cells in front of the first zero.\<close>

fun strlen_cells :: "cell list \<Rightarrow> fault + nat" where
  "strlen_cells [] = Inl OutOfBounds"
| "strlen_cells (None # cs) = Inl UninitRead"
| "strlen_cells (Some v # cs) =
     (if v = 0 then Inr 0 else bindE (strlen_cells cs) (\<lambda>n. Inr (Suc n)))"

fun strlen :: "mem \<Rightarrow> ptr \<Rightarrow> fault + nat" where
  "strlen m Null = Inl NullDeref"
| "strlen m (Ptr b i) =
     (case bytes_at m b of None \<Rightarrow> Inl DeadBlock | Some cs \<Rightarrow> strlen_cells (drop i cs))"

section \<open>Well-formed memories and extensions\<close>

definition wf_mem :: "mem \<Rightarrow> bool" where
  "wf_mem m \<longleftrightarrow> (\<forall>b. nextb m \<le> b \<longrightarrow> blocks m b = None)"

lemma wf_mem_fresh [simp]: "wf_mem m \<Longrightarrow> blocks m (nextb m) = None"
  by (simp add: wf_mem_def)

lemma wf_mem_less: "wf_mem m \<Longrightarrow> blocks m b = Some k \<Longrightarrow> b < nextb m"
  by (rule ccontr) (simp add: wf_mem_def not_less)

lemma wf_mem_new [simp]: "wf_mem m \<Longrightarrow> wf_mem (snd (new_block k m))"
  by (auto simp: wf_mem_def new_block_def)

lemma wf_mem_drop [simp]: "wf_mem m \<Longrightarrow> wf_mem (drop_block b m)"
  by (auto simp: wf_mem_def drop_block_def)

lemma wf_mem_malloc: "wf_mem m \<Longrightarrow> malloc mal n m = (p, m') \<Longrightarrow> wf_mem m'"
  by (auto simp: malloc_def new_block_def wf_mem_def Let_def split: if_splits)

lemma wf_mem_write: "wf_mem m \<Longrightarrow> write_cells m p ys = Inr m' \<Longrightarrow> wf_mem m'"
  by (cases p) (auto simp: wf_mem_def not_less split: if_splits option.splits)

definition mem_ext :: "mem \<Rightarrow> mem \<Rightarrow> bool" where
  "mem_ext m m' \<longleftrightarrow> (\<forall>b < nextb m. blocks m' b = blocks m b) \<and> nextb m \<le> nextb m'"

lemma mem_ext_refl [simp]: "mem_ext m m"
  by (simp add: mem_ext_def)

lemma mem_ext_trans: "mem_ext m m' \<Longrightarrow> mem_ext m' m'' \<Longrightarrow> mem_ext m m''"
  by (simp add: mem_ext_def)

lemma mem_ext_new: "mem_ext m (snd (new_block k m))"
  by (simp add: mem_ext_def new_block_def)

lemma mem_ext_malloc: "malloc mal n m = (p, m') \<Longrightarrow> mem_ext m m'"
  by (auto simp: malloc_def new_block_def mem_ext_def Let_def split: if_splits)

lemma mem_ext_drop: "mem_ext m m' \<Longrightarrow> nextb m \<le> b \<Longrightarrow> mem_ext m (drop_block b m')"
  by (auto simp: mem_ext_def drop_block_def)

lemma nextb_drop [simp]: "nextb (drop_block b m) = nextb m"
  by (simp add: drop_block_def)

lemma wf_mem_free: "free p m = Inr m' \<Longrightarrow> wf_mem m \<Longrightarrow> wf_mem m' \<and> nextb m' = nextb m"
  by (cases p) (auto split: option.splits block.splits if_splits)

section \<open>Initialised regions\<close>

text \<open>\<open>has_bytes m p bs\<close>: the bytes \<open>bs\<close> lie, all determinate, from \<open>p\<close> on inside one block.\<close>

fun has_bytes :: "mem \<Rightarrow> ptr \<Rightarrow> byte list \<Rightarrow> bool" where
  "has_bytes m Null bs \<longleftrightarrow> bs = []"
| "has_bytes m (Ptr b i) bs \<longleftrightarrow>
     (case bytes_at m b of
        None \<Rightarrow> False
      | Some cs \<Rightarrow> i + length bs \<le> length cs \<and> window i (length bs) cs = map Some bs)"

lemma padd_padd [simp]: "padd (padd p i) j = padd p (i + j)"
  by (cases p) auto

lemma padd_0 [simp]: "padd p 0 = p"
  by (cases p) auto

lemma determinate_Some [simp]: "determinate (map Some bs) = Inr bs"
  by (induction bs) auto

lemma has_bytes_window:
  "has_bytes m p bs \<Longrightarrow> j + k \<le> length bs \<Longrightarrow> has_bytes m (padd p j) (window j k bs)"
proof (cases p)
  case (Ptr b i)
  assume h: "has_bytes m p bs" and jk: "j + k \<le> length bs"
  from h Ptr obtain cs where cs: "bytes_at m b = Some cs" "i + length bs \<le> length cs"
      "window i (length bs) cs = map Some bs"
    by (auto split: option.splits)
  have "window (i + j) k cs = window j k (window i (length bs) cs)"
    using jk by (simp add: window_window)
  also have "\<dots> = map Some (window j k bs)" by (simp add: cs window_map)
  finally show ?thesis using Ptr cs jk by simp
qed (auto)

lemma has_bytes_drop:
  "has_bytes m p bs \<Longrightarrow> j \<le> length bs \<Longrightarrow> has_bytes m (padd p j) (drop j bs)"
  using has_bytes_window [of m p bs j "length bs - j"] by (simp add: window_eq_drop)

lemma read_cells_has:
  assumes "has_bytes m p bs" and "j + k \<le> length bs"
  shows "read_cells m (padd p j) k = Inr (map Some (window j k bs))"
proof (cases p)
  case Null
  then show ?thesis using assms by auto
next
  case (Ptr b i)
  have "has_bytes m (padd p j) (window j k bs)" using assms by (rule has_bytes_window)
  moreover have "min k (length bs - j) = k" using assms(2) by simp
  ultimately show ?thesis using Ptr by (auto split: option.splits)
qed

lemma load_bytes_has:
  "has_bytes m p bs \<Longrightarrow> j + k \<le> length bs \<Longrightarrow> load_bytes m (padd p j) k = Inr (window j k bs)"
  by (simp add: load_bytes_def read_cells_has)

lemma load8_has:
  "has_bytes m p bs \<Longrightarrow> j < length bs \<Longrightarrow> load8 m (padd p j) = Inr (bs ! j)"
  by (simp add: load8_def load_bytes_has nth_window)

lemma load16_has:
  "has_bytes m p bs \<Longrightarrow> j + 2 \<le> length bs \<Longrightarrow>
   load16 m (padd p j) = Inr (of_le16 (window j 2 bs))"
  by (simp add: load16_def load_bytes_has)

lemma bytes_at_ext: "wf_mem m \<Longrightarrow> mem_ext m m' \<Longrightarrow> bytes_at m b = Some cs \<Longrightarrow> bytes_at m' b = Some cs"
  by (auto simp: bytes_at_def mem_ext_def bind_eq_Some_conv dest: wf_mem_less)

lemma has_bytes_ext: "wf_mem m \<Longrightarrow> mem_ext m m' \<Longrightarrow> has_bytes m p bs \<Longrightarrow> has_bytes m' p bs"
  by (cases p) (auto split: option.splits dest: bytes_at_ext)

text \<open>A fresh copy of initialised bytes: what \<open>malloc\<close> followed by \<open>memcpy\<close> leaves behind.\<close>

lemma malloc_memcpy_has:
  assumes wf: "wf_mem m" and src: "has_bytes m p bs" and ok: "mal (nextb m) (length bs)"
  shows "\<exists>m1. malloc mal (length bs) m = (Ptr (nextb m) 0, m1) \<and>
    memcpy m1 (Ptr (nextb m) 0) p (length bs) = Inr (snd (new_block (Heap (map Some bs)) m))"
proof (intro exI conjI)
  let ?m1 = "snd (new_block (Heap (replicate (length bs) None)) m)"
  show "malloc mal (length bs) m = (Ptr (nextb m) 0, ?m1)"
    using ok by (simp add: malloc_def new_block_def)
  have "has_bytes ?m1 p bs"
    by (rule has_bytes_ext [OF wf _ src]) (rule mem_ext_new)
  then have "memcpy ?m1 (Ptr (nextb m) 0) p (length bs) =
      write_cells ?m1 (Ptr (nextb m) 0) (map Some bs)"
    using read_cells_has [of ?m1 p bs 0 "length bs"] by (simp add: memcpy_def)
  also have "\<dots> = Inr (snd (new_block (Heap (map Some bs)) m))"
    by (simp add: new_block_def)
  finally show "memcpy ?m1 (Ptr (nextb m) 0) p (length bs) =
      Inr (snd (new_block (Heap (map Some bs)) m))" .
qed


lemma strlen_cells_zero:
  "0 \<notin> set bs \<Longrightarrow> strlen_cells (map Some bs @ Some 0 # cs) = Inr (length bs)"
  by (induction bs) auto

lemma strlen_has:
  assumes "has_bytes m p (bs @ [0])" and "0 \<notin> set bs"
  shows "strlen m p = Inr (length bs)"
proof (cases p)
  case (Ptr b i)
  then obtain cs where cs: "bytes_at m b = Some cs" "take (Suc (length bs)) (drop i cs) = map Some bs @ [Some 0]"
    using assms(1) by (auto simp: window_def split: option.splits)
  then have "drop i cs = map Some bs @ Some 0 # drop (Suc (length bs)) (drop i cs)"
    by (metis append.assoc append_Cons append_Nil append_take_drop_id)
  then show ?thesis using strlen_cells_zero [OF assms(2)] cs(1) Ptr by (metis option.case(2) strlen.simps(2))
qed (use assms in simp)

section \<open>One block under construction\<close>

text \<open>\<open>put_cells m b cs\<close>: the memory \<open>m\<close> with the contents of block \<open>b\<close> replaced by \<open>cs\<close>.\<close>

definition put_cells :: "mem \<Rightarrow> nat \<Rightarrow> cell list \<Rightarrow> mem" where
  "put_cells m b cs = m\<lparr>blocks := (blocks m)(b := map_option (\<lambda>k. set_cells k cs) (blocks m b))\<rparr>"

definition ptr_blocks :: "ptr \<Rightarrow> nat set" where
  "ptr_blocks p = (case p of Null \<Rightarrow> {} | Ptr b i \<Rightarrow> {b})"

lemma cells_set_cells: "cells k = Some cs \<Longrightarrow> cells (set_cells k cs') = Some cs'"
  by (cases k) auto

lemma set_cells_set_cells [simp]: "set_cells (set_cells k cs) cs' = set_cells k cs'"
  by (cases k) auto

lemma set_cells_id: "cells k = Some cs \<Longrightarrow> set_cells k cs = k"
  by (cases k) auto

lemma put_cells_same: "bytes_at m b = Some cs \<Longrightarrow> put_cells m b cs = m"
  by (auto simp: put_cells_def bytes_at_def bind_eq_Some_conv set_cells_id intro!: mem.equality)

lemma put_cells_twice [simp]: "put_cells (put_cells m b cs) b cs' = put_cells m b cs'"
  by (auto simp: put_cells_def option.map_comp o_def)

lemma bytes_at_put_cells: "bytes_at m b = Some cs \<Longrightarrow> bytes_at (put_cells m b cs') b = Some cs'"
  by (auto simp: put_cells_def bytes_at_def bind_eq_Some_conv cells_set_cells)

lemma bytes_at_put_cells_other: "b' \<noteq> b \<Longrightarrow> bytes_at (put_cells m b cs) b' = bytes_at m b'"
  by (simp add: put_cells_def bytes_at_def)

lemma blocks_put_cells_other: "b' \<noteq> b \<Longrightarrow> blocks (put_cells m b cs) b' = blocks m b'"
  by (simp add: put_cells_def)

lemma has_bytes_put_cells: "b \<notin> ptr_blocks p \<Longrightarrow> has_bytes (put_cells m b cs) p bs = has_bytes m p bs"
  by (cases p) (auto simp: ptr_blocks_def bytes_at_put_cells_other)

lemma wf_mem_put_cells [simp]: "wf_mem m \<Longrightarrow> wf_mem (put_cells m b cs)"
  by (auto simp: wf_mem_def put_cells_def)

lemma has_bytes_put_overwrite:
  assumes "bytes_at m b = Some cs0" and "off + length bs + length ys \<le> length cs"
  shows "has_bytes (put_cells m b (overwrite off (map Some bs @ ys) cs)) (Ptr b off) bs"
proof -
  have "window off (length bs) (overwrite off (map Some bs @ ys) cs) = map Some bs"
    using assms(2) by (simp add: window_def overwrite_def)
  then show ?thesis using assms by (simp add: bytes_at_put_cells)
qed

lemma write_cells_put:
  assumes "bytes_at m b = Some cs0" and "i + length ys \<le> length cs"
  shows "write_cells (put_cells m b cs) (Ptr b i) ys = Inr (put_cells m b (overwrite i ys cs))"
proof -
  from assms(1) obtain k where k: "blocks m b = Some k" "cells k = Some cs0"
    by (auto simp: bytes_at_def bind_eq_Some_conv)
  then show ?thesis using assms(2)
    by (auto simp: put_cells_def cells_set_cells)
qed

lemma overwrite_replicate:
  "i + length zs \<le> r \<Longrightarrow>
   overwrite i zs (replicate r x @ ys) = replicate i x @ zs @ replicate (r - i - length zs) x @ ys"
  by (simp add: overwrite_def min_def)


section \<open>A memory with one initialised buffer\<close>

definition mem_of :: "byte list \<Rightarrow> mem" where
  "mem_of bs = \<lparr>blocks = [0 \<mapsto> Auto (map Some bs)], nextb = 1\<rparr>"

lemma bytes_at_mem_of [simp]: "bytes_at (mem_of bs) 0 = Some (map Some bs)"
  by (simp add: mem_of_def bytes_at_def)

lemma wf_mem_of [simp]: "wf_mem (mem_of bs)"
  by (simp add: wf_mem_def mem_of_def)

lemma has_bytes_mem_of [simp]: "has_bytes (mem_of bs) (Ptr 0 0) bs"
proof -
  have "window 0 (length bs) (map Some bs) = map Some bs"
    using window_all [of "map Some bs"] by simp
  then show ?thesis by simp
qed

end
