(* ===== verification/ConvertProto.thy ===== *)
theory ConvertProto
  imports CMem
begin

text \<open>
  The wire format of the 0-RTT TCP Convert protocol as \<open>lib_convert/convert.h\<close> and
  \<open>lib_convert/convert_util.h\<close> declare it: protocol numbers, the packed structs with the
  offsets of their fields, the padding macros on \<open>size_t\<close>, the option flags, and the
  \<open>struct convert_opts\<close> that parser and writer share.
\<close>

section \<open>Protocol numbers\<close>

definition CONVERT_VERSION :: byte where
  "CONVERT_VERSION = 1"

definition CONVERT_MAGIC_NO :: u16 where
  "CONVERT_MAGIC_NO = 0x2263"

datatype convert_type =
    CONVERT_INFO | CONVERT_CONNECT | CONVERT_EXTENDED_TCP_HDR
  | CONVERT_SUPPORTED_TCP_EXT | CONVERT_COOKIE | CONVERT_ERROR

fun type_no :: "convert_type \<Rightarrow> byte" where
  "type_no CONVERT_INFO = 0x1"
| "type_no CONVERT_CONNECT = 0xa"
| "type_no CONVERT_EXTENDED_TCP_HDR = 0x14"
| "type_no CONVERT_SUPPORTED_TCP_EXT = 0x15"
| "type_no CONVERT_COOKIE = 0x16"
| "type_no CONVERT_ERROR = 0x1e"

datatype convert_error_kind =
    CONVERT_ERROR_UNSUPPORTED_VERSION | CONVERT_ERROR_MALFORMED_MSG
  | CONVERT_ERROR_UNSUPPORTED_MSG | CONVERT_ERROR_MISSING_COOKIE
  | CONVERT_ERROR_UNAUTHORIZED | CONVERT_ERROR_UNSUPPORTED_TCP_OPT
  | CONVERT_ERROR_RESOURCE_EXCEEDED | CONVERT_ERROR_NETWORK_FAILURE
  | CONVERT_ERROR_CONN_RESET | CONVERT_ERROR_DEST_UNREACH

fun error_no :: "convert_error_kind \<Rightarrow> byte" where
  "error_no CONVERT_ERROR_UNSUPPORTED_VERSION = 0"
| "error_no CONVERT_ERROR_MALFORMED_MSG = 1"
| "error_no CONVERT_ERROR_UNSUPPORTED_MSG = 2"
| "error_no CONVERT_ERROR_MISSING_COOKIE = 3"
| "error_no CONVERT_ERROR_UNAUTHORIZED = 32"
| "error_no CONVERT_ERROR_UNSUPPORTED_TCP_OPT = 33"
| "error_no CONVERT_ERROR_RESOURCE_EXCEEDED = 64"
| "error_no CONVERT_ERROR_NETWORK_FAILURE = 65"
| "error_no CONVERT_ERROR_CONN_RESET = 96"
| "error_no CONVERT_ERROR_DEST_UNREACH = 97"

lemma type_no_inject [simp]: "type_no a = type_no b \<longleftrightarrow> a = b"
  by (cases a; cases b) simp_all

section \<open>Packed structs\<close>

text \<open>
  A packed struct is the list of its fields with their sizes; a field lies right behind the
  fields before it. The flexible array members have size 0.
\<close>

type_synonym layout = "(string \<times> nat) list"

definition sizeof :: "layout \<Rightarrow> nat" where
  "sizeof l = sum_list (map snd l)"

fun offsetof :: "layout \<Rightarrow> string \<Rightarrow> nat" where
  "offsetof [] f = 0"
| "offsetof ((g, n) # l) f = (if f = g then 0 else n + offsetof l f)"

definition convert_header :: layout where
  "convert_header = [(''version'', 1), (''total_length'', 1), (''magic_no'', 2)]"

definition convert_tlv :: layout where
  "convert_tlv = [(''type'', 1), (''length'', 1)]"

definition convert_connect :: layout where
  "convert_connect = [(''tlv_hdr'', sizeof convert_tlv), (''remote_port'', 2),
     (''remote_addr'', 16), (''options'', 0)]"

definition convert_info :: layout where
  "convert_info = [(''tlv_hdr'', sizeof convert_tlv), (''reserved'', 2)]"

definition convert_supported_opts :: layout where
  "convert_supported_opts = [(''tlv_hdr'', sizeof convert_tlv), (''reserved'', 2),
     (''options_kind'', 0)]"

definition convert_cookie :: layout where
  "convert_cookie = [(''tlv_hdr'', sizeof convert_tlv), (''reserved'', 2), (''opaque'', 0)]"

definition convert_error :: layout where
  "convert_error = [(''tlv_hdr'', sizeof convert_tlv), (''error_code'', 1), (''value'', 0)]"

definition convert_extended_tcp_hdr :: layout where
  "convert_extended_tcp_hdr = [(''tlv_hdr'', sizeof convert_tlv), (''unassigned'', 2),
     (''tcp_options'', 0)]"

lemma sizeof_structs [layout]:
  "sizeof convert_header = 4" "sizeof convert_tlv = 2" "sizeof convert_connect = 20"
  "sizeof convert_info = 4" "sizeof convert_supported_opts = 4" "sizeof convert_cookie = 4"
  "sizeof convert_error = 3" "sizeof convert_extended_tcp_hdr = 4"
  by (simp_all add: sizeof_def convert_header_def convert_tlv_def convert_connect_def
      convert_info_def convert_supported_opts_def convert_cookie_def convert_error_def
      convert_extended_tcp_hdr_def)

lemma offsetof_fields [layout]:
  "offsetof convert_header ''version'' = 0" "offsetof convert_header ''total_length'' = 1"
  "offsetof convert_header ''magic_no'' = 2"
  "offsetof convert_tlv ''type'' = 0" "offsetof convert_tlv ''length'' = 1"
  "offsetof convert_connect ''remote_port'' = 2" "offsetof convert_connect ''remote_addr'' = 4"
  "offsetof convert_cookie ''opaque'' = 4" "offsetof convert_error ''error_code'' = 2"
  "offsetof convert_extended_tcp_hdr ''tcp_options'' = 4"
  by (simp_all add: sizeof_def convert_header_def convert_tlv_def convert_connect_def
      convert_cookie_def convert_error_def convert_extended_tcp_hdr_def)

section \<open>Padding and units of four bytes\<close>

definition CONVERT_PADDING :: size_t where
  "CONVERT_PADDING = 4"

definition CONVERT_ALIGN_to :: "size_t \<Rightarrow> size_t \<Rightarrow> size_t" where
  "CONVERT_ALIGN_to x a = (x + (a - 1)) AND NOT (a - 1)"

definition CONVERT_ALIGN :: "size_t \<Rightarrow> size_t" where
  "CONVERT_ALIGN bytes = CONVERT_ALIGN_to bytes CONVERT_PADDING"

definition CONVERT_HDR_LEN :: size_t where
  "CONVERT_HDR_LEN = of_nat (sizeof convert_header)"

definition CONVERT_TO_BYTES :: "size_t \<Rightarrow> size_t" where
  "CONVERT_TO_BYTES v = v * CONVERT_PADDING"

definition BYTES_TO_CONVERT :: "size_t \<Rightarrow> size_t" where
  "BYTES_TO_CONVERT v = v div CONVERT_PADDING"

definition align4 :: "nat \<Rightarrow> nat" where
  "align4 n = (n + 3) div 4 * 4"

lemma align4_ge: "n \<le> align4 n"
  unfolding align4_def by arith

lemma align4_less: "align4 n < n + 4"
  unfolding align4_def by arith

lemma align4_dvd [simp]: "4 dvd align4 n"
  by (simp add: align4_def)

lemma align4_id [simp]: "4 dvd n \<Longrightarrow> align4 n = n"
  unfolding align4_def by presburger

lemma align4_add4 [simp]: "align4 (4 + n) = 4 + align4 n"
  unfolding align4_def by presburger

lemma unat_and_minus_4: "unat ((x :: size_t) AND - 4) = unat x div 4 * 4"
proof -
  have three: "- 4 = NOT (mask 2 :: size_t)"
    by (simp add: mask_eq_exp_minus_1)
  have "x AND - 4 = push_bit 2 (drop_bit 2 x)"
    unfolding three
    by (rule bit_word_eqI) (auto simp: bit_simps simp del: add_2_eq_Suc add_2_eq_Suc')
  also have "unat \<dots> = take_bit 64 (unat x div 4 * 4)"
    by (simp add: unsigned_push_bit_eq unsigned_drop_bit_eq push_bit_eq_mult [where 'a = nat]
        drop_bit_eq_div [where 'a = nat])
  also have "\<dots> = unat x div 4 * 4"
    using unat_size_less [of x] by (simp add: take_bit_nat_eq_self_iff del: unat_size_less)
  finally show ?thesis .
qed

lemma unat_CONVERT_ALIGN:
  assumes "unat x + 3 < 2 ^ 64"
  shows "unat (CONVERT_ALIGN x) = align4 (unat x)"
proof -
  have "unat (x + 3) = unat x + 3"
    using assms by (simp add: unat_add_lem [THEN iffD1])
  then show ?thesis
    by (simp add: CONVERT_ALIGN_def CONVERT_ALIGN_to_def CONVERT_PADDING_def unat_and_minus_4 align4_def)
qed

lemma CONVERT_ALIGN_const [layout]:
  "CONVERT_ALIGN 2 = 4" "CONVERT_ALIGN 3 = 4" "CONVERT_ALIGN 4 = 4" "CONVERT_ALIGN 20 = 20"
  by (simp_all add: CONVERT_ALIGN_def CONVERT_ALIGN_to_def CONVERT_PADDING_def)

lemma CONVERT_HDR_LEN_eq [layout]: "CONVERT_HDR_LEN = 4"
  by (simp add: CONVERT_HDR_LEN_def layout)

lemma unat_CONVERT_TO_BYTES_ucast:
  "unat (CONVERT_TO_BYTES (ucast (b :: byte))) = 4 * unat b"
proof -
  have "unat b < 256" by simp
  then have "unat b * 4 < 18446744073709551616" by linarith
  then show ?thesis
    by (simp add: CONVERT_TO_BYTES_def CONVERT_PADDING_def unat_word_ariths)
qed

lemma unat_BYTES_TO_CONVERT: "unat (BYTES_TO_CONVERT v) = unat v div 4"
  by (simp add: BYTES_TO_CONVERT_def CONVERT_PADDING_def unat_div)

section \<open>The options of a message\<close>

text \<open>
  The positions of the flag bits (the enum \<open>_CONVERT_F_*\<close>) and the flags themselves. The flags
  member of \<open>struct convert_opts\<close> is 8 bits wide, the table of the writer holds 32-bit flags.
\<close>

fun flag_bit :: "convert_type \<Rightarrow> nat" where
  "flag_bit CONVERT_INFO = 0"
| "flag_bit CONVERT_CONNECT = 1"
| "flag_bit CONVERT_EXTENDED_TCP_HDR = 2"
| "flag_bit CONVERT_SUPPORTED_TCP_EXT = 3"
| "flag_bit CONVERT_COOKIE = 4"
| "flag_bit CONVERT_ERROR = 5"

definition CONVERT_F_MAX :: nat where
  "CONVERT_F_MAX = 6"

definition CONVERT_F :: "convert_type \<Rightarrow> u32" where
  "CONVERT_F t = push_bit (flag_bit t) 1"

record sockaddr_in6 =
  sin6_family :: u16
  sin6_port :: u16          \<comment> \<open>its two bytes in memory are the port in network byte order\<close>
  sin6_flowinfo :: u32
  sin6_addr :: "byte list"  \<comment> \<open>the 16 bytes of \<open>struct in6_addr\<close>\<close>
  sin6_scope_id :: u32

record convert_opts =
  flags :: byte
  remote_addr :: sockaddr_in6
  error_code :: byte
  tcp_options :: ptr
  tcp_options_len :: size_t
  cookie_data :: ptr
  cookie_len :: size_t

text \<open>The all-zero struct that \<open>calloc\<close> and the initialiser \<open>{0}\<close> give.\<close>

definition zero_sin6 :: sockaddr_in6 where
  "zero_sin6 = \<lparr>sin6_family = 0, sin6_port = 0, sin6_flowinfo = 0,
     sin6_addr = replicate 16 0, sin6_scope_id = 0\<rparr>"

definition zero_opts :: convert_opts where
  "zero_opts = \<lparr>flags = 0, remote_addr = zero_sin6, error_code = 0, tcp_options = Null,
     tcp_options_len = 0, cookie_data = Null, cookie_len = 0\<rparr>"

definition set_flag :: "convert_type \<Rightarrow> byte \<Rightarrow> byte" where
  "set_flag t fl = fl OR ucast (CONVERT_F t)"

definition has_flag :: "convert_type \<Rightarrow> byte \<Rightarrow> bool" where
  "has_flag t fl \<longleftrightarrow> CONVERT_F t AND ucast fl \<noteq> 0"

lemma flag_bit_less [simp]: "flag_bit t < 6"
  by (cases t) simp_all

lemma flag_bit_inject [simp]: "flag_bit a = flag_bit b \<longleftrightarrow> a = b"
  by (cases a; cases b) simp_all

lemma has_flag_bit: "has_flag t fl \<longleftrightarrow> bit fl (flag_bit t)"
proof -
  have "has_flag t fl \<longleftrightarrow> bit (ucast fl :: u32) (flag_bit t)"
    by (simp add: has_flag_def CONVERT_F_def bit_iff_and_push_bit_not_eq_0 [of "ucast fl"]
        and.commute)
  then show ?thesis using flag_bit_less [of t] by (auto simp: bit_simps simp del: flag_bit_less)
qed

lemma bit_set_flag: "n < 8 \<Longrightarrow> bit (set_flag t fl) n \<longleftrightarrow> bit fl n \<or> n = flag_bit t"
  by (auto simp: set_flag_def CONVERT_F_def bit_simps push_bit_of_1 bit_exp_iff)

lemma has_flag_set_flag [simp]: "has_flag a (set_flag b fl) \<longleftrightarrow> has_flag a fl \<or> a = b"
  using flag_bit_less [of a] by (simp add: has_flag_bit bit_set_flag del: flag_bit_less)

lemma set_flag_idem [simp]: "set_flag t (set_flag t fl) = set_flag t fl"
  by (simp add: set_flag_def or.assoc)

lemma has_flag_0 [simp]: "\<not> has_flag t 0"
  by (simp add: has_flag_def)

end
