(* ===== verification/Kernel.thy ===== *)
theory Kernel
  imports ConvertProto
begin

text \<open>
  The process as the library code sees it: its memory, \<open>errno\<close>, and the history of the calls
  that reached the C library and the kernel. What the kernel answers is a parameter, a
  function of the history and of the call, so that theorems hold for every peer and every
  network; what the documentation of \<open>recvfrom\<close> promises is stated as a predicate on it.
\<close>

section \<open>Addresses, calls and replies\<close>

text \<open>
  A \<open>struct sockaddr\<close> of one of the two families the code knows, or of another one. The port
  and the IPv4 address are kept as they lie in memory, in network byte order.
\<close>

datatype sockaddr =
    Sockaddr_in u16 u32
  | Sockaddr_in6 sockaddr_in6
  | Sockaddr_other u16

datatype call =
    Socket int int int
  | Connect int sockaddr
  | Send int "byte list" int          \<comment> \<open>the bytes of a buffer of the library\<close>
  | Send_app int ptr size_t int       \<comment> \<open>a buffer of the application, passed on\<close>
  | Recv_app int ptr size_t int
  | Recvfrom int size_t int
  | Set_linger int int int            \<comment> \<open>\<open>setsockopt\<close> with \<open>SO_LINGER\<close>: \<open>l_onoff\<close>, \<open>l_linger\<close>\<close>
  | Sendto int "byte list" int ptr nat \<comment> \<open>the address is passed on as a pointer and a length\<close>
  | Connect_at int ptr nat
  | Bind int sockaddr
  | Listen int int
  | Accept int
  | Getsockname int
  | Getpeername int
  | Write int "byte list"
  | Close int
  | Open string
  | Read int size_t
  | Uname
  | Getaddrinfo "byte list" "byte list"
  | Freeaddrinfo
  | Exit int

record reply =
  ret :: int
  data :: "byte list"
  err :: int

type_synonym kern = "call list \<Rightarrow> call \<Rightarrow> reply"

record sys =
  memory :: mem
  trace :: "call list"     \<comment> \<open>newest first\<close>
  errno :: int

definition AF_INET :: int where "AF_INET = 2"

definition AF_INET6 :: int where "AF_INET6 = 10"

definition SOCK_STREAM :: int where "SOCK_STREAM = 1"

definition IPPROTO_MPTCP :: int where "IPPROTO_MPTCP = 262"

definition MSG_PEEK :: int where
  "MSG_PEEK = 0x2"

definition MSG_WAITALL :: int where
  "MSG_WAITALL = 0x100"

section \<open>Making a call\<close>

definition answer :: "kern \<Rightarrow> call \<Rightarrow> 'z sys_scheme \<Rightarrow> reply" where
  "answer kern c s = kern (trace s) c"

definition syscall :: "kern \<Rightarrow> call \<Rightarrow> 'z sys_scheme \<Rightarrow> int \<times> 'z sys_scheme" where
  "syscall kern c s =
     (let r = answer kern c s in
      (ret r, s\<lparr>trace := c # trace s, errno := (if ret r < 0 then err r else errno s)\<rparr>))"

text \<open>The received bytes are stored behind the call.\<close>

definition sys_recvfrom ::
  "kern \<Rightarrow> int \<Rightarrow> ptr \<Rightarrow> size_t \<Rightarrow> int \<Rightarrow> 'z sys_scheme \<Rightarrow> fault + int \<times> 'z sys_scheme"
where
  "sys_recvfrom kern f buf len fl s =
     (let r = answer kern (Recvfrom f len fl) s; (rc, s) = syscall kern (Recvfrom f len fl) s in
      if rc < 0 then Inr (rc, s)
      else bindE (store_bytes (memory s) buf (data r)) (\<lambda>m. Inr (rc, s\<lparr>memory := m\<rparr>)))"

text \<open>\<open>read\<close> into an array, like \<open>recvfrom\<close>.\<close>

definition sys_read ::
  "kern \<Rightarrow> int \<Rightarrow> ptr \<Rightarrow> size_t \<Rightarrow> 'z sys_scheme \<Rightarrow> fault + int \<times> 'z sys_scheme"
where
  "sys_read kern f buf len s =
     (let r = answer kern (Read f len) s; (rc, s) = syscall kern (Read f len) s in
      if rc < 0 then Inr (rc, s)
      else bindE (store_bytes (memory s) buf (data r)) (\<lambda>m. Inr (rc, s\<lparr>memory := m\<rparr>)))"

text \<open>
  What \<open>recvfrom\<close> documents: it returns -1, or the number of received bytes, which is at most
  the requested length.
\<close>

definition recv_ok :: "kern \<Rightarrow> bool" where
  "recv_ok kern \<longleftrightarrow> (\<forall>h f len fl. let r = kern h (Recvfrom f len fl) in
     ret r = -1 \<or> ret r = int (length (data r)) \<and> length (data r) \<le> unat len)"

section \<open>Local arrays\<close>

definition auto_array :: "nat \<Rightarrow> 'z sys_scheme \<Rightarrow> nat \<times> 'z sys_scheme" where
  "auto_array n s = (let (b, m) = new_block (Auto (replicate n None)) (memory s) in (b, s\<lparr>memory := m\<rparr>))"

definition vla_array :: "nat \<Rightarrow> 'z sys_scheme \<Rightarrow> fault + nat \<times> 'z sys_scheme" where
  "vla_array n s = bindE (vla n (memory s)) (\<lambda>(b, m). Inr (b, s\<lparr>memory := m\<rparr>))"

definition leave_array :: "nat \<Rightarrow> 'z sys_scheme \<Rightarrow> 'z sys_scheme" where
  "leave_array b s = s\<lparr>memory := drop_block b (memory s)\<rparr>"

section \<open>Facts\<close>

lemma trace_syscall [simp]: "trace (snd (syscall kern c s)) = c # trace s"
  by (simp add: syscall_def Let_def)

lemma memory_syscall [simp]: "memory (snd (syscall kern c s)) = memory s"
  by (simp add: syscall_def Let_def)

lemma fst_syscall: "fst (syscall kern c s) = ret (answer kern c s)"
  by (simp add: syscall_def Let_def)

text \<open>Receiving into an array that was just made: it holds the received bytes afterwards.\<close>

lemma sys_recvfrom_array:
  assumes ok: "recv_ok kern" and len: "unat len \<le> n" and b: "bytes_at (memory s) b = Some cs" "length cs = off + n"
  shows "\<exists>s'. sys_recvfrom kern f (Ptr b off) len fl s =
      Inr (ret (answer kern (Recvfrom f len fl) s), s') \<and>
    trace s' = Recvfrom f len fl # trace s \<and> sys.more s' = sys.more s \<and>
    (if ret (answer kern (Recvfrom f len fl) s) < 0 then memory s' = memory s
     else memory s' = put_cells (memory s) b
       (overwrite off (map Some (data (answer kern (Recvfrom f len fl) s))) cs))"
proof -
  let ?r = "answer kern (Recvfrom f len fl) s"
  have r: "ret ?r = -1 \<or> ret ?r = int (length (data ?r)) \<and> length (data ?r) \<le> unat len"
    using ok by (simp add: recv_ok_def answer_def Let_def)
  show ?thesis
  proof (cases "ret ?r < 0")
    case True
    then show ?thesis by (simp add: sys_recvfrom_def syscall_def Let_def)
  next
    case False
    then have "off + length (data ?r) \<le> length cs" using r len b(2) by simp
    then have "store_bytes (memory s) (Ptr b off) (data ?r) =
        Inr (put_cells (memory s) b (overwrite off (map Some (data ?r)) cs))"
      using write_cells_put [OF b(1), of off "map Some (data ?r)" cs] put_cells_same [OF b(1)]
      by (simp add: store_bytes_def)
    then show ?thesis using False by (simp add: sys_recvfrom_def syscall_def Let_def)
  qed
qed


section \<open>A peer that sends a stream of bytes\<close>

text \<open>
  One kernel to run the model with: calls succeed, what is sent is taken whole, and receiving
  reads on in a fixed stream of bytes.
\<close>

fun consumed :: "call list \<Rightarrow> nat" where
  "consumed [] = 0"
| "consumed (Recvfrom f len fl # h) = (if fl AND MSG_PEEK = 0 then unat len else 0) + consumed h"
| "consumed (c # h) = consumed h"

definition stream_kern :: "byte list \<Rightarrow> kern" where
  "stream_kern bs h c =
     (case c of
        Recvfrom f len fl \<Rightarrow>
          (let d = take (unat len) (drop (consumed h) bs) in \<lparr>ret = int (length d), data = d, err = 0\<rparr>)
      | Send f d fl \<Rightarrow> \<lparr>ret = int (length d), data = [], err = 0\<rparr>
      | _ \<Rightarrow> \<lparr>ret = 0, data = [], err = 0\<rparr>)"

lemma recv_ok_stream [simp]: "recv_ok (stream_kern bs)"
  by (simp add: recv_ok_def stream_kern_def Let_def)

definition start :: sys where
  "start = \<lparr>memory = mem_of [], trace = [], errno = 0\<rparr>"

lemma start_simps [simp]: "wf_mem (memory start)" "trace start = []"
  by (simp_all add: start_def)

end
