(* ===== verification/SockTable.thy ===== *)
theory SockTable
  imports BsdList Kernel "HOL-Library.Signed_Division"
begin

text \<open>
  The table of tracked sockets in \<open>lib_convert/convert_client.c\<close> (\<open>socket_state_t\<close>,
  \<open>_socket_htable\<close>, \<open>_hash\<close>, \<open>_lookup\<close>, \<open>_alloc\<close>, \<open>_free_state\<close>, \<open>_free\<close>): 1024 buckets of
  linked states under one mutex. What the table promises, a stack of states per descriptor,
  is a locale of its own that the interception of the system calls builds on.
\<close>

section \<open>States of sockets\<close>

text \<open>
  The members of \<open>socket_state_t\<close> besides the list links; \<open>None\<close> is an indeterminate value.
  A state is a block of the memory, its members lie in the list heap under the block number.
\<close>

record socket_data =
  fd :: "int option"
  established :: "int option"

definition SIZEOF_SOCKET_STATE :: nat where
  "SIZEOF_SOCKET_STATE = 24"

definition NUM_BUCKETS :: nat where
  "NUM_BUCKETS = 1024"

record tstate = sys +
  htable :: "socket_data lheap"
  htable_mutex :: bool

definition malloc_state :: "alloc \<Rightarrow> 'z tstate_scheme \<Rightarrow> nat option \<times> 'z tstate_scheme" where
  "malloc_state mal s =
     (case calloc_struct mal SIZEOF_SOCKET_STATE (memory s) of
        (None, m) \<Rightarrow> (None, s\<lparr>memory := m\<rparr>)
      | (Some b, m) \<Rightarrow> (Some b, s\<lparr>memory := m, htable := (htable s)\<lparr>elems := (elems (htable s))
          (b \<mapsto> \<lparr>le_next = None, le_prev = Nowhere, content = \<lparr>fd = None, established = None\<rparr>\<rparr>)\<rparr>\<rparr>))"

definition free_block :: "nat \<Rightarrow> 'z tstate_scheme \<Rightarrow> fault + 'z tstate_scheme" where
  "free_block e s =
     bindE (free_struct e (memory s)) (\<lambda>m.
       Inr (s\<lparr>memory := m, htable := (htable s)\<lparr>elems := (elems (htable s))(e := None)\<rparr>\<rparr>))"

definition set_fd :: "nat \<Rightarrow> int \<Rightarrow> 'z tstate_scheme \<Rightarrow> fault + 'z tstate_scheme" where
  "set_fd e f s =
     bindE (get_elem (htable s) e) (\<lambda>x.
       Inr (s\<lparr>htable := (htable s)\<lparr>elems := (elems (htable s))
              (e \<mapsto> x\<lparr>content := (content x)\<lparr>fd := Some f\<rparr>\<rparr>)\<rparr>\<rparr>))"

definition get_fd :: "nat \<Rightarrow> 'z tstate_scheme \<Rightarrow> fault + int" where
  "get_fd e s =
     bindE (get_elem (htable s) e) (\<lambda>x.
       case fd (content x) of None \<Rightarrow> Inl UninitRead | Some f \<Rightarrow> Inr f)"

section \<open>The mutex and the buckets\<close>

definition lock :: "'z tstate_scheme \<Rightarrow> fault + 'z tstate_scheme" where
  "lock s = (if htable_mutex s then Inl Deadlock else Inr (s\<lparr>htable_mutex := True\<rparr>))"

definition unlock :: "'z tstate_scheme \<Rightarrow> 'z tstate_scheme" where
  "unlock s = s\<lparr>htable_mutex := False\<rparr>"

text \<open>The remainder of C, which has the sign of the dividend.\<close>

definition hash :: "int \<Rightarrow> int" where
  "hash f = f smod int NUM_BUCKETS"

text \<open>The address of a bucket: the index has to lie in the array.\<close>

definition bucket :: "int \<Rightarrow> fault + nat" where
  "bucket h = (if 0 \<le> h \<and> h < int NUM_BUCKETS then Inr (nat h) else Inl OutOfBounds)"

section \<open>The operations\<close>

definition match_fd :: "int \<Rightarrow> socket_data \<Rightarrow> (fault + unit) option" where
  "match_fd f d = (case fd d of
     None \<Rightarrow> Some (Inl UninitRead) | Some g \<Rightarrow> if g = f then Some (Inr ()) else None)"

definition table_lookup :: "int \<Rightarrow> 'z tstate_scheme \<Rightarrow> (nat option \<times> 'z tstate_scheme) run" where
  "table_lookup f s =
     bindR (Some (lock s)) (\<lambda>s.
     bindR (Some (bucket (hash f))) (\<lambda>i.
     bindR (LIST_FOREACH (match_fd f) (htable s) i) (\<lambda>found.
       case found of
         None \<Rightarrow> return (None, unlock s)
       | Some (e, Inl flt) \<Rightarrow> fail flt
       | Some (e, Inr _) \<Rightarrow> return (Some e, unlock s))))"

definition table_alloc :: "alloc \<Rightarrow> int \<Rightarrow> 'z tstate_scheme \<Rightarrow> 'z tstate_scheme run" where
  "table_alloc mal f s =
     (case malloc_state mal s of
        (None, s) \<Rightarrow> return s
      | (Some e, s) \<Rightarrow>
          bindR (Some (set_fd e f s)) (\<lambda>s.
          bindR (Some (lock s)) (\<lambda>s.
          bindR (Some (bucket (hash f))) (\<lambda>i.
          bindR (Some (LIST_INSERT_HEAD i e (htable s))) (\<lambda>h.
          return (unlock (s\<lparr>htable := h\<rparr>)))))))"

definition table_free_state :: "nat \<Rightarrow> 'z tstate_scheme \<Rightarrow> 'z tstate_scheme run" where
  "table_free_state e s =
     bindR (Some (lock s)) (\<lambda>s.
     bindR (Some (LIST_REMOVE e (htable s))) (\<lambda>h.
     Some (free_block e (unlock (s\<lparr>htable := h\<rparr>)))))"

definition table_free :: "int \<Rightarrow> 'z tstate_scheme \<Rightarrow> 'z tstate_scheme run" where
  "table_free f s =
     bindR (table_lookup f s) (\<lambda>(state, s).
       case state of None \<Rightarrow> return s | Some e \<Rightarrow> table_free_state e s)"

section \<open>The invariant\<close>

definition fd_of :: "'z tstate_scheme \<Rightarrow> nat \<Rightarrow> int option" where
  "fd_of s e = Option.bind (cont (htable s) e) fd"

definition in_bucket :: "'z tstate_scheme \<Rightarrow> nat \<Rightarrow> nat \<Rightarrow> bool" where
  "in_bucket s i e \<longleftrightarrow> (\<exists>f. fd_of s e = Some f \<and> 0 \<le> f \<and> nat (f mod int NUM_BUCKETS) = i)"

definition table_inv :: "'z tstate_scheme \<Rightarrow> nat list list \<Rightarrow> bool" where
  "table_inv s LL \<longleftrightarrow> rep (htable s) LL \<and> length LL = NUM_BUCKETS \<and> \<not> htable_mutex s \<and>
     wf_mem (memory s) \<and> (\<forall>i < NUM_BUCKETS. \<forall>e \<in> set (LL ! i). in_bucket s i e) \<and>
     (\<forall>e. cont (htable s) e \<noteq> None \<longrightarrow> blocks (memory s) e = Some Struct)"

text \<open>The states of a descriptor, the newest first.\<close>

definition states_of :: "'z tstate_scheme \<Rightarrow> nat list list \<Rightarrow> int \<Rightarrow> nat list" where
  "states_of s LL f =
     (if f < 0 then [] else filter (\<lambda>e. fd_of s e = Some f) (LL ! nat (f mod int NUM_BUCKETS)))"

definition table_abs :: "'z tstate_scheme \<Rightarrow> (int \<Rightarrow> nat list) \<Rightarrow> bool" where
  "table_abs s T \<longleftrightarrow> (\<exists>LL. table_inv s LL \<and> T = states_of s LL)"

lemma hash_nonneg: "0 \<le> f \<Longrightarrow> hash f = f mod int NUM_BUCKETS"
  by (cases "f = 0") (simp_all add: hash_def signed_modulo_int_def NUM_BUCKETS_def)

lemma bucket_hash: "0 \<le> f \<Longrightarrow> bucket (hash f) = Inr (nat (f mod int NUM_BUCKETS))"
  by (simp add: bucket_def hash_nonneg NUM_BUCKETS_def)

lemma hash_neg: "f < 0 \<Longrightarrow> hash f = - ((- f) mod int NUM_BUCKETS)"
  by (simp add: hash_def signed_modulo_int_def NUM_BUCKETS_def)

lemma bucket_hash_neg: "f < 0 \<Longrightarrow> \<not> 1024 dvd f \<Longrightarrow> bucket (hash f) = Inl OutOfBounds"
  using pos_mod_sign [of 1024 "- f"]
  by (auto simp: bucket_def hash_neg NUM_BUCKETS_def dvd_eq_mod_eq_0 zmod_zminus1_eq_if)


section \<open>The operations keep the invariant\<close>

lemma tstate_unlock_lock: "\<not> htable_mutex s \<Longrightarrow> unlock (s\<lparr>htable_mutex := True\<rparr>) = s"
  by (simp add: unlock_def)

lemma first_match_fd:
  assumes "\<And>e. e \<in> set es \<Longrightarrow> fd_of s e \<noteq> None"
  shows "first_match (match_fd f) (cont (htable s)) es =
    (case filter (\<lambda>e. fd_of s e = Some f) es of [] \<Rightarrow> None | e # _ \<Rightarrow> Some (e, Inr ()))"
  using assms
proof (induction es)
  case (Cons e es)
  then obtain d g where d: "cont (htable s) e = Some d" "fd d = Some g"
    by (fastforce simp: fd_of_def bind_eq_Some_conv)
  then have "Option.bind (cont (htable s) e) (match_fd f) = (if g = f then Some (Inr ()) else None)"
    "fd_of s e = Some g" by (simp_all add: match_fd_def fd_of_def)
  then show ?case using Cons by simp
qed simp

lemma table_inv_fd: "table_inv s LL \<Longrightarrow> i < NUM_BUCKETS \<Longrightarrow> e \<in> set (LL ! i) \<Longrightarrow> in_bucket s i e"
  by (simp add: table_inv_def)

lemma bucket_less: "nat (f mod int NUM_BUCKETS) < NUM_BUCKETS"
  by (simp add: NUM_BUCKETS_def nat_less_iff)

lemma table_lookup_inv:
  assumes inv: "table_inv s LL" and f: "0 \<le> f"
  shows "table_lookup f s =
    return (case states_of s LL f of [] \<Rightarrow> None | e # _ \<Rightarrow> Some e, s)"
proof -
  let ?i = "nat (f mod int NUM_BUCKETS)"
  have LL: "rep (htable s) LL" "?i < length LL" "\<not> htable_mutex s"
    using inv bucket_less [of f] by (simp_all add: table_inv_def)
  have "fd_of s e \<noteq> None" if "e \<in> set (LL ! ?i)" for e
    using table_inv_fd [OF inv bucket_less that] by (auto simp: in_bucket_def)
  note fm = first_match_fd [OF this, of "LL ! ?i" f]
  have fe: "LIST_FOREACH (match_fd f) (htable (s\<lparr>htable_mutex := True\<rparr>)) ?i = return
      (case states_of s LL f of [] \<Rightarrow> None | e # _ \<Rightarrow> Some (e, Inr ()))"
    using lists.search_ok [OF LL(1,2), of "match_fd f"] fm f by (simp add: states_of_def)
  have "lock s = Inr (s\<lparr>htable_mutex := True\<rparr>)" using LL(3) by (simp add: lock_def)
  then show ?thesis
    unfolding table_lookup_def bucket_hash [OF f]
    using fe tstate_unlock_lock [OF LL(3)] by (simp split: list.split)
qed

lemma not_member: "table_inv s LL \<Longrightarrow> cont (htable s) e = None \<Longrightarrow> e \<notin> members LL"
  by (auto simp: table_inv_def cont_def dest: rep_elems)

lemma fresh_not_cont: "table_inv s LL \<Longrightarrow> cont (htable s) (nextb (memory s)) = None"
  by (rule ccontr) (auto simp: table_inv_def)

text \<open>How the stacks of the descriptors change with a list.\<close>

lemma in_bucket_cong: "fd_of s' e = fd_of s e \<Longrightarrow> in_bucket s' i e = in_bucket s i e"
  by (simp add: in_bucket_def)

lemma states_of_push:
  assumes "0 \<le> f" and "length LL = NUM_BUCKETS" and "fd_of s' e = Some f"
    and "\<And>a. a \<in> members LL \<Longrightarrow> fd_of s' a = fd_of s a"
  shows "states_of s' (LL[nat (f mod int NUM_BUCKETS) := e # LL ! nat (f mod int NUM_BUCKETS)]) =
    (states_of s LL)(f := e # states_of s LL f)"
proof
  fix g
  have i: "nat (g mod int NUM_BUCKETS) < length LL" for g using assms(2) bucket_less by simp
  then have "filter (\<lambda>a. fd_of s' a = Some g) (LL ! nat (g mod int NUM_BUCKETS)) =
      filter (\<lambda>a. fd_of s a = Some g) (LL ! nat (g mod int NUM_BUCKETS))" for g
    using assms(4) [OF membersI [OF i]] by (intro filter_cong) auto
  then show "states_of s' (LL[nat (f mod int NUM_BUCKETS) := e # LL ! nat (f mod int NUM_BUCKETS)]) g =
    ((states_of s LL)(f := e # states_of s LL f)) g"
    using assms(1,3) i by (auto simp: states_of_def nth_list_update)
qed

lemma states_of_pop:
  assumes "0 \<le> f" and "length LL = NUM_BUCKETS" and "fd_of s e = Some f"
    and "distinct (LL ! nat (f mod int NUM_BUCKETS))"
    and "\<And>a. a \<in> members LL \<Longrightarrow> a \<noteq> e \<Longrightarrow> fd_of s' a = fd_of s a"
    and "\<And>i. i < NUM_BUCKETS \<Longrightarrow> i \<noteq> nat (f mod int NUM_BUCKETS) \<Longrightarrow> e \<notin> set (LL ! i)"
  shows "states_of s' (LL[nat (f mod int NUM_BUCKETS) := remove1 e (LL ! nat (f mod int NUM_BUCKETS))]) =
    (states_of s LL)(f := remove1 e (states_of s LL f))"
proof
  fix g
  let ?i = "nat (f mod int NUM_BUCKETS)" and ?j = "nat (g mod int NUM_BUCKETS)"
  have i: "?i < length LL" "?j < length LL" using assms(2) bucket_less by simp_all
  show "states_of s' (LL[?i := remove1 e (LL ! ?i)]) g = ((states_of s LL)(f := remove1 e (states_of s LL f))) g"
  proof (cases "?j = ?i")
    case True
    have "filter (\<lambda>a. fd_of s' a = Some g) (remove1 e (LL ! ?i)) =
        filter (\<lambda>a. fd_of s a = Some g) (remove1 e (LL ! ?i))"
      using assms(4) assms(5) [OF membersI [OF i(1)]] by (intro filter_cong) auto
    also have "\<dots> = remove1 e (filter (\<lambda>a. fd_of s a = Some g) (LL ! ?i))"
      by (rule filter_remove1)
    finally show ?thesis
      using True i assms(1,3) by (auto simp: states_of_def remove1_idem)
  next
    case False
    then have "fd_of s' a = fd_of s a" if "a \<in> set (LL ! ?j)" for a
      using assms(5) [OF membersI [OF i(2) that]] assms(6) [OF bucket_less False] that by metis
    then have "filter (\<lambda>a. fd_of s' a = Some g) (LL ! ?j) = filter (\<lambda>a. fd_of s a = Some g) (LL ! ?j)"
      by (intro filter_cong) auto
    then show ?thesis using False i by (auto simp: states_of_def)
  qed
qed


text \<open>
  The four steps that change the table, each on its own: a state is made, linked, unlinked and
  freed. Whether the mutex is held does not matter for them, \<open>unlock\<close> hides it.
\<close>

lemma htable_unlock [simp]:
  "htable (unlock s) = htable s" "memory (unlock s) = memory s" "\<not> htable_mutex (unlock s)"
  "fd_of (unlock s) = fd_of s" "states_of (unlock s) = states_of s" "in_bucket (unlock s) = in_bucket s"
  "trace (unlock s) = trace s" "errno (unlock s) = errno s"
  "tstate.more (unlock s) = tstate.more s" "unlock (unlock s) = unlock s"
  by (simp_all add: unlock_def fd_of_def states_of_def in_bucket_def fun_eq_iff)

lemma unlock_free: "\<not> htable_mutex s \<Longrightarrow> unlock s = s"
  by (simp add: unlock_def)

lemma unlock_eq [simp]: "unlock (s\<lparr>htable_mutex := v\<rparr>) = unlock s"
  by (simp add: unlock_def)

definition make_state :: "nat \<Rightarrow> int \<Rightarrow> 'z tstate_scheme \<Rightarrow> 'z tstate_scheme" where
  "make_state e f s = s\<lparr>memory := snd (new_block Struct (memory s)),
     htable := (htable s)\<lparr>elems := (elems (htable s))(e \<mapsto>
       \<lparr>le_next = None, le_prev = Nowhere, content = \<lparr>fd = Some f, established = None\<rparr>\<rparr>)\<rparr>\<rparr>"

lemma make_state_fd:
  "fd_of (make_state e f s) a = (if a = e then Some f else fd_of s a)"
  by (simp add: make_state_def fd_of_def cont_def)

lemma malloc_then_set:
  assumes "mal (nextb (memory s)) SIZEOF_SOCKET_STATE"
  shows "\<exists>s'. malloc_state mal s = (Some (nextb (memory s)), s') \<and>
    set_fd (nextb (memory s)) f s' = Inr (make_state (nextb (memory s)) f s)"
  using assms
  by (simp add: malloc_state_def calloc_struct_def new_block_def set_fd_def get_elem_def make_state_def)

lemma fd_of_cont: "fd_of s e = Some f \<Longrightarrow> cont (htable s) e \<noteq> None"
  by (cases "cont (htable s) e") (simp_all add: fd_of_def)

lemma states_of_cong:
  assumes "length LL = NUM_BUCKETS" and "\<And>a. a \<in> members LL \<Longrightarrow> fd_of s' a = fd_of s a"
  shows "states_of s' LL = states_of s LL"
proof
  fix g
  have "nat (g mod int NUM_BUCKETS) < length LL" using assms(1) bucket_less by simp
  then have "fd_of s' a = fd_of s a" if "a \<in> set (LL ! nat (g mod int NUM_BUCKETS))" for a
    using assms(2) membersI that by blast
  then have "filter (\<lambda>a. fd_of s' a = Some g) (LL ! nat (g mod int NUM_BUCKETS)) =
      filter (\<lambda>a. fd_of s a = Some g) (LL ! nat (g mod int NUM_BUCKETS))"
    by (intro filter_cong) simp_all
  then show "states_of s' LL g = states_of s LL g" by (simp add: states_of_def)
qed

lemma table_inv_make:
  assumes inv: "table_inv (unlock s) LL" and e: "e = nextb (memory s)"
  shows "table_inv (unlock (make_state e f s)) LL" and "states_of (make_state e f s) LL = states_of s LL"
    and "e \<notin> members LL"
proof -
  have LL: "rep (htable s) LL" "length LL = NUM_BUCKETS" "wf_mem (memory s)"
    using inv by (simp_all add: table_inv_def)
  show ne: "e \<notin> members LL" using not_member [OF inv] fresh_not_cont [OF inv] e by simp
  have fo: "fd_of (make_state e f s) a = fd_of s a" if "a \<in> members LL" for a
    using that ne by (auto simp: make_state_fd)
  show "states_of (make_state e f s) LL = states_of s LL" by (rule states_of_cong [OF LL(2) fo])
  have "rep (htable (make_state e f s)) LL"
    by (rule rep_frame [OF LL(1)]) (use ne in \<open>auto simp: make_state_def\<close>)
  moreover have "in_bucket (make_state e f s) i a" if "i < NUM_BUCKETS" "a \<in> set (LL ! i)" for i a
  proof -
    have "a \<in> members LL" by (rule membersI [of i]) (use that LL(2) in simp_all)
    then have "fd_of (make_state e f s) a = fd_of s a" by (rule fo)
    then have "in_bucket (make_state e f s) i a = in_bucket s i a" by (rule in_bucket_cong)
    moreover have "in_bucket s i a" using table_inv_fd [OF inv that] by simp
    ultimately show ?thesis by blast
  qed
  moreover have "blocks (memory (make_state e f s)) a = Some Struct" if "cont (htable (make_state e f s)) a \<noteq> None" for a
    using inv that e by (auto simp: make_state_def cont_def new_block_def table_inv_def split: if_splits)
  ultimately show "table_inv (unlock (make_state e f s)) LL"
    using LL by (simp add: table_inv_def make_state_def)
qed

lemma table_inv_insert:
  assumes inv: "table_inv (unlock s) LL" and f: "0 \<le> f" and e: "fd_of s e = Some f" "e \<notin> members LL"
    and i: "i = nat (f mod int NUM_BUCKETS)"
  shows "\<exists>h. LIST_INSERT_HEAD i e (htable s) = Inr h \<and>
    table_inv (unlock (s\<lparr>htable := h\<rparr>)) (LL[i := e # LL ! i]) \<and> fd_of (s\<lparr>htable := h\<rparr>) = fd_of s \<and>
    states_of (s\<lparr>htable := h\<rparr>) (LL[i := e # LL ! i]) = (states_of s LL)(f := e # states_of s LL f)"
proof -
  have LL: "rep (htable s) LL" "length LL = NUM_BUCKETS" "wf_mem (memory s)"
    using inv by (simp_all add: table_inv_def)
  have il: "i < length LL" using LL(2) bucket_less i by simp
  obtain h where h: "LIST_INSERT_HEAD i e (htable s) = Inr h" "rep h (LL[i := e # LL ! i])" "cont h = cont (htable s)"
    using lists.insert_ok [OF LL(1) il e(2) fd_of_cont [OF e(1)]] by blast
  let ?s = "s\<lparr>htable := h\<rparr>" and ?LL = "LL[i := e # LL ! i]"
  have fo: "fd_of ?s a = fd_of s a" for a by (simp add: fd_of_def h(3))
  have "in_bucket ?s k a" if k: "k < NUM_BUCKETS" and a: "a \<in> set (?LL ! k)" for k a
  proof (cases "a \<in> set (LL ! k)")
    case True
    then have "in_bucket s k a" using table_inv_fd [OF inv k] by simp
    then show ?thesis using in_bucket_cong [where s = s and s' = ?s, OF fo] by blast
  next
    case False
    then have "a = e" "k = i" using a k il LL(2) by (auto simp: nth_list_update split: if_splits)
    then show ?thesis using e(1) f i fo by (simp add: in_bucket_def)
  qed
  then have "table_inv (unlock ?s) ?LL"
    using inv h(2,3) LL by (simp add: table_inv_def)
  then show ?thesis using h(1) fo states_of_push [OF f LL(2), of ?s e s] e(1) i by auto
qed

lemma table_inv_remove:
  assumes inv: "table_inv (unlock s) LL" and e: "e \<in> set (states_of s LL f)"
    and i: "i = nat (f mod int NUM_BUCKETS)"
  shows "\<exists>h. LIST_REMOVE e (htable s) = Inr h \<and>
    table_inv (unlock (s\<lparr>htable := h\<rparr>)) (LL[i := remove1 e (LL ! i)]) \<and> fd_of (s\<lparr>htable := h\<rparr>) = fd_of s \<and>
    states_of (s\<lparr>htable := h\<rparr>) (LL[i := remove1 e (LL ! i)]) = (states_of s LL)(f := remove1 e (states_of s LL f)) \<and>
    members (LL[i := remove1 e (LL ! i)]) = members LL - {e}"
proof -
  have f: "0 \<le> f" "e \<in> set (LL ! i)" "fd_of s e = Some f"
    using e i by (auto simp: states_of_def split: if_splits)
  have LL: "rep (htable s) LL" "length LL = NUM_BUCKETS" "wf_mem (memory s)"
    using inv by (simp_all add: table_inv_def)
  have il: "i < length LL" using LL(2) bucket_less i by simp
  obtain h where h: "LIST_REMOVE e (htable s) = Inr h" "rep h (LL[i := remove1 e (LL ! i)])" "cont h = cont (htable s)"
    using lists.remove_ok [OF LL(1) il f(2)] by blast
  let ?s = "s\<lparr>htable := h\<rparr>" and ?LL = "LL[i := remove1 e (LL ! i)]"
  have fo: "fd_of ?s a = fd_of s a" for a by (simp add: fd_of_def h(3))
  have d: "distinct (LL ! i)" by (rule rep_distinct [OF LL(1) il])
  have oth: "e \<notin> set (LL ! k)" if "k < NUM_BUCKETS" "k \<noteq> i" for k
    using rep_other [OF LL(1) il _ _ f(2), of k] that LL(2) by simp
  have set_eq: "set (?LL ! k) = set (LL ! k) - {e}" if "k < NUM_BUCKETS" for k
    using oth [OF that] d il by (auto simp: nth_list_update)
  have "in_bucket ?s k a" if "k < NUM_BUCKETS" "a \<in> set (?LL ! k)" for k a
  proof -
    have "in_bucket s k a" using table_inv_fd [OF inv that(1), of a] set_eq [OF that(1)] that(2) by simp
    then show ?thesis using in_bucket_cong [where s = s and s' = ?s, OF fo] by blast
  qed
  then have "table_inv (unlock ?s) ?LL"
    using inv h(2,3) LL by (simp add: table_inv_def)
  moreover have "members ?LL = members LL - {e}"
    using set_eq LL(2) unfolding members_UN by auto
  ultimately show ?thesis
    using h(1) fo states_of_pop [OF f(1) LL(2) f(3), of ?s] d oth i by auto
qed

lemma table_inv_free:
  assumes inv: "table_inv (unlock s) LL" and e: "fd_of s e \<noteq> None" "e \<notin> members LL"
  shows "\<exists>s'. free_block e s = Inr s' \<and> table_inv (unlock s') LL \<and> states_of s' LL = states_of s LL \<and>
    (\<forall>a. fd_of s' a = (if a = e then None else fd_of s a)) \<and> htable_mutex s' = htable_mutex s \<and>
    s' = s\<lparr>memory := drop_block e (memory s), htable := (htable s)\<lparr>elems := (elems (htable s))(e := None)\<rparr>\<rparr>"
proof -
  let ?s = "s\<lparr>memory := drop_block e (memory s), htable := (htable s)\<lparr>elems := (elems (htable s))(e := None)\<rparr>\<rparr>"
  have LL: "rep (htable s) LL" "length LL = NUM_BUCKETS" "wf_mem (memory s)"
    using inv by (simp_all add: table_inv_def)
  have "cont (htable s) e \<noteq> None" using e(1) fd_of_cont by blast
  then have "blocks (memory s) e = Some Struct" using inv by (simp add: table_inv_def)
  then have run: "free_block e s = Inr ?s" by (simp add: free_block_def free_struct_def)
  have ch: "cont (htable ?s) a = (if a = e then None else cont (htable s) a)" for a
    by (simp add: cont_def)
  then have fo: "fd_of ?s a = (if a = e then None else fd_of s a)" for a by (simp add: fd_of_def)
  have st: "states_of ?s LL = states_of s LL"
    by (rule states_of_cong [OF LL(2)]) (use fo e(2) in auto)
  have "rep (htable ?s) LL"
    by (rule rep_frame [OF LL(1)]) (use e(2) in auto)
  moreover have "in_bucket ?s k a" if "k < NUM_BUCKETS" "a \<in> set (LL ! k)" for k a
  proof -
    have "a \<in> members LL" by (rule membersI [of k]) (use that LL(2) in simp_all)
    then have "a \<noteq> e" using e(2) by blast
    then have "fd_of ?s a = fd_of s a" using fo [of a] by simp
    then have "in_bucket ?s k a = in_bucket s k a" by (rule in_bucket_cong)
    moreover have "in_bucket s k a" using table_inv_fd [OF inv that] by simp
    ultimately show ?thesis by blast
  qed
  moreover have "blocks (memory ?s) a = Some Struct" if "cont (htable ?s) a \<noteq> None" for a
    using inv that ch by (auto simp: drop_block_def table_inv_def split: if_splits)
  ultimately have "table_inv (unlock ?s) LL"
    using LL by (simp add: table_inv_def)
  then show ?thesis using run st fo by auto
qed

text \<open>Allocation of a state for a descriptor.\<close>

lemma table_inv_unlocked: "table_inv s LL \<longleftrightarrow> table_inv (unlock s) LL \<and> \<not> htable_mutex s"
  by (auto simp: table_inv_def)

lemma table_alloc_fails:
  "\<not> mal (nextb (memory s)) SIZEOF_SOCKET_STATE \<Longrightarrow> table_alloc mal f s = return s"
  by (simp add: table_alloc_def malloc_state_def calloc_struct_def)

lemma table_alloc_inv:
  assumes inv: "table_inv s LL" and f: "0 \<le> f" and mal: "mal (nextb (memory s)) SIZEOF_SOCKET_STATE"
  shows "\<exists>s' LL'. table_alloc mal f s = return s' \<and> table_inv s' LL' \<and>
    states_of s' LL' = (states_of s LL)(f := nextb (memory s) # states_of s LL f) \<and>
    memory s' = snd (new_block Struct (memory s)) \<and> trace s' = trace s \<and> errno s' = errno s \<and> tstate.more s' = tstate.more s"
proof -
  let ?e = "nextb (memory s)" and ?i = "nat (f mod int NUM_BUCKETS)"
  let ?t = "make_state ?e f s"
  have inv': "table_inv (unlock s) LL" and unl: "\<not> htable_mutex s" using inv table_inv_unlocked by blast+
  have mk: "table_inv (unlock ?t) LL" "states_of ?t LL = states_of s LL" "?e \<notin> members LL"
    using table_inv_make [OF inv' refl] by blast+
  obtain s1 where s1: "malloc_state mal s = (Some ?e, s1)" "set_fd ?e f s1 = Inr ?t"
    using malloc_then_set [where mal = mal and s = s, OF mal] by blast
  obtain h where h: "LIST_INSERT_HEAD ?i ?e (htable ?t) = Inr h"
    "table_inv (unlock (?t\<lparr>htable := h\<rparr>)) (LL[?i := ?e # LL ! ?i])"
    "states_of (?t\<lparr>htable := h\<rparr>) (LL[?i := ?e # LL ! ?i]) = (states_of s LL)(f := ?e # states_of s LL f)"
    using table_inv_insert [OF mk(1) f _ mk(3) refl] mk(2) by (auto simp: make_state_fd)
  have ht: "\<not> htable_mutex ?t" using unl by (simp add: make_state_def)
  then have "table_alloc mal f s = return (?t\<lparr>htable := h\<rparr>)"
    using h(1) s1 by (simp add: table_alloc_def bucket_hash [OF f] lock_def unlock_def)
  moreover have "table_inv (?t\<lparr>htable := h\<rparr>) (LL[?i := ?e # LL ! ?i])"
    using h(2) ht table_inv_unlocked [of "?t\<lparr>htable := h\<rparr>"] by simp
  ultimately show ?thesis
    using h(3) by (intro exI [of _ "?t\<lparr>htable := h\<rparr>"] exI [of _ "LL[?i := ?e # LL ! ?i]"]) (simp add: make_state_def)
qed

text \<open>Release of a state.\<close>

lemma table_free_state_inv:
  assumes inv: "table_inv s LL" and e: "e \<in> set (states_of s LL f)"
  shows "\<exists>s' LL'. table_free_state e s = return s' \<and> table_inv s' LL' \<and>
    states_of s' LL' = (states_of s LL)(f := remove1 e (states_of s LL f)) \<and>
    memory s' = drop_block e (memory s) \<and> trace s' = trace s \<and> errno s' = errno s \<and> tstate.more s' = tstate.more s"
proof -
  let ?i = "nat (f mod int NUM_BUCKETS)"
  let ?LL = "LL[?i := remove1 e (LL ! ?i)]"
  have inv': "table_inv (unlock s) LL" and unl: "\<not> htable_mutex s" using inv table_inv_unlocked by blast+
  have fe: "fd_of s e \<noteq> None" using e by (auto simp: states_of_def split: if_splits)
  obtain h where h: "LIST_REMOVE e (htable s) = Inr h" "table_inv (unlock (s\<lparr>htable := h\<rparr>)) ?LL"
    "fd_of (s\<lparr>htable := h\<rparr>) = fd_of s"
    "states_of (s\<lparr>htable := h\<rparr>) ?LL = (states_of s LL)(f := remove1 e (states_of s LL f))"
    "members ?LL = members LL - {e}"
    using table_inv_remove [OF inv' e refl] by blast
  obtain s' where s': "free_block e (s\<lparr>htable := h\<rparr>) = Inr s'" "table_inv (unlock s') ?LL"
    "states_of s' ?LL = states_of (s\<lparr>htable := h\<rparr>) ?LL" "htable_mutex s' = htable_mutex s"
    "s' = s\<lparr>memory := drop_block e (memory s), htable := h\<lparr>elems := (elems h)(e := None)\<rparr>\<rparr>"
    using table_inv_free [OF h(2), of e] h(3,5) fe by auto
  have eq: "unlock (s\<lparr>htable_mutex := True, htable := h\<rparr>) = s\<lparr>htable := h\<rparr>"
    using unl by (cases s) (simp add: unlock_def)
  have lk: "lock s = Inr (s\<lparr>htable_mutex := True\<rparr>)" using unl by (simp add: lock_def)
  have "htable (s\<lparr>htable_mutex := True\<rparr>) = htable s" by simp
  then have "table_free_state e s = return s'"
    by (simp only: table_free_state_def lk bindR.simps h(1) eq s'(1))
  moreover have "table_inv s' ?LL" using s'(2,4) unl table_inv_unlocked [of s'] by simp
  ultimately show ?thesis using s'(3,5) h(4) by (intro exI [of _ s'] exI [of _ ?LL]) simp
qed


section \<open>The contract of the table\<close>

text \<open>
  A table of tracked descriptors keeps a stack of handles per descriptor: looking up gives
  the newest, an allocation pushes one or, out of memory, does nothing, a release takes one
  away. Releasing by descriptor is looking up and releasing.
\<close>

locale fd_table =
  fixes abs :: "'s \<Rightarrow> (int \<Rightarrow> nat list) \<Rightarrow> bool"
    and lookup :: "int \<Rightarrow> 's \<Rightarrow> (nat option \<times> 's) run"
    and track :: "int \<Rightarrow> 's \<Rightarrow> 's run"
    and release :: "nat \<Rightarrow> 's \<Rightarrow> 's run"
    and untrack :: "int \<Rightarrow> 's \<Rightarrow> 's run"
  assumes lookup_ok: "abs s T \<Longrightarrow> 0 \<le> f \<Longrightarrow>
      lookup f s = return (case T f of [] \<Rightarrow> None | e # _ \<Rightarrow> Some e, s)"
    and track_ok: "abs s T \<Longrightarrow> 0 \<le> f \<Longrightarrow>
      \<exists>s'. track f s = return s' \<and> (abs s' T \<or> (\<exists>e. (\<forall>g. e \<notin> set (T g)) \<and> abs s' (T(f := e # T f))))"
    and release_ok: "abs s T \<Longrightarrow> e \<in> set (T f) \<Longrightarrow>
      \<exists>s'. release e s = return s' \<and> abs s' (T(f := remove1 e (T f)))"
    and untrack_eq: "untrack f s = bindR (lookup f s)
      (\<lambda>(state, s). case state of None \<Rightarrow> return s | Some e \<Rightarrow> release e s)"
begin

lemma untrack_ok:
  assumes "abs s T" and "0 \<le> f"
  shows "\<exists>s'. untrack f s = return s' \<and> abs s' (T(f := tl (T f)))"
proof (cases "T f")
  case Nil
  then have "T(f := tl (T f)) = T" by auto
  then show ?thesis using lookup_ok [OF assms] assms(1) Nil by (simp add: untrack_eq)
next
  case (Cons e es)
  then show ?thesis using lookup_ok [OF assms] release_ok [OF assms(1), of e f] by (simp add: untrack_eq)
qed

text \<open>Any sequence of openings and closings runs through and leaves a table.\<close>

fun run_ops :: "(bool \<times> int) list \<Rightarrow> 's \<Rightarrow> 's run" where
  "run_ops [] s = return s"
| "run_ops ((opened, f) # ops) s = bindR (if opened then track f s else untrack f s) (run_ops ops)"

lemma run_ops_ok:
  "abs s T \<Longrightarrow> list_all (\<lambda>(opened, f). 0 \<le> f) ops \<Longrightarrow> \<exists>s' T'. run_ops ops s = return s' \<and> abs s' T'"
proof (induction ops arbitrary: s T)
  case (Cons op ops)
  obtain opened f where op: "op = (opened, f)" "0 \<le> f" using Cons.prems(2) by (cases op) auto
  then have "\<exists>s' T'. (if opened then track f s else untrack f s) = return s' \<and> abs s' T'"
    using track_ok [OF Cons.prems(1) op(2)] untrack_ok [OF Cons.prems(1) op(2)] by (cases opened) auto
  then obtain s' T' where "(if opened then track f s else untrack f s) = return s'" "abs s' T'" by blast
  then show ?case using Cons.IH [of s' T'] Cons.prems(2) op by simp
qed auto

end

lemma table_abs_lookup:
  "table_abs s T \<Longrightarrow> 0 \<le> f \<Longrightarrow> table_lookup f s = return (case T f of [] \<Rightarrow> None | e # _ \<Rightarrow> Some e, s)"
  by (auto simp: table_abs_def table_lookup_inv)

lemma states_of_members: "table_inv s LL \<Longrightarrow> e \<in> set (states_of s LL f) \<Longrightarrow> e \<in> members LL"
  using bucket_less [of f] by (auto simp: states_of_def table_inv_def intro: membersI split: if_splits)

lemma table_abs_alloc:
  assumes "table_abs s T" and "0 \<le> f"
  shows "\<exists>s'. table_alloc mal f s = return s' \<and> trace s' = trace s \<and> errno s' = errno s \<and> tstate.more s' = tstate.more s \<and>
    (if mal (nextb (memory s)) SIZEOF_SOCKET_STATE
     then table_abs s' (T(f := nextb (memory s) # T f)) \<and> memory s' = snd (new_block Struct (memory s))
     else s' = s)"
  using assms table_alloc_fails table_alloc_inv [where mal = mal and f = f and s = s]
  by (cases "mal (nextb (memory s)) SIZEOF_SOCKET_STATE") (fastforce simp: table_abs_def)+

lemma table_abs_fd:
  assumes "table_abs s T" and "e \<in> set (T f)"
  shows "get_fd e s = Inr f"
proof -
  obtain LL where "table_inv s LL" "T = states_of s LL" using assms(1) by (auto simp: table_abs_def)
  then have "fd_of s e = Some f" using assms(2) by (auto simp: states_of_def split: if_splits)
  then show ?thesis
    by (auto simp: get_fd_def get_elem_def fd_of_def cont_def bind_eq_Some_conv split: option.splits)
qed

lemma table_abs_fresh:
  assumes "table_abs s T"
  shows "nextb (memory s) \<notin> set (T g)"
proof -
  obtain LL where LL: "table_inv s LL" "T = states_of s LL" using assms by (auto simp: table_abs_def)
  then show ?thesis using states_of_members not_member fresh_not_cont by metis
qed

lemma table_abs_free_state:
  assumes "table_abs s T" and "e \<in> set (T f)"
  shows "\<exists>s'. table_free_state e s = return s' \<and> table_abs s' (T(f := remove1 e (T f))) \<and>
    memory s' = drop_block e (memory s) \<and> trace s' = trace s \<and> errno s' = errno s \<and> tstate.more s' = tstate.more s"
  using assms table_free_state_inv unfolding table_abs_def by metis

interpretation table: fd_table table_abs table_lookup "table_alloc mal" table_free_state table_free for mal
proof
  fix s :: "'a tstate_scheme" and T f e
  assume a: "table_abs s T"
  show "table_lookup f s = return (case T f of [] \<Rightarrow> None | e # _ \<Rightarrow> Some e, s)" if "0 \<le> f"
    using a that by (rule table_abs_lookup)
  show "\<exists>s'. table_alloc mal f s = return s' \<and>
      (table_abs s' T \<or> (\<exists>e. (\<forall>g. e \<notin> set (T g)) \<and> table_abs s' (T(f := e # T f))))" if "0 \<le> f"
    using table_abs_alloc [OF a that, of mal] table_abs_fresh [OF a] a by (auto split: if_splits)
  show "\<exists>s'. table_free_state e s = return s' \<and> table_abs s' (T(f := remove1 e (T f)))" if "e \<in> set (T f)"
    using table_abs_free_state [OF a that] by blast
qed (simp add: table_free_def)


section \<open>Properties\<close>

text \<open>The table at program start: empty buckets, the mutex free.\<close>

definition empty_table :: tstate where
  "empty_table = \<lparr>memory = mem_of [], trace = [], errno = 0,
     htable = \<lparr>heads = replicate NUM_BUCKETS None, elems = Map.empty\<rparr>, htable_mutex = False\<rparr>"

lemma table_abs_no_states:
  assumes "heads (htable s) = replicate NUM_BUCKETS None" and "elems (htable s) = Map.empty"
    and "\<not> htable_mutex s" and "wf_mem (memory s)"
  shows "table_abs s (\<lambda>f. [])"
proof -
  let ?LL = "replicate NUM_BUCKETS ([] :: nat list)"
  have "table_inv s ?LL"
    using assms by (simp add: table_inv_def rep_def separate_def cont_def)
  moreover have "states_of s ?LL = (\<lambda>f. [])"
    using bucket_less by (auto simp: states_of_def)
  ultimately show ?thesis unfolding table_abs_def by metis
qed

lemma table_abs_empty: "table_abs empty_table (\<lambda>f. [])"
  by (rule table_abs_no_states) (simp_all add: empty_table_def)

text \<open>
  A history of sockets opened (\<open>True\<close>) and closed, and the number of states that a descriptor
  is left with if it had \<open>d\<close> of them before.
\<close>

fun run_history :: "alloc \<Rightarrow> (bool \<times> int) list \<Rightarrow> 'z tstate_scheme \<Rightarrow> 'z tstate_scheme run" where
  "run_history mal [] s = return s"
| "run_history mal ((opened, f) # ops) s =
     bindR (if opened then table_alloc mal f s else table_free f s) (run_history mal ops)"

fun depth :: "(bool \<times> int) list \<Rightarrow> int \<Rightarrow> nat \<Rightarrow> nat" where
  "depth [] f d = d"
| "depth ((opened, g) # ops) f d = depth ops f (if g \<noteq> f then d else if opened then Suc d else d - 1)"

lemma run_history_depth:
  "table_abs s T \<Longrightarrow> list_all (\<lambda>(opened, f). 0 \<le> f) ops \<Longrightarrow>
   \<exists>s' T'. run_history plenty ops s = return s' \<and> table_abs s' T' \<and>
     (\<forall>f. length (T' f) = depth ops f (length (T f)))"
proof (induction ops arbitrary: s T)
  case (Cons op ops)
  obtain opened g where op: "op = (opened, g)" "0 \<le> g" using Cons.prems(2) by (cases op) auto
  have m: "plenty (nextb (memory s)) SIZEOF_SOCKET_STATE"
    by (simp add: plenty_def SIZEOF_SOCKET_STATE_def PTRDIFF_MAX_def)
  have "\<exists>s1 T1. (if opened then table_alloc plenty g s else table_free g s) = return s1 \<and> table_abs s1 T1 \<and>
      (\<forall>f. length (T1 f) = (if g \<noteq> f then length (T f) else if opened then Suc (length (T f)) else length (T f) - 1))"
  proof (cases opened)
    case True
    then show ?thesis using table_abs_alloc [OF Cons.prems(1) op(2), of plenty] m by fastforce
  next
    case False
    then show ?thesis using table.untrack_ok [OF Cons.prems(1) op(2)] by fastforce
  qed
  then obtain s1 T1 where s1: "(if opened then table_alloc plenty g s else table_free g s) = return s1" "table_abs s1 T1"
    "\<And>f. length (T1 f) = (if g \<noteq> f then length (T f) else if opened then Suc (length (T f)) else length (T f) - 1)"
    by blast
  have run: "run_history plenty (op # ops) s = run_history plenty ops s1" using op s1(1) by simp
  obtain s2 T2 where s2: "run_history plenty ops s1 = return s2" "table_abs s2 T2"
    "\<forall>f. length (T2 f) = depth ops f (length (T1 f))"
    using Cons.IH [OF s1(2)] Cons.prems(2) by auto
  then have "\<forall>f. length (T2 f) = depth (op # ops) f (length (T f))"
    using op(1) s1(3) by simp
  then show ?case using run s2 by auto
qed auto

text \<open>
  C23. Every history of openings and closings of descriptors that are not negative runs
  through, without a fault and without waiting for the mutex forever, and leaves for each
  descriptor one state per opening that has not been closed. In particular a descriptor that
  is opened twice needs two closings before the library forgets it.
\<close>

theorem table_history:
  assumes "table_abs s T" and "list_all (\<lambda>(opened, f). 0 \<le> f) ops"
  shows "\<exists>s' T'. run_history plenty ops s = return s' \<and> table_abs s' T' \<and>
    (\<forall>f. length (T' f) = depth ops f (length (T f)))"
  using assms by (rule run_history_depth)

lemma table_history_witness:
  "\<exists>s' T'. run_history plenty [(True, 3), (True, 1027), (True, 3), (False, 3)] empty_table = return s' \<and>
     table_abs s' T' \<and> length (T' 3) = 1 \<and> length (T' 1027) = 1"
proof -
  let ?ops = "[(True, 3), (True, 1027), (True, 3), (False, 3)]"
  obtain s' T' where run: "run_history plenty ?ops empty_table = return s'" "table_abs s' T'"
    and d: "\<forall>f. length (T' f) = depth ?ops f (length ([] :: nat list))"
    using table_history [OF table_abs_empty, of ?ops] by auto
  have "length (T' 3) = 1" "length (T' 1027) = 1" using d by simp_all
  then show ?thesis using run by blast
qed

text \<open>
  Looking up a descriptor gives the state that was allocated for it last and changes
  nothing; whether the buckets hold other descriptors with the same hash does not matter.
\<close>

theorem table_lookup_newest:
  assumes "table_abs s T" and "0 \<le> f"
  shows "table_lookup f s = return (case T f of [] \<Rightarrow> None | e # _ \<Rightarrow> Some e, s)"
  using assms by (rule table_abs_lookup)

lemma table_lookup_newest_witness: "table_lookup 7 empty_table = return (None, empty_table)"
  using table_lookup_newest [OF table_abs_empty, of 7] by simp

text \<open>
  A negative descriptor is hashed to a negative index, because the remainder of C has the
  sign of the dividend: the lookup that \<open>close(-1)\<close> starts reads in front of the array.
\<close>

theorem table_lookup_negative:
  assumes "f < 0" and "\<not> int NUM_BUCKETS dvd f" and "\<not> htable_mutex s"
  shows "table_lookup f s = fail OutOfBounds"
  using assms bucket_hash_neg [of f] by (simp add: table_lookup_def lock_def NUM_BUCKETS_def)

lemma table_lookup_negative_witness: "table_lookup (-1) empty_table = fail OutOfBounds"
  by (rule table_lookup_negative) (simp_all add: NUM_BUCKETS_def empty_table_def)

text \<open>
  Releasing a state takes it off its bucket and frees its block, whatever its position in
  the bucket, and leaves every other state where it was.
\<close>

theorem table_free_state_releases:
  assumes "table_abs s T" and "e \<in> set (T f)"
  shows "\<exists>s'. table_free_state e s = return s' \<and> table_abs s' (T(f := remove1 e (T f))) \<and>
    memory s' = drop_block e (memory s)"
  using table_abs_free_state [OF assms] by blast

lemma table_free_state_releases_witness:
  "\<exists>s e s'. table_alloc plenty 5 empty_table = return s \<and> table_free_state e s = return s' \<and>
     table_abs s' (\<lambda>f. [])"
proof -
  have "plenty (nextb (memory empty_table)) SIZEOF_SOCKET_STATE"
    by (simp add: plenty_def SIZEOF_SOCKET_STATE_def PTRDIFF_MAX_def)
  then obtain s where s: "table_alloc plenty 5 empty_table = return s"
    "table_abs s ((\<lambda>f. [])(5 := [nextb (memory empty_table)]))"
    using table_abs_alloc [OF table_abs_empty, of 5 plenty] by auto
  let ?T = "(\<lambda>f :: int. [])(5 := [nextb (memory empty_table)])"
  have "?T(5 := remove1 (nextb (memory empty_table)) (?T 5)) = (\<lambda>f. [])" by (simp add: fun_eq_iff)
  then show ?thesis
    using table_free_state_releases [OF s(2), of "nextb (memory empty_table)" 5] s(1) by auto
qed

end
