(* ===== verification/TlvSpec.thy ===== *)
theory TlvSpec
  imports ConvertProto
begin

text \<open>
  The abstract side of the codec: type-length-value elements as a datatype, their encoding
  and decoding as functions on byte lists, and the message that a list of TLVs stands for.
  Nothing here allocates, overflows or faults; parser and writer are proved against it.
\<close>

section \<open>TLVs and messages\<close>

datatype tlv =
    Tlv_error byte
  | Tlv_connect u16 "byte list"   \<comment> \<open>port and address as they lie in memory\<close>
  | Tlv_ext "byte list"
  | Tlv_cookie "byte list"

text \<open>What a list of TLVs says, later ones overriding earlier ones of the same type.\<close>

record message =
  msg_flags :: byte
  msg_port :: u16
  msg_addr :: "byte list"
  msg_error :: byte
  msg_tcp_options :: "byte list"
  msg_cookie :: "byte list"

definition empty_message :: message where
  "empty_message = \<lparr>msg_flags = 0, msg_port = 0, msg_addr = replicate 16 0, msg_error = 0,
     msg_tcp_options = [], msg_cookie = []\<rparr>"

fun tlv_type :: "tlv \<Rightarrow> convert_type" where
  "tlv_type (Tlv_error c) = CONVERT_ERROR"
| "tlv_type (Tlv_connect port addr) = CONVERT_CONNECT"
| "tlv_type (Tlv_ext bs) = CONVERT_EXTENDED_TCP_HDR"
| "tlv_type (Tlv_cookie bs) = CONVERT_COOKIE"

fun apply_tlv :: "tlv \<Rightarrow> message \<Rightarrow> message" where
  "apply_tlv (Tlv_error c) g =
     g\<lparr>msg_flags := set_flag CONVERT_ERROR (msg_flags g), msg_error := c\<rparr>"
| "apply_tlv (Tlv_connect port addr) g =
     g\<lparr>msg_flags := set_flag CONVERT_CONNECT (msg_flags g), msg_port := port, msg_addr := addr\<rparr>"
| "apply_tlv (Tlv_ext bs) g =
     g\<lparr>msg_flags := set_flag CONVERT_EXTENDED_TCP_HDR (msg_flags g), msg_tcp_options := bs\<rparr>"
| "apply_tlv (Tlv_cookie bs) g =
     g\<lparr>msg_flags := set_flag CONVERT_COOKIE (msg_flags g), msg_cookie := bs\<rparr>"

definition message_of :: "tlv list \<Rightarrow> message" where
  "message_of ts = fold apply_tlv ts empty_message"

section \<open>Decoding\<close>

text \<open>The first TLV of a byte list and the number of bytes its length field claims.\<close>

definition decode1 :: "byte list \<Rightarrow> (tlv \<times> nat) option" where
  "decode1 bs =
     (if length bs < 4 then None
      else let len = 4 * unat (bs ! 1) in
        if length bs < len then None
        else if bs ! 0 = type_no CONVERT_ERROR then Some (Tlv_error (bs ! 2), len)
        else if bs ! 0 = type_no CONVERT_CONNECT
        then (if len = 20 then Some (Tlv_connect (of_le16 (window 2 2 bs)) (window 4 16 bs), len)
              else None)
        else if bs ! 0 = type_no CONVERT_EXTENDED_TCP_HDR
        then (if len = 0 then None else Some (Tlv_ext (window 4 (len - 4) bs), len))
        else if bs ! 0 = type_no CONVERT_COOKIE
        then (if len = 0 then None else Some (Tlv_cookie (window 4 (len - 4) bs), len))
        else None)"

text \<open>
  The three outcomes of decoding, each with the TLVs met before it: the end of the bytes, a
  malformed rest, or an Error TLV of length 0, which does not move the decoder forward.
\<close>

datatype decoded = Complete "tlv list" | Malformed "tlv list" | Endless "tlv list"

fun put_tlv :: "tlv \<Rightarrow> decoded \<Rightarrow> decoded" where
  "put_tlv t (Complete ts) = Complete (t # ts)"
| "put_tlv t (Malformed ts) = Malformed (t # ts)"
| "put_tlv t (Endless ts) = Endless (t # ts)"

function decode :: "byte list \<Rightarrow> decoded" where
  "decode bs =
     (if bs = [] then Complete []
      else case decode1 bs of
        None \<Rightarrow> Malformed []
      | Some (t, n) \<Rightarrow> if n = 0 then Endless [t] else put_tlv t (decode (drop n bs)))"
  by pat_completeness auto
termination
  by (relation "measure length") (auto split: option.splits)

declare decode.simps [simp del]

lemma decode_Nil [simp]: "decode [] = Complete []"
  by (simp add: decode.simps)

lemma decode_None: "bs \<noteq> [] \<Longrightarrow> decode1 bs = None \<Longrightarrow> decode bs = Malformed []"
  by (simp add: decode.simps)

lemma decode_zero: "bs \<noteq> [] \<Longrightarrow> decode1 bs = Some (t, 0) \<Longrightarrow> decode bs = Endless [t]"
  by (simp add: decode.simps)

lemma decode_step:
  "bs \<noteq> [] \<Longrightarrow> decode1 bs = Some (t, n) \<Longrightarrow> n \<noteq> 0 \<Longrightarrow> decode bs = put_tlv t (decode (drop n bs))"
  by (simp add: decode.simps)

lemma decode1_bounds: "decode1 bs = Some (t, n) \<Longrightarrow> 4 \<le> length bs \<and> n \<le> length bs \<and> n \<le> 1020 \<and> 4 dvd n"
  by (auto simp: decode1_def Let_def split: if_splits)

lemma decode1_zero: "decode1 bs = Some (t, 0) \<Longrightarrow> \<exists>c. t = Tlv_error c"
  by (auto simp: decode1_def Let_def split: if_splits)

section \<open>Encoding\<close>

definition units :: "nat \<Rightarrow> byte" where
  "units n = of_nat (n div 4)"

fun encode1 :: "tlv \<Rightarrow> byte list" where
  "encode1 (Tlv_error c) = [type_no CONVERT_ERROR, units 4, c, 0]"
| "encode1 (Tlv_connect port addr) = [type_no CONVERT_CONNECT, units 20] @ le16 port @ addr"
| "encode1 (Tlv_ext bs) = [type_no CONVERT_EXTENDED_TCP_HDR, units (4 + length bs), 0, 0] @ bs"
| "encode1 (Tlv_cookie bs) = [type_no CONVERT_COOKIE, units (4 + length bs), 0, 0] @ bs"

definition encode :: "tlv list \<Rightarrow> byte list" where
  "encode ts = concat (map encode1 ts)"

text \<open>
  The TLVs that can be encoded: 16 bytes of address, and payloads of a whole number of
  four-byte units that fit the 8-bit length field.
\<close>

fun wf_tlv :: "tlv \<Rightarrow> bool" where
  "wf_tlv (Tlv_error c) \<longleftrightarrow> True"
| "wf_tlv (Tlv_connect port addr) \<longleftrightarrow> length addr = 16"
| "wf_tlv (Tlv_ext bs) \<longleftrightarrow> 4 dvd length bs \<and> length bs \<le> 1016"
| "wf_tlv (Tlv_cookie bs) \<longleftrightarrow> 4 dvd length bs \<and> length bs \<le> 1016"

lemma encode_Nil [simp]: "encode [] = []"
  by (simp add: encode_def)

lemma encode_Cons [simp]: "encode (t # ts) = encode1 t @ encode ts"
  by (simp add: encode_def)

lemma encode_append [simp]: "encode (ts @ us) = encode ts @ encode us"
  by (simp add: encode_def)

lemma unat_units: "n \<le> 1020 \<Longrightarrow> 4 dvd n \<Longrightarrow> 4 * unat (units n) = n"
  by (auto simp: units_def unat_of_nat dvd_def)

lemma length_encode1_dvd: "wf_tlv t \<Longrightarrow> 4 dvd length (encode1 t)"
  by (cases t) (auto, presburger+)

lemma length_encode_dvd: "list_all wf_tlv ts \<Longrightarrow> 4 dvd length (encode ts)"
  by (induction ts) (auto simp: length_encode1_dvd)

lemma encode1_nonempty [simp]: "encode1 t \<noteq> []"
  by (cases t) auto

lemma decode1_encode1: "wf_tlv t \<Longrightarrow> decode1 (encode1 t @ rest) = Some (t, length (encode1 t))"
proof (cases t)
  case (Tlv_error c)
  then show ?thesis using unat_units [of 4] by (simp add: decode1_def)
next
  case (Tlv_connect port addr)
  assume "wf_tlv t"
  then have len: "length addr = 16" using Tlv_connect by simp
  then show ?thesis using Tlv_connect unat_units [of 20]
    by (simp add: decode1_def window_def le16_def) (simp add: le16_def [symmetric])
next
  case (Tlv_ext bs)
  assume "wf_tlv t"
  then show ?thesis using Tlv_ext unat_units [of "4 + length bs"]
    by (simp add: decode1_def window_def)
next
  case (Tlv_cookie bs)
  assume "wf_tlv t"
  then show ?thesis using Tlv_cookie unat_units [of "4 + length bs"]
    by (simp add: decode1_def window_def)
qed

lemma decode_encode: "list_all wf_tlv ts \<Longrightarrow> decode (encode ts) = Complete ts"
proof (induction ts)
  case (Cons t ts)
  then have "decode1 (encode1 t @ encode ts) = Some (t, length (encode1 t))"
    by (simp add: decode1_encode1)
  with Cons show ?case
    by (simp add: decode_step)
qed simp


section \<open>Options that hold a message\<close>

text \<open>The fields of the struct, and the bytes its pointers lead to, are those of the message.\<close>

definition opts_hold :: "mem \<Rightarrow> convert_opts \<Rightarrow> message \<Rightarrow> bool" where
  "opts_hold m opts g \<longleftrightarrow>
     flags opts = msg_flags g \<and> sin6_port (remote_addr opts) = msg_port g \<and>
     sin6_addr (remote_addr opts) = msg_addr g \<and> error_code opts = msg_error g \<and>
     has_bytes m (tcp_options opts) (msg_tcp_options g) \<and>
     unat (tcp_options_len opts) = length (msg_tcp_options g) \<and>
     has_bytes m (cookie_data opts) (msg_cookie g) \<and>
     unat (cookie_len opts) = length (msg_cookie g)"

end
