(* ===== verification/ConvertParse.thy ===== *)
theory ConvertParse
  imports TlvSpec
begin

text \<open>
  The reading half of \<open>lib_convert/convert_util.c\<close>: \<open>convert_parse_header\<close>,
  \<open>convert_parse_tlvs\<close> with its loop over the TLVs and its error exit, and
  \<open>convert_free_opts\<close>, on the checked memory. Then an abstract decoder of byte lists, and the
  proof that the loop computes exactly what the decoder says: the TLVs it accepts, the
  messages it rejects, the blocks it allocates and those it loses, and when it never returns.
\<close>

section \<open>The header\<close>

text \<open>The return code and, when it is 0, what is stored through \<open>tlvs_length\<close>.\<close>

definition convert_parse_header :: "mem \<Rightarrow> ptr \<Rightarrow> size_t \<Rightarrow> fault + int \<times> size_t option" where
  "convert_parse_header m buff buff_len =
     (if buff_len \<noteq> of_nat (sizeof convert_header) then Inr (-1, None)
      else bindE (load8 m (padd buff (offsetof convert_header ''version''))) (\<lambda>version.
        if version \<noteq> CONVERT_VERSION then Inr (-1, None)
        else bindE (load16 m (padd buff (offsetof convert_header ''magic_no''))) (\<lambda>magic_no.
          if ntohs magic_no \<noteq> CONVERT_MAGIC_NO then Inr (-1, None)
          else bindE (load8 m (padd buff (offsetof convert_header ''total_length''))) (\<lambda>total_length.
            Inr (0, Some (CONVERT_TO_BYTES (ucast total_length) -
                          of_nat (sizeof convert_header)))))))"

section \<open>Releasing options\<close>

text \<open>
  A \<open>struct convert_opts *\<close> that is not null: the block of the struct and its fields.
\<close>

type_synonym opts_ptr = "nat \<times> convert_opts"

definition convert_free_opts :: "mem \<Rightarrow> opts_ptr \<Rightarrow> fault + mem" where
  "convert_free_opts m p =
     bindE (free (tcp_options (snd p)) m) (\<lambda>m.
     bindE (free (cookie_data (snd p)) m) (\<lambda>m.
     free_struct (fst p) m))"

section \<open>One TLV\<close>

text \<open>
  The body of the loop either jumps to the label \<open>error_and_free\<close> or reaches its end with
  the options changed and \<open>tlv_len\<close> bytes to skip. One definition per case of the switch.
\<close>

datatype loop_step = Goto_error mem | Next mem convert_opts size_t

definition parse_error ::
  "mem \<Rightarrow> ptr \<Rightarrow> size_t \<Rightarrow> size_t \<Rightarrow> convert_opts \<Rightarrow> fault + loop_step" where
  "parse_error m buff buff_len tlv_len opts =
     (if buff_len < CONVERT_ALIGN (of_nat (sizeof convert_error)) then Inr (Goto_error m)
      else bindE (load8 m (padd buff (offsetof convert_error ''error_code''))) (\<lambda>code.
        Inr (Next m (opts\<lparr>flags := set_flag CONVERT_ERROR (flags opts), error_code := code\<rparr>)
               tlv_len)))"

definition parse_connect ::
  "mem \<Rightarrow> ptr \<Rightarrow> size_t \<Rightarrow> size_t \<Rightarrow> convert_opts \<Rightarrow> fault + loop_step" where
  "parse_connect m buff buff_len tlv_len opts =
     (if buff_len < CONVERT_ALIGN (of_nat (sizeof convert_connect)) then Inr (Goto_error m)
      else if tlv_len \<noteq> CONVERT_ALIGN (of_nat (sizeof convert_connect)) then Inr (Goto_error m)
      else bindE (load_bytes m (padd buff (offsetof convert_connect ''remote_addr'')) 16) (\<lambda>addr.
        bindE (load16 m (padd buff (offsetof convert_connect ''remote_port''))) (\<lambda>port.
        Inr (Next m (opts\<lparr>flags := set_flag CONVERT_CONNECT (flags opts),
                 remote_addr := (remote_addr opts)\<lparr>sin6_addr := addr, sin6_port := port\<rparr>\<rparr>)
               tlv_len))))"

definition parse_extended_tcp_hdr ::
  "alloc \<Rightarrow> mem \<Rightarrow> ptr \<Rightarrow> size_t \<Rightarrow> size_t \<Rightarrow> convert_opts \<Rightarrow> fault + loop_step" where
  "parse_extended_tcp_hdr mal m buff buff_len tlv_len opts =
     (let len = tlv_len - of_nat (sizeof convert_extended_tcp_hdr) in
      if buff_len < CONVERT_ALIGN (of_nat (sizeof convert_extended_tcp_hdr))
      then Inr (Goto_error m)
      else let (p, m1) = malloc mal (unat len) m in
        if p = Null then Inr (Goto_error m1)
        else bindE (memcpy m1 p
               (padd buff (offsetof convert_extended_tcp_hdr ''tcp_options'')) (unat len)) (\<lambda>m2.
          Inr (Next m2 (opts\<lparr>flags := set_flag CONVERT_EXTENDED_TCP_HDR (flags opts),
                 tcp_options_len := len, tcp_options := p\<rparr>) tlv_len)))"

definition parse_cookie ::
  "alloc \<Rightarrow> mem \<Rightarrow> ptr \<Rightarrow> size_t \<Rightarrow> size_t \<Rightarrow> convert_opts \<Rightarrow> fault + loop_step" where
  "parse_cookie mal m buff buff_len tlv_len opts =
     (let len = tlv_len - of_nat (sizeof convert_cookie);
          (p, m1) = malloc mal (unat len) m in
        if p = Null then Inr (Goto_error m1)
        else bindE (memcpy m1 p (padd buff (offsetof convert_cookie ''opaque'')) (unat len)) (\<lambda>m2.
          Inr (Next m2 (opts\<lparr>flags := set_flag CONVERT_COOKIE (flags opts),
                 cookie_len := len, cookie_data := p\<rparr>) tlv_len)))"

definition parse_iter ::
  "alloc \<Rightarrow> mem \<Rightarrow> ptr \<Rightarrow> size_t \<Rightarrow> convert_opts \<Rightarrow> fault + loop_step" where
  "parse_iter mal m buff buff_len opts =
     (if buff_len < CONVERT_ALIGN (of_nat (sizeof convert_tlv)) then Inr (Goto_error m)
      else bindE (load8 m (padd buff (offsetof convert_tlv ''length''))) (\<lambda>len8.
        let tlv_len = CONVERT_TO_BYTES (ucast len8) in
        if buff_len < tlv_len then Inr (Goto_error m)
        else bindE (load8 m (padd buff (offsetof convert_tlv ''type''))) (\<lambda>type8.
          if type8 = type_no CONVERT_ERROR
          then parse_error m buff buff_len tlv_len opts
          else if type8 = type_no CONVERT_CONNECT
          then parse_connect m buff buff_len tlv_len opts
          else if type8 = type_no CONVERT_EXTENDED_TCP_HDR
          then parse_extended_tcp_hdr mal m buff buff_len tlv_len opts
          else if type8 = type_no CONVERT_COOKIE
          then parse_cookie mal m buff buff_len tlv_len opts
          else Inr (Goto_error m))))"

section \<open>The loop\<close>

text \<open>
  \<open>while (buff_len > 0)\<close>: a loop that does not return is \<open>None\<close>. The loop ends with the
  options, or without them at the jump to \<open>error_and_free\<close>.
\<close>

partial_function (option) parse_loop ::
  "alloc \<Rightarrow> mem \<Rightarrow> ptr \<Rightarrow> size_t \<Rightarrow> convert_opts \<Rightarrow> (fault + convert_opts option \<times> mem) option"
where
  "parse_loop mal m buff buff_len opts =
     (if buff_len = 0 then Some (Inr (Some opts, m))
      else case parse_iter mal m buff buff_len opts of
        Inl f \<Rightarrow> Some (Inl f)
      | Inr (Goto_error m') \<Rightarrow> Some (Inr (None, m'))
      | Inr (Next m' opts' tlv_len) \<Rightarrow>
          parse_loop mal m' (padd buff (unat tlv_len)) (buff_len - tlv_len) opts')"

definition SIZEOF_CONVERT_OPTS :: nat where
  "SIZEOF_CONVERT_OPTS = 72"

definition convert_parse_tlvs ::
  "alloc \<Rightarrow> mem \<Rightarrow> ptr \<Rightarrow> size_t \<Rightarrow> (fault + opts_ptr option \<times> mem) option" where
  "convert_parse_tlvs mal m buff buff_len =
     (if buff_len = 0 then Some (Inr (None, m))
      else case calloc_struct mal SIZEOF_CONVERT_OPTS m of
        (None, m1) \<Rightarrow> Some (Inr (None, m1))
      | (Some ob, m1) \<Rightarrow>
          map_option (\<lambda>r. bindE r (\<lambda>(ret, m2).
            case ret of
              Some opts \<Rightarrow> Inr (Some (ob, opts), m2)
            | None \<Rightarrow> bindE (free_struct ob m2) (\<lambda>m3. Inr (None, m3))))
          (parse_loop mal m1 buff buff_len zero_opts))"


section \<open>What one iteration does\<close>

text \<open>
  The effect of a decoded TLV on memory and options. An allocation that fails leaves the
  memory as it was.
\<close>

fun store_tlv :: "alloc \<Rightarrow> tlv \<Rightarrow> mem \<times> convert_opts \<Rightarrow> (mem \<times> convert_opts) option" where
  "store_tlv mal (Tlv_error c) (m, opts) =
     Some (m, opts\<lparr>flags := set_flag CONVERT_ERROR (flags opts), error_code := c\<rparr>)"
| "store_tlv mal (Tlv_connect port addr) (m, opts) =
     Some (m, opts\<lparr>flags := set_flag CONVERT_CONNECT (flags opts),
       remote_addr := (remote_addr opts)\<lparr>sin6_addr := addr, sin6_port := port\<rparr>\<rparr>)"
| "store_tlv mal (Tlv_ext bs) (m, opts) =
     (if mal (nextb m) (length bs)
      then Some (snd (new_block (Heap (map Some bs)) m),
        opts\<lparr>flags := set_flag CONVERT_EXTENDED_TCP_HDR (flags opts),
          tcp_options_len := of_nat (length bs), tcp_options := Ptr (nextb m) 0\<rparr>)
      else None)"
| "store_tlv mal (Tlv_cookie bs) (m, opts) =
     (if mal (nextb m) (length bs)
      then Some (snd (new_block (Heap (map Some bs)) m),
        opts\<lparr>flags := set_flag CONVERT_COOKIE (flags opts),
          cookie_len := of_nat (length bs), cookie_data := Ptr (nextb m) 0\<rparr>)
      else None)"

definition iter_result :: "alloc \<Rightarrow> mem \<Rightarrow> convert_opts \<Rightarrow> byte list \<Rightarrow> loop_step" where
  "iter_result mal m opts bs =
     (case decode1 bs of
        None \<Rightarrow> Goto_error m
      | Some (t, n) \<Rightarrow> (case store_tlv mal t (m, opts) of
          None \<Rightarrow> Goto_error m
        | Some (m', opts') \<Rightarrow> Next m' opts' (of_nat n)))"

text \<open>Allocating and copying, as both cases of the switch do it.\<close>

lemma malloc_copy:
  assumes "wf_mem m" and "has_bytes m p bs" and "unat len = length bs"
  shows "(case malloc mal (unat len) m of (q, m1) \<Rightarrow>
            if q = Null then Inr (Goto_error m1)
            else bindE (memcpy m1 q p (unat len)) (\<lambda>m2. Inr (f q m2))) =
         (if mal (nextb m) (length bs)
          then Inr (f (Ptr (nextb m) 0) (snd (new_block (Heap (map Some bs)) m)))
          else Inr (Goto_error m))"
proof (cases "mal (nextb m) (length bs)")
  case True
  then show ?thesis using malloc_memcpy_has [of m p bs mal] assms by auto
next
  case False
  then show ?thesis using assms(3) by (simp add: malloc_def)
qed

lemma malloc_too_big:
  assumes "alloc_sane mal" and "PTRDIFF_MAX < n"
  shows "malloc mal n m = (Null, m)"
proof -
  have "\<not> mal (nextb m) n" using assms unfolding alloc_sane_def by (meson not_less)
  then show ?thesis by (simp add: malloc_def)
qed


text \<open>Lengths in \<open>size_t\<close> against lengths of byte lists.\<close>

lemma unat_len_minus_4: "unat (l :: size_t) = 4 * k \<Longrightarrow> 0 < k \<Longrightarrow> unat (l - 4) = 4 * k - 4"
  by (simp add: unat_sub word_le_nat_alt)

lemma len_0_minus_4: "PTRDIFF_MAX < unat (0 - 4 :: size_t)"
  by (simp add: PTRDIFF_MAX_def)

lemma parse_error_eq:
  assumes "has_bytes m p bs" and "unat n = length bs" and "4 \<le> length bs"
  shows "parse_error m p n l opts =
    Inr (Next m (opts\<lparr>flags := set_flag CONVERT_ERROR (flags opts), error_code := bs ! 2\<rparr>) l)"
  using assms load8_has [of m p bs 2]
  by (simp add: parse_error_def layout word_less_nat_alt)

lemma parse_connect_eq:
  assumes "has_bytes m p bs" and "unat n = length bs" and "unat l \<le> length bs"
  shows "parse_connect m p n l opts =
    Inr (if unat l = 20
         then Next m (opts\<lparr>flags := set_flag CONVERT_CONNECT (flags opts),
                remote_addr := (remote_addr opts)\<lparr>sin6_addr := window 4 16 bs,
                  sin6_port := of_le16 (window 2 2 bs)\<rparr>\<rparr>) l
         else Goto_error m)"
proof (cases "20 \<le> length bs")
  case True
  have "l = 20 \<longleftrightarrow> unat l = 20" by (auto simp: word_unat_eq_iff)
  then show ?thesis
    using True assms load_bytes_has [of m p bs 4 16] load16_has [of m p bs 2]
    by (simp add: parse_connect_def layout word_less_nat_alt)
next
  case False
  then show ?thesis using assms by (simp add: parse_connect_def layout word_less_nat_alt)
qed

lemma parse_extended_tcp_hdr_eq:
  assumes "wf_mem m" and "has_bytes m p bs" and "unat n = length bs" and "4 \<le> length bs"
    and "alloc_sane mal" and "unat l = 4 * k" and "4 * k \<le> length bs"
  shows "parse_extended_tcp_hdr mal m p n l opts =
    Inr (case (if k = 0 then None else
                store_tlv mal (Tlv_ext (window 4 (4 * k - 4) bs)) (m, opts)) of
           None \<Rightarrow> Goto_error m
         | Some (m', opts') \<Rightarrow> Next m' opts' l)"
proof (cases "k = 0")
  case True
  then have "l = 0" using assms(6) by (simp add: word_unat_eq_iff)
  then show ?thesis
    using True assms(3,4) malloc_too_big [OF assms(5) len_0_minus_4, of m]
    by (simp add: parse_extended_tcp_hdr_def layout word_less_nat_alt)
next
  case False
  let ?bs = "window 4 (4 * k - 4) bs"
  have len: "unat (l - 4) = length ?bs"
    using assms(6,7) False unat_len_minus_4 [of l k] by simp
  have has: "has_bytes m (padd p 4) ?bs"
    using assms(2,7) False by (intro has_bytes_window) auto
  show ?thesis
    using malloc_copy [where f = "\<lambda>q m2. Next m2 (opts\<lparr>flags := set_flag CONVERT_EXTENDED_TCP_HDR (flags opts),
        tcp_options_len := l - 4, tcp_options := q\<rparr>) l", OF assms(1) has len]
    unfolding parse_extended_tcp_hdr_def layout Let_def of_nat_numeral
    using False assms(3,4) size_eq_of_nat [OF len] by (simp add: word_less_nat_alt)
qed


lemma parse_cookie_eq:
  assumes "wf_mem m" and "has_bytes m p bs"
    and "alloc_sane mal" and "unat l = 4 * k" and "4 * k \<le> length bs"
  shows "parse_cookie mal m p n l opts =
    Inr (case (if k = 0 then None else
                store_tlv mal (Tlv_cookie (window 4 (4 * k - 4) bs)) (m, opts)) of
           None \<Rightarrow> Goto_error m
         | Some (m', opts') \<Rightarrow> Next m' opts' l)"
proof (cases "k = 0")
  case True
  then have "l = 0" using assms(4) by (simp add: word_unat_eq_iff)
  then show ?thesis
    using True malloc_too_big [OF assms(3) len_0_minus_4, of m]
    by (simp add: parse_cookie_def layout)
next
  case False
  let ?bs = "window 4 (4 * k - 4) bs"
  have len: "unat (l - 4) = length ?bs"
    using assms(4,5) False unat_len_minus_4 [of l k] by simp
  have has: "has_bytes m (padd p 4) ?bs"
    using assms(2,5) False by (intro has_bytes_window) auto
  show ?thesis
    using malloc_copy [where f = "\<lambda>q m2. Next m2 (opts\<lparr>flags := set_flag CONVERT_COOKIE (flags opts),
        cookie_len := l - 4, cookie_data := q\<rparr>) l", OF assms(1) has len]
    unfolding parse_cookie_def layout Let_def of_nat_numeral
    using False size_eq_of_nat [OF len] by simp
qed

lemma iter_result_None: "decode1 bs = None \<Longrightarrow> iter_result mal m opts bs = Goto_error m"
  by (simp add: iter_result_def)

lemma iter_result_Some:
  "decode1 bs = Some (t, k) \<Longrightarrow> l = of_nat k \<Longrightarrow> iter_result mal m opts bs =
     (case store_tlv mal t (m, opts) of None \<Rightarrow> Goto_error m
      | Some (m', opts') \<Rightarrow> Next m' opts' l)"
  by (auto simp: iter_result_def)

lemma parse_iter_eq:
  assumes wf: "wf_mem m" and has: "has_bytes m p bs" and n: "unat n = length bs"
    and sane: "alloc_sane mal"
  shows "parse_iter mal m p n opts = Inr (iter_result mal m opts bs)"
proof (cases "length bs < 4")
  case True
  then show ?thesis using n
    by (simp add: parse_iter_def layout word_less_nat_alt iter_result_def decode1_def)
next
  case False
  define l where "l = CONVERT_TO_BYTES (ucast (bs ! 1))"
  define k where "k = unat (bs ! 1)"
  have l: "unat l = 4 * k"
    by (simp add: l_def k_def unat_CONVERT_TO_BYTES_ucast)
  have l': "l = of_nat (4 * k)" using size_eq_of_nat [OF l] .
  have "1 < length bs" and "0 < length bs" using False by auto
  then have ld: "load8 m (padd p 1) = Inr (bs ! 1)" "load8 m (padd p 0) = Inr (bs ! 0)"
    using load8_has [OF has] by blast+
  have iter: "parse_iter mal m p n opts =
     (if length bs < 4 * k then Inr (Goto_error m)
      else if bs ! 0 = type_no CONVERT_ERROR then parse_error m p n l opts
      else if bs ! 0 = type_no CONVERT_CONNECT then parse_connect m p n l opts
      else if bs ! 0 = type_no CONVERT_EXTENDED_TCP_HDR
      then parse_extended_tcp_hdr mal m p n l opts
      else if bs ! 0 = type_no CONVERT_COOKIE then parse_cookie mal m p n l opts
      else Inr (Goto_error m))"
    unfolding parse_iter_def layout of_nat_numeral ld bindE.simps Let_def l_def [symmetric]
    using False n l by (simp add: word_less_nat_alt del: type_no.simps)
  show ?thesis
  proof (cases "length bs < 4 * k")
    case True
    then show ?thesis using False
      by (simp add: iter iter_result_def decode1_def Let_def k_def [symmetric, simplified])
  next
    case len: False
    have "4 \<le> length bs" "4 * k \<le> length bs" "unat l \<le> length bs"
      using False len l by auto
    note eqs = parse_error_eq [OF has n this(1)] parse_connect_eq [OF has n this(3)]
      parse_extended_tcp_hdr_eq [OF wf has n this(1) sane l this(2)]
      parse_cookie_eq [OF wf has sane l this(2)]
    have dec: "decode1 bs =
       (if bs ! 0 = type_no CONVERT_ERROR then Some (Tlv_error (bs ! 2), 4 * k)
        else if bs ! 0 = type_no CONVERT_CONNECT
        then (if 4 * k = 20 then Some (Tlv_connect (of_le16 (window 2 2 bs)) (window 4 16 bs), 4 * k)
              else None)
        else if bs ! 0 = type_no CONVERT_EXTENDED_TCP_HDR
        then (if 4 * k = 0 then None else Some (Tlv_ext (window 4 (4 * k - 4) bs), 4 * k))
        else if bs ! 0 = type_no CONVERT_COOKIE
        then (if 4 * k = 0 then None else Some (Tlv_cookie (window 4 (4 * k - 4) bs), 4 * k))
        else None)"
      using False len by (simp add: decode1_def Let_def k_def del: type_no.simps)
    note res = iter_result_None iter_result_Some [OF _ l']
    consider "bs ! 0 = type_no CONVERT_ERROR" | "bs ! 0 = type_no CONVERT_CONNECT"
      | "bs ! 0 = type_no CONVERT_EXTENDED_TCP_HDR" | "bs ! 0 = type_no CONVERT_COOKIE"
      | "\<forall>t \<in> {CONVERT_ERROR, CONVERT_CONNECT, CONVERT_EXTENDED_TCP_HDR, CONVERT_COOKIE}.
           bs ! 0 \<noteq> type_no t"
      by blast
    then show ?thesis
    proof cases
      case 1
      then show ?thesis using len by (simp add: iter eqs dec res del: type_no.simps)
    next
      case 2
      then show ?thesis using len by (simp add: iter eqs dec res l del: type_no.simps)
    next
      case 3
      then show ?thesis using len
        by (simp add: iter eqs dec res del: type_no.simps store_tlv.simps)
    next
      case 4
      then show ?thesis using len
        by (simp add: iter eqs dec res del: type_no.simps store_tlv.simps)
    next
      case 5
      then show ?thesis using len by (simp add: iter dec res del: type_no.simps)
    qed
  qed
qed


section \<open>What the loop does\<close>

text \<open>
  Storing a list of TLVs stops at the first allocation that fails; \<open>Inl\<close> holds the memory
  at that point.
\<close>

fun store_tlvs :: "alloc \<Rightarrow> tlv list \<Rightarrow> mem \<times> convert_opts \<Rightarrow> mem + mem \<times> convert_opts" where
  "store_tlvs mal [] s = Inr s"
| "store_tlvs mal (t # ts) s =
     (case store_tlv mal t s of None \<Rightarrow> Inl (fst s) | Some s' \<Rightarrow> store_tlvs mal ts s')"

definition loop_result ::
  "alloc \<Rightarrow> mem \<Rightarrow> convert_opts \<Rightarrow> byte list \<Rightarrow> (fault + convert_opts option \<times> mem) option" where
  "loop_result mal m opts bs =
     (case decode bs of
        Complete ts \<Rightarrow> (case store_tlvs mal ts (m, opts) of
            Inl m' \<Rightarrow> Some (Inr (None, m'))
          | Inr (m', opts') \<Rightarrow> Some (Inr (Some opts', m')))
      | Malformed ts \<Rightarrow> (case store_tlvs mal ts (m, opts) of
            Inl m' \<Rightarrow> Some (Inr (None, m'))
          | Inr (m', opts') \<Rightarrow> Some (Inr (None, m')))
      | Endless ts \<Rightarrow> (case store_tlvs mal ts (m, opts) of
            Inl m' \<Rightarrow> Some (Inr (None, m'))
          | Inr (m', opts') \<Rightarrow> None))"

lemma loop_result_Nil: "loop_result mal m opts [] = Some (Inr (Some opts, m))"
  by (simp add: loop_result_def)

lemma loop_result_None:
  "bs \<noteq> [] \<Longrightarrow> decode1 bs = None \<Longrightarrow> loop_result mal m opts bs = Some (Inr (None, m))"
  by (simp add: loop_result_def decode_None)

lemma loop_result_zero:
  "bs \<noteq> [] \<Longrightarrow> decode1 bs = Some (Tlv_error c, 0) \<Longrightarrow> loop_result mal m opts bs = None"
  by (simp add: loop_result_def decode_zero)

lemma loop_result_step:
  "bs \<noteq> [] \<Longrightarrow> decode1 bs = Some (t, k) \<Longrightarrow> k \<noteq> 0 \<Longrightarrow> loop_result mal m opts bs =
     (case store_tlv mal t (m, opts) of
        None \<Rightarrow> Some (Inr (None, m))
      | Some (m', opts') \<Rightarrow> loop_result mal m' opts' (drop k bs))"
  by (cases "decode (drop k bs)") (auto simp: loop_result_def decode_step split: option.split)

lemma store_tlv_frame:
  "store_tlv mal t (m, opts) = Some (m', opts') \<Longrightarrow> wf_mem m \<Longrightarrow> wf_mem m' \<and> mem_ext m m'"
  by (cases t) (auto simp: mem_ext_new split: if_splits)

lemma store_tlvs_frame:
  assumes "wf_mem m"
  shows "case store_tlvs mal ts (m, opts) of
      Inl m' \<Rightarrow> wf_mem m' \<and> mem_ext m m'
    | Inr (m', opts') \<Rightarrow> wf_mem m' \<and> mem_ext m m'"
  using assms
proof (induction ts arbitrary: m opts)
  case (Cons t ts)
  show ?case
  proof (cases "store_tlv mal t (m, opts)")
    case (Some s)
    then obtain m1 opts1 where s: "s = (m1, opts1)" by (cases s) auto
    with Some Cons.prems have 1: "wf_mem m1" "mem_ext m m1" by (auto dest: store_tlv_frame)
    then show ?thesis using Some s Cons.IH [OF 1(1), of opts1]
      by (auto intro: mem_ext_trans split: sum.splits)
  qed (use Cons.prems in simp)
qed simp

text \<open>An iteration that neither moves on nor changes the memory is repeated forever.\<close>

lemma parse_loop_stuck:
  assumes stuck: "\<And>opts. \<exists>opts'. parse_iter mal m p n opts = Inr (Next m opts' 0)" and n: "n \<noteq> 0"
  shows "parse_loop mal m p n opts = None"
proof (rule ccontr)
  assume "parse_loop mal m p n opts \<noteq> None"
  then obtain r where ret: "parse_loop mal m p n opts = Some r" by auto
  have "\<not> (mal = mal \<and> m = m \<and> p = p \<and> n = n)"
  proof (rule parse_loop.raw_induct [where P = "\<lambda>mal' m' p' n' opts' r.
        \<not> (mal' = mal \<and> m' = m \<and> p' = p \<and> n' = n)", OF _ ret])
    fix f mal' m' p' n' opts' r'
    assume IH: "\<And>mal' m' p' n' opts' r. f mal' m' p' n' opts' = Some r \<Longrightarrow>
        \<not> (mal' = mal \<and> m' = m \<and> p' = p \<and> n' = n)"
      and eq: "(if n' = 0 then Some (Inr (Some opts', m'))
         else case parse_iter mal' m' p' n' opts' of
           Inl f \<Rightarrow> Some (Inl f)
         | Inr (Goto_error m1) \<Rightarrow> Some (Inr (None, m1))
         | Inr (Next m1 opts1 l) \<Rightarrow> f mal' m1 (padd p' (unat l)) (n' - l) opts1) = Some r'"
    show "\<not> (mal' = mal \<and> m' = m \<and> p' = p \<and> n' = n)"
    proof
      assume same: "mal' = mal \<and> m' = m \<and> p' = p \<and> n' = n"
      obtain opts1 where "parse_iter mal m p n opts' = Inr (Next m opts1 0)"
        using stuck by blast
      with eq same n have "f mal m p n opts1 = Some r'" by simp
      then show False using IH by blast
    qed
  qed
  then show False by simp
qed

lemma parse_loop_eq:
  assumes "wf_mem m" and "has_bytes m p bs" and "unat n = length bs" and "alloc_sane mal"
  shows "parse_loop mal m p n opts = loop_result mal m opts bs"
  using assms
proof (induction bs arbitrary: m p n opts rule: length_induct)
  case (1 bs)
  note wf = "1.prems"(1) and has = "1.prems"(2) and n = "1.prems"(3) and sane = "1.prems"(4)
  note iter = parse_iter_eq [OF wf has n sane]
  show ?case
  proof (cases "bs = []")
    case True
    then have "n = 0" using n by (simp add: word_unat_eq_iff)
    then show ?thesis using True by (simp add: parse_loop.simps loop_result_Nil)
  next
    case False
    then have n0: "n \<noteq> 0" using n by auto
    show ?thesis
    proof (cases "decode1 bs")
      case None
      then show ?thesis using False n0
        by (simp add: parse_loop.simps [of mal m p n] iter iter_result_None loop_result_None)
    next
      case (Some tk)
      then obtain t k where tk: "decode1 bs = Some (t, k)" by (cases tk) auto
      note bnd = decode1_bounds [OF tk]
      show ?thesis
      proof (cases "k = 0")
        case True
        then obtain c where t: "t = Tlv_error c" using tk decode1_zero by blast
        have "parse_loop mal m p n opts = None"
        proof (rule parse_loop_stuck [OF _ n0])
          fix opts
          show "\<exists>opts'. parse_iter mal m p n opts = Inr (Next m opts' 0)"
            using tk t True by (simp add: iter iter_result_def)
        qed
        then show ?thesis using tk t True False by (simp add: loop_result_zero)
      next
        case k: False
        have uk: "unat (of_nat k :: size_t) = k"
          using bnd by (simp add: unat_of_nat)
        have un: "unat (n - of_nat k) = length (drop k bs)"
          using bnd n uk by (simp add: unat_sub word_le_nat_alt)
        show ?thesis
        proof (cases "store_tlv mal t (m, opts)")
          case None
          then show ?thesis using False n0 k tk
            by (simp add: parse_loop.simps [of mal m p n] iter iter_result_Some [OF tk] loop_result_step)
        next
          case (Some s)
          then obtain m1 opts1 where s: "store_tlv mal t (m, opts) = Some (m1, opts1)"
            by (cases s) auto
          with wf have fr: "wf_mem m1" "mem_ext m m1" by (auto dest: store_tlv_frame)
          have "has_bytes m1 (padd p k) (drop k bs)"
            using has_bytes_drop [OF has_bytes_ext [OF wf fr(2) has]] bnd by blast
          then have "parse_loop mal m1 (padd p k) (n - of_nat k) opts1 = loop_result mal m1 opts1 (drop k bs)"
            using "1.IH" k False fr(1) un sane by simp
          then show ?thesis using False n0 k tk s uk
            by (simp add: parse_loop.simps [of mal m p n] iter iter_result_Some [OF tk] loop_result_step)
        qed
      qed
    qed
  qed
qed

end
