(* ===== verification/ParseProps.thy ===== *)
theory ParseProps
  imports ConvertParse
begin

text \<open>
  What callers of \<open>convert_parse_tlvs\<close> may rely on: the exact result of the whole function,
  memory safety for every input, the message that the returned options hold, when it does
  not return, and who owns the allocated blocks on success and on failure.
\<close>

section \<open>The whole function\<close>

definition parse_result :: "alloc \<Rightarrow> mem \<Rightarrow> byte list \<Rightarrow> (fault + opts_ptr option \<times> mem) option" where
  "parse_result mal m bs =
     (if bs = [] \<or> \<not> mal (nextb m) SIZEOF_CONVERT_OPTS then Some (Inr (None, m))
      else let m1 = snd (new_block Struct m); ob = nextb m;
               failed = (\<lambda>m2. Some (Inr (None, drop_block ob m2))) in
        case decode bs of
          Complete ts \<Rightarrow> (case store_tlvs mal ts (m1, zero_opts) of
              Inl m2 \<Rightarrow> failed m2
            | Inr (m2, opts) \<Rightarrow> Some (Inr (Some (ob, opts), m2)))
        | Malformed ts \<Rightarrow> (case store_tlvs mal ts (m1, zero_opts) of
              Inl m2 \<Rightarrow> failed m2
            | Inr (m2, opts) \<Rightarrow> failed m2)
        | Endless ts \<Rightarrow> (case store_tlvs mal ts (m1, zero_opts) of
              Inl m2 \<Rightarrow> failed m2
            | Inr (m2, opts) \<Rightarrow> None))"

lemma free_struct_after:
  assumes "wf_mem m" and "mem_ext (snd (new_block Struct m)) m2"
  shows "free_struct (nextb m) m2 = Inr (drop_block (nextb m) m2)"
proof -
  have "blocks m2 (nextb m) = Some Struct"
    using assms(2) by (simp add: mem_ext_def new_block_def)
  then show ?thesis by (simp add: free_struct_def)
qed

lemma convert_parse_tlvs_eq:
  assumes wf: "wf_mem m" and has: "has_bytes m p bs" and n: "unat n = length bs"
    and sane: "alloc_sane mal"
  shows "convert_parse_tlvs mal m p n = parse_result mal m bs"
proof (cases "bs = []")
  case True
  then have "n = 0" using n by (simp add: word_unat_eq_iff)
  then show ?thesis using True by (simp add: convert_parse_tlvs_def parse_result_def)
next
  case False
  then have n0: "n \<noteq> 0" using n by auto
  show ?thesis
  proof (cases "mal (nextb m) SIZEOF_CONVERT_OPTS")
    case True
    let ?m1 = "snd (new_block Struct m)"
    have calloc: "calloc_struct mal SIZEOF_CONVERT_OPTS m = (Some (nextb m), ?m1)"
      using True by (simp add: calloc_struct_def new_block_def)
    have wf1: "wf_mem ?m1" using wf by simp
    have "parse_loop mal ?m1 p n zero_opts = loop_result mal ?m1 zero_opts bs"
      using parse_loop_eq [OF wf1 has_bytes_ext [OF wf mem_ext_new has] n sane] .
    moreover have "\<And>ts. case store_tlvs mal ts (?m1, zero_opts) of
        Inl m2 \<Rightarrow> free_struct (nextb m) m2 = Inr (drop_block (nextb m) m2)
      | Inr (m2, opts2) \<Rightarrow> free_struct (nextb m) m2 = Inr (drop_block (nextb m) m2)"
      using store_tlvs_frame [OF wf1, of mal _ zero_opts] free_struct_after [OF wf]
      by (fastforce split: sum.split_asm sum.split prod.split_asm prod.split)
    ultimately show ?thesis
      using False True n0
      by (fastforce simp: convert_parse_tlvs_def calloc parse_result_def loop_result_def Let_def
          split: decoded.split sum.split_asm sum.split prod.split_asm prod.split)
  next
    case False
    then show ?thesis using n0
      by (simp add: convert_parse_tlvs_def parse_result_def calloc_struct_def)
  qed
qed

section \<open>Options that hold a message\<close>

lemma opts_hold_zero: "opts_hold m zero_opts empty_message"
  by (simp add: opts_hold_def zero_opts_def empty_message_def zero_sin6_def)

lemma has_bytes_new: "has_bytes (snd (new_block (Heap (map Some bs)) m)) (Ptr (nextb m) 0) bs"
proof -
  have "window 0 (length bs) (map Some bs) = map Some bs"
    using window_all [of "map Some bs"] by simp
  then show ?thesis by (simp add: new_block_def bytes_at_def)
qed

lemma unat_of_nat_small: "n \<le> 1016 \<Longrightarrow> unat (of_nat n :: size_t) = n"
  by (simp add: unat_of_nat)

lemma opts_hold_step:
  assumes "wf_mem m" and "opts_hold m opts g" and "wf_tlv t"
    and "store_tlv mal t (m, opts) = Some (m', opts')"
  shows "opts_hold m' opts' (apply_tlv t g)"
  using assms
  by (cases t)
    (auto simp: opts_hold_def has_bytes_new unat_of_nat_small intro: has_bytes_ext [OF _ mem_ext_new]
      split: if_splits simp del: has_bytes.simps)

lemma opts_hold_tlvs:
  "wf_mem m \<Longrightarrow> opts_hold m opts g \<Longrightarrow> list_all wf_tlv ts \<Longrightarrow>
   store_tlvs mal ts (m, opts) = Inr (m', opts') \<Longrightarrow> opts_hold m' opts' (fold apply_tlv ts g)"
proof (induction ts arbitrary: m opts g)
  case (Cons t ts)
  then obtain m1 opts1 where step: "store_tlv mal t (m, opts) = Some (m1, opts1)"
      "store_tlvs mal ts (m1, opts1) = Inr (m', opts')"
    by (auto split: option.splits)
  have "opts_hold m1 opts1 (apply_tlv t g)"
    using opts_hold_step [OF Cons.prems(1,2) _ step(1)] Cons.prems(3) by simp
  then show ?case
    using Cons.IH [OF _ _ _ step(2)] store_tlv_frame [OF step(1)] Cons.prems by simp
qed simp

section \<open>What decoding guarantees\<close>

fun decoded_tlvs :: "decoded \<Rightarrow> tlv list" where
  "decoded_tlvs (Complete ts) = ts"
| "decoded_tlvs (Malformed ts) = ts"
| "decoded_tlvs (Endless ts) = ts"

lemma decode1_wf: "decode1 bs = Some (t, n) \<Longrightarrow> wf_tlv t"
  using unat_byte_le [of "bs ! 1"]
  by (auto simp: decode1_def Let_def split: if_splits simp del: unat_byte_le)

lemma decode_wf: "list_all wf_tlv (decoded_tlvs (decode bs))"
proof (induction bs rule: decode.induct)
  case (1 bs)
  show ?case
  proof (cases "bs = [] \<or> decode1 bs = None")
    case True
    then show ?thesis by (cases "bs = []") (auto simp: decode_None)
  next
    case False
    then obtain t n where tn: "bs \<noteq> []" "decode1 bs = Some (t, n)" by (cases "decode1 bs") auto
    show ?thesis
    proof (cases "n = 0")
      case True
      then show ?thesis using tn decode1_wf by (simp add: decode_zero)
    next
      case n: False
      have "list_all wf_tlv (decoded_tlvs (decode (drop n bs)))"
        using 1 tn n by blast
      then show ?thesis using tn n decode1_wf [OF tn(2)]
        by (cases "decode (drop n bs)") (simp_all add: decode_step)
    qed
  qed
qed

lemma decode_Complete_wf: "decode bs = Complete ts \<Longrightarrow> list_all wf_tlv ts"
  using decode_wf [of bs] by simp

lemma decode_Malformed_wf: "decode bs = Malformed ts \<Longrightarrow> list_all wf_tlv ts"
  using decode_wf [of bs] by simp

lemma decode_Endless_wf: "decode bs = Endless ts \<Longrightarrow> list_all wf_tlv ts"
  using decode_wf [of bs] by simp

lemma store_tlvs_plenty: "list_all wf_tlv ts \<Longrightarrow> \<exists>s'. store_tlvs plenty ts s = Inr s'"
proof (induction ts arbitrary: s)
  case (Cons t ts)
  obtain m opts where s: "s = (m, opts)" by (cases s) auto
  have "\<exists>s'. store_tlv plenty t s = Some s'"
    using Cons.prems by (cases t) (auto simp: s plenty_def PTRDIFF_MAX_def)
  then show ?case using Cons by auto
qed simp


lemma parse_result_Nil [simp]: "parse_result mal m [] = Some (Inr (None, m))"
  by (simp add: parse_result_def)

lemma decode_Endless_nonempty: "decode bs = Endless ts \<Longrightarrow> bs \<noteq> []"
  by auto

lemma decode_Malformed_nonempty: "decode bs = Malformed ts \<Longrightarrow> bs \<noteq> []"
  by auto

text \<open>When allocation never fails, the outcome is decided by the decoder alone.\<close>

lemma parse_plenty:
  assumes "bs \<noteq> []"
  obtains m2 opts where
    "store_tlvs plenty (decoded_tlvs (decode bs)) (snd (new_block Struct m), zero_opts) = Inr (m2, opts)"
    "parse_result plenty m bs = (case decode bs of
        Complete ts \<Rightarrow> Some (Inr (Some (nextb m, opts), m2))
      | Malformed ts \<Rightarrow> Some (Inr (None, drop_block (nextb m) m2))
      | Endless ts \<Rightarrow> None)"
proof -
  have plenty: "plenty (nextb m) SIZEOF_CONVERT_OPTS"
    by (simp add: plenty_def SIZEOF_CONVERT_OPTS_def PTRDIFF_MAX_def)
  obtain m2 opts where
    st: "store_tlvs plenty (decoded_tlvs (decode bs)) (snd (new_block Struct m), zero_opts) = Inr (m2, opts)"
    using store_tlvs_plenty [OF decode_wf] by (metis surj_pair)
  show ?thesis
    by (rule that [OF st]) (use assms plenty st in \<open>auto simp: parse_result_def Let_def split: decoded.split\<close>)
qed

section \<open>A sample message\<close>

definition sample_tlvs :: "tlv list" where
  "sample_tlvs = [Tlv_connect 0x5000 (replicate 16 1), Tlv_cookie [1, 2, 3, 4]]"

definition sample :: "byte list" where
  "sample = encode sample_tlvs"

lemma decode_sample: "decode sample = Complete sample_tlvs"
  unfolding sample_def by (rule decode_encode) (simp add: sample_tlvs_def, presburger)

lemma length_sample [simp]: "length sample = 28"
  by (simp add: sample_def sample_tlvs_def encode_def)

lemma parse_sample:
  "\<exists>ob opts m'. convert_parse_tlvs plenty (mem_of sample) (Ptr 0 0) 28 = Some (Inr (Some (ob, opts), m'))"
proof -
  have "sample \<noteq> []" using length_sample by fastforce
  then obtain m2 opts where
    "parse_result plenty (mem_of sample) sample = Some (Inr (Some (nextb (mem_of sample), opts), m2))"
    by (rule parse_plenty [where m = "mem_of sample"]) (simp add: decode_sample)
  then show ?thesis using convert_parse_tlvs_eq [of "mem_of sample" "Ptr 0 0" sample 28 plenty]
    by (simp del: has_bytes.simps)
qed

text \<open>A payload followed by a TLV of an unknown type, and an Error TLV without a length.\<close>

definition bad_sample :: "byte list" where
  "bad_sample = [0x16, 2, 0, 0, 1, 2, 3, 4, 0x63, 1, 0, 0]"

lemma decode_bad_sample: "decode bad_sample = Malformed [Tlv_cookie [1, 2, 3, 4]]"
  by (simp add: bad_sample_def decode.simps decode1_def window_def)

definition endless_sample :: "byte list" where
  "endless_sample = [0x1e, 0, 0, 0]"

lemma decode_endless_sample: "decode endless_sample = Endless [Tlv_error 0]"
  by (simp add: endless_sample_def decode.simps decode1_def)

section \<open>Properties of parsing\<close>

text \<open>
  C1. Memory safety of the TLV parser: on any buffer whose bytes are all readable, whatever
  they are, and with any allocator that refuses requests beyond \<open>PTRDIFF_MAX\<close>, the function
  never reads outside the buffer, never uses an indeterminate byte and never frees wrongly.
\<close>

theorem convert_parse_tlvs_safe:
  assumes "wf_mem m" and "has_bytes m p bs" and "unat n = length bs" and "alloc_sane mal"
  shows "convert_parse_tlvs mal m p n \<noteq> Some (Inl f)"
  by (auto simp: convert_parse_tlvs_eq [OF assms] parse_result_def Let_def
      split: decoded.splits sum.splits if_splits)

lemma convert_parse_tlvs_safe_witness:
  "convert_parse_tlvs plenty (mem_of bad_sample) (Ptr 0 0) 12 \<noteq> Some (Inl OutOfBounds)"
  by (rule convert_parse_tlvs_safe [of _ _ bad_sample])
    (simp_all add: bad_sample_def del: has_bytes.simps)

text \<open>
  C2. What is returned: if the parser returns options, the whole buffer was a sequence of
  well-formed TLVs, and the options, together with the blocks they point to, hold exactly the
  message of these TLVs. The memory that existed before is unchanged.
\<close>

theorem convert_parse_tlvs_sound:
  assumes "wf_mem m" and "has_bytes m p bs" and "unat n = length bs" and "alloc_sane mal"
    and "convert_parse_tlvs mal m p n = Some (Inr (Some (ob, opts), m'))"
  shows "\<exists>ts. decode bs = Complete ts \<and> list_all wf_tlv ts \<and>
    opts_hold m' opts (message_of ts) \<and> wf_mem m' \<and> mem_ext m m'"
proof -
  let ?m1 = "snd (new_block Struct m)"
  have res: "parse_result mal m bs = Some (Inr (Some (ob, opts), m'))"
    using assms(5) convert_parse_tlvs_eq [OF assms(1-4)] by simp
  then obtain ts where ts: "decode bs = Complete ts"
      "store_tlvs mal ts (?m1, zero_opts) = Inr (m', opts)"
    by (auto simp: parse_result_def Let_def split: decoded.splits sum.splits if_splits)
  have wf: "list_all wf_tlv ts" using ts(1) by (rule decode_Complete_wf)
  have wf1: "wf_mem ?m1" using assms(1) by simp
  have "opts_hold m' opts (message_of ts)"
    unfolding message_of_def by (rule opts_hold_tlvs [OF wf1 opts_hold_zero wf ts(2)])
  moreover have "wf_mem m' \<and> mem_ext ?m1 m'"
    using store_tlvs_frame [OF wf1, of mal ts zero_opts] ts(2) by simp
  ultimately show ?thesis using ts(1) wf mem_ext_trans [OF mem_ext_new] by blast
qed

lemma convert_parse_tlvs_sound_witness:
  "\<exists>ob opts m'. convert_parse_tlvs plenty (mem_of sample) (Ptr 0 0) 28 = Some (Inr (Some (ob, opts), m')) \<and>
     opts_hold m' opts (message_of sample_tlvs)"
proof -
  obtain ob opts m' where
    ret: "convert_parse_tlvs plenty (mem_of sample) (Ptr 0 0) 28 = Some (Inr (Some (ob, opts), m'))"
    using parse_sample by blast
  then show ?thesis
    using convert_parse_tlvs_sound [of _ _ sample 28, OF _ _ _ _ ret] decode_sample
    by (auto simp del: has_bytes.simps)
qed

text \<open>
  C3. Completeness: with an allocator that does not run out of memory, the parser returns
  options if and only if the buffer is not empty and consists of well-formed TLVs.
\<close>

theorem convert_parse_tlvs_accepts:
  assumes "wf_mem m" and "has_bytes m p bs" and "unat n = length bs"
  shows "(\<exists>r m'. convert_parse_tlvs plenty m p n = Some (Inr (Some r, m'))) \<longleftrightarrow>
    bs \<noteq> [] \<and> (\<exists>ts. decode bs = Complete ts)"
proof (cases "bs = []")
  case False
  then obtain m2 opts where "parse_result plenty m bs = (case decode bs of
      Complete ts \<Rightarrow> Some (Inr (Some (nextb m, opts), m2))
    | Malformed ts \<Rightarrow> Some (Inr (None, drop_block (nextb m) m2))
    | Endless ts \<Rightarrow> None)"
    by (rule parse_plenty)
  then show ?thesis using False
    by (cases "decode bs") (simp_all add: convert_parse_tlvs_eq [OF assms alloc_sane_plenty])
qed (simp add: convert_parse_tlvs_eq [OF assms alloc_sane_plenty])

lemma convert_parse_tlvs_accepts_witness:
  "\<not> (\<exists>r m'. convert_parse_tlvs plenty (mem_of bad_sample) (Ptr 0 0) 12 = Some (Inr (Some r, m')))"
  using convert_parse_tlvs_accepts [of "mem_of bad_sample" "Ptr 0 0" bad_sample 12] decode_bad_sample
  by (simp add: bad_sample_def del: has_bytes.simps)

text \<open>
  C4. Termination: the parser fails to return exactly when it reaches an Error TLV whose
  length field is 0. Every other input, however malformed, is answered.
\<close>

theorem convert_parse_tlvs_diverges_iff:
  assumes "wf_mem m" and "has_bytes m p bs" and "unat n = length bs"
  shows "convert_parse_tlvs plenty m p n = None \<longleftrightarrow> (\<exists>ts. decode bs = Endless ts)"
proof (cases "bs = []")
  case False
  then obtain m2 opts where "parse_result plenty m bs = (case decode bs of
      Complete ts \<Rightarrow> Some (Inr (Some (nextb m, opts), m2))
    | Malformed ts \<Rightarrow> Some (Inr (None, drop_block (nextb m) m2))
    | Endless ts \<Rightarrow> None)"
    by (rule parse_plenty)
  then show ?thesis
    by (cases "decode bs") (simp_all add: convert_parse_tlvs_eq [OF assms alloc_sane_plenty])
qed (simp add: convert_parse_tlvs_eq [OF assms alloc_sane_plenty])

lemma convert_parse_tlvs_diverges_iff_witness:
  "convert_parse_tlvs plenty (mem_of endless_sample) (Ptr 0 0) 4 = None"
  using convert_parse_tlvs_diverges_iff [of "mem_of endless_sample" "Ptr 0 0" endless_sample 4]
    decode_endless_sample
  by (simp add: endless_sample_def del: has_bytes.simps)


section \<open>Ownership of the allocated blocks\<close>

definition payload :: "tlv \<Rightarrow> bool" where
  "payload t \<longleftrightarrow> tlv_type t = CONVERT_EXTENDED_TCP_HDR \<or> tlv_type t = CONVERT_COOKIE"

definition occurs :: "convert_type \<Rightarrow> tlv list \<Rightarrow> bool" where
  "occurs ty ts \<longleftrightarrow> ty \<in> tlv_type ` set ts"

definition npayload :: "tlv list \<Rightarrow> nat" where
  "npayload ts = length (filter payload ts)"

definition live_since :: "mem \<Rightarrow> mem \<Rightarrow> nat set" where
  "live_since m m' = dom (blocks m') - dom (blocks m)"

lemma store_tlv_blocks:
  "store_tlv mal t (m, opts) = Some (m', opts') \<Longrightarrow>
   nextb m' = nextb m + (if payload t then 1 else 0) \<and>
   (payload t \<longrightarrow> (\<exists>cs. blocks m' (nextb m) = Some (Heap cs)))"
  by (cases t) (auto simp: payload_def new_block_def split: if_splits)

lemma store_tlvs_blocks:
  "wf_mem m \<Longrightarrow> store_tlvs mal ts (m, opts) = Inr (m', opts') \<Longrightarrow>
   nextb m' = nextb m + npayload ts \<and>
   (\<forall>b. nextb m \<le> b \<and> b < nextb m' \<longrightarrow> (\<exists>cs. blocks m' b = Some (Heap cs)))"
proof (induction ts arbitrary: m opts)
  case (Cons t ts)
  then obtain m1 opts1 where step: "store_tlv mal t (m, opts) = Some (m1, opts1)"
      and rest: "store_tlvs mal ts (m1, opts1) = Inr (m', opts')"
    by (auto split: option.splits)
  have wf1: "wf_mem m1" using store_tlv_frame [OF step Cons.prems(1)] by simp
  note new = store_tlv_blocks [OF step]
  note IH = Cons.IH [OF wf1 rest]
  have old: "blocks m' b = blocks m1 b" if "b < nextb m1" for b
    using store_tlvs_frame [OF wf1, of mal ts opts1] rest that by (simp add: mem_ext_def)
  have len: "nextb m' = nextb m + npayload (t # ts)"
    using new IH by (simp add: npayload_def)
  have "\<exists>cs. blocks m' b = Some (Heap cs)" if b: "nextb m \<le> b" "b < nextb m'" for b
  proof (cases "b < nextb m1")
    case True
    then have "payload t" "b = nextb m" using new b by (auto split: if_splits)
    then show ?thesis using new old True by simp
  next
    case False
    then show ?thesis using IH b by simp
  qed
  then show ?case using len by blast
qed (auto simp: npayload_def)

text \<open>The pointers of the options: null, or the start of a block made by the parser.\<close>

definition fresh_ptr :: "nat \<Rightarrow> nat \<Rightarrow> bool \<Rightarrow> ptr \<Rightarrow> bool" where
  "fresh_ptr lo hi present p \<longleftrightarrow>
     (if present then \<exists>b. p = Ptr b 0 \<and> lo \<le> b \<and> b < hi else p = Null)"

definition owns :: "nat \<Rightarrow> mem \<Rightarrow> convert_opts \<Rightarrow> bool \<Rightarrow> bool \<Rightarrow> bool" where
  "owns lo m opts e c \<longleftrightarrow>
     fresh_ptr lo (nextb m) e (tcp_options opts) \<and> fresh_ptr lo (nextb m) c (cookie_data opts) \<and>
     (e \<and> c \<longrightarrow> tcp_options opts \<noteq> cookie_data opts)"

lemma owns_step:
  "owns lo m opts e c \<Longrightarrow> lo \<le> nextb m \<Longrightarrow> store_tlv mal t (m, opts) = Some (m', opts') \<Longrightarrow>
   owns lo m' opts' (e \<or> tlv_type t = CONVERT_EXTENDED_TCP_HDR) (c \<or> tlv_type t = CONVERT_COOKIE)
   \<and> lo \<le> nextb m'"
  by (cases t) (auto simp: owns_def fresh_ptr_def new_block_def split: if_splits)

lemma owns_tlvs:
  "owns lo m opts e c \<Longrightarrow> lo \<le> nextb m \<Longrightarrow> store_tlvs mal ts (m, opts) = Inr (m', opts') \<Longrightarrow>
   owns lo m' opts' (e \<or> occurs CONVERT_EXTENDED_TCP_HDR ts) (c \<or> occurs CONVERT_COOKIE ts)"
proof (induction ts arbitrary: m opts e c)
  case (Cons t ts)
  then obtain m1 opts1 where step: "store_tlv mal t (m, opts) = Some (m1, opts1)"
      and rest: "store_tlvs mal ts (m1, opts1) = Inr (m', opts')"
    by (auto split: option.splits)
  note own = owns_step [OF Cons.prems(1,2) step]
  show ?case using Cons.IH [OF conjunct1 [OF own] conjunct2 [OF own] rest]
    by (simp add: occurs_def disj_assoc eq_commute)
qed (simp add: occurs_def)

lemma interval_minus_first: "{a ..< Suc a + k} - {a} = {Suc a ..< Suc a + (k :: nat)}"
  by (rule set_eqI) (simp only: Diff_iff atLeastLessThan_iff singleton_iff, arith)

lemma live_since_tlvs:
  assumes wf: "wf_mem m" and st: "store_tlvs mal ts (snd (new_block Struct m), zero_opts) = Inr (m', opts)"
  shows "live_since m m' = {nextb m ..< Suc (nextb m) + npayload ts}"
    and "blocks m' (nextb m) = Some Struct"
    and "\<forall>b. Suc (nextb m) \<le> b \<and> b < Suc (nextb m) + npayload ts \<longrightarrow> (\<exists>cs. blocks m' b = Some (Heap cs))"
    and "\<forall>b < nextb m. blocks m' b = blocks m b"
    and "wf_mem m'"
proof -
  let ?m1 = "snd (new_block Struct m)"
  have wf1: "wf_mem ?m1" using wf by simp
  have m1: "nextb ?m1 = Suc (nextb m)" "blocks ?m1 = (blocks m)(nextb m \<mapsto> Struct)"
    by (simp_all add: new_block_def)
  note fr = store_tlvs_frame [OF wf1, of mal ts zero_opts, unfolded st, simplified]
  note new = store_tlvs_blocks [OF wf1 st, unfolded m1]
  show s: "blocks m' (nextb m) = Some Struct" and o: "\<forall>b < nextb m. blocks m' b = blocks m b"
    using fr m1 by (auto simp: mem_ext_def)
  show h: "\<forall>b. Suc (nextb m) \<le> b \<and> b < Suc (nextb m) + npayload ts \<longrightarrow> (\<exists>cs. blocks m' b = Some (Heap cs))"
    using new by auto
  show w: "wf_mem m'" using fr by simp
  have n: "nextb m' = Suc (nextb m) + npayload ts" using new by simp
  have "b \<in> live_since m m' \<longleftrightarrow> nextb m \<le> b \<and> b < Suc (nextb m) + npayload ts" for b
  proof -
    consider "b < nextb m" | "b = nextb m" | "Suc (nextb m) \<le> b" "b < nextb m'" | "nextb m' \<le> b"
      by linarith
    then show ?thesis
    proof cases
      case 1
      then show ?thesis using o by (auto simp: live_since_def)
    next
      case 2
      then show ?thesis using s wf by (auto simp: live_since_def)
    next
      case 3
      then obtain cs where "blocks m' b = Some (Heap cs)" using h n by metis
      moreover have "blocks m b = None" using 3 wf by (simp add: wf_mem_def)
      ultimately show ?thesis using 3 n by (auto simp: live_since_def)
    next
      case 4
      then show ?thesis using w n by (auto simp: live_since_def wf_mem_def)
    qed
  qed
  then show "live_since m m' = {nextb m ..< Suc (nextb m) + npayload ts}"
    by (intro set_eqI) (simp only: atLeastLessThan_iff)
qed


text \<open>Releasing a pointer of the options: nothing happens for null, else its block goes.\<close>

lemma free_fresh:
  assumes "fresh_ptr lo hi e p" and "\<forall>b. lo \<le> b \<and> b < hi \<longrightarrow> b \<notin> gone \<longrightarrow> (\<exists>cs. blocks m b = Some (Heap cs))"
    and "ptr_blocks p \<inter> gone = {}"
  shows "\<exists>m'. free p m = Inr m' \<and> (\<forall>b. blocks m' b = (if b \<in> ptr_blocks p then None else blocks m b))"
proof (cases e)
  case True
  then obtain b where p: "p = Ptr b 0" "lo \<le> b" "b < hi" using assms(1) by (auto simp: fresh_ptr_def)
  then obtain cs where "blocks m b = Some (Heap cs)" using assms(2,3) by (auto simp: ptr_blocks_def)
  then show ?thesis using p by (auto simp: drop_block_def ptr_blocks_def)
next
  case False
  then have "p = Null" using assms(1) by (simp add: fresh_ptr_def)
  then show ?thesis by (simp add: ptr_blocks_def)
qed

lemma card_ptr_blocks:
  "fresh_ptr lo hi e p \<Longrightarrow> ptr_blocks p \<subseteq> {lo ..< hi} \<and> card (ptr_blocks p) = of_bool e"
  by (cases e) (auto simp: fresh_ptr_def ptr_blocks_def)

text \<open>
  The error exit frees the struct but not the blocks it points to: a malformed message
  loses one heap block for every Extended TCP Header or Cookie TLV in front of the fault.
\<close>

theorem convert_parse_tlvs_leak_on_error:
  assumes "wf_mem m" and "has_bytes m p bs" and "unat n = length bs"
    and "decode bs = Malformed ts"
  shows "\<exists>m'. convert_parse_tlvs plenty m p n = Some (Inr (None, m')) \<and>
    card (live_since m m') = npayload ts"
proof -
  have "bs \<noteq> []" using assms(4) by (rule decode_Malformed_nonempty)
  then obtain m2 opts where st: "store_tlvs plenty ts (snd (new_block Struct m), zero_opts) = Inr (m2, opts)"
      and res: "parse_result plenty m bs = Some (Inr (None, drop_block (nextb m) m2))"
    using assms(4) by (auto elim: parse_plenty [where m = m])
  have "live_since m (drop_block (nextb m) m2) = live_since m m2 - {nextb m}"
    by (auto simp: live_since_def drop_block_def)
  also have "\<dots> = {Suc (nextb m) ..< Suc (nextb m) + npayload ts}"
    unfolding live_since_tlvs(1) [OF assms(1) st] by (rule interval_minus_first)
  finally show ?thesis
    using res convert_parse_tlvs_eq [OF assms(1-3) alloc_sane_plenty] by simp
qed

lemma convert_parse_tlvs_leak_on_error_witness:
  "\<exists>m'. convert_parse_tlvs plenty (mem_of bad_sample) (Ptr 0 0) 12 = Some (Inr (None, m')) \<and>
     card (live_since (mem_of bad_sample) m') = 1"
  using convert_parse_tlvs_leak_on_error [of "mem_of bad_sample" "Ptr 0 0" bad_sample 12, OF _ _ _ decode_bad_sample]
  by (simp add: bad_sample_def npayload_def payload_def del: has_bytes.simps)

text \<open>Releasing the options that a successful call returned.\<close>

lemma free_parsed:
  assumes "wf_mem m" and "has_bytes m p bs" and "unat n = length bs" and "alloc_sane mal"
    and "convert_parse_tlvs mal m p n = Some (Inr (Some r, m'))"
  shows "\<exists>ts m''. decode bs = Complete ts \<and> convert_free_opts m' r = Inr m'' \<and>
    (\<forall>b < nextb m. blocks m'' b = blocks m b) \<and>
    card (live_since m m'') = npayload ts -
      (of_bool (occurs CONVERT_EXTENDED_TCP_HDR ts) + of_bool (occurs CONVERT_COOKIE ts))"
proof -
  have res: "parse_result mal m bs = Some (Inr (Some r, m'))"
    using assms(5) convert_parse_tlvs_eq [OF assms(1-4)] by simp
  then obtain ts opts where ts: "decode bs = Complete ts" "r = (nextb m, opts)"
      and st: "store_tlvs mal ts (snd (new_block Struct m), zero_opts) = Inr (m', opts)"
    by (auto simp: parse_result_def Let_def split: decoded.splits sum.splits if_splits)
  define lo hi where "lo = Suc (nextb m)" and "hi = Suc (nextb m) + npayload ts"
  define e c where "e = occurs CONVERT_EXTENDED_TCP_HDR ts" and "c = occurs CONVERT_COOKIE ts"
  define E C where "E = ptr_blocks (tcp_options opts)" and "C = ptr_blocks (cookie_data opts)"
  note lv = live_since_tlvs [OF assms(1) st, folded lo_def hi_def]
  have nb: "nextb m' = hi"
    using store_tlvs_blocks [OF wf_mem_new [OF assms(1)] st] by (simp add: new_block_def hi_def)
  have "owns lo m' opts e c"
    using owns_tlvs [OF _ _ st, of lo False False]
    by (simp add: owns_def fresh_ptr_def zero_opts_def new_block_def lo_def e_def c_def)
  then have fp: "fresh_ptr lo hi e (tcp_options opts)" "fresh_ptr lo hi c (cookie_data opts)"
      and "e \<and> c \<longrightarrow> tcp_options opts \<noteq> cookie_data opts"
    by (simp_all add: owns_def nb)
  then have disj: "E \<inter> C = {}"
    by (auto simp: fresh_ptr_def ptr_blocks_def E_def C_def split: if_splits)
  obtain m1 where m1: "free (tcp_options opts) m' = Inr m1"
      "\<forall>b. blocks m1 b = (if b \<in> E then None else blocks m' b)"
    using free_fresh [OF fp(1), of "{}" m'] lv(3) by (auto simp: E_def)
  obtain m2 where m2: "free (cookie_data opts) m1 = Inr m2"
      "\<forall>b. blocks m2 b = (if b \<in> C then None else blocks m1 b)"
    using free_fresh [OF fp(2), of E m1] lv(3) m1(2) disj by (auto simp: C_def)
  have b2: "blocks m2 b = (if b \<in> E \<union> C then None else blocks m' b)" for b
    using m1(2) m2(2) by simp
  note cE = card_ptr_blocks [OF fp(1), folded E_def] and cC = card_ptr_blocks [OF fp(2), folded C_def]
  have ob: "nextb m \<notin> E" "nextb m \<notin> C" using cE cC by (auto simp: lo_def)
  then have "blocks m2 (nextb m) = Some Struct" using lv(2) m1(2) m2(2) by simp
  then have fr: "convert_free_opts m' r = Inr (drop_block (nextb m) m2)"
    by (simp add: convert_free_opts_def ts(2) m1(1) m2(1) free_struct_def)
  have "blocks (drop_block (nextb m) m2) b = blocks m b" if "b < nextb m" for b
    using that cE cC lv(4) m1(2) m2(2) by (auto simp: drop_block_def lo_def)
  moreover have "live_since m (drop_block (nextb m) m2) = {lo ..< hi} - (E \<union> C)"
  proof -
    have "live_since m (drop_block (nextb m) m2) = live_since m m' - (E \<union> C) - {nextb m}"
      by (auto simp: live_since_def drop_block_def dom_def b2)
    also have "\<dots> = (live_since m m' - {nextb m}) - (E \<union> C)" by (simp only: Diff_eq Int_ac)
    finally show ?thesis unfolding lv(1) hi_def lo_def interval_minus_first .
  qed
  moreover have "card ({lo ..< hi} - (E \<union> C)) = npayload ts - (of_bool e + of_bool c)"
    using cE cC disj by (subst card_Diff_subset)
      (auto simp: card_Un_disjoint lo_def hi_def finite_subset [of _ "{lo..<hi}"])
  ultimately show ?thesis using ts fr by (auto simp: e_def c_def)
qed

text \<open>
  Releasing what the parser returned: \<open>convert_free_opts\<close> succeeds on every returned
  struct, leaves the older memory alone, and gives back the struct and one block for each
  kind of payload; further TLVs of the same kind had their blocks overwritten and lost.
\<close>

theorem convert_free_opts_releases:
  assumes "wf_mem m" and "has_bytes m p bs" and "unat n = length bs" and "alloc_sane mal"
    and "convert_parse_tlvs mal m p n = Some (Inr (Some r, m'))"
  shows "\<exists>ts m''. decode bs = Complete ts \<and> convert_free_opts m' r = Inr m'' \<and>
    (\<forall>b < nextb m. blocks m'' b = blocks m b) \<and>
    card (live_since m m'') = npayload ts -
      (of_bool (occurs CONVERT_EXTENDED_TCP_HDR ts) + of_bool (occurs CONVERT_COOKIE ts))"
  by (rule free_parsed [OF assms])

lemma convert_free_opts_releases_witness:
  "\<exists>r m' m''. convert_parse_tlvs plenty (mem_of sample) (Ptr 0 0) 28 = Some (Inr (Some r, m')) \<and>
     convert_free_opts m' r = Inr m'' \<and> card (live_since (mem_of sample) m'') = 0"
proof -
  obtain r m' where
    ret: "convert_parse_tlvs plenty (mem_of sample) (Ptr 0 0) 28 = Some (Inr (Some r, m'))"
    using parse_sample by blast
  then show ?thesis
    using convert_free_opts_releases [of _ _ sample 28, OF _ _ _ _ ret] decode_sample
    by (auto simp: npayload_def payload_def occurs_def sample_tlvs_def simp del: has_bytes.simps)
qed


section \<open>What callers need of the memory\<close>

lemma convert_parse_tlvs_frame:
  assumes "wf_mem m" and "has_bytes m p bs" and "unat n = length bs" and "alloc_sane mal"
    and "convert_parse_tlvs mal m p n = return (r, m')"
  shows "wf_mem m' \<and> mem_ext m m'"
proof -
  let ?m1 = "snd (new_block Struct m)"
  have wf1: "wf_mem ?m1" using assms(1) by simp
  note fr = store_tlvs_frame [OF wf1, of mal _ zero_opts]
  have L: "wf_mem m2 \<and> mem_ext m m2" if "store_tlvs mal ts (?m1, zero_opts) = Inl m2" for ts m2
    using fr [of ts] that mem_ext_trans [OF mem_ext_new] by auto
  have R: "wf_mem m2 \<and> mem_ext m m2" if "store_tlvs mal ts (?m1, zero_opts) = Inr (m2, opts)" for ts m2 opts
    using fr [of ts] that mem_ext_trans [OF mem_ext_new] by auto
  have "parse_result mal m bs = return (r, m')"
    using assms(5) convert_parse_tlvs_eq [OF assms(1-4)] by simp
  then show ?thesis
    using assms(1)
    by (auto simp: parse_result_def Let_def intro!: mem_ext_drop dest: L R split: decoded.splits sum.splits if_splits)
qed

lemma free_parsed_frame:
  assumes "wf_mem m" and "has_bytes m p bs" and "unat n = length bs" and "alloc_sane mal"
    and "convert_parse_tlvs mal m p n = return (Some r, m')"
  shows "\<exists>m''. convert_free_opts m' r = Inr m'' \<and> wf_mem m'' \<and> mem_ext m m''"
proof -
  obtain m'' where m'': "convert_free_opts m' r = Inr m''" "\<forall>b < nextb m. blocks m'' b = blocks m b"
    using free_parsed [OF assms] by blast
  note fr = convert_parse_tlvs_frame [OF assms]
  have "wf_mem m'' \<and> nextb m'' = nextb m'"
    using m''(1) fr wf_mem_free wf_mem_drop
    by (fastforce simp: convert_free_opts_def free_struct_def bindE_simps split: if_splits)
  then show ?thesis using m'' fr by (simp add: mem_ext_def)
qed

text \<open>The parser on a buffer always returns, except in front of an Error TLV of length 0.\<close>

lemma parse_returns:
  assumes "wf_mem m" and "has_bytes m p bs" and "unat n = length bs" and "alloc_sane mal"
  shows "convert_parse_tlvs mal m p n = None \<or> (\<exists>r m'. convert_parse_tlvs mal m p n = return (r, m'))"
  by (auto simp: convert_parse_tlvs_eq [OF assms] parse_result_def Let_def
      split: decoded.splits sum.splits if_splits)

text \<open>The payload blocks of returned options are new ones.\<close>

lemma parsed_fresh:
  assumes "parse_result mal m bs = return (Some (ob, opts), m')" and "wf_mem m"
  shows "ptr_blocks (tcp_options opts) \<subseteq> {nextb m ..} \<and> ptr_blocks (cookie_data opts) \<subseteq> {nextb m ..}"
proof -
  obtain ts where st: "store_tlvs mal ts (snd (new_block Struct m), zero_opts) = Inr (m', opts)"
    using assms(1) by (auto simp: parse_result_def Let_def split: decoded.splits sum.splits if_splits)
  have "owns (Suc (nextb m)) m' opts (occurs CONVERT_EXTENDED_TCP_HDR ts) (occurs CONVERT_COOKIE ts)"
    using owns_tlvs [OF _ _ st, of "Suc (nextb m)" False False]
    by (simp add: owns_def fresh_ptr_def zero_opts_def new_block_def)
  then show ?thesis
    by (auto simp: owns_def fresh_ptr_def ptr_blocks_def split: if_splits)
qed


text \<open>Releasing options does not depend on blocks they do not own.\<close>

lemma drop_block_commute: "drop_block a (drop_block b m) = drop_block b (drop_block a m)"
  unfolding drop_block_def by (cases "a = b") (simp_all add: fun_upd_twist)

lemma free_drop:
  "free p m = Inr m1 \<Longrightarrow> b \<notin> ptr_blocks p \<Longrightarrow> free p (drop_block b m) = Inr (drop_block b m1)"
  by (cases p) (auto simp: ptr_blocks_def drop_block_commute [of b] drop_block_def fun_upd_twist
      split: option.splits block.splits if_splits)

lemma convert_free_opts_drop:
  assumes "convert_free_opts m (ob, opts) = Inr m3" and "b \<noteq> ob"
    and "b \<notin> ptr_blocks (tcp_options opts)" and "b \<notin> ptr_blocks (cookie_data opts)"
  shows "convert_free_opts (drop_block b m) (ob, opts) = Inr (drop_block b m3)"
proof -
  obtain m1 m2 where m: "free (tcp_options opts) m = Inr m1" "free (cookie_data opts) m1 = Inr m2"
    "free_struct ob m2 = Inr m3"
    using assms(1) by (auto simp: convert_free_opts_def bindE_simps)
  have "free_struct ob (drop_block b m2) = Inr (drop_block b m3)"
    using m(3) assms(2) by (auto simp: free_struct_def drop_block_def fun_upd_twist split: if_splits)
  then show ?thesis
    using free_drop [OF m(1) assms(3)] free_drop [OF m(2) assms(4)] by (simp add: convert_free_opts_def)
qed

end
