(* ===== verification/ConvertWrite.thy ===== *)
theory ConvertWrite
  imports TlvSpec
begin

text \<open>
  The writing half of \<open>lib_convert/convert_util.c\<close>: one callback per TLV, the table
  \<open>_converter_tlvs\<close>, the loop \<open>_convert_write_tlvs\<close> over it and \<open>convert_write\<close>, all on the
  checked memory; then the proof that what they leave in the buffer is the encoding of the
  message that the options hold.
\<close>

section \<open>The callbacks\<close>

type_synonym write_cb = "mem \<Rightarrow> ptr \<Rightarrow> size_t \<Rightarrow> convert_opts \<Rightarrow> fault + ssize_t \<times> mem"

definition write_tlv_not_supp :: write_cb where
  "write_tlv_not_supp m buff buff_len opts = Inr (-1, m)"

definition write_tlv_connect :: write_cb where
  "write_tlv_connect m buff buff_len opts =
     (let length = CONVERT_ALIGN (of_nat (sizeof convert_connect)) in
      if buff_len < length then Inr (-1, m)
      else bindE (store_bytes m (padd buff (offsetof convert_connect ''remote_addr''))
                   (sin6_addr (remote_addr opts))) (\<lambda>m.
        bindE (store_bytes m (padd buff (offsetof convert_connect ''remote_port''))
                   (le16 (sin6_port (remote_addr opts)))) (\<lambda>m.
        Inr (length, m))))"

definition write_tlv_error :: write_cb where
  "write_tlv_error m buff buff_len opts =
     (let length = CONVERT_ALIGN (of_nat (sizeof convert_error)) in
      if buff_len < length then Inr (-1, m)
      else bindE (store_bytes m (padd buff (offsetof convert_error ''error_code''))
                   [error_code opts]) (\<lambda>m.
        Inr (length, m)))"

definition write_tlv_extended_tcp_hdr :: write_cb where
  "write_tlv_extended_tcp_hdr m buff buff_len opts =
     (let length = CONVERT_ALIGN (of_nat (sizeof convert_extended_tcp_hdr) + tcp_options_len opts) in
      if buff_len < length then Inr (-1, m)
      else bindE (memset m buff 0 (unat length)) (\<lambda>m.
        bindE (memcpy m (padd buff (offsetof convert_extended_tcp_hdr ''tcp_options''))
                 (tcp_options opts) (unat (tcp_options_len opts))) (\<lambda>m.
        Inr (length, m))))"

definition write_tlv_cookie :: write_cb where
  "write_tlv_cookie m buff buff_len opts =
     (let length = CONVERT_ALIGN (of_nat (sizeof convert_cookie) + cookie_len opts) in
      if buff_len < length then Inr (-1, m)
      else bindE (memset m buff 0 (unat length)) (\<lambda>m.
        bindE (memcpy m (padd buff (offsetof convert_cookie ''opaque''))
                 (cookie_data opts) (unat (cookie_len opts))) (\<lambda>m.
        Inr (length, m))))"

section \<open>The table and the loop over it\<close>

record tlv_desc =
  desc_flag :: u32
  desc_type :: byte
  desc_cb :: write_cb

definition converter_tlvs :: "tlv_desc list" where
  "converter_tlvs =
    [\<lparr>desc_flag = CONVERT_F CONVERT_INFO, desc_type = type_no CONVERT_INFO,
       desc_cb = write_tlv_not_supp\<rparr>,
     \<lparr>desc_flag = CONVERT_F CONVERT_CONNECT, desc_type = type_no CONVERT_CONNECT,
       desc_cb = write_tlv_connect\<rparr>,
     \<lparr>desc_flag = CONVERT_F CONVERT_EXTENDED_TCP_HDR,
       desc_type = type_no CONVERT_EXTENDED_TCP_HDR, desc_cb = write_tlv_extended_tcp_hdr\<rparr>,
     \<lparr>desc_flag = CONVERT_F CONVERT_SUPPORTED_TCP_EXT,
       desc_type = type_no CONVERT_SUPPORTED_TCP_EXT, desc_cb = write_tlv_not_supp\<rparr>,
     \<lparr>desc_flag = CONVERT_F CONVERT_COOKIE, desc_type = type_no CONVERT_COOKIE,
       desc_cb = write_tlv_cookie\<rparr>,
     \<lparr>desc_flag = CONVERT_F CONVERT_ERROR, desc_type = type_no CONVERT_ERROR,
       desc_cb = write_tlv_error\<rparr>]"

text \<open>
  The loop over the table entries that are left. The result of a callback is a signed size;
  the division by the padding is on a value that is not negative, and its low 8 bits are
  stored in the length field.
\<close>

fun write_tlvs_loop ::
  "tlv_desc list \<Rightarrow> mem \<Rightarrow> ptr \<Rightarrow> size_t \<Rightarrow> byte \<Rightarrow> convert_opts \<Rightarrow> ssize_t \<Rightarrow> fault + ssize_t \<times> mem"
where
  "write_tlvs_loop [] m buff buff_len fl opts len = Inr (len, m)"
| "write_tlvs_loop (d # ds) m buff buff_len fl opts len =
     (if desc_flag d AND ucast fl = 0 then write_tlvs_loop ds m buff buff_len fl opts len
      else bindE (desc_cb d m buff buff_len opts) (\<lambda>(ret, m).
        if sint ret < 0 then Inr (ret, m)
        else bindE (store_bytes m (padd buff (offsetof convert_tlv ''type'')) [desc_type d]) (\<lambda>m.
          bindE (store_bytes m (padd buff (offsetof convert_tlv ''length''))
                   [ucast (BYTES_TO_CONVERT ret)]) (\<lambda>m.
          write_tlvs_loop ds m (padd buff (unat ret)) (buff_len - ret)
            (fl AND NOT (ucast (desc_flag d))) opts (len + ret)))))"

definition convert_write_tlvs :: write_cb where
  "convert_write_tlvs m buff buff_len opts =
     write_tlvs_loop converter_tlvs m buff buff_len (flags opts) opts 0"

definition convert_write :: write_cb where
  "convert_write m buff buff_len opts =
     (let length = of_nat (sizeof convert_header) in
      bindE (memset m buff 0 (unat buff_len)) (\<lambda>m.
      if buff_len < length then Inr (-1, m)
      else
        bindE (store_bytes m (padd buff (offsetof convert_header ''version''))
                 [CONVERT_VERSION]) (\<lambda>m.
        bindE (store_bytes m (padd buff (offsetof convert_header ''magic_no''))
                 (le16 (htons CONVERT_MAGIC_NO))) (\<lambda>m.
        bindE (convert_write_tlvs m (padd buff (unat length)) (buff_len - length) opts) (\<lambda>(ret, m).
          if sint ret < 0 then Inr (ret, m)
          else let length = length + ret in
            bindE (store_bytes m (padd buff (offsetof convert_header ''total_length''))
                     [ucast (BYTES_TO_CONVERT length)]) (\<lambda>m.
            Inr (length, m)))))))"

section \<open>What a message is written as\<close>

definition pad4 :: "byte list \<Rightarrow> byte list" where
  "pad4 bs = bs @ replicate (align4 (length bs) - length bs) 0"

lemma length_pad4 [simp]: "length (pad4 bs) = align4 (length bs)"
  using align4_ge [of "length bs"] by (simp add: pad4_def)

lemma pad4_id [simp]: "4 dvd length bs \<Longrightarrow> pad4 bs = bs"
  by (simp add: pad4_def)

text \<open>The TLV written for a flag, if the writer supports it.\<close>

fun tlv_for :: "message \<Rightarrow> convert_type \<Rightarrow> tlv option" where
  "tlv_for g CONVERT_INFO = None"
| "tlv_for g CONVERT_CONNECT = Some (Tlv_connect (msg_port g) (msg_addr g))"
| "tlv_for g CONVERT_EXTENDED_TCP_HDR = Some (Tlv_ext (pad4 (msg_tcp_options g)))"
| "tlv_for g CONVERT_SUPPORTED_TCP_EXT = None"
| "tlv_for g CONVERT_COOKIE = Some (Tlv_cookie (pad4 (msg_cookie g)))"
| "tlv_for g CONVERT_ERROR = Some (Tlv_error (msg_error g))"

text \<open>
  The TLVs written into \<open>room\<close> bytes for the flagged types of a list, in its order; \<open>None\<close>
  when a flagged type is not supported or does not fit.
\<close>

fun emit :: "convert_type list \<Rightarrow> message \<Rightarrow> nat \<Rightarrow> tlv list option" where
  "emit [] g room = Some []"
| "emit (ty # tys) g room =
     (if \<not> has_flag ty (msg_flags g) then emit tys g room
      else case tlv_for g ty of
        None \<Rightarrow> None
      | Some t \<Rightarrow>
          if room < length (encode1 t) then None
          else map_option (\<lambda>ts. t # ts) (emit tys g (room - length (encode1 t))))"

definition table_types :: "convert_type list" where
  "table_types = [CONVERT_INFO, CONVERT_CONNECT, CONVERT_EXTENDED_TCP_HDR,
     CONVERT_SUPPORTED_TCP_EXT, CONVERT_COOKIE, CONVERT_ERROR]"

definition header_bytes :: "nat \<Rightarrow> byte list" where
  "header_bytes n = [CONVERT_VERSION, units n] @ le16 (htons CONVERT_MAGIC_NO)"

definition wire :: "tlv list \<Rightarrow> byte list" where
  "wire ts = header_bytes (4 + length (encode ts)) @ encode ts"

lemma length_wire [simp]: "length (wire ts) = 4 + length (encode ts)"
  by (simp add: wire_def header_bytes_def)


section \<open>Writing one TLV into a zeroed zone\<close>

text \<open>
  The buffer block while the writer works: cells already written, a zone of zeroes of the
  length \<open>buff_len\<close> at the write position, and what lies behind the buffer.
\<close>

definition zone :: "cell list \<Rightarrow> nat \<Rightarrow> cell list \<Rightarrow> cell list" where
  "zone pre r post = pre @ replicate r (Some 0) @ post"

lemma length_zone [simp]: "length (zone pre r post) = length pre + r + length post"
  by (simp add: zone_def)

lemma overwrite_zone:
  "i + length zs \<le> r \<Longrightarrow> overwrite (length pre + i) zs (zone pre r post) =
     pre @ replicate i (Some 0) @ zs @ replicate (r - i - length zs) (Some 0) @ post"
  by (simp add: zone_def overwrite_app_right overwrite_replicate)

lemma store_bytes_put:
  assumes "bytes_at m b = Some cs0" and "i + length bs \<le> length cs"
  shows "store_bytes (put_cells m b cs) (Ptr b i) bs = Inr (put_cells m b (overwrite i (map Some bs) cs))"
  using write_cells_put [OF assms(1), of i "map Some bs" cs] assms(2) by (simp add: store_bytes_def)

lemma memset_zone:
  assumes "bytes_at m b = Some cs0" and "n \<le> r"
  shows "memset (put_cells m b (zone pre r post)) (Ptr b (length pre)) 0 n =
    Inr (put_cells m b (zone pre r post))"
proof -
  have "overwrite (length pre) (replicate n (Some 0)) (zone pre r post) = zone pre r post"
    using overwrite_zone [of 0 "replicate n (Some 0)" r pre post] assms(2)
    by (simp add: zone_def append_assoc [symmetric] replicate_add [symmetric] del: append_assoc)
  then show ?thesis
    using write_cells_put [OF assms(1), of "length pre" "replicate n (Some 0)"] assms(2)
    by (simp add: memset_def)
qed

lemma memcpy_put:
  assumes "bytes_at m b = Some cs0" and "has_bytes m p bs" and "b \<notin> ptr_blocks p"
    and "i + length bs \<le> length cs"
  shows "memcpy (put_cells m b cs) (Ptr b i) p (length bs) =
    Inr (put_cells m b (overwrite i (map Some bs) cs))"
proof -
  have "has_bytes (put_cells m b cs) p bs" using assms(2,3) by (simp add: has_bytes_put_cells)
  then have "read_cells (put_cells m b cs) p (length bs) = Inr (map Some bs)"
    using read_cells_has [of _ p bs 0 "length bs"] by simp
  then show ?thesis
    using write_cells_put [OF assms(1), of i "map Some bs" cs] assms(4) by (simp add: memcpy_def)
qed

text \<open>What a callback leaves: a TLV whose first two bytes are still zero.\<close>

fun body :: "tlv \<Rightarrow> byte list" where
  "body (Tlv_error c) = [c, 0]"
| "body (Tlv_connect port addr) = le16 port @ addr"
| "body (Tlv_ext bs) = [0, 0] @ bs"
| "body (Tlv_cookie bs) = [0, 0] @ bs"

definition addr_ok :: "tlv \<Rightarrow> bool" where
  "addr_ok t \<longleftrightarrow> (case t of Tlv_connect port addr \<Rightarrow> length addr = 16 | _ \<Rightarrow> True)"

lemma encode1_body:
  "addr_ok t \<Longrightarrow> encode1 t = [type_no (tlv_type t), units (length (encode1 t))] @ body t"
  by (cases t) (auto simp: addr_ok_def numeral_eq_Suc)

lemma length_body: "addr_ok t \<Longrightarrow> length (encode1 t) = 2 + length (body t)"
  by (subst encode1_body) simp_all

text \<open>
  Options that a writer can be given for block \<open>b\<close>: they hold a message with a whole
  address and payloads that exist as objects, none of them in the buffer itself.
\<close>

definition opts_ready :: "mem \<Rightarrow> nat \<Rightarrow> convert_opts \<Rightarrow> message \<Rightarrow> bool" where
  "opts_ready m b opts g \<longleftrightarrow> opts_hold m opts g \<and>
     b \<notin> ptr_blocks (tcp_options opts) \<and> b \<notin> ptr_blocks (cookie_data opts) \<and>
     length (msg_addr g) = 16 \<and> length (msg_tcp_options g) \<le> PTRDIFF_MAX \<and>
     length (msg_cookie g) \<le> PTRDIFF_MAX"

fun cb_of :: "convert_type \<Rightarrow> write_cb" where
  "cb_of CONVERT_CONNECT = write_tlv_connect"
| "cb_of CONVERT_EXTENDED_TCP_HDR = write_tlv_extended_tcp_hdr"
| "cb_of CONVERT_COOKIE = write_tlv_cookie"
| "cb_of CONVERT_ERROR = write_tlv_error"
| "cb_of _ = write_tlv_not_supp"

definition after_cb :: "cell list \<Rightarrow> tlv \<Rightarrow> nat \<Rightarrow> cell list \<Rightarrow> cell list" where
  "after_cb pre t r post = pre @ map Some ([0, 0] @ body t) @
     replicate (r - length (encode1 t)) (Some 0) @ post"

lemma unat_padded_length:
  assumes "unat l = k" and "k \<le> PTRDIFF_MAX"
  shows "unat (CONVERT_ALIGN (4 + l)) = 4 + align4 k"
proof -
  have "unat (4 + l) = 4 + k"
    using assms by (simp add: unat_word_ariths PTRDIFF_MAX_def)
  then show ?thesis
    using assms unat_CONVERT_ALIGN [of "4 + l"] by (simp add: PTRDIFF_MAX_def)
qed

text \<open>The zeroed zone after copying a payload behind the four bytes of a TLV head.\<close>

lemma payload_zone:
  assumes "4 + align4 (length bs) \<le> r"
  shows "overwrite (length pre + 4) (map Some bs) (zone pre r post) =
    pre @ map Some ([0, 0, 0, 0] @ pad4 bs) @ replicate (r - (4 + align4 (length bs))) (Some 0) @ post"
proof -
  have le: "length bs \<le> align4 (length bs)" by (rule align4_ge)
  have "replicate (r - 4 - length bs) (Some (0::byte)) =
      replicate (align4 (length bs) - length bs) (Some 0) @ replicate (r - (4 + align4 (length bs))) (Some 0)"
    using assms le by (simp add: replicate_add [symmetric])
  moreover have "replicate 4 (Some (0::byte)) = map Some [0, 0, 0, 0]"
    by (simp add: numeral_eq_Suc)
  ultimately show ?thesis
    using overwrite_zone [of 4 "map Some bs" r pre post] assms le
    by (simp add: pad4_def)
qed

lemma replicate_2: "replicate 2 x = [x, x]"
  by (simp add: numeral_2_eq_2)

lemma callback_result:
  assumes blk: "bytes_at m b = Some cs0" and ready: "opts_ready m b opts g"
    and tlv: "tlv_for g ty = Some t" and r: "unat n = r"
  shows "cb_of ty (put_cells m b (zone pre r post)) (Ptr b (length pre)) n opts =
    (if r < length (encode1 t) then Inr (-1, put_cells m b (zone pre r post))
     else Inr (of_nat (length (encode1 t)), put_cells m b (after_cb pre t r post)))"
proof (cases ty)
  case CONVERT_CONNECT
  let ?addr = "msg_addr g" and ?port = "le16 (msg_port g)"
  have o: "sin6_addr (remote_addr opts) = ?addr" "sin6_port (remote_addr opts) = msg_port g"
    and len: "length ?addr = 16"
    using ready by (auto simp: opts_ready_def opts_hold_def)
  have t: "t = Tlv_connect (msg_port g) ?addr" "length (encode1 t) = 20"
    using tlv CONVERT_CONNECT len by auto
  show ?thesis
  proof (cases "r < 20")
    case True
    then show ?thesis using t r CONVERT_CONNECT
      by (simp add: write_tlv_connect_def layout word_less_nat_alt)
  next
    case False
    let ?z1 = "pre @ replicate 4 (Some 0) @ map Some ?addr @ replicate (r - 20) (Some 0) @ post"
    have z1: "overwrite (length pre + 4) (map Some ?addr) (zone pre r post) = ?z1"
      using overwrite_zone [of 4 "map Some ?addr" r pre post] False len by simp
    have z2: "overwrite (length pre + 2) (map Some ?port) ?z1 = after_cb pre t r post"
      by (simp add: overwrite_app_right overwrite_replicate replicate_2 after_cb_def t len
          del: add_2_eq_Suc add_2_eq_Suc')
    show ?thesis using False t r CONVERT_CONNECT len
      by (simp add: write_tlv_connect_def layout word_less_nat_alt o
          store_bytes_put [OF blk] z1 z2 del: add_2_eq_Suc add_2_eq_Suc')
  qed
next
  case CONVERT_ERROR
  have t: "t = Tlv_error (msg_error g)" and o: "error_code opts = msg_error g"
    using tlv CONVERT_ERROR ready by (auto simp: opts_ready_def opts_hold_def)
  have z: "overwrite (length pre + 2) [Some (msg_error g)] (zone pre r post) = after_cb pre t r post"
    if "4 \<le> r" using that overwrite_zone [of 2 "[Some (msg_error g)]" r pre post]
    by (simp add: after_cb_def t numeral_eq_Suc Suc_le_eq)
       (metis Suc_diff_Suc append_Cons replicate_Suc)
  show ?thesis using t r CONVERT_ERROR z
    by (simp add: write_tlv_error_def layout word_less_nat_alt o store_bytes_put [OF blk])
next
  case CONVERT_EXTENDED_TCP_HDR
  let ?bs = "msg_tcp_options g"
  have len: "unat (tcp_options_len opts) = length ?bs" and has: "has_bytes m (tcp_options opts) ?bs"
    and big: "length ?bs \<le> PTRDIFF_MAX" and far: "b \<notin> ptr_blocks (tcp_options opts)"
    using ready by (auto simp: opts_ready_def opts_hold_def)
  have t: "t = Tlv_ext (pad4 ?bs)" "length (encode1 t) = 4 + align4 (length ?bs)"
    using tlv CONVERT_EXTENDED_TCP_HDR by auto
  note L = unat_padded_length [OF len big, folded t(2)]
  note L' = size_eq_of_nat [OF L]
  have L'': "unat (of_nat (length (encode1 t)) :: size_t) = length (encode1 t)"
    using L L' by metis
  show ?thesis
  proof (cases "r < length (encode1 t)")
    case True
    then show ?thesis using r unfolding CONVERT_EXTENDED_TCP_HDR cb_of.simps write_tlv_extended_tcp_hdr_def layout of_nat_numeral Let_def L'
      by (simp add: word_less_nat_alt L'')
  next
    case False
    then have fit: "4 + align4 (length ?bs) \<le> r" using t by simp
    then have "length pre + 4 + length ?bs \<le> length (zone pre r post)"
      using align4_ge [of "length ?bs"] by simp
    note cp = memcpy_put [OF blk has far this]
    have z: "overwrite (length pre + 4) (map Some ?bs) (zone pre r post) = after_cb pre t r post"
      unfolding payload_zone [OF fit] after_cb_def t(2) by (simp add: t(1))
    show ?thesis
      unfolding CONVERT_EXTENDED_TCP_HDR cb_of.simps write_tlv_extended_tcp_hdr_def layout of_nat_numeral Let_def L' L'' len padd.simps
      using False r memset_zone [OF blk fit, of pre post, folded t(2)] cp z
      by (simp add: word_less_nat_alt L'')
  qed
next
  case CONVERT_COOKIE
  let ?bs = "msg_cookie g"
  have len: "unat (cookie_len opts) = length ?bs" and has: "has_bytes m (cookie_data opts) ?bs"
    and big: "length ?bs \<le> PTRDIFF_MAX" and far: "b \<notin> ptr_blocks (cookie_data opts)"
    using ready by (auto simp: opts_ready_def opts_hold_def)
  have t: "t = Tlv_cookie (pad4 ?bs)" "length (encode1 t) = 4 + align4 (length ?bs)"
    using tlv CONVERT_COOKIE by auto
  note L = unat_padded_length [OF len big, folded t(2)]
  note L' = size_eq_of_nat [OF L]
  have L'': "unat (of_nat (length (encode1 t)) :: size_t) = length (encode1 t)"
    using L L' by metis
  show ?thesis
  proof (cases "r < length (encode1 t)")
    case True
    then show ?thesis using r unfolding CONVERT_COOKIE cb_of.simps write_tlv_cookie_def layout of_nat_numeral Let_def L'
      by (simp add: word_less_nat_alt L'')
  next
    case False
    then have fit: "4 + align4 (length ?bs) \<le> r" using t by simp
    then have "length pre + 4 + length ?bs \<le> length (zone pre r post)"
      using align4_ge [of "length ?bs"] by simp
    note cp = memcpy_put [OF blk has far this]
    have z: "overwrite (length pre + 4) (map Some ?bs) (zone pre r post) = after_cb pre t r post"
      unfolding payload_zone [OF fit] after_cb_def t(2) by (simp add: t(1))
    show ?thesis
      unfolding CONVERT_COOKIE cb_of.simps write_tlv_cookie_def layout of_nat_numeral Let_def L' L'' len padd.simps
      using False r memset_zone [OF blk fit, of pre post, folded t(2)] cp z
      by (simp add: word_less_nat_alt L'')
  qed
qed (use tlv in auto)


section \<open>The loop and the whole message\<close>

lemma converter_tlvs_types:
  "map (\<lambda>d. (desc_flag d, desc_type d, desc_cb d)) converter_tlvs =
   map (\<lambda>ty. (CONVERT_F ty, type_no ty, cb_of ty)) table_types"
  by (simp add: converter_tlvs_def table_types_def)

text \<open>Putting the type and the length in front completes the TLV.\<close>

lemma finish_tlv:
  assumes "addr_ok t"
  shows "overwrite (length pre + 1) [Some (units (length (encode1 t)))]
      (overwrite (length pre) [Some (type_no (tlv_type t))] (after_cb pre t r post)) =
    zone (pre @ map Some (encode1 t)) (r - length (encode1 t)) post"
proof -
  let ?tail = "map Some (body t) @ replicate (r - length (encode1 t)) (Some 0) @ post"
  have "overwrite (length pre) [Some (type_no (tlv_type t))] (after_cb pre t r post) =
      pre @ Some (type_no (tlv_type t)) # Some 0 # ?tail"
    using overwrite_app_right [of pre 0] by (simp add: after_cb_def overwrite_def)
  moreover have "overwrite (length pre + 1) [Some (units (length (encode1 t)))]
      (pre @ Some (type_no (tlv_type t)) # Some 0 # ?tail) =
      pre @ Some (type_no (tlv_type t)) # Some (units (length (encode1 t))) # ?tail"
    unfolding overwrite_app_right by (simp add: overwrite_def)
  ultimately show ?thesis
    using arg_cong [OF encode1_body [OF assms], of "map Some"] by (simp add: zone_def)
qed

lemma ucast_units:
  assumes "n \<le> PTRDIFF_MAX"
  shows "ucast (BYTES_TO_CONVERT (of_nat n)) = units n"
proof -
  have "unat (of_nat n :: size_t) = n"
    using assms by (simp add: unat_of_nat PTRDIFF_MAX_def)
  then have "unat (BYTES_TO_CONVERT (of_nat n)) = n div 4"
    by (simp add: unat_BYTES_TO_CONVERT)
  then show ?thesis unfolding units_def by (metis of_nat_unat)
qed

lemma sint_of_nat_nonneg: "n \<le> PTRDIFF_MAX \<Longrightarrow> \<not> sint (of_nat n :: ssize_t) < 0"
  by (simp add: PTRDIFF_MAX_def signed_of_nat signed_take_bit_int_eq_self)

lemma has_flag_clear:
  "ty' \<noteq> ty \<Longrightarrow> has_flag ty' (fl AND NOT (ucast (CONVERT_F ty))) = has_flag ty' fl"
  using flag_bit_less [of ty']
  by (auto simp: has_flag_bit bit_simps CONVERT_F_def push_bit_of_1 bit_exp_iff simp del: flag_bit_less)

lemma tlv_for_addr_ok: "tlv_for g ty = Some t \<Longrightarrow> length (msg_addr g) = 16 \<Longrightarrow> addr_ok t \<and> tlv_type t = ty"
  by (cases ty) (auto simp: addr_ok_def)

lemma tlv_for_None: "tlv_for g ty = None \<Longrightarrow> cb_of ty = write_tlv_not_supp"
  by (cases ty) auto

text \<open>One round of the loop for a flagged type that is supported and fits.\<close>

lemma loop_round:
  assumes blk: "bytes_at m b = Some cs0" and ready: "opts_ready m b opts g"
    and tlv: "tlv_for g ty = Some t" and r: "unat n = r" "r \<le> PTRDIFF_MAX"
    and fit: "length (encode1 t) \<le> r" and d: "desc_flag d = CONVERT_F ty"
    "desc_type d = type_no ty" "desc_cb d = cb_of ty" and fl: "has_flag ty fl"
  shows "write_tlvs_loop (d # ds) (put_cells m b (zone pre r post)) (Ptr b (length pre)) n fl opts len =
    write_tlvs_loop ds (put_cells m b (zone (pre @ map Some (encode1 t)) (r - length (encode1 t)) post))
      (Ptr b (length (pre @ map Some (encode1 t)))) (n - of_nat (length (encode1 t)))
      (fl AND NOT (ucast (CONVERT_F ty))) opts (len + of_nat (length (encode1 t)))"
proof -
  have ok: "addr_ok t" "tlv_type t = ty"
    using tlv ready by (auto dest: tlv_for_addr_ok simp: opts_ready_def)
  have small: "length (encode1 t) \<le> PTRDIFF_MAX" using fit r(2) by simp
  have u: "unat (of_nat (length (encode1 t)) :: size_t) = length (encode1 t)"
    using small by (simp add: unat_of_nat PTRDIFF_MAX_def)
  have len: "length (after_cb pre t r post) = length pre + r + length post" "2 \<le> r"
    using fit length_body [OF ok(1)] by (simp_all add: after_cb_def)
  note st = store_bytes_put [OF blk, of "length pre" "[type_no ty]" "after_cb pre t r post"]
    store_bytes_put [OF blk, of "length pre + 1" "[units (length (encode1 t))]"
      "overwrite (length pre) [Some (type_no ty)] (after_cb pre t r post)"]
  show ?thesis
    using fit len d fl callback_result [OF blk ready tlv r(1), of pre post] st
      finish_tlv [OF ok(1), of pre r post] sint_of_nat_nonneg [OF small] ucast_units [OF small]
    by (simp add: has_flag_def layout ok(2) u)
qed


lemma unat_sub_of_nat:
  "unat n = r \<Longrightarrow> r \<le> PTRDIFF_MAX \<Longrightarrow> k \<le> r \<Longrightarrow> unat ((n :: size_t) - of_nat k) = r - k"
  by (simp add: unat_sub word_le_nat_alt unat_of_nat PTRDIFF_MAX_def)

lemma write_tlvs_loop_eq:
  assumes "bytes_at m b = Some cs0" and "opts_ready m b opts g"
    and "map (\<lambda>d. (desc_flag d, desc_type d, desc_cb d)) ds =
         map (\<lambda>ty. (CONVERT_F ty, type_no ty, cb_of ty)) tys"
    and "distinct tys" and "\<forall>ty \<in> set tys. has_flag ty fl = has_flag ty (msg_flags g)"
    and "unat n = r" and "r \<le> PTRDIFF_MAX"
  shows "case emit tys g r of
      Some ts \<Rightarrow> length (encode ts) \<le> r \<and>
        write_tlvs_loop ds (put_cells m b (zone pre r post)) (Ptr b (length pre)) n fl opts len =
        Inr (len + of_nat (length (encode ts)),
             put_cells m b (zone (pre @ map Some (encode ts)) (r - length (encode ts)) post))
    | None \<Rightarrow> \<exists>mid. length mid = r \<and>
        write_tlvs_loop ds (put_cells m b (zone pre r post)) (Ptr b (length pre)) n fl opts len =
        Inr (-1, put_cells m b (pre @ mid @ post))"
  using assms
proof (induction ds arbitrary: tys pre r n fl len)
  case Nil
  then show ?case by simp
next
  case (Cons d ds)
  note blk = Cons.prems(1) and ready = Cons.prems(2) and r = Cons.prems(6,7)
  obtain ty tys' where tys: "tys = ty # tys'" using Cons.prems(3) by (cases tys) auto
  have d: "desc_flag d = CONVERT_F ty" "desc_type d = type_no ty" "desc_cb d = cb_of ty"
    and ds: "map (\<lambda>d. (desc_flag d, desc_type d, desc_cb d)) ds =
         map (\<lambda>ty. (CONVERT_F ty, type_no ty, cb_of ty)) tys'"
    and dist: "distinct tys'" "ty \<notin> set tys'"
    using Cons.prems(3,4) tys by auto
  have fl: "has_flag ty fl = has_flag ty (msg_flags g)"
    using Cons.prems(5) tys by simp
  let ?m = "put_cells m b (zone pre r post)" and ?p = "Ptr b (length pre)"
  have zone_mid: "\<exists>mid. length mid = r \<and> put_cells m b (zone pre r post) = put_cells m b (pre @ mid @ post)"
    by (rule exI [of _ "replicate r (Some 0)"]) (simp add: zone_def)
  show ?case
  proof (cases "has_flag ty fl")
    case False
    have skip: "write_tlvs_loop (d # ds) ?m ?p n fl opts len = write_tlvs_loop ds ?m ?p n fl opts len"
      using False d by (simp add: has_flag_def)
    show ?thesis unfolding skip
      using Cons.IH [OF blk ready ds dist(1) _ r, of fl pre len] Cons.prems(5) False fl tys by simp
  next
    case flag: True
    show ?thesis
    proof (cases "tlv_for g ty")
      case None
      have "write_tlvs_loop (d # ds) ?m ?p n fl opts len = Inr (-1, ?m)"
        using flag d tlv_for_None [OF None] by (simp add: has_flag_def write_tlv_not_supp_def)
      then show ?thesis using None flag fl tys zone_mid
        by (auto simp del: write_tlvs_loop.simps)
    next
      case (Some t)
      show ?thesis
      proof (cases "r < length (encode1 t)")
        case True
        have "write_tlvs_loop (d # ds) ?m ?p n fl opts len = Inr (-1, ?m)"
          using True flag d callback_result [OF blk ready Some r(1), of pre post]
          by (simp add: has_flag_def)
        then show ?thesis using Some True flag fl tys zone_mid
          by (auto simp del: write_tlvs_loop.simps)
      next
        case False
        then have fit: "length (encode1 t) \<le> r" by simp
        let ?k = "length (encode1 t)" and ?fl = "fl AND NOT (ucast (CONVERT_F ty))"
        have fl': "\<forall>ty' \<in> set tys'. has_flag ty' ?fl = has_flag ty' (msg_flags g)"
        proof
          fix ty' assume ty': "ty' \<in> set tys'"
          then have "ty' \<noteq> ty" using dist(2) by blast
          then show "has_flag ty' ?fl = has_flag ty' (msg_flags g)"
            using Cons.prems(5) tys ty' has_flag_clear by simp
        qed
        have r': "r - ?k \<le> PTRDIFF_MAX" using r(2) by simp
        note IH = Cons.IH [OF blk ready ds dist(1) fl' unat_sub_of_nat [OF r fit] r',
            of "pre @ map Some (encode1 t)" "len + of_nat ?k"]
        note rnd = loop_round [OF blk ready Some r fit d flag, of ds pre post len]
        show ?thesis
        proof (cases "emit tys' g (r - ?k)")
          case None
          then obtain mid where mid: "length mid = r - ?k"
            "write_tlvs_loop ds (put_cells m b (zone (pre @ map Some (encode1 t)) (r - ?k) post))
               (Ptr b (length (pre @ map Some (encode1 t)))) (n - of_nat ?k) ?fl opts (len + of_nat ?k) =
               Inr (-1, put_cells m b ((pre @ map Some (encode1 t)) @ mid @ post))"
            using IH by (simp only: option.case) blast
          have "write_tlvs_loop (d # ds) ?m ?p n fl opts len =
               Inr (-1, put_cells m b (pre @ (map Some (encode1 t) @ mid) @ post))"
            unfolding rnd mid(2) by (simp only: append_assoc)
          moreover have "length (map Some (encode1 t) @ mid) = r" using fit mid(1) by simp
          ultimately have "\<exists>mid. length mid = r \<and>
              write_tlvs_loop (d # ds) ?m ?p n fl opts len = Inr (-1, put_cells m b (pre @ mid @ post))"
            by blast
          then show ?thesis using None Some False flag fl tys
            by (simp del: write_tlvs_loop.simps)
        next
          case ts: (Some ts)
          then have "length (encode ts) + ?k \<le> r" using IH fit by (simp add: le_diff_conv2)
          then show ?thesis using ts IH rnd Some False flag fl tys
            by (simp add: algebra_simps del: write_tlvs_loop.simps)
        qed
      qed
    qed
  qed
qed


lemma overwrite_zone_eq:
  assumes "off + length mid \<le> length cs"
  shows "overwrite off mid cs = take off cs @ mid @ drop (off + length mid) cs"
  by (simp add: overwrite_def)

lemma header_zone:
  assumes "4 \<le> r"
  shows "overwrite (length pre + 2) (map Some (le16 h))
      (overwrite (length pre) [Some v] (zone pre r post)) =
    zone (pre @ map Some ([v, 0] @ le16 h)) (r - 4) post"
proof -
  have "replicate r (Some (0::byte)) = replicate 4 (Some 0) @ replicate (r - 4) (Some 0)"
    using assms by (simp add: replicate_add [symmetric])
  then have z: "zone pre r post =
      pre @ Some 0 # Some 0 # Some 0 # Some 0 # replicate (r - 4) (Some 0) @ post"
    by (simp add: zone_def numeral_eq_Suc)
  have "overwrite (length pre) [Some v] (zone pre r post) =
      pre @ Some v # Some 0 # Some 0 # Some 0 # replicate (r - 4) (Some 0) @ post"
    using overwrite_app_right [of pre 0] by (simp add: z overwrite_def)
  then show ?thesis
    unfolding zone_def using overwrite_app_right [of pre 2]
    by (simp add: overwrite_def le16_def numeral_2_eq_2)
qed

lemma total_length_zone:
  "overwrite (length pre + 1) [Some n] (zone (pre @ map Some ([v, 0] @ h) @ xs) r post) =
   zone (pre @ map Some ([v, n] @ h) @ xs) r post"
  using overwrite_app_right [of pre 1] by (simp add: zone_def overwrite_def)

lemma convert_write_spec:
  assumes blk: "bytes_at m b = Some cs" and room: "off + unat n \<le> length cs"
    and small: "unat n \<le> PTRDIFF_MAX" and ready: "opts_ready m b opts g"
  shows "case (if unat n < 4 then None else emit table_types g (unat n - 4)) of
      Some ts \<Rightarrow> length (wire ts) \<le> unat n \<and>
        convert_write m (Ptr b off) n opts =
        Inr (of_nat (length (wire ts)), put_cells m b (overwrite off
          (map Some (wire ts) @ replicate (unat n - length (wire ts)) (Some 0)) cs))
    | None \<Rightarrow> \<exists>mid. length mid = unat n \<and>
        convert_write m (Ptr b off) n opts = Inr (-1, put_cells m b (overwrite off mid cs))"
proof -
  define r pre post where "r = unat n" and "pre = take off cs" and "post = drop (off + unat n) cs"
  have pre: "length pre = off" using room by (simp add: pre_def)
  have ow: "overwrite off mid cs = pre @ mid @ post" if "length mid = r" for mid
    using that by (simp add: overwrite_def pre_def post_def r_def)
  have set0: "memset m (Ptr b off) 0 (unat n) = Inr (put_cells m b (zone pre r post))"
    using write_cells_put [OF blk, of off "replicate r (Some 0)" cs] room ow
    by (simp add: memset_def put_cells_same [OF blk] zone_def r_def)
  show ?thesis
  proof (cases "r < 4")
    case True
    then have "convert_write m (Ptr b off) n opts = Inr (-1, put_cells m b (zone pre r post))"
      by (simp add: convert_write_def layout set0 word_less_nat_alt r_def)
    then show ?thesis using True ow [of "replicate r (Some 0)"]
      by (auto simp: zone_def r_def intro!: exI [of _ "replicate r (Some 0)"])
  next
    case False
    let ?hd = "map Some ([CONVERT_VERSION, 0] @ le16 (htons CONVERT_MAGIC_NO))"
    let ?m = "put_cells m b (zone (pre @ ?hd) (r - 4) post)"
    have hd: "length (pre @ ?hd) = off + 4" by (simp add: pre)
    have st: "store_bytes (put_cells m b (zone pre r post)) (Ptr b off) [CONVERT_VERSION] =
        Inr (put_cells m b (overwrite off [Some CONVERT_VERSION] (zone pre r post)))"
      "store_bytes (put_cells m b (overwrite off [Some CONVERT_VERSION] (zone pre r post)))
         (Ptr b (off + 2)) (le16 (htons CONVERT_MAGIC_NO)) = Inr ?m"
      using store_bytes_put [OF blk] False header_zone [of r pre] pre by simp_all
    have r4: "unat (n - 4) = r - 4" "r - 4 \<le> PTRDIFF_MAX"
      using False small by (simp_all add: r_def unat_sub word_le_nat_alt)
    note loop = write_tlvs_loop_eq [OF blk ready converter_tlvs_types _ _ r4, of "flags opts" "pre @ ?hd" post 0,
        unfolded hd]
    have fl: "flags opts = msg_flags g" using ready by (simp add: opts_ready_def opts_hold_def)
    have dist: "distinct table_types" by (simp add: table_types_def)
    have cw: "convert_write m (Ptr b off) n opts =
       bindE (write_tlvs_loop converter_tlvs ?m (Ptr b (off + 4)) (n - 4) (flags opts) opts 0) (\<lambda>(ret, m).
          if sint ret < 0 then Inr (ret, m)
          else bindE (store_bytes m (Ptr b (off + 1)) [ucast (BYTES_TO_CONVERT (4 + ret))]) (\<lambda>m.
            Inr (4 + ret, m)))"
      unfolding convert_write_def convert_write_tlvs_def layout of_nat_numeral Let_def set0 bindE.simps
        padd.simps add_0_right st
      using False by (simp add: word_less_nat_alt r_def)
    show ?thesis
    proof (cases "emit table_types g (r - 4)")
      case None
      then obtain mid where "length mid = r - 4"
        "write_tlvs_loop converter_tlvs ?m (Ptr b (off + 4)) (n - 4) (flags opts) opts 0 =
           Inr (-1, put_cells m b ((pre @ ?hd) @ mid @ post))"
        using loop fl dist by auto
      then have "convert_write m (Ptr b off) n opts = Inr (-1, put_cells m b (pre @ (?hd @ mid) @ post))"
        and "length (?hd @ mid) = r"
        using cw False by simp_all
      then have "\<exists>mid. length mid = r \<and>
          convert_write m (Ptr b off) n opts = Inr (-1, put_cells m b (overwrite off mid cs))"
        using ow by metis
      then show ?thesis using None False by (simp add: r_def)
    next
      case (Some ts)
      let ?k = "length (encode ts)"
      have k: "?k \<le> r - 4" "write_tlvs_loop converter_tlvs ?m (Ptr b (off + 4)) (n - 4) (flags opts) opts 0 =
          Inr (of_nat ?k, put_cells m b (zone ((pre @ ?hd) @ map Some (encode ts)) (r - 4 - ?k) post))"
        using loop fl dist Some by auto
      have ks: "?k \<le> PTRDIFF_MAX" "4 + ?k \<le> PTRDIFF_MAX"
        using k(1) small False by (auto simp: r_def)
      have z: "overwrite (off + 1) [Some (units (4 + ?k))]
          (zone (pre @ ?hd @ map Some (encode ts)) (r - 4 - ?k) post) =
          zone (pre @ map Some (wire ts)) (r - (4 + ?k)) post"
        using total_length_zone [of pre "units (4 + ?k)"] pre by (simp add: wire_def header_bytes_def)
      have u: "ucast (BYTES_TO_CONVERT (4 + of_nat ?k)) = units (4 + ?k)"
        using ucast_units [OF ks(2)] by simp
      have "convert_write m (Ptr b off) n opts =
          Inr (4 + of_nat ?k, put_cells m b (zone (pre @ map Some (wire ts)) (r - (4 + ?k)) post))"
        using cw k sint_of_nat_nonneg [OF ks(1)] store_bytes_put [OF blk] z False pre
        by (simp add: u)
      moreover have "zone (pre @ map Some (wire ts)) (r - (4 + ?k)) post =
          overwrite off (map Some (wire ts) @ replicate (unat n - length (wire ts)) (Some 0)) cs"
        using ow k(1) False by (simp add: zone_def r_def)
      ultimately show ?thesis using Some False k(1) by (simp add: r_def)
    qed
  qed
qed

text \<open>Sample options: the Connect TLV that a client sends.\<close>

definition sample_opts :: convert_opts where
  "sample_opts = zero_opts\<lparr>flags := 2, remote_addr :=
     zero_sin6\<lparr>sin6_port := 0x5000, sin6_addr := replicate 16 1\<rparr>\<rparr>"

definition sample_message :: message where
  "sample_message = empty_message\<lparr>msg_flags := 2, msg_port := 0x5000, msg_addr := replicate 16 1\<rparr>"

lemma opts_ready_sample: "opts_ready m b sample_opts sample_message"
  by (simp add: opts_ready_def opts_hold_def sample_opts_def sample_message_def zero_opts_def
      zero_sin6_def empty_message_def ptr_blocks_def)

lemma emit_sample:
  "emit table_types sample_message 60 = Some [Tlv_connect 0x5000 (replicate 16 1)]"
  by (simp add: table_types_def sample_message_def empty_message_def has_flag_def CONVERT_F_def)

text \<open>
  C5. The writer is the encoder: given options that hold a message, \<open>convert_write\<close> leaves in
  the buffer the header and the encoding of the flagged TLVs in table order, the rest of the
  buffer zeroed, and returns the length; it returns -1 exactly when a flagged TLV is not
  supported or does not fit. It never faults, and nothing outside the buffer changes.
\<close>

theorem convert_write_result:
  assumes blk: "bytes_at m b = Some cs" and room: "off + unat n \<le> length cs"
    and small: "unat n \<le> PTRDIFF_MAX" and ready: "opts_ready m b opts g"
  shows "case (if unat n < 4 then None else emit table_types g (unat n - 4)) of
      Some ts \<Rightarrow> length (wire ts) \<le> unat n \<and>
        convert_write m (Ptr b off) n opts =
        Inr (of_nat (length (wire ts)), put_cells m b (overwrite off
          (map Some (wire ts) @ replicate (unat n - length (wire ts)) (Some 0)) cs))
    | None \<Rightarrow> \<exists>mid. length mid = unat n \<and>
        convert_write m (Ptr b off) n opts = Inr (-1, put_cells m b (overwrite off mid cs))"
  using convert_write_spec [OF assms] .

lemma convert_write_result_witness:
  "\<exists>m1. convert_write (mem_of (replicate 64 7)) (Ptr 0 0) 64 sample_opts = Inr (24, m1) \<and>
     bytes_at m1 0 = Some (map Some (wire [Tlv_connect 0x5000 (replicate 16 1)]) @ replicate 40 (Some 0))"
proof -
  let ?w = "wire [Tlv_connect 0x5000 (replicate 16 1)]"
  have len: "length ?w = 24" by (simp add: encode_def)
  have "convert_write (mem_of (replicate 64 7)) (Ptr 0 0) 64 sample_opts =
      Inr (24, put_cells (mem_of (replicate 64 7)) 0
        (overwrite 0 (map Some ?w @ replicate 40 (Some 0)) (map Some (replicate 64 7))))"
    using convert_write_result [of "mem_of (replicate 64 7)" 0 _ 0 64, OF bytes_at_mem_of _ _ opts_ready_sample]
      emit_sample len
    by (simp add: PTRDIFF_MAX_def del: length_wire)
  moreover have "overwrite 0 (map Some ?w @ replicate 40 (Some 0)) (map Some (replicate 64 7)) =
      map Some ?w @ replicate 40 (Some 0)"
    using len by (intro overwrite_full) (simp del: length_wire)
  ultimately show ?thesis by (simp add: bytes_at_put_cells)
qed

end
