(* ===== verification/Codec.thy ===== *)
theory Codec
  imports ParseProps ConvertWrite
begin

text \<open>
  Writer and parser together: what the header parser makes of a header, what of it the
  writer announces, and the round trip of a message through \<open>convert_write\<close>,
  \<open>convert_parse_header\<close> and \<open>convert_parse_tlvs\<close>.
\<close>

section \<open>The header parser\<close>

definition good_header :: "byte list \<Rightarrow> bool" where
  "good_header bs \<longleftrightarrow> bs ! 0 = CONVERT_VERSION \<and> window 2 2 bs = le16 (htons CONVERT_MAGIC_NO)"

definition announced :: "byte \<Rightarrow> size_t" where
  "announced total_length = 4 * ucast total_length - 4"

lemma unat_announced:
  "unat (announced u) = (if u = 0 then 2 ^ 64 - 4 else 4 * unat u - 4)"
proof (cases "u = 0")
  case False
  then have "0 < unat u" by (simp add: unat_gt_0)
  moreover have "unat (4 * ucast u :: size_t) = 4 * unat u"
    using unat_CONVERT_TO_BYTES_ucast [of u] by (simp add: CONVERT_TO_BYTES_def CONVERT_PADDING_def mult.commute)
  ultimately show ?thesis using False unat_len_minus_4 [of "4 * ucast u" "unat u"]
    by (simp add: announced_def)
qed (simp add: announced_def)

lemma ntohs_eq_iff: "ntohs a = b \<longleftrightarrow> a = htons b"
  by (metis ntohs_htons htons_ntohs)

lemma convert_parse_header_eq:
  assumes "has_bytes m p bs" and "4 \<le> length bs"
  shows "convert_parse_header m p n =
      (if n = 4 \<and> good_header bs then Inr (0, Some (announced (bs ! 1))) else Inr (-1, None))"
proof -
  have "0 < length bs" "1 < length bs" "2 + 2 \<le> length bs" using assms(2) by auto
  note ld = load8_has [OF assms(1) this(1), unfolded padd_0] load8_has [OF assms(1) this(2)]
    load16_has [OF assms(1) this(3)]
  have "length (window 2 2 bs) = 2" using assms(2) by simp
  then have "ntohs (of_le16 (window 2 2 bs)) = CONVERT_MAGIC_NO \<longleftrightarrow>
      window 2 2 bs = le16 (htons CONVERT_MAGIC_NO)"
    unfolding ntohs_eq_iff by (metis le16_of_le16 of_le16_le16)
  then show ?thesis
    unfolding convert_parse_header_def layout of_nat_numeral padd_0 ld bindE.simps
    by (simp add: good_header_def announced_def CONVERT_TO_BYTES_def CONVERT_PADDING_def mult.commute)
qed


text \<open>
  The header parser accepts exactly four bytes with version 1 and the magic number, and
  stores the announced length of the TLVs; for a total length of 0, which no valid message
  has, the subtraction of the header length wraps around to \<open>2 ^ 64 - 4\<close>.
\<close>

theorem convert_parse_header_result:
  assumes "has_bytes m p bs" and "4 \<le> length bs"
  shows "convert_parse_header m p n =
      (if n = 4 \<and> good_header bs then Inr (0, Some (announced (bs ! 1))) else Inr (-1, None)) \<and>
    unat (announced (bs ! 1)) = (if bs ! 1 = 0 then 2 ^ 64 - 4 else 4 * unat (bs ! 1) - 4)"
  using convert_parse_header_eq [OF assms] by (simp add: unat_announced)

lemma convert_parse_header_result_witness:
  "convert_parse_header (mem_of [1, 6, 0x22, 0x63]) (Ptr 0 0) 4 = Inr (0, Some 20)"
  using convert_parse_header_result [of "mem_of [1, 6, 0x22, 0x63]" "Ptr 0 0" "[1, 6, 0x22, 0x63]" 4]
  by (simp add: good_header_def announced_def CONVERT_VERSION_def CONVERT_MAGIC_NO_def window_def
      htons_def le16_def del: has_bytes.simps)

section \<open>The message that survives a round trip\<close>

text \<open>
  What a reader can recover: the flags of the protocol's six types, the fields of the flagged
  types only, and payloads padded with zeroes to a whole number of four-byte units.
\<close>

definition canonical :: "message \<Rightarrow> message" where
  "canonical g =
     \<lparr>msg_flags = msg_flags g AND 63,
      msg_port = (if has_flag CONVERT_CONNECT (msg_flags g) then msg_port g else 0),
      msg_addr = (if has_flag CONVERT_CONNECT (msg_flags g) then msg_addr g else replicate 16 0),
      msg_error = (if has_flag CONVERT_ERROR (msg_flags g) then msg_error g else 0),
      msg_tcp_options =
        (if has_flag CONVERT_EXTENDED_TCP_HDR (msg_flags g) then pad4 (msg_tcp_options g) else []),
      msg_cookie = (if has_flag CONVERT_COOKIE (msg_flags g) then pad4 (msg_cookie g) else [])\<rparr>"

lemma flags_eqI:
  assumes "\<And>ty. has_flag ty a = has_flag ty b"
  shows "a AND 63 = b AND (63 :: byte)"
proof (rule bit_word_eqI)
  fix n assume "n < LENGTH(8)"
  have "\<exists>ty. n = flag_bit ty" if "n < 6"
  proof -
    have "n \<in> {flag_bit CONVERT_INFO, flag_bit CONVERT_CONNECT, flag_bit CONVERT_EXTENDED_TCP_HDR,
        flag_bit CONVERT_SUPPORTED_TCP_EXT, flag_bit CONVERT_COOKIE, flag_bit CONVERT_ERROR}"
      using that by auto
    then show ?thesis by blast
  qed
  then have "bit a n = bit b n" if "n < 6" using that assms by (auto simp: has_flag_bit)
  moreover have "bit (63 :: byte) n \<longrightarrow> n < 6"
  proof -
    have "63 = (mask 6 :: byte)" by (simp add: mask_eq_exp_minus_1)
    then show ?thesis by (simp only: bit_mask_iff) simp
  qed
  ultimately show "bit (a AND 63) n = bit (b AND 63) n" by (auto simp: bit_and_iff)
qed

lemma set_flag_and_63: "fl AND 63 = fl \<Longrightarrow> set_flag ty fl AND 63 = set_flag ty fl"
  by (cases ty) (simp_all add: set_flag_def CONVERT_F_def bit.conj_disj_distrib2)

lemma fold_apply_flags:
  "(has_flag ty (msg_flags (fold apply_tlv ts g)) \<longleftrightarrow> has_flag ty (msg_flags g) \<or> occurs ty ts) \<and>
   (msg_flags g AND 63 = msg_flags g \<longrightarrow>
      msg_flags (fold apply_tlv ts g) AND 63 = msg_flags (fold apply_tlv ts g))"
proof (induction ts arbitrary: g)
  case (Cons t ts)
  show ?case using Cons [of "apply_tlv t g"]
    by (cases t) (auto simp: occurs_def set_flag_and_63)
qed (simp add: occurs_def)

lemma message_of_flags:
  "(\<And>ty. occurs ty ts = has_flag ty fl) \<Longrightarrow> msg_flags (message_of ts) = fl AND 63"
  using fold_apply_flags [of _ ts empty_message] flags_eqI [of "msg_flags (message_of ts)" fl]
  by (simp add: message_of_def empty_message_def)

lemma emit_table:
  "emit table_types g r = Some ts \<Longrightarrow>
   ts = List.map_filter (\<lambda>ty. if has_flag ty (msg_flags g) then tlv_for g ty else None) table_types \<and>
   \<not> has_flag CONVERT_INFO (msg_flags g) \<and> \<not> has_flag CONVERT_SUPPORTED_TCP_EXT (msg_flags g)"
  by (auto simp: table_types_def List.map_filter_def split: if_splits)

lemma emit_canonical:
  assumes "emit table_types g r = Some ts"
  shows "message_of ts = canonical g"
proof -
  note em = emit_table [OF assms]
  have "occurs ty ts = has_flag ty (msg_flags g)" for ty
    using em by (cases ty) (auto simp: occurs_def table_types_def List.map_filter_def)
  then have fl: "msg_flags (message_of ts) = msg_flags g AND 63" by (rule message_of_flags)
  have "msg_port (message_of ts) = msg_port (canonical g) \<and> msg_addr (message_of ts) = msg_addr (canonical g) \<and>
    msg_error (message_of ts) = msg_error (canonical g) \<and>
    msg_tcp_options (message_of ts) = msg_tcp_options (canonical g) \<and>
    msg_cookie (message_of ts) = msg_cookie (canonical g)"
    using em by (auto simp: table_types_def List.map_filter_def message_of_def empty_message_def canonical_def)
  then show ?thesis using fl by (auto simp: canonical_def intro!: message.equality)
qed

lemma emit_wf:
  "emit tys g r = Some ts \<Longrightarrow> length (msg_addr g) = 16 \<Longrightarrow> length (encode ts) \<le> 1016 \<Longrightarrow>
   list_all wf_tlv ts"
proof (induction tys arbitrary: r ts)
  case (Cons ty tys)
  show ?case
  proof (cases "has_flag ty (msg_flags g)")
    case False
    then show ?thesis using Cons by simp
  next
    case True
    then obtain t ts' where t: "tlv_for g ty = Some t" "ts = t # ts'"
        "emit tys g (r - length (encode1 t)) = Some ts'"
      using Cons.prems(1) by (auto split: option.splits if_splits)
    have "wf_tlv t" using t(1,2) Cons.prems(2,3) by (cases ty) auto
    then show ?thesis using Cons.IH [OF t(3)] Cons.prems t(2) by simp
  qed
qed simp


section \<open>What the writer's output says\<close>

lemma unat_of_nat_PTRDIFF: "k \<le> PTRDIFF_MAX \<Longrightarrow> unat (of_nat k :: size_t) = k"
  by (simp add: unat_of_nat PTRDIFF_MAX_def)

text \<open>A successful call, with the facts that the properties below start from.\<close>

lemma convert_write_success:
  assumes blk: "bytes_at m b = Some cs" and room: "off + unat n \<le> length cs"
    and small: "unat n \<le> PTRDIFF_MAX" and ready: "opts_ready m b opts g"
    and wr: "convert_write m (Ptr b off) n opts = Inr (ret, m1)" and ok: "unat ret \<le> PTRDIFF_MAX"
  obtains ts where "emit table_types g (unat n - 4) = Some ts" "unat ret = length (wire ts)"
    "ret = of_nat (length (wire ts))" "length (wire ts) \<le> unat n" "has_bytes m1 (Ptr b off) (wire ts)"
    "\<exists>cs'. m1 = put_cells m b cs'"
proof -
  note res = convert_write_spec [OF blk room small ready]
  show ?thesis
  proof (cases "if unat n < 4 then None else emit table_types g (unat n - 4)")
    case None
    then obtain mid where "convert_write m (Ptr b off) n opts = Inr (-1, put_cells m b mid)"
      using res by auto
    then have "ret = -1" using wr by simp
    moreover have "unat (-1 :: ssize_t) = 2 ^ 64 - 1" by (simp add: unsigned_minus_1_eq_mask mask_eq_exp_minus_1)
    ultimately show ?thesis using ok by (simp add: PTRDIFF_MAX_def)
  next
    case (Some ts)
    then have em: "emit table_types g (unat n - 4) = Some ts" by (simp split: if_splits)
    let ?cs = "overwrite off (map Some (wire ts) @ replicate (unat n - length (wire ts)) (Some 0)) cs"
    have le: "length (wire ts) \<le> unat n" and cw: "ret = of_nat (length (wire ts))" "m1 = put_cells m b ?cs"
      using res Some wr by auto
    have "has_bytes m1 (Ptr b off) (wire ts)"
      unfolding cw(2) using le room by (intro has_bytes_put_overwrite [OF blk]) simp
    moreover have "unat ret = length (wire ts)"
      unfolding cw(1) using le small by (intro unat_of_nat_PTRDIFF) simp
    ultimately show ?thesis using that em cw le by blast
  qed
qed

lemma length_tlv_for_dvd:
  assumes "tlv_for g ty = Some t" and "length (msg_addr g) = 16"
  shows "4 dvd length (encode1 t)"
proof -
  have "length (encode1 t) = 4 \<or> length (encode1 t) = 20 \<or> (\<exists>k. length (encode1 t) = 4 + align4 k)"
    using assms by (cases ty) auto
  then show ?thesis by (auto simp del: add_Suc add_Suc_right)
qed

lemma length_emit_dvd:
  "emit tys g r = Some ts \<Longrightarrow> length (msg_addr g) = 16 \<Longrightarrow> 4 dvd length (encode ts)"
  by (induction tys arbitrary: r ts)
    (auto split: if_splits option.splits dest: length_tlv_for_dvd)

lemma good_header_wire: "good_header (wire ts)"
  by (simp add: good_header_def wire_def header_bytes_def window_def le16_def)

lemma wire_1: "wire ts ! 1 = units (length (wire ts))"
  unfolding length_wire by (simp add: wire_def header_bytes_def del: length_wire)

lemma unat_units_mod: "4 dvd n \<Longrightarrow> 4 * unat (units n) = n mod 1024"
  by (auto simp: units_def unat_of_nat take_bit_eq_mod dvd_def mult_mod_right)

text \<open>
  C7. The length a written message announces: the header that \<open>convert_write\<close> leaves is
  accepted by \<open>convert_parse_header\<close>, and the announced length is the true one as long as the
  message has at most 1020 bytes. The writer does not check that bound: a longer message
  announces its length modulo 1024, and one of 1024 bytes, which a 1024-byte buffer can
  hold, announces the total length 0.
\<close>

theorem convert_write_announces:
  assumes "bytes_at m b = Some cs" and "off + unat n \<le> length cs"
    and "unat n \<le> PTRDIFF_MAX" and "opts_ready m b opts g"
    and "convert_write m (Ptr b off) n opts = Inr (ret, m1)" and "unat ret \<le> PTRDIFF_MAX"
  shows "\<exists>len. convert_parse_header m1 (Ptr b off) 4 = Inr (0, Some len) \<and>
    unat len = (if unat ret mod 1024 = 0 then 2 ^ 64 - 4 else unat ret mod 1024 - 4)"
proof -
  obtain ts where ts: "emit table_types g (unat n - 4) = Some ts" "unat ret = length (wire ts)"
      "has_bytes m1 (Ptr b off) (wire ts)"
    by (rule convert_write_success [OF assms])
  have "4 dvd length (wire ts)"
    using length_emit_dvd [OF ts(1)] assms(4) by (simp add: opts_ready_def)
  then have u: "4 * unat (wire ts ! 1) = unat ret mod 1024"
    unfolding wire_1 ts(2) by (rule unat_units_mod)
  have "convert_parse_header m1 (Ptr b off) 4 = Inr (0, Some (announced (wire ts ! 1)))"
    using convert_parse_header_eq [OF ts(3)] good_header_wire by simp
  moreover have "wire ts ! 1 = 0 \<longleftrightarrow> unat ret mod 1024 = 0"
    using u by (metis mult_is_0 unsigned_eq_0_iff zero_neq_numeral)
  ultimately show ?thesis using u by (auto simp: unat_announced)
qed

lemma write_sample:
  "\<exists>m1. convert_write (mem_of (replicate 64 7)) (Ptr 0 0) 64 sample_opts = Inr (24, m1)"
  using convert_write_spec [of "mem_of (replicate 64 7)" 0 _ 0 64, OF bytes_at_mem_of _ _ opts_ready_sample]
    emit_sample
  by (simp add: PTRDIFF_MAX_def encode_def)

lemma convert_write_announces_witness:
  "\<exists>m1 len. convert_write (mem_of (replicate 64 7)) (Ptr 0 0) 64 sample_opts = Inr (24, m1) \<and>
     convert_parse_header m1 (Ptr 0 0) 4 = Inr (0, Some len) \<and> unat len = 20"
proof -
  obtain m1 where wr: "convert_write (mem_of (replicate 64 7)) (Ptr 0 0) 64 sample_opts = Inr (24, m1)"
    using write_sample by blast
  then show ?thesis
    using convert_write_announces [OF bytes_at_mem_of _ _ opts_ready_sample wr] by (simp add: PTRDIFF_MAX_def)
qed

text \<open>
  C6. The round trip: whatever \<open>convert_write\<close> writes, up to 1020 bytes, is read back. The
  header parser returns 0 and the length of the TLVs, and, when any TLV was written, the TLV
  parser returns options that hold the same message, up to the padding of the payloads.
\<close>

theorem convert_write_parse_roundtrip:
  assumes "wf_mem m" and "bytes_at m b = Some cs" and "off + unat n \<le> length cs"
    and "unat n \<le> PTRDIFF_MAX" and "opts_ready m b opts g"
    and "convert_write m (Ptr b off) n opts = Inr (ret, m1)" and "unat ret \<le> 1020"
    and "msg_flags g AND 63 \<noteq> 0"
  shows "convert_parse_header m1 (Ptr b off) 4 = Inr (0, Some (ret - 4)) \<and>
    (\<exists>ob opts' m2. convert_parse_tlvs plenty m1 (Ptr b (off + 4)) (ret - 4) =
        Some (Inr (Some (ob, opts'), m2)) \<and> opts_hold m2 opts' (canonical g))"
proof -
  have "unat ret \<le> PTRDIFF_MAX" using assms(7) by (simp add: PTRDIFF_MAX_def)
  then obtain ts cs' where ts: "emit table_types g (unat n - 4) = Some ts" "unat ret = length (wire ts)"
      "has_bytes m1 (Ptr b off) (wire ts)" "m1 = put_cells m b cs'"
    using convert_write_success [OF assms(2-6)] by metis
  have addr: "length (msg_addr g) = 16" using assms(5) by (simp add: opts_ready_def)
  have wf: "list_all wf_tlv ts" using emit_wf [OF ts(1) addr] ts(2) assms(7) by simp
  have dvd: "4 dvd length (wire ts)" using length_emit_dvd [OF ts(1) addr] by simp
  have canon: "message_of ts = canonical g" using ts(1) by (rule emit_canonical)
  have ret4: "unat (ret - 4) = length (encode ts)"
    using ts(2) by (simp add: unat_sub word_le_nat_alt)
  have "4 * unat (wire ts ! 1) = length (wire ts)"
    unfolding wire_1 using dvd assms(7) unfolding ts(2) by (intro unat_units)
  then have "unat (announced (wire ts ! 1)) = unat (ret - 4)"
    using ret4 unsigned_eq_0_iff [of "wire ts ! 1"] unfolding unat_announced length_wire by auto
  then have hdr: "convert_parse_header m1 (Ptr b off) 4 = Inr (0, Some (ret - 4))"
    using convert_parse_header_eq [OF ts(3)] good_header_wire by (simp add: word_unat_eq_iff)
  have has: "has_bytes m1 (Ptr b (off + 4)) (encode ts)"
    using has_bytes_drop [OF ts(3), of 4] by (simp add: wire_def header_bytes_def)
  have wf1: "wf_mem m1" using ts(4) assms(1) by simp
  have ne: "encode ts \<noteq> []"
    using assms(8) canon by (cases ts) (auto simp: message_of_def empty_message_def canonical_def)
  obtain m2 opts' where
    st: "store_tlvs plenty ts (snd (new_block Struct m1), zero_opts) = Inr (m2, opts')" and
    res: "parse_result plenty m1 (encode ts) = Some (Inr (Some (nextb m1, opts'), m2))"
    using parse_plenty [OF ne, of m1 thesis] decode_encode [OF wf] by auto
  have "opts_hold m2 opts' (canonical g)"
    unfolding canon [symmetric] message_of_def
    by (rule opts_hold_tlvs [OF _ opts_hold_zero wf st]) (simp add: wf1)
  then show ?thesis
    using hdr res convert_parse_tlvs_eq [OF wf1 has ret4 alloc_sane_plenty] by auto
qed

lemma convert_write_parse_roundtrip_witness:
  "\<exists>m1 ob opts' m2. convert_write (mem_of (replicate 64 7)) (Ptr 0 0) 64 sample_opts = Inr (24, m1) \<and>
     convert_parse_tlvs plenty m1 (Ptr 0 4) 20 = Some (Inr (Some (ob, opts'), m2)) \<and>
     opts_hold m2 opts' (canonical sample_message)"
proof -
  obtain m1 where wr: "convert_write (mem_of (replicate 64 7)) (Ptr 0 0) 64 sample_opts = Inr (24, m1)"
    using write_sample by blast
  then show ?thesis
    using convert_write_parse_roundtrip [OF wf_mem_of bytes_at_mem_of _ _ opts_ready_sample wr]
    by (simp add: PTRDIFF_MAX_def sample_message_def)
qed

end
