(* ===== verification/ConvertRead.thy ===== *)
theory ConvertRead
  imports ParseProps Codec Kernel
begin

text \<open>
  \<open>read_convert_opts\<close> of \<open>lib_convert/convert_util.c\<close>: receive the header of a Convert message,
  then its TLVs, and return the options. The peer decides what is received.
\<close>

section \<open>The function\<close>

text \<open>
  The result is what is stored through \<open>error_code\<close>, if anything, and the returned pointer.
  The text written to \<open>error_message\<close> is not modelled. When the header announces no TLVs the
  variable \<open>opts\<close> is returned without ever having been assigned, which is a fault.
\<close>

definition read_convert_opts ::
  "alloc \<Rightarrow> kern \<Rightarrow> int \<Rightarrow> bool \<Rightarrow> 'z sys_scheme \<Rightarrow> ((int option \<times> opts_ptr option) \<times> 'z sys_scheme) run"
where
  "read_convert_opts mal kern f peek s =
     (let (hdr, s) = auto_array (unat CONVERT_HDR_LEN) s;
          flag = (if peek then MSG_PEEK else 0);
          offset = (if peek then CONVERT_HDR_LEN else 0) in
      bindR (Some (sys_recvfrom kern f (Ptr hdr 0) CONVERT_HDR_LEN (MSG_WAITALL OR flag) s)) (\<lambda>(rc, s).
      if rc < 0 then return ((Some (errno s), None), leave_array hdr s)
      else bindR (Some (convert_parse_header (memory s) (Ptr hdr 0) (word_of_int rc))) (\<lambda>(ok, tlvs_length).
      if ok < 0 then return ((Some (errno s), None), leave_array hdr s)
      else case tlvs_length of None \<Rightarrow> fail UninitRead | Some len \<Rightarrow>
      if len = 0 then fail UninitRead
      else bindR (Some (vla_array (unat (len + offset)) s)) (\<lambda>(buffer, s).
        let len = (if peek then len + CONVERT_HDR_LEN else len) in
        bindR (Some (sys_recvfrom kern f (Ptr buffer 0) len MSG_WAITALL s)) (\<lambda>(rc, s).
        if rc \<noteq> sint (ucast len :: u32) \<or> rc < 0
        then return ((Some (errno s), None), leave_array hdr (leave_array buffer s))
        else bindR (convert_parse_tlvs mal (memory s) (padd (Ptr buffer 0) (unat offset)) (len - offset))
          (\<lambda>(opts, m). let s = s\<lparr>memory := m\<rparr> in
          case opts of
            None \<Rightarrow> return ((None, None), leave_array hdr (leave_array buffer s))
          | Some p \<Rightarrow>
              if has_flag CONVERT_ERROR (flags (snd p))
              then bindR (Some (convert_free_opts (memory s) p)) (\<lambda>m.
                return ((Some (uint (error_code (snd p))), None),
                  leave_array hdr (leave_array buffer (s\<lparr>memory := m\<rparr>))))
              else return ((Some 0, Some p), leave_array hdr (leave_array buffer s))))))))"

section \<open>Receiving into fresh arrays\<close>

text \<open>
  What both readers of the library do twice: an array, filled by one \<open>recvfrom\<close> whose reply is
  \<open>r\<close>. The received bytes lie at the start of the new block, the rest is indeterminate.
\<close>

definition received :: "nat \<Rightarrow> nat \<Rightarrow> reply \<Rightarrow> 'z sys_scheme \<Rightarrow> 'z sys_scheme \<Rightarrow> bool" where
  "received b n r s s' \<longleftrightarrow> b = nextb (memory s) \<and> sys.more s' = sys.more s \<and>
     (\<exists>cs. length cs = n \<and> memory s' = snd (new_block (Auto cs) (memory s)) \<and>
       (0 \<le> ret r \<longrightarrow> ret r = int (length (data r)) \<and> length (data r) \<le> n \<and>
          take (length (data r)) cs = map Some (data r)))"

lemma received_has: "received b n r s s' \<Longrightarrow> 0 \<le> ret r \<Longrightarrow> has_bytes (memory s') (Ptr b 0) (data r)"
  by (auto simp: received_def new_block_def bytes_at_def window_def)

lemma received_length: "received b n r s s' \<Longrightarrow> 0 \<le> ret r \<Longrightarrow> ret r = int (length (data r)) \<and> length (data r) \<le> n"
  by (auto simp: received_def)

lemma received_frame:
  "received b n r s s' \<Longrightarrow> wf_mem (memory s) \<Longrightarrow>
   wf_mem (memory s') \<and> mem_ext (memory s) (memory s') \<and> sys.more s' = sys.more s"
  by (auto simp: received_def mem_ext_new)

lemma recv_array:
  assumes "recv_ok kern" and r: "answer kern (Recvfrom f len fl) s = r" and len: "unat len = n"
    and arr: "auto_array n s = (b, s0)"
  shows "\<exists>s'. sys_recvfrom kern f (Ptr b 0) len fl s0 = Inr (ret r, s') \<and>
    received b n r s s' \<and> trace s' = Recvfrom f len fl # trace s"
proof -
  have a: "answer kern (Recvfrom f len fl) s0 = r" "trace s0 = trace s" "sys.more s0 = sys.more s"
    "b = nextb (memory s)" "memory s0 = snd (new_block (Auto (replicate n None)) (memory s))"
    using r arr by (auto simp: auto_array_def new_block_def answer_def)
  have b: "bytes_at (memory s0) b = Some (replicate n None)" "length (replicate n None) = 0 + n"
    by (simp_all add: a new_block_def bytes_at_def)
  obtain s' where s': "sys_recvfrom kern f (Ptr b 0) len fl s0 = Inr (ret r, s')"
      "trace s' = Recvfrom f len fl # trace s" "sys.more s' = sys.more s"
      "memory s' = (if ret r < 0 then memory s0
         else put_cells (memory s0) b (overwrite 0 (map Some (data r)) (replicate n None)))"
    using sys_recvfrom_array [OF assms(1) _ b, of len f fl, unfolded a(1,2,3)] len by auto
  have l: "ret r = -1 \<or> ret r = int (length (data r)) \<and> length (data r) \<le> n"
    using assms(1) r len by (auto simp: recv_ok_def answer_def Let_def)
  have "received b n r s s'"
  proof (cases "ret r < 0")
    case True
    then have "memory s' = snd (new_block (Auto (replicate n None)) (memory s))" using s'(4) a by simp
    then show ?thesis using s'(3) a True unfolding received_def
      by (intro conjI exI [of _ "replicate n None"]) simp_all
  next
    case False
    let ?cs = "overwrite 0 (map Some (data r)) (replicate n None)"
    have "memory s' = snd (new_block (Auto ?cs) (memory s))"
      using s'(4) False a by (simp add: new_block_def put_cells_def)
    moreover have "length ?cs = n" "take (length (data r)) ?cs = map Some (data r)"
      using l False by (simp_all add: overwrite_def)
    moreover have "ret r = int (length (data r))" "length (data r) \<le> n" using l False by simp_all
    ultimately show ?thesis using s'(3) a(4) unfolding received_def
      by (intro conjI exI [of _ ?cs]) simp_all
  qed
  then show ?thesis using s' by blast
qed

lemma vla_array_eq: "0 < n \<Longrightarrow> n \<le> PTRDIFF_MAX \<Longrightarrow> vla_array n s = Inr (auto_array n s)"
  by (simp add: vla_array_def vla_def auto_array_def split: prod.split)

text \<open>The header, as the peer sent it.\<close>

definition header_of :: "reply \<Rightarrow> size_t option" where
  "header_of r = (if ret r = 4 \<and> good_header (data r) then Some (announced (data r ! 1)) else None)"

lemma received_header:
  assumes rcv: "received b 4 r s s'" and "0 \<le> ret r"
  shows "convert_parse_header (memory s') (Ptr b 0) (word_of_int (ret r)) =
    Inr (case header_of r of None \<Rightarrow> (-1, None) | Some len \<Rightarrow> (0, Some len))"
proof -
  have l: "ret r = int (length (data r))" "length (data r) \<le> 4"
    using received_length [OF assms] by simp_all
  show ?thesis
  proof (cases "length (data r) = 4")
    case True
    then show ?thesis
      using convert_parse_header_eq [OF received_has [OF assms]] l(1) by (simp add: header_of_def)
  next
    case False
    have "unat (word_of_int (ret r) :: size_t) = length (data r)"
      using l by (simp add: unat_of_nat)
    then have "word_of_int (ret r) \<noteq> (4 :: size_t)" using False by auto
    then show ?thesis using False l(1)
      by (simp add: convert_parse_header_def header_of_def layout)
  qed
qed

lemma header_of_bounds:
  assumes "header_of r = Some len"
  shows "len = announced (data r ! 1) \<and>
    unat len = (if data r ! 1 = 0 then 2 ^ 64 - 4 else 4 * unat (data r ! 1) - 4)"
proof -
  have "len = announced (data r ! 1)" using assms by (simp add: header_of_def split: if_splits)
  then show ?thesis by (simp only: unat_announced simp_thms)
qed

lemma announced_cases:
  obtains "u = 0" "announced u = - 4" | "u = 1" "announced u = 0"
  | "u \<noteq> 0" "u \<noteq> 1" "4 \<le> unat (announced u)" "unat (announced u) = 4 * unat u - 4" "unat (announced u) \<le> 1016"
proof (cases "u = 0 \<or> u = 1")
  case True
  then show ?thesis using that(1,2) by (auto simp: announced_def)
next
  case False
  then have "unat u \<noteq> 0" "unat u \<noteq> 1" using unsigned_1 by (metis unsigned_eq_0_iff, metis unsigned_word_eqI)
  then have "2 \<le> unat u" by simp
  then have "4 \<le> 4 * unat u - 4" "4 * unat u - 4 \<le> 1016" using unat_byte_le [of u] by linarith+
  then show ?thesis using that(3) False by (simp add: unat_announced)
qed


section \<open>What the peer says\<close>

text \<open>
  The exchange as both readers see it: the reply to the request for the header and, after an
  acceptable header that announces TLVs, the reply to the request for those. A total length
  of 0 makes the length of the TLVs wrap around.
\<close>

datatype peer = Hdr_failed | Hdr_bad | Hdr_empty | Hdr_wrapped | Tlvs_failed | Tlvs "byte list"

definition hdr_flags :: "bool \<Rightarrow> int" where
  "hdr_flags peek = MSG_WAITALL OR (if peek then MSG_PEEK else 0)"

definition tlvs_offset :: "bool \<Rightarrow> size_t" where
  "tlvs_offset peek = (if peek then CONVERT_HDR_LEN else 0)"

definition peer_says :: "kern \<Rightarrow> int \<Rightarrow> bool \<Rightarrow> call list \<Rightarrow> peer" where
  "peer_says kern f peek h =
     (let c1 = Recvfrom f CONVERT_HDR_LEN (hdr_flags peek); r1 = kern h c1 in
      if ret r1 < 0 then Hdr_failed
      else case header_of r1 of
        None \<Rightarrow> Hdr_bad
      | Some len \<Rightarrow>
          if len = 0 then Hdr_empty
          else if 1016 < unat len then Hdr_wrapped
          else let r2 = kern (c1 # h) (Recvfrom f (len + tlvs_offset peek) MSG_WAITALL) in
            if ret r2 \<noteq> int (unat len + unat (tlvs_offset peek)) then Tlvs_failed
            else Tlvs (drop (unat (tlvs_offset peek)) (data r2)))"

lemma unat_HDR_LEN [simp]: "unat CONVERT_HDR_LEN = 4"
  by (simp add: layout)

lemma hdr_recv:
  assumes "recv_ok kern" and "auto_array (unat CONVERT_HDR_LEN) s = (hdr, s0)"
  obtains s1 where "sys_recvfrom kern f (Ptr hdr 0) CONVERT_HDR_LEN (hdr_flags peek) s0 =
      Inr (ret (kern (trace s) (Recvfrom f CONVERT_HDR_LEN (hdr_flags peek))), s1)"
    "received hdr 4 (kern (trace s) (Recvfrom f CONVERT_HDR_LEN (hdr_flags peek))) s s1"
    "trace s1 = Recvfrom f CONVERT_HDR_LEN (hdr_flags peek) # trace s"
  using recv_array [OF assms(1) refl unat_HDR_LEN, of s hdr s0 f "hdr_flags peek"] assms(2)
  by (auto simp: answer_def)

text \<open>The lengths of the second request.\<close>

lemma unat_tlvs_offset: "unat (tlvs_offset peek) \<le> 4"
  by (simp add: tlvs_offset_def)

lemma sint_ucast_small: "k \<le> 1020 \<Longrightarrow> sint (ucast (of_nat k :: size_t) :: u32) = int k"
  by (simp add: unsigned_of_nat signed_of_nat take_bit_nat_eq_self signed_take_bit_int_eq_self)

lemma tlvs_lengths:
  assumes "unat len \<le> 1016"
  shows "unat (len + tlvs_offset peek) = unat len + unat (tlvs_offset peek)"
    and "sint (ucast (len + tlvs_offset peek) :: u32) = int (unat len + unat (tlvs_offset peek))"
    and "len + tlvs_offset peek - tlvs_offset peek = len"
proof -
  show u: "unat (len + tlvs_offset peek) = unat len + unat (tlvs_offset peek)"
    using assms unat_tlvs_offset [of peek] by (simp add: unat_word_ariths)
  have "len + tlvs_offset peek = of_nat (unat len + unat (tlvs_offset peek))" using size_eq_of_nat [OF u] .
  moreover have "unat len + unat (tlvs_offset peek) \<le> 1020" using assms unat_tlvs_offset [of peek] by simp
  ultimately show "sint (ucast (len + tlvs_offset peek) :: u32) = int (unat len + unat (tlvs_offset peek))"
    using sint_ucast_small by metis
qed simp

lemma tlvs_recv:
  assumes "recv_ok kern" and len: "0 < unat len" "unat len \<le> 1016"
  obtains b s0 s' where "vla_array (unat (len + tlvs_offset peek)) s = Inr (b, s0)"
    "sys_recvfrom kern f (Ptr b 0) (len + tlvs_offset peek) fl s0 =
      Inr (ret (kern (trace s) (Recvfrom f (len + tlvs_offset peek) fl)), s')"
    "received b (unat len + unat (tlvs_offset peek)) (kern (trace s) (Recvfrom f (len + tlvs_offset peek) fl)) s s'"
    "trace s' = Recvfrom f (len + tlvs_offset peek) fl # trace s"
proof -
  note u = tlvs_lengths(1) [OF len(2), of peek]
  have "unat (len + tlvs_offset peek) \<le> PTRDIFF_MAX"
    using u len(2) unat_tlvs_offset [of peek] by (simp add: PTRDIFF_MAX_def)
  then have v: "vla_array (unat (len + tlvs_offset peek)) s = Inr (auto_array (unat (len + tlvs_offset peek)) s)"
    using u len(1) by (intro vla_array_eq) simp_all
  obtain b s0 where a: "auto_array (unat (len + tlvs_offset peek)) s = (b, s0)" by fastforce
  show ?thesis
    using recv_array [OF assms(1) refl refl a, of f fl] that v a u by (auto simp: answer_def)
qed

lemma tlvs_bytes:
  assumes "received b (unat len + unat (tlvs_offset peek)) r s s'"
    and "ret r = int (unat len + unat (tlvs_offset peek))"
  shows "has_bytes (memory s') (padd (Ptr b 0) (unat (tlvs_offset peek))) (drop (unat (tlvs_offset peek)) (data r))"
    and "unat len = length (drop (unat (tlvs_offset peek)) (data r))"
proof -
  have l: "length (data r) = unat len + unat (tlvs_offset peek)"
    using received_length [OF assms(1)] assms(2) by (metis of_nat_0_le_iff of_nat_eq_iff)
  then show "unat len = length (drop (unat (tlvs_offset peek)) (data r))" by simp
  show "has_bytes (memory s') (padd (Ptr b 0) (unat (tlvs_offset peek))) (drop (unat (tlvs_offset peek)) (data r))"
    using received_has [OF assms(1)] assms(2) l by (intro has_bytes_drop) simp_all
qed


section \<open>What the reader returns\<close>

lemma leave_frame:
  "mem_ext m (memory s) \<Longrightarrow> nextb m \<le> b \<Longrightarrow> mem_ext m (memory (leave_array b s))"
  "wf_mem (memory s) \<Longrightarrow> wf_mem (memory (leave_array b s))"
  by (simp_all add: leave_array_def mem_ext_drop)

lemma leave_fields [simp]:
  "trace (leave_array b s) = trace s" "errno (leave_array b s) = errno s"
  "sys.more (leave_array b s) = sys.more s" "memory (leave_array b s) = drop_block b (memory s)"
  by (simp_all add: leave_array_def)

text \<open>The states after the call that keep all that was there before it.\<close>

definition grown :: "'z sys_scheme \<Rightarrow> 'z sys_scheme \<Rightarrow> bool" where
  "grown s s' \<longleftrightarrow> wf_mem (memory s') \<and> mem_ext (memory s) (memory s') \<and> sys.more s' = sys.more s"

lemma grown_leave: "grown s s' \<Longrightarrow> nextb (memory s) \<le> b \<Longrightarrow> grown s (leave_array b s')"
  by (simp add: grown_def mem_ext_drop)

lemma grown_trans: "grown s s' \<Longrightarrow> grown s' s'' \<Longrightarrow> grown s s''"
  by (auto simp: grown_def intro: mem_ext_trans)

lemma grown_received: "received b n r s s' \<Longrightarrow> wf_mem (memory s) \<Longrightarrow> grown s s'"
  using received_frame [of b n r s s'] by (simp add: grown_def)

lemma received_block: "received b n r s s' \<Longrightarrow> b = nextb (memory s) \<and> nextb (memory s') = Suc (nextb (memory s))"
  by (auto simp: received_def new_block_def)

text \<open>After the TLVs were received into the array \<open>buffer\<close>.\<close>

definition read_finish ::
  "nat \<Rightarrow> nat \<Rightarrow> 'z sys_scheme \<Rightarrow> opts_ptr option \<times> mem \<Rightarrow> ((int option \<times> opts_ptr option) \<times> 'z sys_scheme) run"
where
  "read_finish hdr buffer s = (\<lambda>(opts, m).
     let s = s\<lparr>memory := m\<rparr> in
     case opts of
       None \<Rightarrow> return ((None, None), leave_array hdr (leave_array buffer s))
     | Some p \<Rightarrow>
         if has_flag CONVERT_ERROR (flags (snd p))
         then bindR (Some (convert_free_opts (memory s) p)) (\<lambda>m.
           return ((Some (uint (error_code (snd p))), None),
             leave_array hdr (leave_array buffer (s\<lparr>memory := m\<rparr>))))
         else return ((Some 0, Some p), leave_array hdr (leave_array buffer s)))"

lemma read_convert_opts_alt:
  "read_convert_opts mal kern f peek s =
     (let (hdr, s) = auto_array (unat CONVERT_HDR_LEN) s in
      bindR (Some (sys_recvfrom kern f (Ptr hdr 0) CONVERT_HDR_LEN (hdr_flags peek) s)) (\<lambda>(rc, s).
      if rc < 0 then return ((Some (errno s), None), leave_array hdr s)
      else bindR (Some (convert_parse_header (memory s) (Ptr hdr 0) (word_of_int rc))) (\<lambda>(ok, tlvs_length).
      if ok < 0 then return ((Some (errno s), None), leave_array hdr s)
      else case tlvs_length of None \<Rightarrow> fail UninitRead | Some len \<Rightarrow>
      if len = 0 then fail UninitRead
      else bindR (Some (vla_array (unat (len + tlvs_offset peek)) s)) (\<lambda>(buffer, s).
        bindR (Some (sys_recvfrom kern f (Ptr buffer 0) (len + tlvs_offset peek) MSG_WAITALL s)) (\<lambda>(rc, s).
        if rc \<noteq> sint (ucast (len + tlvs_offset peek) :: u32) \<or> rc < 0
        then return ((Some (errno s), None), leave_array hdr (leave_array buffer s))
        else bindR (convert_parse_tlvs mal (memory s) (padd (Ptr buffer 0) (unat (tlvs_offset peek)))
          (len + tlvs_offset peek - tlvs_offset peek)) (read_finish hdr buffer s))))))"
proof -
  have "(if peek then x + CONVERT_HDR_LEN else x) = x + (if peek then CONVERT_HDR_LEN else 0)" for x
    by simp
  then show ?thesis
    unfolding read_convert_opts_def hdr_flags_def tlvs_offset_def read_finish_def Let_def by (simp only:)
qed


lemma read_convert_opts_spec:
  assumes wf: "wf_mem (memory s)" and ok: "recv_ok kern"
  shows "case peer_says kern f peek (trace s) of
      Hdr_empty \<Rightarrow> read_convert_opts mal kern f peek s = fail UninitRead
    | Hdr_wrapped \<Rightarrow> read_convert_opts mal kern f peek s = fail BadVla
    | Tlvs bs \<Rightarrow> \<exists>hdr buffer s2 p n.
        read_convert_opts mal kern f peek s =
          bindR (convert_parse_tlvs mal (memory s2) p n) (read_finish hdr buffer s2) \<and>
        has_bytes (memory s2) p bs \<and> unat n = length bs \<and> bs \<noteq> [] \<and> grown s s2 \<and>
        nextb (memory s) \<le> hdr \<and> nextb (memory s) \<le> buffer \<and>
        hdr < nextb (memory s2) \<and> buffer < nextb (memory s2)
    | _ \<Rightarrow> \<exists>c s'. read_convert_opts mal kern f peek s = return ((Some c, None), s') \<and> grown s s'"
proof -
  define c1 where "c1 = Recvfrom f CONVERT_HDR_LEN (hdr_flags peek)"
  define r1 where "r1 = kern (trace s) c1"
  obtain hdr s0 where arr: "auto_array (unat CONVERT_HDR_LEN) s = (hdr, s0)" by fastforce
  obtain s1 where s1: "sys_recvfrom kern f (Ptr hdr 0) CONVERT_HDR_LEN (hdr_flags peek) s0 = Inr (ret r1, s1)"
      "received hdr 4 r1 s s1" "trace s1 = c1 # trace s"
    by (rule hdr_recv [OF ok arr, of f peek]) (simp add: r1_def c1_def)
  note g1 = grown_received [OF s1(2) wf] and b1 = received_block [OF s1(2)]
  let ?read = "read_convert_opts mal kern f peek s"
  note run = read_convert_opts_alt [of mal kern f peek s, unfolded arr Let_def prod.case s1(1) bindR.simps]
  have gone: "grown s (leave_array hdr s1)" using g1 b1 by (simp add: grown_leave)
  consider "ret r1 < 0" | "0 \<le> ret r1" "header_of r1 = None"
    | len where "0 \<le> ret r1" "header_of r1 = Some len" by fastforce
  then show ?thesis
  proof cases
    case 1
    then have "peer_says kern f peek (trace s) = Hdr_failed"
      by (simp add: peer_says_def Let_def r1_def c1_def)
    then show ?thesis using run 1 gone by auto
  next
    case 2
    then have "peer_says kern f peek (trace s) = Hdr_bad"
      by (simp add: peer_says_def Let_def r1_def c1_def)
    then show ?thesis using run 2 gone received_header [OF s1(2)] by auto
  next
    case 3
    note ph = received_header [OF s1(2) 3(1), unfolded 3(2) option.case]
    have says: "peer_says kern f peek (trace s) =
      (if len = 0 then Hdr_empty else if 1016 < unat len then Hdr_wrapped
       else let r2 = kern (c1 # trace s) (Recvfrom f (len + tlvs_offset peek) MSG_WAITALL) in
         if ret r2 \<noteq> int (unat len + unat (tlvs_offset peek)) then Tlvs_failed
         else Tlvs (drop (unat (tlvs_offset peek)) (data r2)))"
      using 3 unfolding peer_says_def Let_def r1_def [symmetric] c1_def [symmetric] by simp
    have run3: "?read = (if len = 0 then fail UninitRead
      else bindR (Some (vla_array (unat (len + tlvs_offset peek)) s1)) (\<lambda>(buffer, s).
        bindR (Some (sys_recvfrom kern f (Ptr buffer 0) (len + tlvs_offset peek) MSG_WAITALL s)) (\<lambda>(rc, s).
        if rc \<noteq> sint (ucast (len + tlvs_offset peek) :: u32) \<or> rc < 0
        then return ((Some (errno s), None), leave_array hdr (leave_array buffer s))
        else bindR (convert_parse_tlvs mal (memory s) (padd (Ptr buffer 0) (unat (tlvs_offset peek)))
          (len + tlvs_offset peek - tlvs_offset peek)) (read_finish hdr buffer s))))"
      unfolding run ph bindR.simps prod.case using 3(1) by simp
    consider "len = 0" | "len = - 4" | "4 \<le> unat len" "unat len \<le> 1016"
      using announced_cases [of "data r1 ! 1"] header_of_bounds [OF 3(2)] by metis
    then show ?thesis
    proof cases
      case 1
      then show ?thesis using says run3 by simp
    next
      case 2
      have "vla_array (unat (len + tlvs_offset peek)) s1 = Inl BadVla"
        using 2 by (simp add: vla_array_def vla_def tlvs_offset_def layout PTRDIFF_MAX_def)
      then show ?thesis using says run3 2 by simp
    next
      case bnd: 3
      define r2 where "r2 = kern (c1 # trace s) (Recvfrom f (len + tlvs_offset peek) MSG_WAITALL)"
      have "0 < unat len" "len \<noteq> 0" using bnd by auto
      from tlvs_recv [OF ok this(1) bnd(2), of peek s1 f MSG_WAITALL, unfolded s1(3) r2_def [symmetric]]
      obtain b s0' s2 where s2: "vla_array (unat (len + tlvs_offset peek)) s1 = Inr (b, s0')"
          "sys_recvfrom kern f (Ptr b 0) (len + tlvs_offset peek) MSG_WAITALL s0' = Inr (ret r2, s2)"
          "received b (unat len + unat (tlvs_offset peek)) r2 s1 s2" by blast
      have "wf_mem (memory s1)" using g1 by (simp add: grown_def)
      then have g2: "grown s s2" by (rule grown_trans [OF g1 grown_received [OF s2(3)]])
      note b2 = received_block [OF s2(3)]
      note run4 = run3 [unfolded s2(1,2) bindR.simps prod.case tlvs_lengths(2,3) [OF bnd(2)]]
      show ?thesis
      proof (cases "ret r2 = int (unat len + unat (tlvs_offset peek))")
        case False
        have "?read = return ((Some (errno s2), None), leave_array hdr (leave_array b s2))"
          unfolding run4 using \<open>len \<noteq> 0\<close> False by simp
        moreover have "grown s (leave_array hdr (leave_array b s2))"
          using g2 b1 b2 by (simp add: grown_leave)
        ultimately show ?thesis using says False bnd \<open>len \<noteq> 0\<close> by (auto simp: r2_def [symmetric])
      next
        case True
        note tb = tlvs_bytes [OF s2(3) True]
        have "\<not> ret r2 < 0" unfolding True by (simp only: of_nat_less_0_iff not_False_eq_True)
        have "?read = bindR (convert_parse_tlvs mal (memory s2) (padd (Ptr b 0) (unat (tlvs_offset peek))) len)
            (read_finish hdr b s2)"
          unfolding run4 using \<open>len \<noteq> 0\<close> True \<open>\<not> ret r2 < 0\<close> by simp
        moreover have ps: "peer_says kern f peek (trace s) = Tlvs (drop (unat (tlvs_offset peek)) (data r2))"
          using says True bnd \<open>len \<noteq> 0\<close> by (simp add: r2_def [symmetric])
        moreover have "drop (unat (tlvs_offset peek)) (data r2) \<noteq> []" using tb(2) bnd by auto
        ultimately show ?thesis unfolding ps peer.case using tb g2 b1 b2
          by (intro exI [of _ hdr] exI [of _ b] exI [of _ s2] exI [of _ len] conjI
            exI [of _ "padd (Ptr b 0) (unat (tlvs_offset peek))"])
            (simp_all del: has_bytes.simps padd.simps)
      qed
    qed
  qed
qed


lemma has_bytes_drop_block: "b \<notin> ptr_blocks p \<Longrightarrow> has_bytes (drop_block b m) p bs = has_bytes m p bs"
  by (cases p) (auto simp: ptr_blocks_def drop_block_def bytes_at_def)

lemma opts_hold_drop:
  "opts_hold m opts g \<Longrightarrow> b \<notin> ptr_blocks (tcp_options opts) \<Longrightarrow> b \<notin> ptr_blocks (cookie_data opts) \<Longrightarrow>
   opts_hold (drop_block b m) opts g"
  by (simp add: opts_hold_def has_bytes_drop_block)

text \<open>The parser on received TLVs, when the decoder accepts them.\<close>

lemma parse_received:
  assumes "wf_mem m" and "has_bytes m p bs" and "unat n = length bs" and "bs \<noteq> []"
    and "decode bs = Complete ts"
  obtains ob opts m' where "convert_parse_tlvs plenty m p n = return (Some (ob, opts), m')"
    "opts_hold m' opts (message_of ts)" "wf_mem m'" "mem_ext m m'"
    "ptr_blocks (tcp_options opts) \<subseteq> {nextb m ..}" "ptr_blocks (cookie_data opts) \<subseteq> {nextb m ..}"
    "ob = nextb m" "blocks m' ob = Some Struct"
proof -
  obtain m' opts where st: "store_tlvs plenty ts (snd (new_block Struct m), zero_opts) = Inr (m', opts)"
    and res: "parse_result plenty m bs = return (Some (nextb m, opts), m')"
    by (rule parse_plenty [OF assms(4), of m]) (simp add: assms(5))
  have wf: "list_all wf_tlv ts" using assms(5) by (rule decode_Complete_wf)
  have "opts_hold m' opts (message_of ts)"
    unfolding message_of_def using assms(1) by (intro opts_hold_tlvs [OF _ opts_hold_zero wf st]) simp
  moreover have ret: "convert_parse_tlvs plenty m p n = return (Some (nextb m, opts), m')"
    using res convert_parse_tlvs_eq [OF assms(1-3) alloc_sane_plenty] by simp
  moreover have "blocks m' (nextb m) = Some Struct" using live_since_tlvs(2) [OF assms(1) st] .
  ultimately show ?thesis
    using that convert_parse_tlvs_frame [OF assms(1-3) alloc_sane_plenty ret] parsed_fresh [OF res assms(1)]
    by blast
qed

section \<open>A peer that sends a written message\<close>

lemma header_of_wire:
  assumes "4 dvd length (encode ts)" and "length (encode ts) \<le> 1016"
  obtains len where "header_of \<lparr>ret = 4, data = take 4 (wire ts), err = 0\<rparr> = Some len"
    "unat len = length (encode ts)"
proof -
  have h: "take 4 (wire ts) = header_bytes (length (wire ts))"
    unfolding length_wire by (simp add: wire_def header_bytes_def del: length_wire)
  have "good_header (header_bytes (length (wire ts)))"
    by (simp add: good_header_def header_bytes_def window_def le16_def)
  then have hd: "header_of \<lparr>ret = 4, data = take 4 (wire ts), err = 0\<rparr> = Some (announced (units (length (wire ts))))"
    unfolding header_of_def h by (simp add: header_bytes_def)
  have "4 * unat (units (length (wire ts))) = length (wire ts)"
    using assms by (intro unat_units) simp_all
  then have "unat (announced (units (length (wire ts)))) = length (encode ts)"
    using unsigned_eq_0_iff [of "units (length (wire ts))"] unfolding unat_announced length_wire by auto
  then show ?thesis using that hd by blast
qed

lemma peer_says_wire:
  assumes "4 dvd length (encode ts)" and "length (encode ts) \<le> 1016" and "consumed h = 0"
  shows "peer_says (stream_kern (wire ts)) f False h =
    (if encode ts = [] then Hdr_empty else Tlvs (encode ts))"
proof -
  obtain len where len: "header_of \<lparr>ret = 4, data = take 4 (wire ts), err = 0\<rparr> = Some len"
    "unat len = length (encode ts)" using assms(1,2) by (rule header_of_wire)
  have "drop 4 (wire ts) = encode ts" by (simp add: wire_def header_bytes_def)
  moreover have "len = 0 \<longleftrightarrow> encode ts = []" using len(2) by (metis length_0_conv unsigned_eq_0_iff)
  ultimately show ?thesis
    using len assms
    by (simp add: peer_says_def Let_def stream_kern_def tlvs_offset_def hdr_flags_def MSG_WAITALL_def MSG_PEEK_def)
qed

section \<open>Properties\<close>

text \<open>
  A complete message is received: when the peer sends a good header and then the
  announced number of bytes, and these decode to TLVs none of which is an Error, the reader
  stores 0 and returns options that hold the message of these TLVs; its local arrays are gone
  and the memory that existed before is unchanged.
\<close>

theorem read_convert_opts_receives:
  assumes "wf_mem (memory s)" and "recv_ok kern"
    and "peer_says kern f peek (trace s) = Tlvs bs" and "decode bs = Complete ts"
    and "\<not> has_flag CONVERT_ERROR (msg_flags (message_of ts))"
  shows "\<exists>ob opts s'. read_convert_opts plenty kern f peek s = return ((Some 0, Some (ob, opts)), s') \<and>
    opts_hold (memory s') opts (message_of ts) \<and> grown s s'"
proof -
  obtain hdr buffer s2 p n where
    run: "read_convert_opts plenty kern f peek s =
        bindR (convert_parse_tlvs plenty (memory s2) p n) (read_finish hdr buffer s2)"
    and has: "has_bytes (memory s2) p bs" "unat n = length bs" "bs \<noteq> []" and g: "grown s s2"
    and bl: "nextb (memory s) \<le> hdr" "nextb (memory s) \<le> buffer"
      "hdr < nextb (memory s2)" "buffer < nextb (memory s2)"
    using read_convert_opts_spec [OF assms(1,2), where mal = plenty and f = f and peek = peek] assms(3) by auto
  have wf2: "wf_mem (memory s2)" using g by (simp add: grown_def)
  obtain ob opts m' where m': "convert_parse_tlvs plenty (memory s2) p n = return (Some (ob, opts), m')"
    "opts_hold m' opts (message_of ts)" "wf_mem m'" "mem_ext (memory s2) m'"
    "ptr_blocks (tcp_options opts) \<subseteq> {nextb (memory s2) ..}" "ptr_blocks (cookie_data opts) \<subseteq> {nextb (memory s2) ..}"
    by (rule parse_received [OF wf2 has assms(4)])
  let ?s' = "leave_array hdr (leave_array buffer (s2\<lparr>memory := m'\<rparr>))"
  have "flags opts = msg_flags (message_of ts)" using m'(2) by (simp add: opts_hold_def)
  then have "read_convert_opts plenty kern f peek s = return ((Some 0, Some (ob, opts)), ?s')"
    unfolding run m'(1) using assms(5) by (simp add: read_finish_def)
  moreover have "opts_hold (memory ?s') opts (message_of ts)"
    using m'(2,5,6) bl(3,4) by (auto intro!: opts_hold_drop)
  moreover have "grown s ?s'"
    using g m'(3,4) bl(1,2)
    by (intro grown_leave grown_trans [OF g]) (auto simp: grown_def)
  ultimately show ?thesis by blast
qed

lemma read_convert_opts_receives_witness:
  "\<exists>ob opts s'. read_convert_opts plenty (stream_kern (wire sample_tlvs)) 3 False start =
       return ((Some 0, Some (ob, opts)), s') \<and>
     opts_hold (memory s') opts (message_of sample_tlvs) \<and> grown start s'"
proof (rule read_convert_opts_receives)
  have "length (encode sample_tlvs) = 28" using length_sample by (simp add: sample_def)
  then show "peer_says (stream_kern (wire sample_tlvs)) 3 False (trace start) = Tlvs sample"
    using peer_says_wire [of sample_tlvs "[]" 3] by (auto simp: sample_def)
qed (simp_all add: decode_sample, simp add: message_of_def sample_tlvs_def empty_message_def)

text \<open>
  C29. Undefined behaviour is in the peer's hands: the reader goes wrong exactly when the peer
  sends a valid header without TLVs, in which case it returns a pointer it never assigned, or
  a header with the total length 0, for which it declares an array of almost \<open>2 ^ 64\<close> bytes
  or, when peeking, of none.
\<close>

theorem read_convert_opts_faults_iff:
  assumes "wf_mem (memory s)" and "recv_ok kern" and "alloc_sane mal"
  shows "(\<exists>flt. read_convert_opts mal kern f peek s = fail flt) \<longleftrightarrow>
    peer_says kern f peek (trace s) = Hdr_empty \<or> peer_says kern f peek (trace s) = Hdr_wrapped"
proof (cases "peer_says kern f peek (trace s)")
  case (Tlvs bs)
  then obtain hdr buffer s2 p n where
    run: "read_convert_opts mal kern f peek s =
        bindR (convert_parse_tlvs mal (memory s2) p n) (read_finish hdr buffer s2)"
    and has: "has_bytes (memory s2) p bs" "unat n = length bs" and g: "grown s s2"
    using read_convert_opts_spec [OF assms(1,2), where mal = mal and f = f and peek = peek] by auto
  have wf2: "wf_mem (memory s2)" using g by (simp add: grown_def)
  have "read_finish hdr buffer s2 (r, m) \<noteq> fail flt" if "convert_parse_tlvs mal (memory s2) p n = return (r, m)" for r m flt
  proof (cases r)
    case (Some q)
    then have "\<exists>m''. convert_free_opts m q = Inr m''"
      using free_parsed_frame [OF wf2 has assms(3)] that by blast
    then obtain m'' where "convert_free_opts m q = Inr m''" ..
    then show ?thesis using Some by (simp add: read_finish_def Let_def)
  qed (simp add: read_finish_def)
  then have "read_convert_opts mal kern f peek s \<noteq> fail flt" for flt
    using parse_returns [OF wf2 has assms(3)] unfolding run by (auto simp: bindE_simps)
  then show ?thesis using Tlvs by simp
qed (use read_convert_opts_spec [OF assms(1,2), where mal = mal and f = f and peek = peek] in auto)

lemma read_convert_opts_faults_iff_witness:
  "\<exists>flt. read_convert_opts plenty (stream_kern (wire [])) 3 False start = fail flt"
  using read_convert_opts_faults_iff [of start "stream_kern (wire [])" plenty 3 False] peer_says_wire [of "[]" "[]" 3]
  by (simp add: encode_def)

text \<open>
  An Error TLV is reported: when the received TLVs contain one, the caller gets a null
  pointer and the code of the last one, and the options are released.
\<close>

theorem read_convert_opts_reports_error:
  assumes "wf_mem (memory s)" and "recv_ok kern"
    and "peer_says kern f peek (trace s) = Tlvs bs" and "decode bs = Complete ts"
    and "has_flag CONVERT_ERROR (msg_flags (message_of ts))"
  shows "\<exists>s'. read_convert_opts plenty kern f peek s =
      return ((Some (uint (msg_error (message_of ts))), None), s') \<and> grown s s'"
proof -
  obtain hdr buffer s2 p n where
    run: "read_convert_opts plenty kern f peek s =
        bindR (convert_parse_tlvs plenty (memory s2) p n) (read_finish hdr buffer s2)"
    and has: "has_bytes (memory s2) p bs" "unat n = length bs" "bs \<noteq> []" and g: "grown s s2"
    and bl: "nextb (memory s) \<le> hdr" "nextb (memory s) \<le> buffer"
    using read_convert_opts_spec [OF assms(1,2), where mal = plenty and f = f and peek = peek] assms(3) by auto
  have wf2: "wf_mem (memory s2)" using g by (simp add: grown_def)
  obtain ob opts m' where m': "convert_parse_tlvs plenty (memory s2) p n = return (Some (ob, opts), m')"
    "opts_hold m' opts (message_of ts)"
    by (rule parse_received [OF wf2 has assms(4)])
  obtain m'' where m'': "convert_free_opts m' (ob, opts) = Inr m''" "wf_mem m''" "mem_ext (memory s2) m''"
    using free_parsed_frame [OF wf2 has(1,2) alloc_sane_plenty m'(1)] by blast
  let ?s' = "leave_array hdr (leave_array buffer (s2\<lparr>memory := m''\<rparr>))"
  have "flags opts = msg_flags (message_of ts)" "error_code opts = msg_error (message_of ts)"
    using m'(2) by (simp_all add: opts_hold_def)
  then have "read_convert_opts plenty kern f peek s = return ((Some (uint (msg_error (message_of ts))), None), ?s')"
    unfolding run m'(1) using assms(5) m''(1) by (simp add: read_finish_def)
  moreover have "grown s ?s'"
    using g m''(2,3) bl by (intro grown_leave grown_trans [OF g]) (auto simp: grown_def)
  ultimately show ?thesis by blast
qed

lemma read_convert_opts_reports_error_witness:
  "\<exists>s'. read_convert_opts plenty (stream_kern (wire [Tlv_error 97])) 3 False start = return ((Some 97, None), s')"
proof -
  have "peer_says (stream_kern (wire [Tlv_error 97])) 3 False (trace start) = Tlvs (encode [Tlv_error 97])"
    using peer_says_wire [of "[Tlv_error 97]" "[]" 3] by (simp add: encode_def dvd_eq_mod_eq_0)
  moreover have "decode (encode [Tlv_error 97]) = Complete [Tlv_error 97]"
    by (rule decode_encode) simp
  ultimately show ?thesis
    using read_convert_opts_reports_error [of start "stream_kern (wire [Tlv_error 97])" 3 False]
    by (fastforce simp: message_of_def empty_message_def)
qed

end
