(* ===== verification/Client.thy ===== *)
theory Client
  imports SockTable ConvertRead ConvertWrite
begin

text \<open>
  The interception of the socket calls in \<open>lib_convert/convert_client.c\<close>: \<open>socket\<close>, \<open>connect\<close>,
  \<open>close\<close>, \<open>recv\<close> and \<open>send\<close> as the application calls them, with the redirection of a
  connection through the converter and the reading of its answer. The calls found by \<open>dlsym\<close>
  are calls of the kernel; what is printed is not modelled.
\<close>

section \<open>State and constants\<close>

text \<open>
  The globals besides the table. \<open>_converter_addr\<close> is the first address that \<open>getaddrinfo\<close> gave
  or null; the port is the default literal or a C string in memory, the cookie is a C string
  in memory or null.
\<close>

record client = tstate +
  converter_addr :: "sockaddr option"
  convert_port_str :: "ptr option"     \<comment> \<open>\<open>None\<close> is the literal \<open>CONVERT_PORT\<close>\<close>
  convert_cookie_str :: ptr
  log_mutex :: bool

definition ECONNREFUSED :: int where "ECONNREFUSED = 111"

definition EAFNOSUPPORT :: int where "EAFNOSUPPORT = 97"

definition EOPNOTSUPP :: int where "EOPNOTSUPP = 95"

definition SYSCALL_SKIP :: int where "SYSCALL_SKIP = 0"

definition SYSCALL_RUN :: int where "SYSCALL_RUN = 1"

section \<open>Sending the Connect TLV\<close>

definition to_v4mapped :: "u32 \<Rightarrow> byte list" where
  "to_v4mapped from = le32 0 @ le32 0 @ le32 (htonl 0xffff) @ le32 from"

text \<open>The options before the destination is known: the flags and the cookie.\<close>

definition initial_opts :: "'z client_scheme \<Rightarrow> fault + convert_opts" where
  "initial_opts s =
     (let opts = zero_opts\<lparr>flags := ucast (CONVERT_F CONVERT_CONNECT)\<rparr> in
      if convert_cookie_str s = Null then Inr opts
      else bindE (strlen (memory s) (convert_cookie_str s)) (\<lambda>n.
        Inr (opts\<lparr>flags := set_flag CONVERT_COOKIE (flags opts), cookie_len := of_nat n,
               cookie_data := convert_cookie_str s\<rparr>)))"

text \<open>The \<open>switch\<close> on the address family; \<open>None\<close> is its default.\<close>

fun set_dest :: "sockaddr \<Rightarrow> convert_opts \<Rightarrow> convert_opts option" where
  "set_dest (Sockaddr_in port a) opts =
     Some (opts\<lparr>remote_addr := (remote_addr opts)\<lparr>sin6_addr := to_v4mapped a, sin6_port := port\<rparr>\<rparr>)"
| "set_dest (Sockaddr_in6 in6) opts = Some (opts\<lparr>remote_addr := in6\<rparr>)"
| "set_dest (Sockaddr_other fam) opts = None"

definition redirect_connect_tlv ::
  "ptr \<Rightarrow> size_t \<Rightarrow> sockaddr \<Rightarrow> 'z client_scheme \<Rightarrow> fault + ssize_t \<times> 'z client_scheme"
where
  "redirect_connect_tlv buf buf_len addr s =
     bindE (initial_opts s) (\<lambda>opts.
     case set_dest addr opts of
       None \<Rightarrow> Inr (word_of_int (- EAFNOSUPPORT), s)
     | Some opts \<Rightarrow>
         bindE (convert_write (memory s) buf buf_len opts) (\<lambda>(rc, m).
           Inr (if sint rc < 0 then word_of_int (- EOPNOTSUPP) else rc, s\<lparr>memory := m\<rparr>)))"

definition redirect :: "kern \<Rightarrow> nat \<Rightarrow> sockaddr \<Rightarrow> 'z client_scheme \<Rightarrow> fault + int \<times> 'z client_scheme" where
  "redirect kern state dest s =
     (let (buf, s) = auto_array 1024 s in
      bindE (redirect_connect_tlv (Ptr buf 0) 1024 dest s) (\<lambda>(len, s).
      if sint len < 0 then Inr (sint (ucast len :: u32), leave_array buf s)
      else bindE (get_fd state s) (\<lambda>f.
        case converter_addr s of None \<Rightarrow> Inl NullDeref | Some ca \<Rightarrow>
        let (rc, s) = syscall kern (Connect f ca) s in
        if rc < 0 then Inr (-1, leave_array buf s)
        else bindE (get_fd state s) (\<lambda>f.
          bindE (load_bytes (memory s) (Ptr buf 0) (unat len)) (\<lambda>bs.
            let (rc, s) = syscall kern (Send f bs 0) s in Inr (rc, leave_array buf s))))))"

section \<open>Reading the answer\<close>

definition set_no_linger :: "kern \<Rightarrow> nat \<Rightarrow> 'z tstate_scheme \<Rightarrow> fault + 'z tstate_scheme" where
  "set_no_linger kern state s =
     bindE (get_fd state s) (\<lambda>f. Inr (snd (syscall kern (Set_linger f 1 0) s)))"

text \<open>
  Where the function goes on: the statement behind the block \<open>if (length)\<close>, or one of its
  labels.
\<close>

datatype label = Fine | Error_and_free opts_ptr | Error | Skip

definition read_tlvs ::
  "alloc \<Rightarrow> kern \<Rightarrow> nat \<Rightarrow> bool \<Rightarrow> size_t \<Rightarrow> 'z tstate_scheme \<Rightarrow> (label \<times> 'z tstate_scheme) run"
where
  "read_tlvs mal kern state peek len s =
     (let offset = (if peek then CONVERT_HDR_LEN else 0) in
      bindR (Some (vla_array (unat (len + offset)) s)) (\<lambda>(buffer, s).
      let len = (if peek then len + CONVERT_HDR_LEN else len) in
      bindR (Some (get_fd state s)) (\<lambda>f.
      bindR (Some (sys_recvfrom kern f (Ptr buffer 0) len MSG_WAITALL s)) (\<lambda>(rc, s).
      if rc \<noteq> sint (ucast len :: u32) \<or> rc < 0 then return (Error, leave_array buffer s)
      else bindR (convert_parse_tlvs mal (memory s) (padd (Ptr buffer 0) (unat offset)) (len - offset))
        (\<lambda>(opts, m). let s = s\<lparr>memory := m\<rparr> in
        case opts of
          None \<Rightarrow> return (Error, leave_array buffer s)
        | Some p \<Rightarrow>
            if has_flag CONVERT_ERROR (flags (snd p)) then return (Error_and_free p, leave_array buffer s)
            else return (Fine, leave_array buffer s))))))"

definition free_unless :: "bool \<Rightarrow> nat \<Rightarrow> 'z tstate_scheme \<Rightarrow> 'z tstate_scheme run" where
  "free_unless peek state s = (if peek then return s else table_free_state state s)"

definition at_error :: "kern \<Rightarrow> nat \<Rightarrow> bool \<Rightarrow> 'z tstate_scheme \<Rightarrow> (int \<times> 'z tstate_scheme) run" where
  "at_error kern state peek s =
     bindR (Some (set_no_linger kern state s)) (\<lambda>s.
     bindR (free_unless peek state s) (\<lambda>s. return (SYSCALL_SKIP, s)))"

fun go_on :: "kern \<Rightarrow> nat \<Rightarrow> bool \<Rightarrow> label \<Rightarrow> 'z tstate_scheme \<Rightarrow> (int \<times> 'z tstate_scheme) run" where
  "go_on kern state peek Fine s =
     bindR (free_unless peek state s) (\<lambda>s. return (SYSCALL_RUN, s))"
| "go_on kern state peek (Error_and_free p) s =
     bindR (Some (convert_free_opts (memory s) p)) (\<lambda>m. at_error kern state peek (s\<lparr>memory := m\<rparr>))"
| "go_on kern state peek Error s = at_error kern state peek s"
| "go_on kern state peek Skip s = return (SYSCALL_SKIP, s)"

definition read_convert ::
  "alloc \<Rightarrow> kern \<Rightarrow> nat \<Rightarrow> bool \<Rightarrow> 'z tstate_scheme \<Rightarrow> (int \<times> 'z tstate_scheme) run"
where
  "read_convert mal kern state peek s =
     (let (hdr, s) = auto_array (unat CONVERT_HDR_LEN) s;
          flag = (if peek then MSG_PEEK else 0) in
      bindR (Some (get_fd state s)) (\<lambda>f.
      bindR (Some (sys_recvfrom kern f (Ptr hdr 0) CONVERT_HDR_LEN (MSG_WAITALL OR flag) s)) (\<lambda>(rc, s).
      bindR
        (if rc < 0 then return (Skip, s)
         else bindR (Some (convert_parse_header (memory s) (Ptr hdr 0) (word_of_int rc))) (\<lambda>(ok, tlvs_length).
           if ok < 0 then return (Error, s)
           else case tlvs_length of None \<Rightarrow> fail UninitRead | Some len \<Rightarrow>
             if len = 0 then return (Fine, s) else read_tlvs mal kern state peek len s))
        (\<lambda>(lbl, s).
      bindR (go_on kern state peek lbl s) (\<lambda>(rc, s). return (rc, leave_array hdr s))))))"

section \<open>The intercepted calls\<close>

definition socket_call :: "alloc \<Rightarrow> kern \<Rightarrow> int \<Rightarrow> int \<Rightarrow> int \<Rightarrow> 'z tstate_scheme \<Rightarrow> (int \<times> 'z tstate_scheme) run" where
  "socket_call mal kern domain type protocol s =
     (let (f, s) = syscall kern (Socket domain type protocol) s in
      if (domain = AF_INET \<or> domain = AF_INET6) \<and> type = SOCK_STREAM \<and> protocol = IPPROTO_MPTCP \<and> 0 \<le> f
      then bindR (table_alloc mal f s) (\<lambda>s. return (f, s))
      else return (f, s))"

definition connect_call ::
  "alloc \<Rightarrow> kern \<Rightarrow> int \<Rightarrow> sockaddr \<Rightarrow> 'z client_scheme \<Rightarrow> (int \<times> 'z client_scheme) run"
where
  "connect_call mal kern sockfd addr s =
     bindR (table_lookup sockfd s) (\<lambda>(state, s).
     case state of
       None \<Rightarrow> return (syscall kern (Connect sockfd addr) s)
     | Some e \<Rightarrow>
         let give_up = (\<lambda>s. bindR (table_free_state e s) (\<lambda>s. return (syscall kern (Connect sockfd addr) s))) in
         (case addr of
            Sockaddr_other fam \<Rightarrow> give_up s
          | _ \<Rightarrow>
              bindR (Some (redirect kern e addr s)) (\<lambda>(result, s).
                if 0 \<le> result
                then (if 0 < result then read_convert mal kern e False s else return (- ECONNREFUSED, s))
                else give_up s)))"

definition close_call :: "kern \<Rightarrow> int \<Rightarrow> 'z tstate_scheme \<Rightarrow> (int \<times> 'z tstate_scheme) run" where
  "close_call kern sockfd s =
     bindR (table_free sockfd s) (\<lambda>s. return (syscall kern (Close sockfd) s))"

text \<open>\<open>recv\<close> and \<open>send\<close> differ in the call that is passed on.\<close>

definition recv_call ::
  "alloc \<Rightarrow> kern \<Rightarrow> int \<Rightarrow> ptr \<Rightarrow> size_t \<Rightarrow> int \<Rightarrow> 'z tstate_scheme \<Rightarrow> (int \<times> 'z tstate_scheme) run"
where
  "recv_call mal kern sockfd buf len fl s =
     bindR (table_lookup sockfd s) (\<lambda>(state, s).
     case state of
       None \<Rightarrow> return (syscall kern (Recv_app sockfd buf len fl) s)
     | Some e \<Rightarrow>
         bindR (read_convert mal kern e False s) (\<lambda>(rc, s).
           if rc = SYSCALL_RUN then return (syscall kern (Recv_app sockfd buf len fl) s)
           else if rc = SYSCALL_SKIP then return (0, s)
           else return (-1, s)))"

definition send_call ::
  "alloc \<Rightarrow> kern \<Rightarrow> int \<Rightarrow> ptr \<Rightarrow> size_t \<Rightarrow> int \<Rightarrow> 'z tstate_scheme \<Rightarrow> (int \<times> 'z tstate_scheme) run"
where
  "send_call mal kern sockfd buf len fl s =
     bindR (table_lookup sockfd s) (\<lambda>(state, s).
     case state of
       None \<Rightarrow> return (syscall kern (Send_app sockfd buf len fl) s)
     | Some e \<Rightarrow>
         bindR (read_convert mal kern e False s) (\<lambda>(rc, s).
           if rc = SYSCALL_RUN then return (syscall kern (Send_app sockfd buf len fl) s)
           else if rc = SYSCALL_SKIP then return (0, s)
           else return (-1, s)))"


section \<open>Frames\<close>

lemma more_sys: "sys.more s' = sys.more s \<Longrightarrow> htable s' = htable s \<and> htable_mutex s' = htable_mutex s \<and>
    tstate.more s' = tstate.more (s :: 'z tstate_scheme)"
  by (cases s; cases s') simp

lemma more_tstate: "sys.more s' = sys.more s \<Longrightarrow> converter_addr s' = converter_addr s \<and>
    convert_cookie_str s' = convert_cookie_str (s :: 'z client_scheme)"
  by (cases s; cases s') simp

lemma struct_less: "wf_mem m \<Longrightarrow> blocks m e = Some k \<Longrightarrow> e < nextb m"
  by (rule wf_mem_less)

text \<open>Growing memory does not disturb the table.\<close>

lemma table_inv_grown:
  fixes s s' :: "'z tstate_scheme"
  assumes "table_inv s LL" and "grown s s'"
  shows "table_inv s' LL \<and> states_of s' LL = states_of s LL"
proof -
  have h: "htable s' = htable s" "htable_mutex s' = htable_mutex s" and wf: "wf_mem (memory s')"
    and ext: "mem_ext (memory s) (memory s')"
    using assms(2) more_sys [of s' s] by (simp_all add: grown_def)
  have fo: "fd_of s' = fd_of s" by (simp add: fd_of_def h fun_eq_iff)
  have "blocks (memory s') e = Some Struct" if "cont (htable s') e \<noteq> None" for e
  proof -
    have "blocks (memory s) e = Some Struct" "wf_mem (memory s)"
      using assms(1) that by (auto simp: table_inv_def h)
    then show ?thesis using ext wf_mem_less [of "memory s" e] by (simp add: mem_ext_def)
  qed
  then have "table_inv s' LL"
    using assms(1) wf unfolding table_inv_def in_bucket_def fo h by simp
  then show ?thesis by (simp add: states_of_def fo fun_eq_iff)
qed

lemma table_abs_grown:
  fixes s s' :: "'z tstate_scheme"
  shows "table_abs s T \<Longrightarrow> grown s s' \<Longrightarrow> table_abs s' T"
  unfolding table_abs_def using table_inv_grown by metis

lemma table_abs_wf: "table_abs s T \<Longrightarrow> wf_mem (memory s)"
  by (auto simp: table_abs_def table_inv_def)

lemma get_fd_htable: "htable s' = htable s \<Longrightarrow> get_fd e s' = get_fd e s"
  by (simp add: get_fd_def)

lemma table_abs_struct:
  assumes "table_abs s T" and "e \<in> set (T f)"
  shows "blocks (memory s) e = Some Struct"
proof -
  obtain LL where LL: "table_inv s LL" "T = states_of s LL" using assms(1) by (auto simp: table_abs_def)
  then have "fd_of s e = Some f" using assms(2) by (auto simp: states_of_def split: if_splits)
  then show ?thesis using LL(1) by (auto simp: table_inv_def fd_of_def bind_eq_Some_conv)
qed

lemma syscall_frame [simp]:
  "sys.more (snd (syscall kern c s)) = sys.more s"
  by (simp add: syscall_def Let_def)

lemma grown_syscall: "wf_mem (memory s) \<Longrightarrow> grown s (snd (syscall kern c s))"
  by (simp add: grown_def)

lemma grown_refl: "wf_mem (memory s) \<Longrightarrow> grown s s"
  by (simp add: grown_def)


section \<open>What the reader of the answer does\<close>

lemma read_tlvs_alt:
  "read_tlvs mal kern state peek len s =
     bindR (Some (vla_array (unat (len + tlvs_offset peek)) s)) (\<lambda>(buffer, s).
     bindR (Some (get_fd state s)) (\<lambda>f.
     bindR (Some (sys_recvfrom kern f (Ptr buffer 0) (len + tlvs_offset peek) MSG_WAITALL s)) (\<lambda>(rc, s).
     if rc \<noteq> sint (ucast (len + tlvs_offset peek) :: u32) \<or> rc < 0 then return (Error, leave_array buffer s)
     else bindR (convert_parse_tlvs mal (memory s) (padd (Ptr buffer 0) (unat (tlvs_offset peek)))
         (len + tlvs_offset peek - tlvs_offset peek))
       (\<lambda>(opts, m). case opts of
         None \<Rightarrow> return (Error, leave_array buffer (s\<lparr>memory := m\<rparr>))
       | Some p \<Rightarrow>
           if has_flag CONVERT_ERROR (flags (snd p))
           then return (Error_and_free p, leave_array buffer (s\<lparr>memory := m\<rparr>))
           else return (Fine, leave_array buffer (s\<lparr>memory := m\<rparr>))))))"
proof -
  have "(if peek then x + CONVERT_HDR_LEN else x) = x + (if peek then CONVERT_HDR_LEN else 0)" for x
    by simp
  then show ?thesis unfolding read_tlvs_def tlvs_offset_def Let_def by (simp only:)
qed

definition freeable :: "'z sys_scheme \<Rightarrow> 'z sys_scheme \<Rightarrow> opts_ptr \<Rightarrow> bool" where
  "freeable s s' p \<longleftrightarrow> (\<exists>m. convert_free_opts (memory s') p = Inr m \<and> grown s (s'\<lparr>memory := m\<rparr>)) \<and>
     nextb (memory s) \<le> fst p \<and> blocks (memory s') (fst p) = Some Struct"

lemma read_tlvs_spec:
  fixes s :: "'z tstate_scheme"
  assumes wf: "wf_mem (memory s)" and ok: "recv_ok kern" and fd: "get_fd state s = Inr f"
    and len: "4 \<le> unat len" "unat len \<le> 1016"
    and r: "r = kern (trace s) (Recvfrom f (len + tlvs_offset peek) MSG_WAITALL)"
  shows "if ret r \<noteq> int (unat len + unat (tlvs_offset peek))
    then \<exists>s'. read_tlvs plenty kern state peek len s = return (Error, s') \<and> grown s s'
    else case decode (drop (unat (tlvs_offset peek)) (data r)) of
      Malformed ts \<Rightarrow> \<exists>s'. read_tlvs plenty kern state peek len s = return (Error, s') \<and> grown s s'
    | Endless ts \<Rightarrow> read_tlvs plenty kern state peek len s = None
    | Complete ts \<Rightarrow> \<exists>p s'. grown s s' \<and> freeable s s' p \<and>
        read_tlvs plenty kern state peek len s = return
          (if has_flag CONVERT_ERROR (msg_flags (message_of ts)) then Error_and_free p else Fine, s')"
proof -
  have "0 < unat len" using len(1) by simp
  from tlvs_recv [OF ok this len(2), of peek s f MSG_WAITALL, folded r]
  obtain b s0 s2 where s2: "vla_array (unat (len + tlvs_offset peek)) s = Inr (b, s0)"
      "sys_recvfrom kern f (Ptr b 0) (len + tlvs_offset peek) MSG_WAITALL s0 = Inr (ret r, s2)"
      "received b (unat len + unat (tlvs_offset peek)) r s s2" by blast
  have "htable s0 = htable s" using s2(1) by (auto simp: vla_array_def vla_def bindE_simps split: if_splits)
  then have fd0: "get_fd state s0 = Inr f" using fd get_fd_htable by metis
  note g2 = grown_received [OF s2(3) wf] and b2 = received_block [OF s2(3)]
  then have wf2: "wf_mem (memory s2)" by (simp add: grown_def)
  note run = read_tlvs_alt [of plenty kern state peek len s,
      unfolded s2(1) bindR.simps prod.case fd0 s2(2) tlvs_lengths(2,3) [OF len(2)]]
  show ?thesis
  proof (cases "ret r = int (unat len + unat (tlvs_offset peek))")
    case False
    then have "read_tlvs plenty kern state peek len s = return (Error, leave_array b s2)" unfolding run by simp
    moreover have "grown s (leave_array b s2)" using g2 b2 by (simp add: grown_leave)
    ultimately show ?thesis using False by auto
  next
    case True
    let ?bs = "drop (unat (tlvs_offset peek)) (data r)"
    have nn: "\<not> ret r < 0" unfolding True by (simp only: of_nat_less_0_iff not_False_eq_True)
    note tb = tlvs_bytes [OF s2(3) True]
    have ne: "?bs \<noteq> []" using tb(2) len(1) by auto
    note eq = convert_parse_tlvs_eq [OF wf2 tb alloc_sane_plenty]
    note run2 = run [unfolded if_not_P [OF nn] True, simplified nn True simp_thms if_False]
    have run3: "read_tlvs plenty kern state peek len s =
      bindR (convert_parse_tlvs plenty (memory s2) (padd (Ptr b 0) (unat (tlvs_offset peek))) len)
       (\<lambda>(opts, m). case opts of
         None \<Rightarrow> return (Error, leave_array b (s2\<lparr>memory := m\<rparr>))
       | Some p \<Rightarrow>
           if has_flag CONVERT_ERROR (flags (snd p))
           then return (Error_and_free p, leave_array b (s2\<lparr>memory := m\<rparr>))
           else return (Fine, leave_array b (s2\<lparr>memory := m\<rparr>)))"
      unfolding run using nn True by simp
    have gl: "grown s (leave_array b (s2\<lparr>memory := m\<rparr>))" if "wf_mem m" "mem_ext (memory s2) m" for m
      using g2 b2 that mem_ext_trans by (intro grown_leave) (auto simp: grown_def)
    obtain m2 opts where pr: "parse_result plenty (memory s2) ?bs = (case decode ?bs of
        Complete ts \<Rightarrow> Some (Inr (Some (nextb (memory s2), opts), m2))
      | Malformed ts \<Rightarrow> Some (Inr (None, drop_block (nextb (memory s2)) m2))
      | Endless ts \<Rightarrow> None)"
      by (rule parse_plenty [OF ne])
    show ?thesis
    proof (cases "decode ?bs")
      case (Endless ts)
      then show ?thesis using run3 eq pr True by simp
    next
      case (Malformed ts)
      let ?m = "drop_block (nextb (memory s2)) m2"
      have ret: "convert_parse_tlvs plenty (memory s2) (padd (Ptr b 0) (unat (tlvs_offset peek))) len = return (None, ?m)"
        using eq pr Malformed by simp
      note fr = convert_parse_tlvs_frame [OF wf2 tb alloc_sane_plenty ret]
      show ?thesis using run3 ret gl fr Malformed True by simp
    next
      case (Complete ts)
      obtain ob opts m' where m': "convert_parse_tlvs plenty (memory s2) (padd (Ptr b 0) (unat (tlvs_offset peek))) len =
          return (Some (ob, opts), m')"
        "opts_hold m' opts (message_of ts)" "wf_mem m'" "mem_ext (memory s2) m'"
        "ptr_blocks (tcp_options opts) \<subseteq> {nextb (memory s2) ..}" "ptr_blocks (cookie_data opts) \<subseteq> {nextb (memory s2) ..}"
        "ob = nextb (memory s2)" "blocks m' ob = Some Struct"
        by (rule parse_received [OF wf2 tb ne Complete])
      let ?s' = "leave_array b (s2\<lparr>memory := m'\<rparr>)"
      obtain m'' where m'': "convert_free_opts m' (ob, opts) = Inr m''" "wf_mem m''" "mem_ext (memory s2) m''"
        using free_parsed_frame [OF wf2 tb alloc_sane_plenty m'(1)] by blast
      have "b < nextb (memory s2)" using b2 by simp
      then have "b \<noteq> ob" "b \<notin> ptr_blocks (tcp_options opts)" "b \<notin> ptr_blocks (cookie_data opts)"
        using m'(5,6,7) by fastforce+
      then have "convert_free_opts (memory ?s') (ob, opts) = Inr (drop_block b m'')"
        using convert_free_opts_drop [OF m''(1)] by simp
      moreover have "grown s (?s'\<lparr>memory := drop_block b m''\<rparr>)"
        using gl [OF m''(2,3)] by (simp add: grown_def)
      ultimately have "freeable s ?s' (ob, opts)"
        using m'(7,8) b2 by (auto simp: freeable_def drop_block_def)
      moreover have "flags opts = msg_flags (message_of ts)" using m'(2) by (simp add: opts_hold_def)
      then have "read_tlvs plenty kern state peek len s = return
          (if has_flag CONVERT_ERROR (msg_flags (message_of ts)) then Error_and_free (ob, opts) else Fine, ?s')"
        unfolding run3 m'(1) by simp
      ultimately show ?thesis using gl [OF m'(3,4)] Complete True by auto
    qed
  qed
qed


text \<open>What a call does to the globals and to the memory that existed before, one state apart.\<close>

definition preserves :: "nat \<Rightarrow> 'z tstate_scheme \<Rightarrow> 'z tstate_scheme \<Rightarrow> bool" where
  "preserves e s s' \<longleftrightarrow> tstate.more s' = tstate.more s \<and>
     (\<forall>b < nextb (memory s). b \<noteq> e \<longrightarrow> blocks (memory s') b = blocks (memory s) b)"

definition popped :: "bool \<Rightarrow> nat \<Rightarrow> int \<Rightarrow> (int \<Rightarrow> nat list) \<Rightarrow> int \<Rightarrow> nat list" where
  "popped peek e f T = (if peek then T else T(f := remove1 e (T f)))"

lemma table_abs_leave:
  fixes s :: "'z tstate_scheme"
  assumes "table_abs s T" and "blocks (memory s) b \<noteq> Some Struct"
  shows "table_abs (leave_array b s) T"
proof -
  obtain LL where LL: "table_inv s LL" "T = states_of s LL" using assms(1) by (auto simp: table_abs_def)
  have h: "htable (leave_array b s) = htable s" "htable_mutex (leave_array b s) = htable_mutex s"
    by (simp_all add: leave_array_def)
  then have fo: "fd_of (leave_array b s) = fd_of s" by (simp add: fd_of_def fun_eq_iff)
  have "blocks (memory (leave_array b s)) e = Some Struct" if "cont (htable s) e \<noteq> None" for e
    using LL(1) assms(2) that by (auto simp: table_inv_def drop_block_def)
  then have "table_inv (leave_array b s) LL"
    using LL(1) unfolding table_inv_def in_bucket_def fo h by simp
  then show ?thesis using LL(2) unfolding table_abs_def states_of_def fo by blast
qed

lemma table_abs_syscall:
  fixes s :: "'z tstate_scheme"
  shows "table_abs s T \<Longrightarrow> table_abs (snd (syscall kern c s)) T"
  by (rule table_abs_grown [OF _ grown_syscall]) (auto dest: table_abs_wf)

lemma free_unless_ok:
  fixes s :: "'z tstate_scheme"
  assumes "table_abs s T" and "e \<in> set (T f)"
  shows "\<exists>s'. free_unless peek e s = return s' \<and> table_abs s' (popped peek e f T) \<and>
    trace s' = trace s \<and> tstate.more s' = tstate.more s \<and>
    memory s' = (if peek then memory s else drop_block e (memory s))"
  using table_abs_free_state [OF assms] assms(1) by (auto simp: free_unless_def popped_def)

lemma at_error_ok:
  fixes s :: "'z tstate_scheme"
  assumes "table_abs s T" and "e \<in> set (T f)"
  shows "\<exists>s'. at_error kern e peek s = return (SYSCALL_SKIP, s') \<and> table_abs s' (popped peek e f T) \<and>
    trace s' = Set_linger f 1 0 # trace s \<and> tstate.more s' = tstate.more s \<and>
    memory s' = (if peek then memory s else drop_block e (memory s))"
proof -
  let ?s = "snd (syscall kern (Set_linger f 1 0) s)"
  have "tstate.more ?s = tstate.more s" using more_sys [of ?s s] by simp
  moreover have "set_no_linger kern e s = Inr ?s"
    using table_abs_fd [OF assms] by (simp add: set_no_linger_def)
  ultimately show ?thesis
    using free_unless_ok [OF table_abs_syscall [OF assms(1)], of e f peek kern "Set_linger f 1 0"] assms(2)
    by (auto simp: at_error_def)
qed

text \<open>Leaving the array of the header at the end.\<close>

lemma leave_hdr:
  fixes s s' :: "'z tstate_scheme"
  assumes "table_abs s' T'" and "hdr = nextb (memory s)" and "e < nextb (memory s)"
    and "blocks (memory s') hdr = Some (Auto cs)" and "tstate.more s' = tstate.more s"
    and "\<And>b. b < nextb (memory s) \<Longrightarrow> b \<noteq> e \<Longrightarrow> blocks (memory s') b = blocks (memory s) b"
  shows "table_abs (leave_array hdr s') T' \<and> preserves e s (leave_array hdr s')"
proof -
  have "table_abs (leave_array hdr s') T'" using assms(1,4) by (intro table_abs_leave) simp_all
  moreover have "tstate.more (leave_array hdr s') = tstate.more s'" by (simp add: leave_array_def)
  ultimately show ?thesis using assms by (simp add: preserves_def drop_block_def)
qed

definition accepted :: "nat \<Rightarrow> 'z tstate_scheme \<Rightarrow> (int \<Rightarrow> nat list) \<Rightarrow> (int \<times> 'z tstate_scheme) run \<Rightarrow> bool" where
  "accepted e s T' r \<longleftrightarrow> (\<exists>s'. r = return (SYSCALL_RUN, s') \<and> table_abs s' T' \<and> preserves e s s')"

definition rejected ::
  "nat \<Rightarrow> int \<Rightarrow> 'z tstate_scheme \<Rightarrow> (int \<Rightarrow> nat list) \<Rightarrow> (int \<times> 'z tstate_scheme) run \<Rightarrow> bool"
where
  "rejected e f s T' r \<longleftrightarrow> (\<exists>s' h. r = return (SYSCALL_SKIP, s') \<and> table_abs s' T' \<and> preserves e s s' \<and>
     trace s' = Set_linger f 1 0 # h)"

text \<open>From the label on, with the header's array still in place.\<close>

definition finish :: "kern \<Rightarrow> nat \<Rightarrow> bool \<Rightarrow> nat \<Rightarrow> label \<times> 'z tstate_scheme \<Rightarrow> (int \<times> 'z tstate_scheme) run" where
  "finish kern state peek hdr = (\<lambda>(lbl, s).
     bindR (go_on kern state peek lbl s) (\<lambda>(rc, s). return (rc, leave_array hdr s)))"

lemma finish_ok:
  fixes s s1 s2 :: "'z tstate_scheme"
  assumes abs: "table_abs s T" and e: "e \<in> set (T f)" and g1: "grown s s1" and g2: "grown s1 s2"
    and hdr: "hdr = nextb (memory s)" "hdr < nextb (memory s1)" "blocks (memory s1) hdr = Some (Auto cs)"
  shows "accepted e s (popped peek e f T) (finish kern e peek hdr (Fine, s2))"
    and "rejected e f s (popped peek e f T) (finish kern e peek hdr (Error, s2))"
    and "\<exists>s'. finish kern e peek hdr (Skip, s2) = return (SYSCALL_SKIP, s') \<and> table_abs s' T \<and> preserves e s s'"
proof -
  have g: "grown s s2" using g1 g2 by (rule grown_trans)
  have abs2: "table_abs s2 T" using abs g by (rule table_abs_grown)
  have el: "e < nextb (memory s)"
    using table_abs_struct [OF abs e] wf_mem_less [OF table_abs_wf [OF abs]] by blast
  have hb: "blocks (memory s2) hdr = Some (Auto cs)" using g2 hdr by (simp add: grown_def mem_ext_def)
  have old: "blocks (memory s2) b = blocks (memory s) b" if "b < nextb (memory s)" for b
    using g that by (simp add: grown_def mem_ext_def)
  have more: "tstate.more s2 = tstate.more s" using g more_sys [of s2 s] by (simp add: grown_def)
  have leave: "table_abs (leave_array hdr s') T' \<and> preserves e s (leave_array hdr s')"
    if "table_abs s' T'" "tstate.more s' = tstate.more s2"
      "memory s' = (if peek then memory s2 else drop_block e (memory s2))" for s' T'
  proof (rule leave_hdr [OF that(1) hdr(1) el, of cs])
    show "blocks (memory s') hdr = Some (Auto cs)" using that(3) hb el hdr(1) by (auto simp: drop_block_def)
    show "tstate.more s' = tstate.more s" using that(2) more by simp
    show "blocks (memory s') b = blocks (memory s) b" if "b < nextb (memory s)" "b \<noteq> e" for b
      using old [OF that(1)] \<open>memory s' = _\<close> that(2) by (auto simp: drop_block_def)
  qed
  show "accepted e s (popped peek e f T) (finish kern e peek hdr (Fine, s2))"
    using free_unless_ok [OF abs2 e, of peek] leave by (auto simp: accepted_def finish_def)
  show "rejected e f s (popped peek e f T) (finish kern e peek hdr (Error, s2))"
    using at_error_ok [OF abs2 e, of kern peek] leave by (auto simp: rejected_def finish_def)
  show "\<exists>s'. finish kern e peek hdr (Skip, s2) = return (SYSCALL_SKIP, s') \<and> table_abs s' T \<and> preserves e s s'"
    using leave_hdr [OF abs2 hdr(1) el hb more old] by (auto simp: finish_def)
qed


lemma finish_memory:
  fixes s :: "'z tstate_scheme"
  assumes "table_abs s T" and "e \<in> set (T f)" and "finish kern e peek hdr (Fine, s) = return (r, s')"
  shows "memory s' = drop_block hdr (if peek then memory s else drop_block e (memory s))"
  using assms free_unless_ok [OF assms(1,2), of peek] by (auto simp: finish_def)

lemma read_convert_alt:
  "read_convert mal kern state peek s =
     (let (hdr, s) = auto_array (unat CONVERT_HDR_LEN) s in
      bindR (Some (get_fd state s)) (\<lambda>f.
      bindR (Some (sys_recvfrom kern f (Ptr hdr 0) CONVERT_HDR_LEN (hdr_flags peek) s)) (\<lambda>(rc, s).
      bindR
        (if rc < 0 then return (Skip, s)
         else bindR (Some (convert_parse_header (memory s) (Ptr hdr 0) (word_of_int rc))) (\<lambda>(ok, tlvs_length).
           if ok < 0 then return (Error, s)
           else case tlvs_length of None \<Rightarrow> fail UninitRead | Some len \<Rightarrow>
             if len = 0 then return (Fine, s) else read_tlvs mal kern state peek len s))
        (finish kern state peek hdr))))"
  unfolding read_convert_def hdr_flags_def finish_def Let_def ..

text \<open>
  The outcome of reading the answer, by what the peer says and how it decodes; on success the
  struct of the parsed options is still there and belongs to no state.
\<close>

definition lost :: "'z tstate_scheme \<Rightarrow> (int \<Rightarrow> nat list) \<Rightarrow> (int \<times> 'z tstate_scheme) run \<Rightarrow> bool" where
  "lost s T r \<longleftrightarrow> (\<exists>rc s' b. r = return (rc, s') \<and> nextb (memory s) \<le> b \<and>
     blocks (memory s') b = Some Struct \<and> (\<forall>g. b \<notin> set (T g)))"

lemma read_convert_spec:
  fixes s :: "'z tstate_scheme"
  assumes abs: "table_abs s T" and e: "e \<in> set (T f)" and ok: "recv_ok kern"
  shows "case peer_says kern f peek (trace s) of
      Hdr_failed \<Rightarrow> (\<exists>s'. read_convert plenty kern e peek s = return (SYSCALL_SKIP, s') \<and>
        table_abs s' T \<and> preserves e s s')
    | Hdr_empty \<Rightarrow> accepted e s (popped peek e f T) (read_convert plenty kern e peek s)
    | Hdr_wrapped \<Rightarrow> read_convert plenty kern e peek s = fail BadVla
    | Tlvs bs \<Rightarrow> (case decode bs of
          Complete ts \<Rightarrow>
            if has_flag CONVERT_ERROR (msg_flags (message_of ts))
            then rejected e f s (popped peek e f T) (read_convert plenty kern e peek s)
            else accepted e s (popped peek e f T) (read_convert plenty kern e peek s) \<and>
              lost s (popped peek e f T) (read_convert plenty kern e peek s)
        | Malformed ts \<Rightarrow> rejected e f s (popped peek e f T) (read_convert plenty kern e peek s)
        | Endless ts \<Rightarrow> read_convert plenty kern e peek s = None)
    | _ \<Rightarrow> rejected e f s (popped peek e f T) (read_convert plenty kern e peek s)"
proof -
  have wf: "wf_mem (memory s)" using abs by (rule table_abs_wf)
  define c1 where "c1 = Recvfrom f CONVERT_HDR_LEN (hdr_flags peek)"
  define r1 where "r1 = kern (trace s) c1"
  obtain hdr s0 where arr: "auto_array (unat CONVERT_HDR_LEN) s = (hdr, s0)" by fastforce
  obtain s1 where s1: "sys_recvfrom kern f (Ptr hdr 0) CONVERT_HDR_LEN (hdr_flags peek) s0 = Inr (ret r1, s1)"
      "received hdr 4 r1 s s1" "trace s1 = c1 # trace s"
    by (rule hdr_recv [OF ok arr, of f peek]) (simp add: r1_def c1_def)
  note g1 = grown_received [OF s1(2) wf] and b1 = received_block [OF s1(2)]
  obtain cs where hb: "blocks (memory s1) hdr = Some (Auto cs)"
    using s1(2) by (auto simp: received_def new_block_def)
  have hl: "hdr = nextb (memory s)" "hdr < nextb (memory s1)" using b1 by simp_all
  have "htable s0 = htable s" using arr by (auto simp: auto_array_def new_block_def)
  then have fd0: "get_fd e s0 = Inr f" using table_abs_fd [OF abs e] get_fd_htable by metis
  have wf1: "wf_mem (memory s1)" and abs1: "table_abs s1 T"
    using g1 table_abs_grown [OF abs g1] by (simp_all add: grown_def)
  have fd1: "get_fd e s1 = Inr f" by (rule table_abs_fd [OF abs1 e])
  let ?read = "read_convert plenty kern e peek s"
  note run = read_convert_alt [of plenty kern e peek s, unfolded arr Let_def prod.case fd0 bindR.simps s1(1)]
  note fin = finish_ok [OF abs e g1 _ hl hb, where kern = kern and peek = peek]
  note fin1 = fin [OF grown_refl [OF wf1]]
  consider "ret r1 < 0" | "0 \<le> ret r1" "header_of r1 = None"
    | len where "0 \<le> ret r1" "header_of r1 = Some len" by fastforce
  then show ?thesis
  proof cases
    case 1
    then have "peer_says kern f peek (trace s) = Hdr_failed"
      by (simp add: peer_says_def Let_def r1_def c1_def)
    then show ?thesis using run 1 fin1(3) by simp
  next
    case 2
    then have "peer_says kern f peek (trace s) = Hdr_bad"
      by (simp add: peer_says_def Let_def r1_def c1_def)
    then show ?thesis using run 2 fin1(2) received_header [OF s1(2)] by simp
  next
    case 3
    note ph = received_header [OF s1(2) 3(1), unfolded 3(2) option.case]
    define r2 where "r2 = kern (c1 # trace s) (Recvfrom f (len + tlvs_offset peek) MSG_WAITALL)"
    have says: "peer_says kern f peek (trace s) =
      (if len = 0 then Hdr_empty else if 1016 < unat len then Hdr_wrapped
       else if ret r2 \<noteq> int (unat len + unat (tlvs_offset peek)) then Tlvs_failed
       else Tlvs (drop (unat (tlvs_offset peek)) (data r2)))"
      using 3 unfolding peer_says_def Let_def r1_def [symmetric] c1_def [symmetric] by (simp add: r2_def)
    have run3: "?read = bindR (if len = 0 then return (Fine, s1) else read_tlvs plenty kern e peek len s1)
        (finish kern e peek hdr)"
      unfolding run ph bindR.simps prod.case using 3(1) by simp
    consider "len = 0" | "len = - 4" | "4 \<le> unat len" "unat len \<le> 1016"
      using announced_cases [of "data r1 ! 1"] header_of_bounds [OF 3(2)] by metis
    then show ?thesis
    proof cases
      case 1
      then show ?thesis using says run3 fin1(1) by simp
    next
      case 2
      have "vla_array (unat (len + tlvs_offset peek)) s1 = Inl BadVla"
        using 2 by (simp add: vla_array_def vla_def tlvs_offset_def layout PTRDIFF_MAX_def)
      then show ?thesis using says run3 2 by (simp add: read_tlvs_alt)
    next
      case bnd: 3
      then have "len \<noteq> 0" by auto
      note run4 = run3 [unfolded if_not_P [OF this]]
      note tl = read_tlvs_spec [OF wf1 ok fd1 bnd r2_def [folded s1(3)]]
      let ?bs = "drop (unat (tlvs_offset peek)) (data r2)"
      show ?thesis
      proof (cases "ret r2 = int (unat len + unat (tlvs_offset peek))")
        case False
        then obtain s2 where "read_tlvs plenty kern e peek len s1 = return (Error, s2)" "grown s1 s2"
          using tl by auto
        then show ?thesis using says False bnd \<open>len \<noteq> 0\<close> run4 fin(2) by simp
      next
        case True
        have ps: "peer_says kern f peek (trace s) = Tlvs ?bs"
          using says True bnd \<open>len \<noteq> 0\<close> by simp
        show ?thesis
        proof (cases "decode ?bs")
          case (Endless ts)
          then have "read_tlvs plenty kern e peek len s1 = None" using tl True by simp
          then show ?thesis using ps run4 Endless by simp
        next
          case (Malformed ts)
          then obtain s2 where "read_tlvs plenty kern e peek len s1 = return (Error, s2)" "grown s1 s2"
            using tl True by auto
          then show ?thesis using ps Malformed run4 fin(2) by simp
        next
          case (Complete ts)
          then obtain p s2 where s2: "grown s1 s2" "freeable s1 s2 p" "read_tlvs plenty kern e peek len s1 =
              return (if has_flag CONVERT_ERROR (msg_flags (message_of ts)) then Error_and_free p else Fine, s2)"
            using tl True by auto
          show ?thesis
          proof (cases "has_flag CONVERT_ERROR (msg_flags (message_of ts))")
            case err: True
            obtain m where m: "convert_free_opts (memory s2) p = Inr m" "grown s1 (s2\<lparr>memory := m\<rparr>)"
              using s2(2) by (auto simp: freeable_def)
            have "?read = finish kern e peek hdr (Error, s2\<lparr>memory := m\<rparr>)"
              using run4 s2(3) err m(1) by (simp add: finish_def)
            then show ?thesis using ps Complete err fin(2) [OF m(2)] by simp
          next
            case fine: False
            then have rd: "?read = finish kern e peek hdr (Fine, s2)" using run4 s2(3) by simp
            then have acc: "accepted e s (popped peek e f T) ?read" using fin(1) [OF s2(1)] by simp
            then obtain s' where s': "?read = return (SYSCALL_RUN, s')" by (auto simp: accepted_def)
            have abs2: "table_abs s2 T" by (rule table_abs_grown [OF abs1 s2(1)])
            have mem: "memory s' = drop_block hdr (if peek then memory s2 else drop_block e (memory s2))"
              using finish_memory [OF abs2 e] rd s' by metis
            have less: "a < nextb (memory s)" if "a \<in> set (T g)" for a g
              using table_abs_struct [OF abs that] wf_mem_less [OF wf] by blast
            have p: "nextb (memory s1) \<le> fst p" "blocks (memory s2) (fst p) = Some Struct"
              using s2(2) by (simp_all add: freeable_def)
            have far: "nextb (memory s) \<le> fst p" "fst p \<noteq> hdr" "fst p \<noteq> e" using p(1) hl less [OF e] by auto
            have "blocks (memory s') (fst p) = Some Struct" using mem p(2) far by (simp add: drop_block_def)
            moreover have "fst p \<notin> set (popped peek e f T g)" for g
              using less far(1) by (auto simp: popped_def dest!: set_mp [OF set_remove1_subset] split: if_splits) fastforce+
            ultimately have "lost s (popped peek e f T) ?read"
              using s' far(1) unfolding lost_def by blast
            then show ?thesis using ps Complete fine acc by simp
          qed
        qed
      qed
    qed
  qed
qed


section \<open>What is sent to the converter\<close>

text \<open>The destination of the application, as the Connect TLV names it.\<close>

fun dest_of :: "sockaddr \<Rightarrow> (u16 \<times> byte list) option" where
  "dest_of (Sockaddr_in port a) = Some (port, to_v4mapped a)"
| "dest_of (Sockaddr_in6 in6) = Some (sin6_port in6, sin6_addr in6)"
| "dest_of (Sockaddr_other fam) = None"

lemma length_to_v4mapped [simp]: "length (to_v4mapped a) = 16"
  by (simp add: to_v4mapped_def)

text \<open>The configured cookie: none, or the bytes of a C string.\<close>

definition cookie_is :: "'z client_scheme \<Rightarrow> byte list option \<Rightarrow> bool" where
  "cookie_is s ck \<longleftrightarrow> (case ck of
       None \<Rightarrow> convert_cookie_str s = Null
     | Some bs \<Rightarrow> convert_cookie_str s \<noteq> Null \<and> has_bytes (memory s) (convert_cookie_str s) (bs @ [0]) \<and>
         0 \<notin> set bs \<and> length bs \<le> PTRDIFF_MAX)"

fun request_tlvs :: "byte list option \<Rightarrow> u16 \<Rightarrow> byte list \<Rightarrow> tlv list" where
  "request_tlvs None port addr = [Tlv_connect port addr]"
| "request_tlvs (Some bs) port addr = [Tlv_connect port addr, Tlv_cookie (pad4 bs)]"

definition request :: "byte list option \<Rightarrow> u16 \<Rightarrow> byte list \<Rightarrow> message" where
  "request ck port addr =
     \<lparr>msg_flags = (case ck of None \<Rightarrow> 2 | Some bs \<Rightarrow> set_flag CONVERT_COOKIE 2),
      msg_port = port, msg_addr = addr, msg_error = 0, msg_tcp_options = [],
      msg_cookie = (case ck of None \<Rightarrow> [] | Some bs \<Rightarrow> bs)\<rparr>"

definition request_fits :: "byte list option \<Rightarrow> bool" where
  "request_fits ck \<longleftrightarrow> (case ck of None \<Rightarrow> True | Some bs \<Rightarrow> align4 (length bs) \<le> 996)"

lemma set_cookie_flag: "set_flag CONVERT_COOKIE 2 = 18"
  by (simp add: set_flag_def CONVERT_F_def)

lemma emit_request:
  assumes "length addr = 16"
  shows "emit table_types (request ck port addr) 1020 =
    (if request_fits ck then Some (request_tlvs ck port addr) else None)"
  using assms
  by (cases ck) (auto simp: table_types_def request_def request_fits_def set_cookie_flag has_flag_def CONVERT_F_def)

lemma has_bytes_prefix: "has_bytes m p (bs @ cs) \<Longrightarrow> has_bytes m p bs"
  using has_bytes_window [of m p "bs @ cs" 0 "length bs"] by (simp add: window_def)

lemma cookie_opts:
  assumes "cookie_is s ck"
  shows "\<exists>opts. initial_opts s = Inr opts \<and>
     cookie_data opts = convert_cookie_str s \<and> tcp_options opts = Null \<and>
     (\<forall>port addr sin6. sin6_port sin6 = port \<longrightarrow> sin6_addr sin6 = addr \<longrightarrow>
        opts_hold (memory s) (opts\<lparr>remote_addr := sin6\<rparr>) (request ck port addr))"
proof (cases ck)
  case None
  then show ?thesis using assms
    by (simp add: initial_opts_def cookie_is_def opts_hold_def request_def zero_opts_def CONVERT_F_def)
next
  case (Some bs)
  then have c: "convert_cookie_str s \<noteq> Null" "has_bytes (memory s) (convert_cookie_str s) (bs @ [0])" "0 \<notin> set bs"
    "length bs \<le> PTRDIFF_MAX" using assms by (simp_all add: cookie_is_def)
  have "unat (of_nat (length bs) :: size_t) = length bs" using c(4) by (rule unat_of_nat_PTRDIFF)
  then show ?thesis
    using c strlen_has [OF c(2,3)] has_bytes_prefix [OF c(2)] Some
    by (simp add: initial_opts_def opts_hold_def request_def zero_opts_def CONVERT_F_def del: has_bytes.simps)
      (simp add: has_bytes.simps)
qed

lemma redirect_connect_tlv_spec:
  assumes cookie: "cookie_is s ck" and dest: "dest_of dest = Some (port, addr)" and addr: "length addr = 16"
    and blk: "bytes_at (memory s) b = Some cs" "length cs = 1024" and far: "b \<notin> ptr_blocks (convert_cookie_str s)"
  shows "\<exists>cs'. redirect_connect_tlv (Ptr b 0) 1024 dest s = Inr
      (if request_fits ck then of_nat (length (wire (request_tlvs ck port addr))) else - 95,
       s\<lparr>memory := put_cells (memory s) b cs'\<rparr>) \<and>
    (request_fits ck \<longrightarrow> has_bytes (put_cells (memory s) b cs') (Ptr b 0) (wire (request_tlvs ck port addr)))"
proof -
  obtain opts where o: "initial_opts s = Inr opts"
      "cookie_data opts = convert_cookie_str s" "tcp_options opts = Null"
      "\<And>sin6. sin6_port sin6 = port \<Longrightarrow> sin6_addr sin6 = addr \<Longrightarrow>
        opts_hold (memory s) (opts\<lparr>remote_addr := sin6\<rparr>) (request ck port addr)"
    using cookie_opts [OF cookie] by blast
  obtain sin6 where sin6: "set_dest dest opts = Some (opts\<lparr>remote_addr := sin6\<rparr>)" "sin6_port sin6 = port" "sin6_addr sin6 = addr"
    using dest by (cases dest) auto
  have len: "length (msg_cookie (request ck port addr)) \<le> PTRDIFF_MAX"
    using cookie by (auto simp: request_def cookie_is_def split: option.splits)
  have ready: "opts_ready (memory s) b (opts\<lparr>remote_addr := sin6\<rparr>) (request ck port addr)"
    using o(4) [OF sin6(2,3)] o(2,3) far addr len
    by (simp add: opts_ready_def) (simp add: request_def ptr_blocks_def)
  have n: "0 + unat (1024 :: size_t) \<le> length cs" "unat (1024 :: size_t) \<le> PTRDIFF_MAX"
    using blk(2) by (simp_all add: PTRDIFF_MAX_def)
  note cw = convert_write_spec [OF blk(1) n ready]
  have run: "redirect_connect_tlv (Ptr b 0) 1024 dest s =
      bindE (convert_write (memory s) (Ptr b 0) 1024 (opts\<lparr>remote_addr := sin6\<rparr>)) (\<lambda>(rc, m).
        Inr (if sint rc < 0 then word_of_int (- EOPNOTSUPP) else rc, s\<lparr>memory := m\<rparr>))"
    using o(1) sin6(1) by (simp add: redirect_connect_tlv_def)
  show ?thesis
  proof (cases "request_fits ck")
    case False
    then obtain mid where "convert_write (memory s) (Ptr b 0) 1024 (opts\<lparr>remote_addr := sin6\<rparr>) =
        Inr (-1, put_cells (memory s) b (overwrite 0 mid cs))"
      using cw emit_request [OF addr] by auto
    then have "redirect_connect_tlv (Ptr b 0) 1024 dest s =
        Inr (-95, s\<lparr>memory := put_cells (memory s) b (overwrite 0 mid cs)\<rparr>)"
      using run by (simp add: EOPNOTSUPP_def)
    then show ?thesis using False by auto
  next
    case True
    let ?w = "wire (request_tlvs ck port addr)"
    let ?cs = "overwrite 0 (map Some ?w @ replicate (1024 - length ?w) (Some 0)) cs"
    have w: "length ?w \<le> 1024" "convert_write (memory s) (Ptr b 0) 1024 (opts\<lparr>remote_addr := sin6\<rparr>) =
        Inr (of_nat (length ?w), put_cells (memory s) b ?cs)"
      using cw emit_request [OF addr, of ck port] True by (simp_all del: length_wire)
    have "\<not> sint (of_nat (length ?w) :: ssize_t) < 0"
      using w(1) by (intro sint_of_nat_nonneg) (simp add: PTRDIFF_MAX_def)
    then have "redirect_connect_tlv (Ptr b 0) 1024 dest s =
        Inr (of_nat (length ?w), s\<lparr>memory := put_cells (memory s) b ?cs\<rparr>)"
      using run w(2) by (simp del: length_wire of_nat_add)
    moreover have "has_bytes (put_cells (memory s) b ?cs) (Ptr b 0) ?w"
      using w(1) blk(2) by (intro has_bytes_put_overwrite [OF blk(1)]) (simp del: length_wire)
    ultimately show ?thesis using True by (intro exI [of _ ?cs]) simp
  qed
qed


text \<open>The local buffer comes and goes.\<close>

lemma grown_buffer:
  fixes s s' :: "'z sys_scheme"
  assumes "wf_mem (memory s)" and "auto_array n s = (b, s0)"
    and "memory s' = put_cells (memory s0) b cs" and "sys.more s' = sys.more s"
  shows "grown s (leave_array b s')"
proof -
  have b: "b = nextb (memory s)" "memory s0 = snd (new_block (Auto (replicate n None)) (memory s))"
    using assms(2) by (auto simp: auto_array_def new_block_def)
  then have "mem_ext (memory s) (memory s')"
    using assms(1,3) by (auto simp: mem_ext_def new_block_def put_cells_def)
  moreover have "wf_mem (memory s')" unfolding assms(3) b(2) by (intro wf_mem_put_cells wf_mem_new assms(1))
  ultimately show ?thesis using assms(4) b(1) by (intro grown_leave) (simp_all add: grown_def)
qed

lemma redirect_spec:
  fixes s :: "'z client_scheme"
  assumes wf: "wf_mem (memory s)" and fd: "get_fd state s = Inr f" and ca: "converter_addr s = Some ca"
    and cookie: "cookie_is s ck" and dest: "dest_of dest = Some (port, addr)" and addr: "length addr = 16"
  defines "c \<equiv> Connect f ca" and "d \<equiv> Send f (wire (request_tlvs ck port addr)) 0"
  shows "\<exists>rc s'. redirect kern state dest s = Inr (rc, s') \<and> grown s s' \<and>
    (if \<not> request_fits ck then rc = - EOPNOTSUPP \<and> trace s' = trace s
     else if ret (kern (trace s) c) < 0 then rc = -1 \<and> trace s' = c # trace s
     else rc = ret (kern (c # trace s) d) \<and> trace s' = d # c # trace s)"
proof -
  obtain b s0 where arr: "auto_array 1024 s = (b, s0)" by fastforce
  have s0: "b = nextb (memory s)" "s0 = s\<lparr>memory := memory s0\<rparr>"
    "memory s0 = snd (new_block (Auto (replicate 1024 None)) (memory s))"
    using arr by (auto simp: auto_array_def new_block_def)
  have same: "trace s0 = trace s" "converter_addr s0 = Some ca" "convert_cookie_str s0 = convert_cookie_str s"
      "sys.more s0 = sys.more s" "htable s0 = htable s"
    using ca by (subst s0(2), simp)+
  have blk: "bytes_at (memory s0) b = Some (replicate 1024 None)"
    using s0 by (simp add: new_block_def bytes_at_def)
  have ext: "mem_ext (memory s) (memory s0)" unfolding s0(3) by (rule mem_ext_new)
  have ck0: "cookie_is s0 ck"
    using cookie has_bytes_ext [OF wf ext] unfolding cookie_is_def same(3) by (auto split: option.splits)
  have far: "b \<notin> ptr_blocks (convert_cookie_str s0)"
  proof (cases ck)
    case (Some bs)
    then have h: "has_bytes (memory s) (convert_cookie_str s) (bs @ [0])" using cookie by (simp add: cookie_is_def)
    show ?thesis
    proof
      assume "b \<in> ptr_blocks (convert_cookie_str s0)"
      then obtain i where "convert_cookie_str s = Ptr b i" using same(3) by (auto simp: ptr_blocks_def split: ptr.splits)
      then have "bytes_at (memory s) b \<noteq> None" using h by (auto split: option.splits)
      then show False using wf s0(1) by (simp add: bytes_at_def)
    qed
  qed (use ck0 in \<open>simp add: cookie_is_def ptr_blocks_def\<close>)
  obtain cs where tlv: "redirect_connect_tlv (Ptr b 0) 1024 dest s0 = Inr
      (if request_fits ck then of_nat (length (wire (request_tlvs ck port addr))) else - 95,
       s0\<lparr>memory := put_cells (memory s0) b cs\<rparr>)"
    and wire: "request_fits ck \<Longrightarrow> has_bytes (put_cells (memory s0) b cs) (Ptr b 0) (wire (request_tlvs ck port addr))"
    using redirect_connect_tlv_spec [OF ck0 dest addr blk _ far] by auto
  let ?s1 = "s0\<lparr>memory := put_cells (memory s0) b cs\<rparr>"
  have m1: "memory ?s1 = put_cells (memory s0) b cs" "sys.more ?s1 = sys.more s" using same(4) by simp_all
  note gone = grown_buffer [OF wf arr]
  show ?thesis
  proof (cases "request_fits ck")
    case False
    then have "redirect kern state dest s = Inr (- EOPNOTSUPP, leave_array b ?s1)"
      using tlv by (simp add: redirect_def arr EOPNOTSUPP_def)
    then show ?thesis using False gone [OF m1] same(1) by auto
  next
    case fits: True
    let ?w = "wire (request_tlvs ck port addr)"
    have ck_len: "length ?w \<le> 1024"
      using fits addr by (cases ck) (auto simp: request_fits_def encode_def)
    then have small: "length ?w \<le> PTRDIFF_MAX" by (simp add: PTRDIFF_MAX_def)
    have nn: "\<not> sint (of_nat (length ?w) :: ssize_t) < 0" using small by (rule sint_of_nat_nonneg)
    have fd1: "get_fd state ?s1 = Inr f" using fd same(5) get_fd_htable [of ?s1 s] by simp
    have run: "redirect kern state dest s =
        (let (rc, s2) = syscall kern c ?s1 in
         if rc < 0 then Inr (-1, leave_array b s2)
         else bindE (get_fd state s2) (\<lambda>f. bindE (load_bytes (memory s2) (Ptr b 0) (unat (of_nat (length ?w) :: size_t))) (\<lambda>bs.
           let (rc, s3) = syscall kern (Send f bs 0) s2 in Inr (rc, leave_array b s3))))"
      using tlv fits nn fd1 same(2) unfolding redirect_def arr Let_def c_def by (simp del: length_wire of_nat_add)
    let ?s2 = "snd (syscall kern c ?s1)"
    have m2: "memory ?s2 = put_cells (memory s0) b cs" "sys.more ?s2 = sys.more s" using m1 by simp_all
    have rc: "fst (syscall kern c ?s1) = ret (kern (trace s) c)"
      using same(1) by (simp add: fst_syscall answer_def)
    show ?thesis
    proof (cases "ret (kern (trace s) c) < 0")
      case True
      then have "redirect kern state dest s = Inr (-1, leave_array b ?s2)"
        using run rc by (simp add: case_prod_unfold Let_def)
      then show ?thesis using fits True gone [OF m2] same(1) by auto
    next
      case False
      have fd2: "get_fd state ?s2 = Inr f" using fd1 get_fd_htable [of ?s2 ?s1] more_sys [of ?s2 ?s1] by simp
      have ld: "load_bytes (memory ?s2) (Ptr b 0) (unat (of_nat (length ?w) :: size_t)) = Inr ?w"
        using load_bytes_has [OF wire [OF fits], of 0 "length ?w"] m2(1) unat_of_nat_PTRDIFF [OF small]
        by (simp del: length_wire of_nat_add)
      let ?s3 = "snd (syscall kern d ?s2)"
      have m3: "memory ?s3 = put_cells (memory s0) b cs" "sys.more ?s3 = sys.more s" using m2 by simp_all
      have "redirect kern state dest s = Inr (fst (syscall kern d ?s2), leave_array b ?s3)"
        using run rc False fd2 ld by (simp add: case_prod_unfold Let_def d_def)
      moreover have "fst (syscall kern d ?s2) = ret (kern (c # trace s) d)"
        using same(1) by (simp add: fst_syscall answer_def)
      ultimately show ?thesis using fits False gone [OF m3] same(1) by auto
    qed
  qed
qed


section \<open>The intercepted calls on the table\<close>

lemma lookup_newest:
  fixes s :: "'z tstate_scheme"
  assumes "table_abs s T" and "0 \<le> f"
  shows "table_lookup f s = return (case T f of [] \<Rightarrow> None | e # _ \<Rightarrow> Some e, s)"
  using assms by (rule table.lookup_ok)

lemma popped_newest: "T f = e # es \<Longrightarrow> popped False e f T = T(f := es)"
  by (simp add: popped_def)

text \<open>Giving up on a redirection: the state goes, the call is passed on.\<close>

lemma give_up_ok:
  fixes s :: "'z tstate_scheme"
  assumes "table_abs s T" and "T f = e # es"
  shows "\<exists>s'. bindR (table_free_state e s) (\<lambda>s. return (syscall kern c s)) = return (syscall kern c s') \<and>
    table_abs s' (T(f := es)) \<and> trace s' = trace s \<and> memory s' = drop_block e (memory s)"
  using table_abs_free_state [OF assms(1), of e f] assms(2) by auto

lemma connect_call_tracked:
  fixes s :: "'z client_scheme"
  assumes abs: "table_abs s T" and f: "0 \<le> f" and T: "T f = e # es" and dest: "dest_of dest \<noteq> None"
    and red: "redirect kern e dest s = Inr (rc, s1)"
  shows "connect_call mal kern f dest s =
    (if 0 < rc then read_convert mal kern e False s1
     else if rc = 0 then return (- ECONNREFUSED, s1)
     else bindR (table_free_state e s1) (\<lambda>s. return (syscall kern (Connect f dest) s)))"
  using lookup_newest [OF abs f] T dest red by (cases dest) (simp_all add: connect_call_def Let_def)

lemma length_request:
  "length addr = 16 \<Longrightarrow> length (encode (request_tlvs ck port addr)) =
     20 + (case ck of None \<Rightarrow> 0 | Some bs \<Rightarrow> 4 + align4 (length bs))"
  by (cases ck) (simp_all add: encode_def)

lemma request_dvd: "length addr = 16 \<Longrightarrow> 4 dvd length (encode (request_tlvs ck port addr))"
  unfolding length_request by (intro dvd_add) (simp_all split: option.split add: dvd_add)

text \<open>
  The answer of the peer, as one of four verdicts: accept the connection, refuse it (a TLV
  Error, a bad or short message), nothing received, or an answer that stops the process: the
  parser loops or an impossible array is declared.
\<close>

datatype verdict = Accept | Refuse | No_answer | Hang | Crash

definition verdict :: "peer \<Rightarrow> verdict" where
  "verdict p = (case p of
       Hdr_failed \<Rightarrow> No_answer | Hdr_bad \<Rightarrow> Refuse | Hdr_empty \<Rightarrow> Accept | Hdr_wrapped \<Rightarrow> Crash
     | Tlvs_failed \<Rightarrow> Refuse
     | Tlvs bs \<Rightarrow> (case decode bs of
           Complete ts \<Rightarrow> if has_flag CONVERT_ERROR (msg_flags (message_of ts)) then Refuse else Accept
         | Malformed ts \<Rightarrow> Refuse | Endless ts \<Rightarrow> Hang))"

lemma read_convert_verdict:
  fixes s :: "'z tstate_scheme"
  assumes "table_abs s T" and "T f = e # es" and "recv_ok kern"
  shows "case verdict (peer_says kern f False (trace s)) of
      Accept \<Rightarrow> accepted e s (T(f := es)) (read_convert plenty kern e False s)
    | Refuse \<Rightarrow> rejected e f s (T(f := es)) (read_convert plenty kern e False s)
    | No_answer \<Rightarrow> (\<exists>s'. read_convert plenty kern e False s = return (SYSCALL_SKIP, s') \<and>
        table_abs s' T \<and> preserves e s s')
    | Hang \<Rightarrow> read_convert plenty kern e False s = None
    | Crash \<Rightarrow> read_convert plenty kern e False s = fail BadVla"
  using read_convert_spec [OF assms(1) _ assms(3), of e f False] assms(2) popped_newest [of T f e es]
  by (auto simp: verdict_def split: peer.splits decoded.splits if_splits)

text \<open>A call that is passed on only if the answer is good, as \<open>recv\<close> and \<open>send\<close> do it.\<close>

definition guarded :: "alloc \<Rightarrow> kern \<Rightarrow> int \<Rightarrow> call \<Rightarrow> 'z tstate_scheme \<Rightarrow> (int \<times> 'z tstate_scheme) run" where
  "guarded mal kern f c s =
     bindR (table_lookup f s) (\<lambda>(state, s).
     case state of
       None \<Rightarrow> return (syscall kern c s)
     | Some e \<Rightarrow>
         bindR (read_convert mal kern e False s) (\<lambda>(rc, s).
           if rc = SYSCALL_RUN then return (syscall kern c s)
           else if rc = SYSCALL_SKIP then return (0, s)
           else return (-1, s)))"

lemma guarded_calls:
  "recv_call mal kern f buf len fl s = guarded mal kern f (Recv_app f buf len fl) s"
  "send_call mal kern f buf len fl s = guarded mal kern f (Send_app f buf len fl) s"
  by (simp_all add: recv_call_def send_call_def guarded_def)

lemma guarded_untracked:
  fixes s :: "'z tstate_scheme"
  assumes "table_abs s T" and "0 \<le> f" and "T f = []"
  shows "guarded mal kern f c s = return (syscall kern c s)"
  using lookup_newest [OF assms(1,2)] assms(3) by (simp add: guarded_def)

lemma guarded_tracked:
  fixes s :: "'z tstate_scheme"
  assumes "table_abs s T" and "0 \<le> f" and "T f = e # es" and "recv_ok kern"
  shows "case verdict (peer_says kern f False (trace s)) of
      Accept \<Rightarrow> \<exists>s'. guarded plenty kern f c s = return (syscall kern c s') \<and> table_abs s' (T(f := es))
    | Refuse \<Rightarrow> \<exists>s'. guarded plenty kern f c s = return (0, s') \<and> table_abs s' (T(f := es))
    | No_answer \<Rightarrow> \<exists>s'. guarded plenty kern f c s = return (0, s') \<and> table_abs s' T
    | Hang \<Rightarrow> guarded plenty kern f c s = None
    | Crash \<Rightarrow> guarded plenty kern f c s = fail BadVla"
  using read_convert_verdict [OF assms(1,3,4)] lookup_newest [OF assms(1,2)] assms(3)
  by (auto simp: guarded_def accepted_def rejected_def SYSCALL_RUN_def SYSCALL_SKIP_def split: verdict.splits)

lemma connect_answered:
  fixes s :: "'z client_scheme"
  assumes "table_abs s T" and "0 \<le> f" and "T f = e # es" and "recv_ok kern"
    and "converter_addr s = Some ca" and "cookie_is s ck" and "request_fits ck"
    and "dest_of dest = Some (port, addr)" and "length addr = 16"
    and "c = Connect f ca" and "d = Send f (wire (request_tlvs ck port addr)) 0"
    and "0 \<le> ret (kern (trace s) c)" and "0 < ret (kern (c # trace s) d)"
  shows "case verdict (peer_says kern f False (d # c # trace s)) of
      Accept \<Rightarrow> \<exists>s'. connect_call plenty kern f dest s = return (1, s') \<and> table_abs s' (T(f := es))
    | Refuse \<Rightarrow> \<exists>s' h. connect_call plenty kern f dest s = return (0, s') \<and> table_abs s' (T(f := es)) \<and>
        trace s' = Set_linger f 1 0 # h
    | No_answer \<Rightarrow> \<exists>s'. connect_call plenty kern f dest s = return (0, s') \<and> table_abs s' T
    | Hang \<Rightarrow> connect_call plenty kern f dest s = None
    | Crash \<Rightarrow> connect_call plenty kern f dest s = fail BadVla"
proof -
  have fd: "get_fd e s = Inr f" using table_abs_fd [OF assms(1), of e f] assms(3) by simp
  obtain rc s1 where s1: "redirect kern e dest s = Inr (rc, s1)" "grown s s1" "0 < rc" "trace s1 = d # c # trace s"
    using redirect_spec [OF table_abs_wf [OF assms(1)] fd assms(5,6,8,9), of kern] assms(7,10-13) by auto
  have "connect_call plenty kern f dest s = read_convert plenty kern e False s1"
    using connect_call_tracked [OF assms(1-3) _ s1(1)] assms(8) s1(3) by simp
  then show ?thesis
    using read_convert_verdict [OF table_abs_grown [OF assms(1) s1(2)] assms(3,4)] s1(4)
    by (auto simp: accepted_def rejected_def SYSCALL_RUN_def SYSCALL_SKIP_def split: verdict.splits)
qed

section \<open>A sample client\<close>

text \<open>
  The library after its start with a converter address and no cookie, before and after
  descriptor 5 was tracked.
\<close>

definition sample_converter :: sockaddr where
  "sample_converter = Sockaddr_in 0xD204 0x0100007F"

definition idle_client :: client where
  "idle_client = \<lparr>memory = mem_of [], trace = [], errno = 0,
     htable = \<lparr>heads = replicate NUM_BUCKETS None, elems = Map.empty\<rparr>, htable_mutex = False,
     converter_addr = Some sample_converter, convert_port_str = None,
     convert_cookie_str = Null, log_mutex = False\<rparr>"

definition tracked_client :: client where
  "tracked_client = (case table_alloc plenty 5 idle_client of Some (Inr s) \<Rightarrow> s | _ \<Rightarrow> idle_client)"

definition one_state :: "int \<Rightarrow> nat list" where
  "one_state = (\<lambda>f. [])(5 := [1])"

lemma one_state_5 [simp]: "one_state 5 = [1]"
  by (simp add: one_state_def)

lemma idle_client_abs: "table_abs idle_client (\<lambda>f. [])"
  by (rule table_abs_no_states) (simp_all add: idle_client_def)

lemma tracked_client_abs: "table_abs tracked_client one_state"
  and tracked_client_fields: "trace tracked_client = []" "converter_addr tracked_client = Some sample_converter"
    "cookie_is tracked_client None"
proof -
  have m: "plenty (nextb (memory idle_client)) SIZEOF_SOCKET_STATE" "nextb (memory idle_client) = 1"
    by (simp_all add: plenty_def SIZEOF_SOCKET_STATE_def PTRDIFF_MAX_def idle_client_def mem_of_def)
  have "(0 :: int) \<le> 5" by simp
  from table_abs_alloc [OF idle_client_abs this, of plenty] m
  obtain s where s: "table_alloc plenty 5 idle_client = return s" "table_abs s one_state" "trace s = trace idle_client"
    "tstate.more s = tstate.more idle_client"
    by (auto simp: one_state_def)
  have "tracked_client = s" using s(1) by (simp add: tracked_client_def)
  moreover have "converter_addr s = converter_addr idle_client" "convert_cookie_str s = convert_cookie_str idle_client"
    using s(4) by (cases s; simp add: idle_client_def)+
  ultimately show "table_abs tracked_client one_state" "trace tracked_client = []"
    "converter_addr tracked_client = Some sample_converter" "cookie_is tracked_client None"
    using s(2,3) by (simp_all add: idle_client_def cookie_is_def)
qed

lemma says_accept: "consumed h = 0 \<Longrightarrow> verdict (peer_says (stream_kern (wire [])) f False h) = Accept"
  using peer_says_wire [of "[]" h f] by (simp add: encode_def verdict_def)

definition refusing_kern :: kern where
  "refusing_kern h c = \<lparr>ret = -1, data = [], err = ECONNREFUSED\<rparr>"

section \<open>Properties\<close>

text \<open>
  A descriptor that is not tracked is left alone: \<open>connect\<close> makes the one call that the
  application asked for and changes nothing else.
\<close>

theorem connect_untracked:
  fixes s :: "'z client_scheme"
  assumes "table_abs s T" and "0 \<le> f" and "T f = []"
  shows "connect_call mal kern f dest s = return (syscall kern (Connect f dest) s)"
  using lookup_newest [OF assms(1,2)] assms(3) by (simp add: connect_call_def)

lemma connect_untracked_witness:
  "connect_call plenty refusing_kern 7 sample_converter idle_client =
     return (syscall refusing_kern (Connect 7 sample_converter) idle_client)"
  by (rule connect_untracked [OF idle_client_abs]) simp_all

text \<open>
  C8. The redirection: for a tracked descriptor and an IPv4 or IPv6 destination, the
  descriptor is connected to the converter and then one message is sent on it, the header
  followed by a Connect TLV with the port and the address of the destination, an IPv4 address
  mapped into IPv6, and the cookie, if one is configured, padded with zeroes. Nothing is sent
  if the cookie does not fit the buffer or the connection fails. The memory of the process is
  as before.
\<close>

theorem redirect_sends_request:
  fixes s :: "'z client_scheme"
  assumes "table_abs s T" and "e \<in> set (T f)" and "converter_addr s = Some ca"
    and "cookie_is s ck" and "dest_of dest = Some (port, addr)" and "length addr = 16"
  shows "\<exists>rc s'. redirect kern e dest s = Inr (rc, s') \<and> grown s s' \<and>
    (let c = Connect f ca; d = Send f (wire (request_tlvs ck port addr)) 0 in
     if \<not> request_fits ck then rc = - EOPNOTSUPP \<and> trace s' = trace s
     else if ret (kern (trace s) c) < 0 then rc = -1 \<and> trace s' = c # trace s
     else rc = ret (kern (c # trace s) d) \<and> trace s' = d # c # trace s)"
  using redirect_spec [OF table_abs_wf [OF assms(1)] table_abs_fd [OF assms(1,2)] assms(3-6), of kern]
  by (simp only: Let_def)

lemma redirect_sends_request_witness:
  "\<exists>s'. redirect (stream_kern []) 1 (Sockaddr_in 0x5000 1) tracked_client = Inr (24, s') \<and>
     trace s' = [Send 5 (wire [Tlv_connect 0x5000 (to_v4mapped 1)]) 0, Connect 5 sample_converter]"
proof -
  have "1 \<in> set (one_state 5)" by simp
  from redirect_sends_request [OF tracked_client_abs this tracked_client_fields(2,3), where kern = "stream_kern []"
      and dest = "Sockaddr_in 0x5000 1"]
  show ?thesis
    by (auto simp: Let_def request_fits_def stream_kern_def tracked_client_fields encode_def)
qed

text \<open>
  What the converter reads in the request: the header announces the length of the TLVs,
  and these decode to the Connect TLV and the cookie, as long as the padded cookie has at
  most 992 bytes.
\<close>

theorem request_readable:
  assumes "length addr = 16" and "case ck of None \<Rightarrow> True | Some bs \<Rightarrow> align4 (length bs) \<le> 992"
  shows "good_header (wire (request_tlvs ck port addr)) \<and>
    unat (announced (wire (request_tlvs ck port addr) ! 1)) = length (encode (request_tlvs ck port addr)) \<and>
    decode (drop 4 (wire (request_tlvs ck port addr))) = Complete (request_tlvs ck port addr)"
proof -
  let ?ts = "request_tlvs ck port addr"
  have wf: "list_all wf_tlv ?ts" using assms by (cases ck) auto
  have len: "length (encode ?ts) \<le> 1016" "4 dvd length (encode ?ts)"
    using assms(2) request_dvd [OF assms(1)]
    by (auto simp: length_request [OF assms(1)] split: option.splits)
  then have "4 * unat (wire ?ts ! 1) = length (wire ?ts)"
    unfolding wire_1 by (intro unat_units) simp_all
  then have "unat (announced (wire ?ts ! 1)) = length (encode ?ts)"
    using unsigned_eq_0_iff [of "wire ?ts ! 1"] unfolding unat_announced length_wire by auto
  moreover have "drop 4 (wire ?ts) = encode ?ts" by (simp add: wire_def header_bytes_def)
  ultimately show ?thesis using good_header_wire decode_encode [OF wf] by simp
qed

lemma request_readable_witness:
  "decode (drop 4 (wire (request_tlvs (Some [1, 2, 3]) 0x5000 (to_v4mapped 1)))) =
     Complete [Tlv_connect 0x5000 (to_v4mapped 1), Tlv_cookie [1, 2, 3, 0]]"
proof -
  have a: "align4 (length [1, 2, 3 :: byte]) = 4" by (simp add: align4_def)
  then have p: "pad4 [1, 2, 3 :: byte] = [1, 2, 3, 0]" unfolding pad4_def by simp
  have "case Some [1, 2, 3 :: byte] of None \<Rightarrow> True | Some bs \<Rightarrow> align4 (length bs) \<le> 992"
    unfolding option.case a by simp
  from this [THEN request_readable [OF length_to_v4mapped]]
  show ?thesis unfolding request_tlvs.simps p by blast
qed

text \<open>
  C9. The outcome of \<open>connect\<close> on a tracked descriptor whose request was sent, by the answer
  of the converter. Acceptance makes it return 1 and refusal 0, although callers of
  \<open>connect\<close> take 0 for success; after a refusal the socket was told to reset the connection.
  The state of the descriptor is gone unless no answer was received at all.
\<close>

theorem connect_outcome:
  fixes s :: "'z client_scheme"
  assumes "table_abs s T" and "0 \<le> f" and "T f = e # es" and "recv_ok kern"
    and "converter_addr s = Some ca" and "cookie_is s ck" and "request_fits ck"
    and "dest_of dest = Some (port, addr)" and "length addr = 16"
    and "c = Connect f ca" and "d = Send f (wire (request_tlvs ck port addr)) 0"
    and "0 \<le> ret (kern (trace s) c)" and "0 < ret (kern (c # trace s) d)"
  shows "case verdict (peer_says kern f False (d # c # trace s)) of
      Accept \<Rightarrow> \<exists>s'. connect_call plenty kern f dest s = return (1, s') \<and> table_abs s' (T(f := es))
    | Refuse \<Rightarrow> \<exists>s' h. connect_call plenty kern f dest s = return (0, s') \<and> table_abs s' (T(f := es)) \<and>
        trace s' = Set_linger f 1 0 # h
    | No_answer \<Rightarrow> \<exists>s'. connect_call plenty kern f dest s = return (0, s') \<and> table_abs s' T
    | Hang \<Rightarrow> connect_call plenty kern f dest s = None
    | Crash \<Rightarrow> connect_call plenty kern f dest s = fail BadVla"
  by (rule connect_answered [OF assms])

lemma connect_outcome_witness:
  "\<exists>s'. connect_call plenty (stream_kern (wire [])) 5 (Sockaddr_in 0x5000 1) tracked_client = return (1, s') \<and>
     table_abs s' (\<lambda>f. [])"
proof -
  have "one_state(5 := []) = (\<lambda>f. [])" by (simp add: one_state_def fun_eq_iff)
  then show ?thesis
    using connect_outcome [OF tracked_client_abs _ one_state_5 recv_ok_stream [of "wire []"] tracked_client_fields(2,3),
        where dest = "Sockaddr_in 0x5000 1" and c = "Connect 5 sample_converter"]
    by (simp add: request_fits_def stream_kern_def [of _ _ "Connect _ _"] stream_kern_def [of _ _ "Send _ _ _"]
        tracked_client_fields(1) says_accept)
qed

text \<open>
  When the converter cannot be reached, the library forgets the descriptor and lets the
  application connect to its destination directly.
\<close>

theorem connect_falls_back:
  fixes s :: "'z client_scheme"
  assumes "table_abs s T" and "0 \<le> f" and "T f = e # es"
    and "converter_addr s = Some ca" and "cookie_is s ck" and "request_fits ck"
    and "dest_of dest = Some (port, addr)" and "length addr = 16"
    and "ret (kern (trace s) (Connect f ca)) < 0"
  shows "\<exists>s'. connect_call mal kern f dest s = return (syscall kern (Connect f dest) s') \<and>
    table_abs s' (T(f := es)) \<and> trace s' = Connect f ca # trace s"
proof -
  have fd: "get_fd e s = Inr f" using table_abs_fd [OF assms(1), of e f] assms(3) by simp
  obtain s1 where s1: "redirect kern e dest s = Inr (-1, s1)" "grown s s1" "trace s1 = Connect f ca # trace s"
    using redirect_spec [OF table_abs_wf [OF assms(1)] fd assms(4,5,7,8), of kern] assms(6,9) by auto
  have "connect_call mal kern f dest s =
      bindR (table_free_state e s1) (\<lambda>s. return (syscall kern (Connect f dest) s))"
    using connect_call_tracked [OF assms(1-3) _ s1(1)] assms(7) by simp
  then show ?thesis
    using give_up_ok [OF table_abs_grown [OF assms(1) s1(2)] assms(3), of kern "Connect f dest"] s1(3) by auto
qed

lemma connect_falls_back_witness:
  "\<exists>s'. connect_call plenty refusing_kern 5 (Sockaddr_in 0x5000 1) tracked_client =
       return (syscall refusing_kern (Connect 5 (Sockaddr_in 0x5000 1)) s') \<and>
     trace s' = [Connect 5 sample_converter]"
  using connect_falls_back [OF tracked_client_abs _ one_state_5 tracked_client_fields(2,3),
      where dest = "Sockaddr_in 0x5000 1" and kern = refusing_kern and mal = plenty]
  by (auto simp: request_fits_def refusing_kern_def tracked_client_fields(1))

text \<open>
  \<open>close\<close> forgets the newest state of the descriptor, if it has any, and passes the call on.
\<close>

theorem close_forgets:
  fixes s :: "'z tstate_scheme"
  assumes "table_abs s T" and "0 \<le> f"
  shows "\<exists>s'. close_call kern f s = return (syscall kern (Close f) s') \<and>
    table_abs s' (T(f := tl (T f)))"
  using table.untrack_ok [OF assms] by (auto simp: close_call_def)

lemma close_forgets_witness:
  "\<exists>s'. close_call refusing_kern 5 tracked_client = return (syscall refusing_kern (Close 5) s') \<and>
     table_abs s' (one_state(5 := []))"
  using close_forgets [OF tracked_client_abs, of 5 refusing_kern] by simp

text \<open>
  \<open>send\<close> on a tracked descriptor reads the answer of the converter first: the data of the
  application is passed on exactly when the answer accepts the connection, and then the
  descriptor is no longer tracked; otherwise \<open>send\<close> claims to have sent nothing.
\<close>

theorem send_after_answer:
  fixes s :: "'z tstate_scheme"
  assumes "table_abs s T" and "0 \<le> f" and "T f = e # es" and "recv_ok kern"
  shows "case verdict (peer_says kern f False (trace s)) of
      Accept \<Rightarrow> \<exists>s'. send_call plenty kern f buf len fl s = return (syscall kern (Send_app f buf len fl) s') \<and>
        table_abs s' (T(f := es))
    | Refuse \<Rightarrow> \<exists>s'. send_call plenty kern f buf len fl s = return (0, s') \<and> table_abs s' (T(f := es))
    | No_answer \<Rightarrow> \<exists>s'. send_call plenty kern f buf len fl s = return (0, s') \<and> table_abs s' T
    | Hang \<Rightarrow> send_call plenty kern f buf len fl s = None
    | Crash \<Rightarrow> send_call plenty kern f buf len fl s = fail BadVla"
  unfolding guarded_calls using assms by (rule guarded_tracked)

lemma send_after_answer_witness:
  "\<exists>s'. send_call plenty (stream_kern (wire [])) 5 (Ptr 0 0) 10 0 tracked_client =
     return (syscall (stream_kern (wire [])) (Send_app 5 (Ptr 0 0) 10 0) s')"
  using send_after_answer [OF tracked_client_abs _ one_state_5 recv_ok_stream [of "wire []"], of "Ptr 0 0" 10 0]
  by (auto simp: says_accept tracked_client_fields(1))

text \<open>
  \<open>recv\<close> on a tracked descriptor does the same; after a refusal the application reads 0,
  which it takes for the end of the stream.
\<close>

theorem recv_after_answer:
  fixes s :: "'z tstate_scheme"
  assumes "table_abs s T" and "0 \<le> f" and "T f = e # es" and "recv_ok kern"
  shows "case verdict (peer_says kern f False (trace s)) of
      Accept \<Rightarrow> \<exists>s'. recv_call plenty kern f buf len fl s = return (syscall kern (Recv_app f buf len fl) s') \<and>
        table_abs s' (T(f := es))
    | Refuse \<Rightarrow> \<exists>s'. recv_call plenty kern f buf len fl s = return (0, s') \<and> table_abs s' (T(f := es))
    | No_answer \<Rightarrow> \<exists>s'. recv_call plenty kern f buf len fl s = return (0, s') \<and> table_abs s' T
    | Hang \<Rightarrow> recv_call plenty kern f buf len fl s = None
    | Crash \<Rightarrow> recv_call plenty kern f buf len fl s = fail BadVla"
  unfolding guarded_calls using assms by (rule guarded_tracked)

lemma recv_after_answer_witness:
  "\<exists>s'. recv_call plenty (stream_kern (wire [])) 5 (Ptr 0 0) 10 0 tracked_client =
     return (syscall (stream_kern (wire [])) (Recv_app 5 (Ptr 0 0) 10 0) s')"
  using recv_after_answer [OF tracked_client_abs _ one_state_5 recv_ok_stream [of "wire []"], of "Ptr 0 0" 10 0]
  by (auto simp: says_accept tracked_client_fields(1))

text \<open>
  \<open>socket\<close> tracks exactly the MPTCP stream sockets of IPv4 and IPv6 that the kernel could
  create; every other socket is created and forgotten.
\<close>

theorem socket_tracks_mptcp:
  fixes s :: "'z tstate_scheme"
  assumes "table_abs s T" and "f = ret (kern (trace s) (Socket fam ty proto))"
  shows "\<exists>s' e. socket_call plenty kern fam ty proto s = return (f, s') \<and>
    table_abs s' (if (fam = AF_INET \<or> fam = AF_INET6) \<and> ty = SOCK_STREAM \<and> proto = IPPROTO_MPTCP \<and> 0 \<le> f
                  then T(f := e # T f) else T)"
proof -
  define s1 where "s1 = snd (syscall kern (Socket fam ty proto) s)"
  have sc: "syscall kern (Socket fam ty proto) s = (f, s1)"
    using assms(2) by (simp add: s1_def syscall_def answer_def Let_def)
  have abs: "table_abs s1 T" unfolding s1_def using assms(1) by (rule table_abs_syscall)
  have m: "plenty (nextb (memory s1)) SIZEOF_SOCKET_STATE"
    by (simp add: plenty_def SIZEOF_SOCKET_STATE_def PTRDIFF_MAX_def)
  show ?thesis
  proof (cases "(fam = AF_INET \<or> fam = AF_INET6) \<and> ty = SOCK_STREAM \<and> proto = IPPROTO_MPTCP \<and> 0 \<le> f")
    case True
    then have "0 \<le> f" by simp
    from table_abs_alloc [OF abs this, of plenty] m
    obtain s' where "table_alloc plenty f s1 = return s'" "table_abs s' (T(f := nextb (memory s1) # T f))"
      by auto
    then show ?thesis unfolding socket_call_def sc Let_def prod.case using True by auto
  next
    case False
    then show ?thesis unfolding socket_call_def sc Let_def prod.case using abs by auto
  qed
qed

lemma socket_tracks_mptcp_witness:
  "\<exists>s' e. socket_call plenty (stream_kern []) AF_INET SOCK_STREAM IPPROTO_MPTCP idle_client = return (0, s') \<and>
     table_abs s' ((\<lambda>f. [])(0 := [e]))"
  using socket_tracks_mptcp [OF idle_client_abs, of 0 "stream_kern []" AF_INET SOCK_STREAM IPPROTO_MPTCP]
  by (simp add: stream_kern_def)

text \<open>
  An accepted connection whose answer had TLVs loses the parsed options: after the call
  the struct is still allocated, but no state and no returned value leads to it.
\<close>

theorem read_convert_loses_options:
  fixes s :: "'z tstate_scheme"
  assumes "table_abs s T" and "T f = e # es" and "recv_ok kern"
    and "peer_says kern f False (trace s) = Tlvs bs" and "decode bs = Complete ts"
    and "\<not> has_flag CONVERT_ERROR (msg_flags (message_of ts))"
  shows "lost s (T(f := es)) (read_convert plenty kern e False s)"
  using read_convert_spec [OF assms(1) _ assms(3), of e f False] assms(2,4-6) popped_newest [of T f e es]
  by simp

lemma read_convert_loses_options_witness:
  "lost tracked_client (one_state(5 := [])) (read_convert plenty (stream_kern (wire sample_tlvs)) 1 False tracked_client)"
proof (rule read_convert_loses_options [OF tracked_client_abs one_state_5])
  have "length (encode sample_tlvs) = 28" using length_sample by (simp add: sample_def)
  then show "peer_says (stream_kern (wire sample_tlvs)) 5 False (trace tracked_client) = Tlvs sample"
    using peer_says_wire [of sample_tlvs "[]" 5] by (auto simp: sample_def tracked_client_fields(1))
qed (simp_all add: decode_sample, simp add: message_of_def sample_tlvs_def empty_message_def)

end
