(* ===== verification/CText.thy ===== *)
theory CText
  imports CMem
begin

text \<open>
  Numbers in C strings: \<open>strtol\<close> with base 10 on checked memory, so that a missing terminator is
  a fault, the decimal text of a number, and the proof that the one reads what the other writes.
\<close>

section \<open>Numbers in strings\<close>

definition isspace :: "byte \<Rightarrow> bool" where
  "isspace c \<longleftrightarrow> c = 32 \<or> 9 \<le> c \<and> c \<le> 13"

definition isdigit :: "byte \<Rightarrow> bool" where
  "isdigit c \<longleftrightarrow> 48 \<le> c \<and> c \<le> 57"

fun peek_cell :: "cell list \<Rightarrow> fault + byte" where
  "peek_cell [] = Inl OutOfBounds"
| "peek_cell (None # cs) = Inl UninitRead"
| "peek_cell (Some c # cs) = Inr c"

fun skip_space :: "cell list \<Rightarrow> fault + nat" where
  "skip_space [] = Inl OutOfBounds"
| "skip_space (None # cs) = Inl UninitRead"
| "skip_space (Some c # cs) = (if isspace c then bindE (skip_space cs) (\<lambda>n. Inr (Suc n)) else Inr 0)"

text \<open>The value read so far, the digits that follow, and how many there were.\<close>

fun digits :: "int \<Rightarrow> cell list \<Rightarrow> fault + int \<times> nat" where
  "digits v [] = Inl OutOfBounds"
| "digits v (None # cs) = Inl UninitRead"
| "digits v (Some c # cs) =
     (if isdigit c
      then bindE (digits (10 * v + int (unat c - 48)) cs) (\<lambda>(w, n). Inr (w, Suc n))
      else Inr (v, 0))"

definition LONG_MAX :: int where "LONG_MAX = 2 ^ 63 - 1"

definition LONG_MIN :: int where "LONG_MIN = - (2 ^ 63)"

text \<open>\<open>strtol\<close> with base 10: the value and the offset of the end pointer.\<close>

definition strtol :: "cell list \<Rightarrow> fault + int \<times> nat" where
  "strtol cs =
     bindE (skip_space cs) (\<lambda>i.
     bindE (peek_cell (drop i cs)) (\<lambda>c.
     let j = (if c = 43 \<or> c = 45 then 1 else 0) in
     bindE (digits 0 (drop (i + j) cs)) (\<lambda>(v, k).
       if k = 0 then Inr (0, 0)
       else Inr (max LONG_MIN (min LONG_MAX (if c = 45 then - v else v)), i + j + k))))"

text \<open>The cells that a pointer leads to.\<close>

fun cells_from :: "mem \<Rightarrow> ptr \<Rightarrow> fault + cell list" where
  "cells_from m Null = Inl NullDeref"
| "cells_from m (Ptr b i) =
     (case bytes_at m b of None \<Rightarrow> Inl DeadBlock
      | Some cs \<Rightarrow> if i \<le> length cs then Inr (drop i cs) else Inl OutOfBounds)"

definition strtol_at :: "mem \<Rightarrow> ptr \<Rightarrow> fault + int \<times> ptr" where
  "strtol_at m p = bindE (cells_from m p) (\<lambda>cs. bindE (strtol cs) (\<lambda>(v, k). Inr (v, padd p k)))"

text \<open>The test \<open>*endp && *endp != '\n'\<close>.\<close>

definition bad_end :: "mem \<Rightarrow> ptr \<Rightarrow> fault + bool" where
  "bad_end m endp = bindE (load8 m endp) (\<lambda>c. Inr (c \<noteq> 0 \<and> c \<noteq> 10))"

definition to_int :: "int \<Rightarrow> int" where
  "to_int v = sint (word_of_int v :: u32)"

definition c_string :: "mem \<Rightarrow> ptr \<Rightarrow> fault + byte list" where
  "c_string m p = bindE (strlen m p) (\<lambda>n. load_bytes m p n)"

lemma to_int_id: "- (2 ^ 31) \<le> v \<Longrightarrow> v < 2 ^ 31 \<Longrightarrow> to_int v = v"
  by (simp add: to_int_def int_word_sint signed_take_bit_int_eq_self)

lemma to_int_range: "- (2 ^ 31) \<le> to_int v" "to_int v < 2 ^ 31"
  unfolding to_int_def
  using sint_greater_eq [of "word_of_int v :: u32"] sint_less [of "word_of_int v :: u32"] by simp_all

section \<open>Reading decimal numbers\<close>

fun dec :: "nat \<Rightarrow> byte list" where
  "dec n = (if n < 10 then [of_nat (48 + n)] else dec (n div 10) @ [of_nat (48 + n mod 10)])"

declare dec.simps [simp del]

definition value_of :: "int \<Rightarrow> byte list \<Rightarrow> int" where
  "value_of v ds = foldl (\<lambda>a d. 10 * a + int (unat d - 48)) v ds"

lemma unat_digit: "n < 10 \<Longrightarrow> unat (of_nat (48 + n) :: byte) = 48 + n"
  by (simp add: unat_of_nat take_bit_nat_eq_self del: of_nat_add)

lemma isdigit_digit: "n < 10 \<Longrightarrow> isdigit (of_nat (48 + n))"
  unfolding isdigit_def word_le_nat_alt using unat_digit [of n] by simp

lemma dec_digits: "list_all isdigit (dec n)"
proof (induction n rule: dec.induct)
  case (1 n)
  then show ?case using isdigit_digit [of n] isdigit_digit [of "n mod 10"] dec.simps [of n] by simp
qed

lemma value_of_dec: "value_of 0 (dec n) = int n"
proof (induction n rule: dec.induct)
  case (1 n)
  show ?case
  proof (cases "n < 10")
    case True
    then show ?thesis using unat_digit [of n] by (subst dec.simps) (simp add: value_of_def del: of_nat_add)
  next
    case False
    have "unat (of_nat (48 + n mod 10) :: byte) = 48 + n mod 10" by (rule unat_digit) simp
    then show ?thesis using 1 False
      by (subst dec.simps) (simp add: value_of_def of_nat_div of_nat_mod del: of_nat_add)
  qed
qed

lemma dec_nonempty: "dec n \<noteq> []"
  by (subst dec.simps) simp

lemma digits_read:
  "list_all isdigit ds \<Longrightarrow> \<not> isdigit c \<Longrightarrow>
   digits v (map Some ds @ Some c # cs) = Inr (value_of v ds, length ds)"
  by (induction ds arbitrary: v) (simp_all add: value_of_def)

lemma isdigit_plain: "isdigit c \<Longrightarrow> \<not> isspace c \<and> c \<noteq> 43 \<and> c \<noteq> 45"
  by (auto simp: isdigit_def isspace_def word_le_nat_alt)

lemma strtol_digits:
  assumes "list_all isdigit ds" and "ds \<noteq> []" and "\<not> isdigit c"
  shows "strtol (map Some ds @ Some c # cs) = Inr (max LONG_MIN (min LONG_MAX (value_of 0 ds)), length ds)"
proof -
  obtain d ds' where ds: "ds = d # ds'" using assms(2) by (cases ds) auto
  then have d: "\<not> isspace d" "d \<noteq> 43" "d \<noteq> 45" using assms(1) isdigit_plain [of d] by auto
  have "digits 0 (map Some ds @ Some c # cs) = Inr (value_of 0 ds, length ds)"
    using assms(1,3) by (rule digits_read)
  then show ?thesis using d ds by (simp add: strtol_def)
qed

lemma strtol_dec_eq:
  assumes "int n \<le> LONG_MAX" and "\<not> isdigit c"
  shows "strtol (map Some (dec n) @ Some c # cs) = Inr (int n, length (dec n))"
  using strtol_digits [OF dec_digits dec_nonempty assms(2), of n cs] assms(1)
  by (simp add: value_of_dec LONG_MIN_def)

lemma cells_from_has:
  assumes "has_bytes m p bs" and "bs \<noteq> []"
  obtains rest where "cells_from m p = Inr (map Some bs @ rest)"
proof (cases p)
  case (Ptr b i)
  then obtain cs where cs: "bytes_at m b = Some cs" "i + length bs \<le> length cs" "take (length bs) (drop i cs) = map Some bs"
    using assms(1) by (auto simp: window_def split: option.splits)
  then have "drop i cs = map Some bs @ drop (length bs) (drop i cs)" by (metis append_take_drop_id)
  then show ?thesis using that cs Ptr by simp
qed (use assms in simp)

lemma strtol_at_dec:
  assumes "has_bytes m p (dec n @ c # bs)" and "int n \<le> LONG_MAX" and "\<not> isdigit c"
  shows "strtol_at m p = Inr (int n, padd p (length (dec n)))"
    and "bad_end m (padd p (length (dec n))) = Inr (c \<noteq> 0 \<and> c \<noteq> 10)"
proof -
  obtain rest where "cells_from m p = Inr (map Some (dec n @ c # bs) @ rest)"
    using cells_from_has [OF assms(1)] by auto
  then show "strtol_at m p = Inr (int n, padd p (length (dec n)))"
    using strtol_dec_eq [OF assms(2,3), of "map Some bs @ rest"] by (simp add: strtol_at_def)
  show "bad_end m (padd p (length (dec n))) = Inr (c \<noteq> 0 \<and> c \<noteq> 10)"
    using load8_has [OF assms(1), of "length (dec n)"] by (simp add: bad_end_def)
qed

section \<open>Text made of numbers\<close>

definition lit :: "string \<Rightarrow> byte list" where
  "lit s = map of_char s"

lemma length_lit [simp]: "length (lit s) = length s"
  by (simp add: lit_def)

text \<open>\<open>%d\<close> of \<open>printf\<close>.\<close>

definition dec_int :: "int \<Rightarrow> byte list" where
  "dec_int v = (if v < 0 then 45 # dec (nat (- v)) else dec (nat v))"

lemma length_dec: "n < 10 ^ k \<Longrightarrow> 0 < k \<Longrightarrow> length (dec n) \<le> k"
proof (induction n arbitrary: k rule: dec.induct)
  case (1 n)
  show ?case
  proof (cases "n < 10")
    case True
    then show ?thesis using 1(3) by (subst dec.simps) simp
  next
    case False
    then obtain j where k: "k = Suc j" "0 < j"
      using 1(2,3) by (cases k; cases "k = 1") auto
    then have "n div 10 < 10 ^ j" using 1(2) by (simp add: less_mult_imp_div_less)
    then show ?thesis using 1(1) [OF False _ k(2)] False k by (subst dec.simps) simp
  qed
qed

lemma length_dec_int:
  assumes "- (2 ^ 31) \<le> v" and "v < 2 ^ 31"
  shows "length (dec_int v) \<le> 11"
proof -
  have "nat v < 10 ^ 10" "nat (- v) < 10 ^ 10" using assms by (auto simp: zless_nat_eq_int_zless nat_less_iff)
  then show ?thesis using length_dec [of "nat v" 10] length_dec [of "nat (- v)" 10] by (simp add: dec_int_def)
qed

text \<open>The text that \<open>inet_ntop\<close> makes of the four bytes of an IPv4 address.\<close>

fun dotted :: "byte list \<Rightarrow> byte list" where
  "dotted [] = []"
| "dotted [a] = dec (unat a)"
| "dotted (a # bs) = dec (unat a) @ 46 # dotted bs"

lemma length_dec_byte: "length (dec (unat (a :: byte))) \<le> 3"
  using length_dec [of "unat a" 3] unat_byte_less [of a] by simp

lemma length_dotted:
  assumes "length bs = 4"
  shows "length (dotted bs) \<le> 15"
proof -
  obtain a b c d where "bs = [a, b, c, d]" using assms by (auto simp: length_Suc_conv eval_nat_numeral)
  then show ?thesis
    using length_dec_byte [of a] length_dec_byte [of b] length_dec_byte [of c] length_dec_byte [of d] by simp
qed

end
