(* ===== verification/Config.thy ===== *)
theory Config
  imports Client CText
begin

text \<open>
  The start and the end of the library in \<open>lib_convert/convert_client.c\<close>: the checks of the
  sysctl and of the kernel version, the parameters taken from the environment, \<open>init\<close> and
  \<open>fini\<close>. Strings are read from checked memory, so that a missing terminator is a fault.
\<close>

section \<open>The sysctl\<close>

text \<open>The return code and the value stored through the argument, if any.\<close>

definition read_sysctl_fastopen :: "kern \<Rightarrow> 'z client_scheme \<Rightarrow> ((int \<times> u32 option) \<times> 'z client_scheme) run" where
  "read_sysctl_fastopen kern s =
     (let (buffer, s) = auto_array 1024 s;
          (f, s) = syscall kern (Open ''/proc/sys/net/ipv4/tcp_fastopen'') s in
      if f < 0 then return ((f, None), leave_array buffer s)
      else bindR (Some (sys_read kern f (Ptr buffer 0) 1024 s)) (\<lambda>(rc, s).
        bindR (close_call kern f s) (\<lambda>(_, s).
        if rc < 0 then return ((rc, None), leave_array buffer s)
        else bindR (Some (strtol_at (memory s) (Ptr buffer 0))) (\<lambda>(v, endp).
          bindR (Some (bad_end (memory s) endp)) (\<lambda>bad.
          return ((if bad then -1 else 0, Some (word_of_int v)), leave_array buffer s))))))"

definition validate_sysctl_fastopen :: "kern \<Rightarrow> 'z client_scheme \<Rightarrow> (int \<times> 'z client_scheme) run" where
  "validate_sysctl_fastopen kern s =
     (let expected_flags = (0x1 OR 0x4 :: u32) in
      bindR (read_sysctl_fastopen kern s) (\<lambda>((rc, stored), s).
        let fl = (case stored of None \<Rightarrow> 0 | Some v \<Rightarrow> v) in
        if rc < 0 then return (-1, s)
        else if fl AND expected_flags \<noteq> expected_flags then return (-1, s)
        else return (0, s)))"

section \<open>The kernel version\<close>

text \<open>\<open>release\<close> is the array of \<open>struct utsname\<close>; version and major version.\<close>

definition extract_kernel_version :: "cell list \<Rightarrow> fault + int \<times> int" where
  "extract_kernel_version release =
     bindE (strtol release) (\<lambda>(v, k).
     bindE (strtol (drop (Suc k) release)) (\<lambda>(w, _).
     Inr (to_int v, to_int w)))"

definition validate_kernel_version :: "kern \<Rightarrow> 'z client_scheme \<Rightarrow> (int \<times> 'z client_scheme) run" where
  "validate_kernel_version kern s =
     (let release = map Some (data (answer kern Uname s)); (rc, s) = syscall kern Uname s in
      if rc \<noteq> 0 then return (-1, s)
      else bindR (Some (extract_kernel_version release)) (\<lambda>(version, major).
        if version > 4 \<or> version = 4 \<and> major \<ge> 5 then return (0, s) else return (-1, s)))"

section \<open>The environment\<close>

text \<open>
  \<open>getenv\<close> gives null or a C string; \<open>resolve\<close> is what the resolver makes of a host and a
  service name.
\<close>

type_synonym environment = "string \<Rightarrow> ptr"
type_synonym resolver = "byte list \<Rightarrow> byte list \<Rightarrow> sockaddr option"

definition CONVERT_PORT :: "byte list" where
  "CONVERT_PORT = [49, 50, 51, 52]"

definition port_string :: "'z client_scheme \<Rightarrow> fault + byte list" where
  "port_string s = (case convert_port_str s of None \<Rightarrow> Inr CONVERT_PORT | Some p \<Rightarrow> c_string (memory s) p)"

definition set_port :: "ptr \<Rightarrow> 'z client_scheme \<Rightarrow> fault + 'z client_scheme" where
  "set_port convert_port s =
     (if convert_port = Null then Inr s
      else bindE (strtol_at (memory s) convert_port) (\<lambda>(_, endp).
        bindE (bad_end (memory s) endp) (\<lambda>bad.
        Inr (if bad then s else s\<lparr>convert_port_str := Some convert_port\<rparr>))))"

definition validate_parameters ::
  "environment \<Rightarrow> resolver \<Rightarrow> 'z client_scheme \<Rightarrow> (int \<times> 'z client_scheme) run"
where
  "validate_parameters getenv resolve s =
     (if getenv ''CONVERT_ADDR'' = Null then return (-1, s)
      else bindR (Some (set_port (getenv ''CONVERT_PORT'') s)) (\<lambda>s.
        let s = (if getenv ''CONVERT_COOKIE'' \<noteq> Null
                 then s\<lparr>convert_cookie_str := getenv ''CONVERT_COOKIE''\<rparr> else s) in
        bindR (Some (c_string (memory s) (getenv ''CONVERT_ADDR''))) (\<lambda>host.
        bindR (Some (port_string s)) (\<lambda>port.
        let s = s\<lparr>trace := Getaddrinfo host port # trace s\<rparr> in
        case resolve host port of
          None \<Rightarrow> return (-1, s)
        | Some a \<Rightarrow> return (0, s\<lparr>converter_addr := Some a\<rparr>)))))"

definition validate_config ::
  "kern \<Rightarrow> environment \<Rightarrow> resolver \<Rightarrow> 'z client_scheme \<Rightarrow> (int \<times> 'z client_scheme) run"
where
  "validate_config kern getenv resolve s =
     bindR (validate_sysctl_fastopen kern s) (\<lambda>(rc, s).
     if rc < 0 then return (rc, s)
     else bindR (validate_kernel_version kern s) (\<lambda>(rc, s).
       if rc < 0 then return (rc, s)
       else validate_parameters getenv resolve s))"

section \<open>Start, end and logging\<close>

text \<open>
  A failed check prints \<open>err_buf\<close>, an array nothing was ever written to, before it exits; what
  the process is left with otherwise is the state after the checks.
\<close>

definition init :: "kern \<Rightarrow> environment \<Rightarrow> resolver \<Rightarrow> 'z client_scheme \<Rightarrow> 'z client_scheme run" where
  "init kern getenv resolve s =
     (let (err_buf, s) = auto_array 1024 s in
      bindR (validate_config kern getenv resolve s) (\<lambda>(rc, s).
      if rc < 0
      then bindR (Some (c_string (memory s) (Ptr err_buf 0))) (\<lambda>_.
        return (leave_array err_buf (snd (syscall kern (Exit 1) s))))
      else return (leave_array err_buf s)))"

definition fini :: "kern \<Rightarrow> 'z client_scheme \<Rightarrow> 'z client_scheme run" where
  "fini kern s =
     (case converter_addr s of
        None \<Rightarrow> fail NullDeref
      | Some a \<Rightarrow> return (snd (syscall kern Freeaddrinfo s)))"

definition log_lock :: "bool \<Rightarrow> 'z client_scheme \<Rightarrow> fault + 'z client_scheme" where
  "log_lock lk s =
     (if lk then (if log_mutex s then Inl Deadlock else Inr (s\<lparr>log_mutex := True\<rparr>))
      else Inr (s\<lparr>log_mutex := False\<rparr>))"


section \<open>The sysctl, when it can be read\<close>

lemma close_call_abs:
  fixes s :: "'z tstate_scheme"
  assumes "table_abs s T" and "0 \<le> f"
  shows "\<exists>s'. close_call kern f s = return (ret (kern (trace s) (Close f)), s') \<and> trace s' = Close f # trace s \<and>
    table_abs s' (T(f := tl (T f))) \<and> tstate.more s' = tstate.more s \<and>
    (\<forall>b. blocks (memory s) b \<noteq> Some Struct \<longrightarrow> blocks (memory s') b = blocks (memory s) b)"
proof -
  have "\<exists>s'. table_free f s = return s' \<and> trace s' = trace s \<and> table_abs s' (T(f := tl (T f))) \<and>
    tstate.more s' = tstate.more s \<and>
    (\<forall>b. blocks (memory s) b \<noteq> Some Struct \<longrightarrow> blocks (memory s') b = blocks (memory s) b)"
  proof (cases "T f")
    case Nil
    then have "T(f := []) = T" by auto
    then show ?thesis using lookup_newest [OF assms] Nil assms(1) by (simp add: table_free_def)
  next
    case (Cons e es)
    then have "e \<in> set (T f)" by simp
    from table_abs_free_state [OF assms(1) this]
    obtain s' where s': "table_free_state e s = return s'" "table_abs s' (T(f := remove1 e (T f)))"
      "memory s' = drop_block e (memory s)" "trace s' = trace s" "tstate.more s' = tstate.more s" by blast
    moreover have "blocks (memory s) e = Some Struct"
      by (rule table_abs_struct [OF assms(1) \<open>e \<in> set (T f)\<close>])
    ultimately show ?thesis using lookup_newest [OF assms] Cons
      by (auto simp: table_free_def drop_block_def)
  qed
  then obtain s1 where s1: "table_free f s = return s1" "trace s1 = trace s" "table_abs s1 (T(f := tl (T f)))"
    "tstate.more s1 = tstate.more s"
    "\<forall>b. blocks (memory s) b \<noteq> Some Struct \<longrightarrow> blocks (memory s1) b = blocks (memory s) b" by blast
  let ?s = "snd (syscall kern (Close f) s1)"
  have "tstate.more ?s = tstate.more s1" using more_sys [of ?s s1] by simp
  moreover have "fst (syscall kern (Close f) s1) = ret (kern (trace s) (Close f))"
    using s1(2) by (simp add: fst_syscall answer_def)
  ultimately show ?thesis
    using s1 table_abs_syscall [OF s1(3)] by (intro exI [of _ ?s]) (simp add: close_call_def prod_eq_iff)
qed


definition SYSCTL :: call where
  "SYSCTL = Open ''/proc/sys/net/ipv4/tcp_fastopen''"

lemma has_bytes_blocks: "blocks m' b = blocks m b \<Longrightarrow> has_bytes m' (Ptr b i) bs = has_bytes m (Ptr b i) bs"
  by (simp add: bytes_at_def)

lemma sysctl_read:
  fixes s :: "'z client_scheme"
  assumes abs: "table_abs s T" and f: "f = ret (kern (trace s) SYSCTL)" "0 \<le> f"
    and r: "r = kern (SYSCTL # trace s) (Read f 1024)" "ret r = int (length (data r))" "length (data r) \<le> 1024"
    and cont: "data r = dec n @ 10 # rest" "int n \<le> LONG_MAX"
  shows "\<exists>s'. read_sysctl_fastopen kern s = return ((0, Some (of_nat n)), s') \<and>
    table_abs s' (T(f := tl (T f))) \<and> trace s' = Close f # Read f 1024 # SYSCTL # trace s \<and>
    tstate.more s' = tstate.more s \<and>
    (\<forall>b < nextb (memory s). blocks (memory s) b \<noteq> Some Struct \<longrightarrow> blocks (memory s') b = blocks (memory s) b)"
proof -
  obtain b s0 where arr: "auto_array 1024 s = (b, s0)" by fastforce
  have s0: "b = nextb (memory s)" "memory s0 = snd (new_block (Auto (replicate 1024 None)) (memory s))"
    "trace s0 = trace s" "sys.more s0 = sys.more s"
    using arr by (auto simp: auto_array_def new_block_def)
  define s1 where "s1 = snd (syscall kern SYSCTL s0)"
  have open1: "syscall kern SYSCTL s0 = (f, s1)"
    using f(1) s0(3) by (simp add: s1_def syscall_def answer_def Let_def)
  have s1: "memory s1 = memory s0" "trace s1 = SYSCTL # trace s" "sys.more s1 = sys.more s"
    using s0 by (simp_all add: s1_def)
  let ?cs = "overwrite 0 (map Some (data r)) (replicate 1024 None)"
  have "store_bytes (memory s1) (Ptr b 0) (data r) = Inr (snd (new_block (Auto ?cs) (memory s)))"
    using r(3) s0 by (simp add: s1(1) store_bytes_def new_block_def)
  then obtain s2 where rd: "sys_read kern f (Ptr b 0) 1024 s1 = Inr (ret r, s2)"
    and s2: "memory s2 = snd (new_block (Auto ?cs) (memory s))" "trace s2 = Read f 1024 # SYSCTL # trace s"
      "sys.more s2 = sys.more s"
    using r(1,2) s1 by (simp add: sys_read_def answer_def syscall_def Let_def)
  have wf: "wf_mem (memory s)" using abs by (rule table_abs_wf)
  have "grown s s2" using wf s2 by (simp add: grown_def mem_ext_new)
  then have abs2: "table_abs s2 T" by (rule table_abs_grown [OF abs])
  have more2: "tstate.more s2 = tstate.more s" using more_sys [of s2 s] s2(3) by simp
  have blk: "blocks (memory s2) b = Some (Auto ?cs)" using s2(1) s0(1) by (simp add: new_block_def)
  obtain s3 where s3: "close_call kern f s2 = return (ret (kern (trace s2) (Close f)), s3)"
      "trace s3 = Close f # trace s2" "table_abs s3 (T(f := tl (T f)))" "tstate.more s3 = tstate.more s2"
      "\<forall>b. blocks (memory s2) b \<noteq> Some Struct \<longrightarrow> blocks (memory s3) b = blocks (memory s2) b"
    using close_call_abs [OF abs2 f(2)] by blast
  have blk3: "blocks (memory s3) b = Some (Auto ?cs)" using s3(5) blk by simp
  have "has_bytes (memory s3) (Ptr b 0) (dec n @ 10 # rest)"
    unfolding cont(1) [symmetric] using blk3 r(3) by (simp add: bytes_at_def window_def overwrite_def)
  note st = strtol_at_dec [OF this cont(2)]
  have ten: "\<not> isdigit 10" by (simp add: isdigit_def)
  have "read_sysctl_fastopen kern s = return ((0, Some (of_nat n)), leave_array b s3)"
    unfolding read_sysctl_fastopen_def arr Let_def prod.case SYSCTL_def [symmetric] open1
    using f(2) rd s3(1) st [OF ten] r(2) by simp
  moreover have "table_abs (leave_array b s3) (T(f := tl (T f)))"
    using blk3 by (intro table_abs_leave [OF s3(3)]) simp
  moreover have "tstate.more (leave_array b s3) = tstate.more s" using s3(4) more2 by (simp add: leave_array_def)
  moreover have "blocks (memory (leave_array b s3)) x = blocks (memory s) x"
    if "x < nextb (memory s)" "blocks (memory s) x \<noteq> Some Struct" for x
  proof -
    have "blocks (memory s2) x = blocks (memory s) x" using that(1) s2(1) by (simp add: new_block_def)
    then show ?thesis using that s0(1) s3(5) by (simp add: leave_array_def drop_block_def)
  qed
  moreover have "trace (leave_array b s3) = Close f # Read f 1024 # SYSCTL # trace s"
    using s2(2) s3(2) by (simp add: leave_array_def)
  ultimately show ?thesis by blast
qed

lemma version_read:
  assumes "data r = dec v @ 46 # dec w @ c # rest" and "\<not> isdigit c" and "v < 2 ^ 31" and "w < 2 ^ 31"
  shows "extract_kernel_version (map Some (data r)) = Inr (int v, int w)"
proof -
  have lim: "int v \<le> LONG_MAX" "int w \<le> LONG_MAX" using assms(3,4) by (simp_all add: LONG_MAX_def)
  have "\<not> isdigit 46" by (simp add: isdigit_def)
  then have "strtol (map Some (data r)) = Inr (int v, length (dec v))"
    using strtol_dec_eq [OF lim(1), of 46 "map Some (dec w @ c # rest)"] assms(1) by simp
  moreover have "drop (Suc (length (dec v))) (map Some (data r)) = map Some (dec w) @ Some c # map Some rest"
    using assms(1) by simp
  moreover have "to_int (int k) = int k" if "k < 2 ^ 31" for k
    using that by (simp add: to_int_def signed_of_nat signed_take_bit_int_eq_self)
  ultimately show ?thesis
    using strtol_dec_eq [OF lim(2) assms(2), of "map Some rest"] assms(3,4)
    by (simp add: extract_kernel_version_def)
qed


section \<open>Old local arrays stay\<close>

definition keeps_auto :: "'z sys_scheme \<Rightarrow> 'z sys_scheme \<Rightarrow> bool" where
  "keeps_auto s s' \<longleftrightarrow> nextb (memory s) \<le> nextb (memory s') \<and>
     (\<forall>b cs. b < nextb (memory s) \<and> blocks (memory s) b = Some (Auto cs) \<longrightarrow>
        blocks (memory s') b = Some (Auto cs))"

lemma keeps_auto_trans: "keeps_auto s s' \<Longrightarrow> keeps_auto s' s'' \<Longrightarrow> keeps_auto s s''"
  by (fastforce simp: keeps_auto_def)

lemma keeps_auto_memory: "memory s' = memory s \<Longrightarrow> keeps_auto s s'"
  by (simp add: keeps_auto_def)

lemma keeps_auto_free_state:
  assumes "table_free_state e s = return s'"
  shows "keeps_auto s s'"
proof -
  have "blocks (memory s) e = Some Struct" "memory s' = drop_block e (memory s)"
    using assms by (auto simp: table_free_state_def free_block_def free_struct_def lock_def unlock_def bindE_simps
        split: if_splits)
  then show ?thesis by (auto simp: keeps_auto_def drop_block_def)
qed

lemma lookup_memory:
  assumes "table_lookup f s = return (state, s')"
  shows "memory s' = memory s"
proof -
  obtain i found where "LIST_FOREACH (match_fd f) (htable s) i = return found"
    and res: "(case found of None \<Rightarrow> return (None, unlock (s\<lparr>htable_mutex := True\<rparr>))
       | Some (e, Inl flt) \<Rightarrow> fail flt
       | Some (e, Inr _) \<Rightarrow> return (Some e, unlock (s\<lparr>htable_mutex := True\<rparr>))) = return (state, s')"
    using assms by (auto simp: table_lookup_def lock_def bindR_return_iff split: if_splits)
  show ?thesis
  proof (cases found)
    case (Some p)
    obtain e q where "p = (e, q)" by fastforce
    then show ?thesis using res Some by (cases q) (auto simp: unlock_def)
  qed (use res in \<open>auto simp: unlock_def\<close>)
qed

lemma keeps_auto_close: "close_call kern f s = return (rc, s') \<Longrightarrow> keeps_auto s s'"
proof -
  assume cl: "close_call kern f s = return (rc, s')"
  then obtain s1 where s1: "table_free f s = return s1" "s' = snd (syscall kern (Close f) s1)"
    by (auto simp: close_call_def bindE_simps)
  obtain state s0 where s0: "table_lookup f s = return (state, s0)"
    and rest: "(case state of None \<Rightarrow> return s0 | Some e \<Rightarrow> table_free_state e s0) = return s1"
    using s1(1) by (auto simp: table_free_def bindR_return_iff)
  have k0: "keeps_auto s s0" by (rule keeps_auto_memory [OF lookup_memory [OF s0]])
  have "keeps_auto s s1"
  proof (cases state)
    case (Some e)
    then show ?thesis using rest keeps_auto_trans [OF k0 keeps_auto_free_state] by simp
  qed (use rest k0 in simp)
  then show ?thesis unfolding s1(2) by (rule keeps_auto_trans) (rule keeps_auto_memory, simp)
qed

lemma keeps_auto_leave:
  assumes "keeps_auto s s'" and "nextb (memory s) \<le> b"
  shows "keeps_auto s (leave_array b s')"
  using assms by (auto simp: keeps_auto_def drop_block_def)

lemma write_cells_block:
  "write_cells m (Ptr b i) ys = Inr m' \<Longrightarrow> nextb m' = nextb m \<and> (\<forall>a. a \<noteq> b \<longrightarrow> blocks m' a = blocks m a)"
  by (auto split: option.splits if_splits)

lemma keeps_auto_read:
  assumes "sys_read kern f (Ptr b 0) len s1 = Inr (rc, s2)" and "keeps_auto s s1" and "nextb (memory s) \<le> b"
  shows "keeps_auto s s2"
proof -
  have "nextb (memory s2) = nextb (memory s1) \<and> (\<forall>a. a \<noteq> b \<longrightarrow> blocks (memory s2) a = blocks (memory s1) a)"
    using assms(1) write_cells_block [of "memory s1" b 0]
    by (auto simp: sys_read_def syscall_def answer_def store_bytes_def Let_def bindE_simps
        split: if_splits simp del: write_cells.simps)
  then show ?thesis using assms(2,3) by (auto simp: keeps_auto_def)
qed

lemma keeps_auto_sysctl:
  assumes "read_sysctl_fastopen kern s = return (r, s')"
  shows "keeps_auto s s'"
proof -
  obtain b s0 where arr: "auto_array 1024 s = (b, s0)" by fastforce
  have b: "b = nextb (memory s)" and k0: "keeps_auto s s0"
    using arr by (auto simp: auto_array_def new_block_def keeps_auto_def)
  define f s1 where "f = fst (syscall kern SYSCTL s0)" and "s1 = snd (syscall kern SYSCTL s0)"
  have sc: "syscall kern SYSCTL s0 = (f, s1)" by (simp add: f_def s1_def)
  have k1: "keeps_auto s s1" using keeps_auto_trans [OF k0 keeps_auto_memory] by (simp add: s1_def)
  note run = assms [unfolded read_sysctl_fastopen_def arr Let_def prod.case SYSCTL_def [symmetric] sc]
  show ?thesis
  proof (cases "f < 0")
    case True
    then show ?thesis using run k1 b by (auto intro: keeps_auto_leave)
  next
    case False
    then obtain rc s2 where s2: "sys_read kern f (Ptr b 0) 1024 s1 = Inr (rc, s2)"
      and run2: "bindR (close_call kern f s2) (\<lambda>(_, s).
        if rc < 0 then return ((rc, None), leave_array b s)
        else bindR (Some (strtol_at (memory s) (Ptr b 0))) (\<lambda>(v, endp).
          bindR (Some (bad_end (memory s) endp)) (\<lambda>bad.
          return ((if bad then -1 else 0, Some (word_of_int v)), leave_array b s)))) = return (r, s')"
      using run by (auto simp: bindR_return_iff)
    have k2: "keeps_auto s s2" using keeps_auto_read [OF s2 k1] b by simp
    obtain x s3 where s3: "close_call kern f s2 = return (x, s3)" "s' = leave_array b s3"
      using run2 by (auto simp: bindR_return_iff split: if_splits)
    then show ?thesis
      using keeps_auto_trans [OF k2 keeps_auto_close [OF s3(1)]] b by (auto intro: keeps_auto_leave)
  qed
qed

lemma keeps_auto_validate_sysctl:
  "validate_sysctl_fastopen kern s = return (rc, s') \<Longrightarrow> keeps_auto s s'"
  by (auto simp: validate_sysctl_fastopen_def Let_def bindR_return_iff intro: keeps_auto_sysctl split: if_splits)

lemma keeps_auto_kernel:
  "validate_kernel_version kern s = return (rc, s') \<Longrightarrow> keeps_auto s s'"
  by (auto simp: validate_kernel_version_def Let_def bindR_return_iff syscall_def
      intro!: keeps_auto_memory split: if_splits)

lemma set_port_memory: "set_port p s = Inr s' \<Longrightarrow> memory s' = memory s"
  by (auto simp: set_port_def bindE_simps split: if_splits)

lemma keeps_auto_parameters:
  "validate_parameters getenv resolve s = return (rc, s') \<Longrightarrow> keeps_auto s s'"
  using set_port_memory
  by (fastforce simp: validate_parameters_def Let_def bindR_return_iff
      intro!: keeps_auto_memory split: if_splits option.splits)

lemma keeps_auto_validate_config:
  assumes "validate_config kern getenv resolve s = return (rc, s')"
  shows "keeps_auto s s'"
proof -
  obtain rc1 s1 where s1: "validate_sysctl_fastopen kern s = return (rc1, s1)"
    and rest: "(if rc1 < 0 then return (rc1, s1)
     else bindR (validate_kernel_version kern s1) (\<lambda>(rc, s).
       if rc < 0 then return (rc, s) else validate_parameters getenv resolve s)) = return (rc, s')"
    using assms by (auto simp: validate_config_def bindR_return_iff)
  note k1 = keeps_auto_validate_sysctl [OF s1]
  show ?thesis
  proof (cases "rc1 < 0")
    case False
    then obtain rc2 s2 where s2: "validate_kernel_version kern s1 = return (rc2, s2)"
      and "s' = s2 \<or> validate_parameters getenv resolve s2 = return (rc, s')"
      using rest by (auto simp: bindR_return_iff split: if_splits)
    then show ?thesis
      using keeps_auto_trans [OF k1 keeps_auto_kernel [OF s2]] keeps_auto_parameters keeps_auto_trans by blast
  qed (use rest k1 in simp)
qed


section \<open>Properties\<close>

text \<open>
  The check of the sysctl: when the file holds a decimal number and a line end, it
  succeeds exactly if the bits 0x1 and 0x4 of the number are set. The file is closed through
  the library's own \<open>close\<close>.
\<close>

theorem sysctl_check:
  fixes s :: "'z client_scheme"
  assumes "table_abs s T" and "f = ret (kern (trace s) SYSCTL)" and "0 \<le> f"
    and "r = kern (SYSCTL # trace s) (Read f 1024)" and "ret r = int (length (data r))"
    and "length (data r) \<le> 1024" and "data r = dec n @ 10 # rest" and "int n \<le> LONG_MAX"
  shows "\<exists>s'. validate_sysctl_fastopen kern s =
      return (if (of_nat n :: u32) AND 5 = 5 then 0 else -1, s') \<and>
    table_abs s' (T(f := tl (T f))) \<and> trace s' = Close f # Read f 1024 # SYSCTL # trace s"
proof -
  obtain s' where s': "read_sysctl_fastopen kern s = return ((0, Some (of_nat n)), s')"
    "table_abs s' (T(f := tl (T f)))" "trace s' = Close f # Read f 1024 # SYSCTL # trace s"
    using sysctl_read [OF assms] by blast
  have "1 OR 4 = (5 :: u32)" by simp
  then have "validate_sysctl_fastopen kern s = return (if (of_nat n :: u32) AND 5 = 5 then 0 else -1, s')"
    using s'(1) by (simp add: validate_sysctl_fastopen_def Let_def)
  then show ?thesis using s' by blast
qed

text \<open>A kernel for the start: the sysctl holds 7, the release is 5.10.0.\<close>

definition boot_kern :: kern where
  "boot_kern h c =
     (case c of
        Open path \<Rightarrow> \<lparr>ret = 3, data = [], err = 0\<rparr>
      | Read f len \<Rightarrow> \<lparr>ret = 2, data = [55, 10], err = 0\<rparr>
      | Uname \<Rightarrow> \<lparr>ret = 0, data = [53, 46, 49, 48, 46, 48, 0], err = 0\<rparr>
      | _ \<Rightarrow> \<lparr>ret = 0, data = [], err = 0\<rparr>)"

lemma sysctl_check_witness: "\<exists>s'. validate_sysctl_fastopen boot_kern idle_client = return (0, s')"
proof -
  have "dec 7 = [55]" by (simp add: dec.simps)
  then show ?thesis
    using sysctl_check [OF idle_client_abs, where kern = boot_kern and f = 3 and n = 7 and rest = "[]"]
    by (auto simp: boot_kern_def SYSCTL_def LONG_MAX_def)
qed

text \<open>
  The check of the kernel version: for a release \<open>v.w\<close>, whatever follows, it succeeds
  exactly from 4.5 on.
\<close>

theorem kernel_version_check:
  assumes "r = kern (trace s) Uname" and "ret r = 0" and "data r = dec v @ 46 # dec w @ c # rest"
    and "\<not> isdigit c" and "v < 2 ^ 31" and "w < 2 ^ 31"
  shows "\<exists>s'. validate_kernel_version kern s =
    return (if 4 < v \<or> v = 4 \<and> 5 \<le> w then 0 else -1, s') \<and> trace s' = Uname # trace s"
proof -
  have "validate_kernel_version kern s =
      return (if 4 < v \<or> v = 4 \<and> 5 \<le> w then 0 else -1, snd (syscall kern Uname s))"
    using version_read [OF assms(3-6)] assms(1,2)
    by (auto simp: validate_kernel_version_def answer_def syscall_def Let_def)
  then show ?thesis by auto
qed

lemma kernel_version_check_witness: "\<exists>s'. validate_kernel_version boot_kern idle_client = return (0, s')"
proof -
  have "dec 5 = [53]" "dec 10 = [49, 48]" by (simp_all add: dec.simps)
  then show ?thesis
    using kernel_version_check [where kern = boot_kern and s = idle_client and v = 5 and w = 10 and c = 46 and rest = "[48, 0]"]
    by (auto simp: boot_kern_def isdigit_def)
qed

text \<open>
  The environment: with a host name, a decimal port and a name that resolves, the
  parameters are accepted, the first address becomes the converter's, and the cookie is the
  string of the environment, if there is one.
\<close>

theorem parameters_taken:
  fixes s :: "'z client_scheme"
  assumes "getenv ''CONVERT_ADDR'' \<noteq> Null"
    and "has_bytes (memory s) (getenv ''CONVERT_ADDR'') (host @ [0])" and "0 \<notin> set host"
    and "has_bytes (memory s) (getenv ''CONVERT_PORT'') (dec n @ [0])" and "int n \<le> LONG_MAX"
    and "resolve host (dec n) = Some a"
  shows "\<exists>s'. validate_parameters getenv resolve s = return (0, s') \<and> converter_addr s' = Some a \<and>
    convert_port_str s' = Some (getenv ''CONVERT_PORT'') \<and> memory s' = memory s \<and>
    htable s' = htable s \<and> htable_mutex s' = htable_mutex s \<and>
    convert_cookie_str s' = (if getenv ''CONVERT_COOKIE'' = Null then convert_cookie_str s
      else getenv ''CONVERT_COOKIE'')"
proof -
  have c_str: "c_string (memory s) p = Inr bs" if "has_bytes (memory s) p (bs @ [0])" "0 \<notin> set bs" for p bs
    using strlen_has [OF that] load_bytes_has [OF has_bytes_prefix [OF that(1)], of 0 "length bs"]
    by (simp add: c_string_def)
  have "\<not> isdigit 0" by (simp add: isdigit_def)
  note port = strtol_at_dec [OF assms(4,5) this]
  have np: "getenv ''CONVERT_PORT'' \<noteq> Null" using assms(4) by (metis has_bytes.simps(1) snoc_eq_iff_butlast)
  have nz: "0 \<notin> set (dec n)"
    using dec_digits [of n] by (auto simp: list_all_iff isdigit_def)
  have sp: "set_port (getenv ''CONVERT_PORT'') s = Inr (s\<lparr>convert_port_str := Some (getenv ''CONVERT_PORT'')\<rparr>)"
    using np port by (simp add: set_port_def)
  show ?thesis
    using assms(1,6) sp c_str [OF assms(2,3)] c_str [OF assms(4) nz]
    by (auto simp: validate_parameters_def Let_def port_string_def)
qed

definition boot_memory :: mem where
  "boot_memory = mem_of [104, 0, 49, 50, 51, 52, 0]"

definition boot_env :: environment where
  "boot_env v = (if v = ''CONVERT_ADDR'' then Ptr 0 0 else if v = ''CONVERT_PORT'' then Ptr 0 2 else Null)"

lemma parameters_taken_witness:
  "\<exists>s'. validate_parameters boot_env (\<lambda>host port. if host = [104] then Some sample_converter else None)
      (idle_client\<lparr>memory := boot_memory\<rparr>) = return (0, s') \<and> converter_addr s' = Some sample_converter"
proof -
  have d: "dec 1234 = [49, 50, 51, 52]" by (simp add: dec.simps)
  show ?thesis
    using parameters_taken [where getenv = boot_env and s = "idle_client\<lparr>memory := boot_memory\<rparr>" and host = "[104]"
        and n = 1234 and a = sample_converter and resolve = "\<lambda>host port. if host = [104] then Some sample_converter else None"]
    by (fastforce simp: boot_env_def boot_memory_def mem_of_def bytes_at_def window_def d LONG_MAX_def)
qed

text \<open>
  When any of the checks fails, the library does not come to its orderly exit: it prints
  an array that was never written.
\<close>

theorem init_failure_faults:
  assumes "validate_config kern getenv resolve (snd (auto_array 1024 s)) = return (rc, s')" and "rc < 0"
  shows "init kern getenv resolve s = fail UninitRead"
proof -
  obtain b s0 where arr: "auto_array 1024 s = (b, s0)" by fastforce
  then have "b < nextb (memory s0)" "blocks (memory s0) b = Some (Auto (replicate 1024 None))"
    by (auto simp: auto_array_def new_block_def)
  moreover have "keeps_auto s0 s'" using keeps_auto_validate_config assms(1) arr by simp
  ultimately have "blocks (memory s') b = Some (Auto (replicate 1024 None))"
    by (simp add: keeps_auto_def)
  then have "c_string (memory s') (Ptr b 0) = Inl UninitRead"
    by (simp add: c_string_def bytes_at_def numeral_eq_Suc)
  then show ?thesis using assms arr by (simp add: init_def)
qed

lemma init_failure_faults_witness:
  "init refusing_kern (\<lambda>v. Null) (\<lambda>host port. None) idle_client = fail UninitRead"
proof -
  have "\<exists>s'. validate_config refusing_kern (\<lambda>v. Null) (\<lambda>host port. None) (snd (auto_array 1024 idle_client)) =
    return (-1, s')"
    by (simp add: validate_config_def validate_sysctl_fastopen_def read_sysctl_fastopen_def Let_def
        refusing_kern_def syscall_def answer_def split: prod.split)
  then show ?thesis using init_failure_faults by fastforce
qed

end
