(* ===== verification/Session.thy ===== *)
theory Session
  imports Client
begin

text \<open>
  An application under the client library: any sequence of intercepted calls, on any
  descriptors that are not negative. The calls of \<open>Client\<close> are composed in the order in which
  the application makes them, and what the library can do to it is proved for all of them.
\<close>

section \<open>The calls of an application\<close>

datatype app_call =
    App_socket int int int
  | App_connect int sockaddr
  | App_send int ptr size_t int
  | App_recv int ptr size_t int
  | App_close int

fun app_step :: "alloc \<Rightarrow> kern \<Rightarrow> app_call \<Rightarrow> 'z client_scheme \<Rightarrow> (int \<times> 'z client_scheme) run" where
  "app_step mal kern (App_socket fam ty proto) s = socket_call mal kern fam ty proto s"
| "app_step mal kern (App_connect f dest) s = connect_call mal kern f dest s"
| "app_step mal kern (App_send f buf len fl) s = send_call mal kern f buf len fl s"
| "app_step mal kern (App_recv f buf len fl) s = recv_call mal kern f buf len fl s"
| "app_step mal kern (App_close f) s = close_call kern f s"

text \<open>The results of the calls, in order.\<close>

fun app_run :: "alloc \<Rightarrow> kern \<Rightarrow> app_call list \<Rightarrow> 'z client_scheme \<Rightarrow> (int list \<times> 'z client_scheme) run" where
  "app_run mal kern [] s = return ([], s)"
| "app_run mal kern (c # cs) s =
     bindR (app_step mal kern c s) (\<lambda>(rc, s).
     bindR (app_run mal kern cs s) (\<lambda>(rcs, s). return (rc # rcs, s)))"

text \<open>Descriptors are not negative; an IPv6 address has 16 bytes.\<close>

fun app_call_ok :: "app_call \<Rightarrow> bool" where
  "app_call_ok (App_socket fam ty proto) \<longleftrightarrow> True"
| "app_call_ok (App_connect f dest) \<longleftrightarrow> 0 \<le> f \<and>
     (case dest_of dest of None \<Rightarrow> True | Some (port, addr) \<Rightarrow> length addr = 16)"
| "app_call_ok (App_send f buf len fl) \<longleftrightarrow> 0 \<le> f"
| "app_call_ok (App_recv f buf len fl) \<longleftrightarrow> 0 \<le> f"
| "app_call_ok (App_close f) \<longleftrightarrow> 0 \<le> f"

section \<open>What holds between two calls\<close>

definition session :: "sockaddr \<Rightarrow> byte list option \<Rightarrow> 'z client_scheme \<Rightarrow> (int \<Rightarrow> nat list) \<Rightarrow> bool" where
  "session ca ck s T \<longleftrightarrow> table_abs s T \<and> converter_addr s = Some ca \<and> cookie_is s ck"

lemma session_abs: "session ca ck s T \<Longrightarrow> table_abs s T"
  by (simp add: session_def)

lemma tstate_more_client:
  fixes s s' :: "'z client_scheme"
  shows "tstate.more s' = tstate.more s \<Longrightarrow>
    converter_addr s' = converter_addr s \<and> convert_cookie_str s' = convert_cookie_str s"
  by (cases s; cases s') simp

text \<open>The cookie is a string in a block of bytes, which no state is.\<close>

lemma cookie_kept:
  fixes s s' :: "'z client_scheme"
  assumes "cookie_is s ck" and "wf_mem (memory s)" and "convert_cookie_str s' = convert_cookie_str s"
    and "\<And>b. b < nextb (memory s) \<Longrightarrow> blocks (memory s) b \<noteq> Some Struct \<Longrightarrow> blocks (memory s') b = blocks (memory s) b"
  shows "cookie_is s' ck"
proof (cases ck)
  case (Some bs)
  have h: "has_bytes (memory s) (convert_cookie_str s) (bs @ [0])" using assms(1) Some by (simp add: cookie_is_def)
  then obtain b i cs where p: "convert_cookie_str s = Ptr b i" "bytes_at (memory s) b = Some cs"
    by (cases "convert_cookie_str s") (auto split: option.splits)
  then have "b < nextb (memory s)" "blocks (memory s) b \<noteq> Some Struct"
    using wf_mem_less [OF assms(2)] by (auto simp: bytes_at_def bind_eq_Some_conv)
  then have "bytes_at (memory s') b = bytes_at (memory s) b" using assms(4) by (simp add: bytes_at_def)
  then have "has_bytes (memory s') (convert_cookie_str s) (bs @ [0])" using h p(1) by simp
  then show ?thesis using assms(1,3) Some by (simp add: cookie_is_def)
qed (use assms(1,3) in \<open>simp add: cookie_is_def\<close>)

lemma session_grown:
  fixes s s' :: "'z client_scheme"
  assumes "session ca ck s T" and "grown s s'"
  shows "session ca ck s' T"
proof -
  have m: "sys.more s' = sys.more s" and e: "mem_ext (memory s) (memory s')" using assms(2) by (simp_all add: grown_def)
  have "cookie_is s' ck"
    by (rule cookie_kept [of s]) (use assms(1) e more_tstate [OF m] in \<open>auto simp: session_def mem_ext_def dest: table_abs_wf\<close>)
  then show ?thesis
    using assms(1) table_abs_grown [OF _ assms(2)] more_tstate [OF m] by (simp add: session_def)
qed

lemma session_syscall: "session ca ck s T \<Longrightarrow> session ca ck (snd (syscall kern c s)) T"
  by (rule session_grown [OF _ grown_syscall]) (auto simp: session_def dest: table_abs_wf)

text \<open>A state goes, or a state comes.\<close>

lemma session_state:
  fixes s s' :: "'z client_scheme"
  assumes "session ca ck s T" and "e \<in> set (T f)" and "table_abs s' T'" and "preserves e s s'"
  shows "session ca ck s' T'"
proof -
  have abs: "table_abs s T" and m: "tstate.more s' = tstate.more s"
    using assms(1,4) by (simp_all add: session_def preserves_def)
  have e: "blocks (memory s) e = Some Struct" by (rule table_abs_struct [OF abs assms(2)])
  have "blocks (memory s') b = blocks (memory s) b"
    if "b < nextb (memory s)" "blocks (memory s) b \<noteq> Some Struct" for b
    using assms(4) that e by (auto simp: preserves_def)
  moreover have "cookie_is s ck" "convert_cookie_str s' = convert_cookie_str s" "converter_addr s' = Some ca"
    using assms(1) tstate_more_client [OF m] by (simp_all add: session_def)
  ultimately have "cookie_is s' ck" using cookie_kept [OF _ table_abs_wf [OF abs]] by blast
  then show ?thesis using assms(3) \<open>converter_addr s' = Some ca\<close> by (simp add: session_def)
qed

lemma preserves_drop:
  "tstate.more s' = tstate.more s \<Longrightarrow> memory s' = drop_block e (memory s) \<Longrightarrow> preserves e s s'"
  by (simp add: preserves_def drop_block_def)

lemma session_free_state:
  fixes s :: "'z client_scheme"
  assumes "session ca ck s T" and "e \<in> set (T f)"
  shows "\<exists>s'. table_free_state e s = return s' \<and> session ca ck s' (T(f := remove1 e (T f)))"
proof -
  obtain s' where s': "table_free_state e s = return s'" "table_abs s' (T(f := remove1 e (T f)))"
    "memory s' = drop_block e (memory s)" "tstate.more s' = tstate.more s"
    using table_abs_free_state [OF session_abs [OF assms(1)] assms(2)] by blast
  then show ?thesis using session_state [OF assms s'(2) preserves_drop] by blast
qed

section \<open>Every call\<close>

text \<open>
  A call returns with what \<open>Q\<close> says; or it does not return, or faults on an array of
  impossible size, and the peer has an answer that does this.
\<close>

definition survives :: "kern \<Rightarrow> ('a \<Rightarrow> bool) \<Rightarrow> 'a run \<Rightarrow> bool" where
  "survives kern Q r \<longleftrightarrow> (case r of
       None \<Rightarrow> \<exists>h f. verdict (peer_says kern f False h) = Hang
     | Some (Inl flt) \<Rightarrow> flt = BadVla \<and> (\<exists>h f. verdict (peer_says kern f False h) = Crash)
     | Some (Inr x) \<Rightarrow> Q x)"

lemma survives_return [simp]: "survives kern Q (return x) \<longleftrightarrow> Q x"
  by (simp add: survives_def)

lemma survives_bind:
  assumes "survives kern P r" and "\<And>x. P x \<Longrightarrow> survives kern Q (g x)"
  shows "survives kern Q (bindR r g)"
  using assms by (cases "(r, g)" rule: bindR.cases) (auto simp: survives_def)

definition goes_on :: "sockaddr \<Rightarrow> byte list option \<Rightarrow> 'a \<times> 'z client_scheme \<Rightarrow> bool" where
  "goes_on ca ck x \<longleftrightarrow> (\<exists>T. session ca ck (snd x) T)"

lemma goes_onI: "session ca ck s T \<Longrightarrow> goes_on ca ck (rc, s)"
  by (auto simp: goes_on_def)

lemma goes_onE: "goes_on ca ck (rc, s) \<Longrightarrow> (\<And>T. session ca ck s T \<Longrightarrow> P) \<Longrightarrow> P"
  by (auto simp: goes_on_def)

lemma goes_on_syscall: "session ca ck s T \<Longrightarrow> goes_on ca ck (syscall kern c s)"
  unfolding goes_on_def using session_syscall by blast

lemma read_convert_survives:
  fixes s :: "'z client_scheme"
  assumes s: "session ca ck s T" and T: "T f = e # es" and ok: "recv_ok kern"
  shows "survives kern (goes_on ca ck) (read_convert plenty kern e False s)"
proof -
  have e: "e \<in> set (T f)" using T by simp
  have st: "goes_on ca ck (rc, s')" if "table_abs s' T'" "preserves e s s'" for rc :: int and s' T'
    using session_state [OF s e that] by (auto simp: goes_on_def)
  show ?thesis
    using read_convert_verdict [OF session_abs [OF s] T ok] st
    by (cases "verdict (peer_says kern f False (trace s))")
      (auto simp: survives_def accepted_def rejected_def)
qed

lemma guarded_survives:
  fixes s :: "'z client_scheme"
  assumes s: "session ca ck s T" and f: "0 \<le> f" and ok: "recv_ok kern"
  shows "survives kern (goes_on ca ck) (guarded plenty kern f c s)"
proof (cases "T f")
  case Nil
  then show ?thesis using guarded_untracked [OF session_abs [OF s] f] goes_on_syscall [OF s] by simp
next
  case (Cons e es)
  have "survives kern (goes_on ca ck) (bindR (read_convert plenty kern e False s) (\<lambda>(rc, s).
      if rc = SYSCALL_RUN then return (syscall kern c s)
      else if rc = SYSCALL_SKIP then return (0, s) else return (-1, s)))"
    by (rule survives_bind [OF read_convert_survives [OF s Cons ok]])
      (auto elim!: goes_onE intro: goes_onI goes_on_syscall)
  then show ?thesis using lookup_newest [OF session_abs [OF s] f] Cons by (simp add: guarded_def)
qed

lemma connect_survives:
  fixes s :: "'z client_scheme"
  assumes s: "session ca ck s T" and f: "0 \<le> f" and ok: "recv_ok kern"
    and dest: "case dest_of dest of None \<Rightarrow> True | Some (port, addr) \<Rightarrow> length addr = 16"
  shows "survives kern (goes_on ca ck) (connect_call plenty kern f dest s)"
proof (cases "T f")
  case Nil
  then show ?thesis using lookup_newest [OF session_abs [OF s] f] goes_on_syscall [OF s]
    by (simp add: connect_call_def)
next
  case (Cons e es)
  have give_up: "survives kern (goes_on ca ck) (bindR (table_free_state e s1) (\<lambda>s. return (syscall kern c s)))"
    if "session ca ck s1 T" for s1 :: "'z client_scheme" and c
    using session_free_state [OF that, of e f] Cons goes_on_syscall by (auto simp: survives_def)
  show ?thesis
  proof (cases "dest_of dest")
    case None
    then obtain fam where "dest = Sockaddr_other fam" by (cases dest) auto
    then show ?thesis using lookup_newest [OF session_abs [OF s] f] Cons give_up [OF s]
      by (simp add: connect_call_def)
  next
    case (Some pa)
    then obtain port addr where d: "dest_of dest = Some (port, addr)" "length addr = 16" using dest by (cases pa) auto
    have fd: "get_fd e s = Inr f" using table_abs_fd [OF session_abs [OF s], of e f] Cons by simp
    have wf: "wf_mem (memory s)" using table_abs_wf [OF session_abs [OF s]] .
    have conv: "converter_addr s = Some ca" "cookie_is s ck" using s by (simp_all add: session_def)
    obtain rc s1 where r: "redirect kern e dest s = Inr (rc, s1)" "grown s s1"
      using redirect_spec [OF wf fd conv d, of kern] by blast
    note s1 = session_grown [OF s r(2)]
    have "connect_call plenty kern f dest s =
      (if 0 < rc then read_convert plenty kern e False s1
       else if rc = 0 then return (- ECONNREFUSED, s1)
       else bindR (table_free_state e s1) (\<lambda>s. return (syscall kern (Connect f dest) s)))"
      using connect_call_tracked [OF session_abs [OF s] f Cons _ r(1)] d(1) by simp
    then show ?thesis
      using read_convert_survives [OF s1 Cons ok] give_up [OF s1] goes_onI [OF s1, of "- ECONNREFUSED"] by simp
  qed
qed

lemma socket_survives:
  fixes s :: "'z client_scheme"
  assumes "session ca ck s T"
  shows "survives kern (goes_on ca ck) (socket_call plenty kern fam ty proto s)"
proof -
  let ?c = "Socket fam ty proto"
  define f s1 where "f = fst (syscall kern ?c s)" and "s1 = snd (syscall kern ?c s)"
  have s1: "session ca ck s1 T" unfolding s1_def by (rule session_syscall [OF assms])
  have sc: "syscall kern ?c s = (f, s1)" by (simp add: f_def s1_def)
  have "survives kern (\<lambda>s. \<exists>T. session ca ck s T) (table_alloc plenty f s1)" if f: "0 \<le> f"
  proof -
    obtain s2 T' where s2: "table_alloc plenty f s1 = return s2" "table_abs s2 T'"
      "tstate.more s2 = tstate.more s1" "memory s2 = snd (new_block Struct (memory s1)) \<or> s2 = s1"
      using table_abs_alloc [OF session_abs [OF s1] f, of plenty] session_abs [OF s1] by (metis (no_types))
    have "cookie_is s2 ck"
      by (rule cookie_kept [of s1])
        (use s1 s2 tstate_more_client [OF s2(3)] in \<open>auto simp: session_def new_block_def dest: table_abs_wf\<close>)
    then have "session ca ck s2 T'" using s1 s2(2) tstate_more_client [OF s2(3)] by (simp add: session_def)
    then show ?thesis using s2(1) by auto
  qed
  then show ?thesis
    using s1 unfolding socket_call_def sc
    by (auto simp: goes_on_def intro!: survives_bind)
qed

lemma close_survives:
  fixes s :: "'z client_scheme"
  assumes s: "session ca ck s T" and f: "0 \<le> f"
  shows "survives kern (goes_on ca ck) (close_call kern f s)"
proof (cases "T f")
  case Nil
  then show ?thesis using lookup_newest [OF session_abs [OF s] f] goes_on_syscall [OF s]
    by (simp add: close_call_def table_free_def)
next
  case (Cons e es)
  then show ?thesis
    using lookup_newest [OF session_abs [OF s] f] session_free_state [OF s, of e f] goes_on_syscall
    by (fastforce simp: close_call_def table_free_def)
qed

lemma app_step_survives:
  fixes s :: "'z client_scheme"
  assumes "session ca ck s T" and "recv_ok kern" and "app_call_ok c"
  shows "survives kern (goes_on ca ck) (app_step plenty kern c s)"
  using assms
  by (cases c) (auto simp: guarded_calls intro: socket_survives connect_survives guarded_survives close_survives)

lemma app_run_survives:
  fixes s :: "'z client_scheme"
  assumes "session ca ck s T" and "recv_ok kern" and "list_all app_call_ok cs"
  shows "survives kern (\<lambda>x. length (fst x) = length cs \<and> goes_on ca ck x) (app_run plenty kern cs s)"
  using assms(1,3)
proof (induction cs arbitrary: s T)
  case Nil
  then show ?case by (auto simp: goes_on_def)
next
  case (Cons c cs)
  have rest: "survives kern (\<lambda>x. length (fst x) = Suc (length cs) \<and> goes_on ca ck x)
      (bindR (app_run plenty kern cs s1) (\<lambda>(rcs, s). return (rc # rcs, s)))"
    if "goes_on ca ck (rc, s1)" for rc and s1 :: "'z client_scheme"
  proof -
    obtain T1 where "session ca ck s1 T1" using \<open>goes_on ca ck (rc, s1)\<close> by (auto simp: goes_on_def)
    from Cons.IH [OF this] Cons.prems(2)
    have "survives kern (\<lambda>x. length (fst x) = length cs \<and> goes_on ca ck x) (app_run plenty kern cs s1)" by simp
    then show ?thesis by (rule survives_bind) (auto simp: goes_on_def)
  qed
  have "survives kern (goes_on ca ck) (app_step plenty kern c s)"
    using app_step_survives [OF Cons.prems(1) assms(2)] Cons.prems(2) by simp
  then show ?case
    unfolding app_run.simps list.size by (rule survives_bind) (use rest in \<open>auto simp del: survives_return\<close>)
qed

section \<open>Calls that are passed on\<close>

text \<open>The reference: the calls of the application as the kernel would get them without the library.\<close>

fun passed_on :: "app_call \<Rightarrow> call" where
  "passed_on (App_socket fam ty proto) = Socket fam ty proto"
| "passed_on (App_connect f dest) = Connect f dest"
| "passed_on (App_send f buf len fl) = Send_app f buf len fl"
| "passed_on (App_recv f buf len fl) = Recv_app f buf len fl"
| "passed_on (App_close f) = Close f"

fun direct_run :: "kern \<Rightarrow> app_call list \<Rightarrow> 'z sys_scheme \<Rightarrow> int list \<times> 'z sys_scheme" where
  "direct_run kern [] s = ([], s)"
| "direct_run kern (c # cs) s =
     (let (rc, s) = syscall kern (passed_on c) s; (rcs, s) = direct_run kern cs s in (rc # rcs, s))"

text \<open>A call that is no business of the library: no MPTCP socket, or a descriptor that is not tracked.\<close>

fun plain_call :: "(int \<Rightarrow> nat list) \<Rightarrow> app_call \<Rightarrow> bool" where
  "plain_call T (App_socket fam ty proto) \<longleftrightarrow>
     \<not> ((fam = AF_INET \<or> fam = AF_INET6) \<and> ty = SOCK_STREAM \<and> proto = IPPROTO_MPTCP)"
| "plain_call T (App_connect f dest) \<longleftrightarrow> 0 \<le> f \<and> T f = []"
| "plain_call T (App_send f buf len fl) \<longleftrightarrow> 0 \<le> f \<and> T f = []"
| "plain_call T (App_recv f buf len fl) \<longleftrightarrow> 0 \<le> f \<and> T f = []"
| "plain_call T (App_close f) \<longleftrightarrow> 0 \<le> f \<and> T f = []"

lemma plain_step:
  fixes s :: "'z client_scheme"
  assumes "table_abs s T" and "plain_call T c"
  shows "app_step mal kern c s = return (syscall kern (passed_on c) s)"
proof (cases c)
  case (App_socket fam ty proto)
  then show ?thesis using assms(2) by (auto simp: socket_call_def case_prod_beta)
next
  case (App_connect f dest)
  then show ?thesis using lookup_newest [OF assms(1)] assms(2) by (simp add: connect_call_def)
next
  case (App_close f)
  then show ?thesis using lookup_newest [OF assms(1)] assms(2) by (simp add: close_call_def table_free_def)
qed (use guarded_untracked [OF assms(1)] assms(2) in \<open>simp_all add: guarded_calls\<close>)

lemma plain_run:
  fixes s :: "'z client_scheme"
  assumes "table_abs s T" and "list_all (plain_call T) cs"
  shows "app_run mal kern cs s = return (direct_run kern cs s) \<and> table_abs (snd (direct_run kern cs s)) T"
  using assms
proof (induction cs arbitrary: s)
  case (Cons c cs)
  obtain rc s1 where s1: "syscall kern (passed_on c) s = (rc, s1)" by (cases "syscall kern (passed_on c) s")
  have "grown s s1" using grown_syscall [OF table_abs_wf [OF Cons.prems(1)], of kern "passed_on c"] s1 by simp
  then have "table_abs s1 T" by (rule table_abs_grown [OF Cons.prems(1)])
  from Cons.IH [OF this] Cons.prems(2) have "app_run mal kern cs s1 = return (direct_run kern cs s1)"
    "table_abs (snd (direct_run kern cs s1)) T" by simp_all
  then show ?case
    using plain_step [OF Cons.prems(1), of c mal kern] Cons.prems(2) s1
    by (simp add: case_prod_beta)
qed simp

section \<open>Properties\<close>

text \<open>
  C10. Whatever calls an application makes on descriptors that are not negative, and whatever
  the kernel and the converter answer, the library keeps its table, its converter and its
  cookie in order and gives every call a result; the only exceptions are an answer on which
  the parser loops and one that announces an array of impossible size.
\<close>

theorem session_survives:
  fixes s :: "'z client_scheme"
  assumes "table_abs s T" and "converter_addr s = Some ca" and "cookie_is s ck"
    and "recv_ok kern" and "list_all app_call_ok cs"
  shows "case app_run plenty kern cs s of
      None \<Rightarrow> \<exists>h f. verdict (peer_says kern f False h) = Hang
    | Some (Inl flt) \<Rightarrow> flt = BadVla \<and> (\<exists>h f. verdict (peer_says kern f False h) = Crash)
    | Some (Inr (rcs, s')) \<Rightarrow> length rcs = length cs \<and>
        (\<exists>T'. table_abs s' T') \<and> converter_addr s' = Some ca \<and> cookie_is s' ck"
proof -
  have "session ca ck s T" using assms(1-3) by (simp add: session_def)
  from app_run_survives [OF this assms(4,5)] show ?thesis
    by (auto simp: survives_def goes_on_def session_def split: option.splits sum.splits)
qed

lemma session_survives_witness:
  "\<exists>rcs s' T'. app_run plenty refusing_kern
      [App_socket AF_INET SOCK_STREAM IPPROTO_MPTCP, App_send 5 (Ptr 0 0) 10 0, App_connect 5 (Sockaddr_in 80 1), App_close 5]
      tracked_client = return (rcs, s') \<and> length rcs = 4 \<and> table_abs s' T'"
proof -
  let ?cs = "[App_socket AF_INET SOCK_STREAM IPPROTO_MPTCP, App_send 5 (Ptr 0 0) 10 0, App_connect 5 (Sockaddr_in 80 1), App_close 5]"
  have ok: "recv_ok refusing_kern" by (simp add: recv_ok_def refusing_kern_def)
  have says: "verdict (peer_says refusing_kern f False h) = No_answer" for f h
    by (simp add: peer_says_def refusing_kern_def verdict_def)
  have "list_all app_call_ok ?cs" by simp
  from session_survives [OF tracked_client_abs tracked_client_fields(2,3) ok this] show ?thesis
    by (auto simp: says simp del: app_run.simps split: option.splits sum.splits)
qed

text \<open>
  C12. Whatever an application does with sockets that are not MPTCP stream sockets, and with
  descriptors that are not negative and not tracked, the library is not there: every call reaches the kernel
  unchanged, once and in order, and its result is the result of the kernel.
\<close>

theorem plain_calls_transparent:
  fixes s :: "'z client_scheme"
  assumes "table_abs s T" and "list_all (plain_call T) cs"
  shows "app_run mal kern cs s = return (direct_run kern cs s) \<and> table_abs (snd (direct_run kern cs s)) T"
  by (rule plain_run [OF assms])

lemma plain_calls_transparent_witness:
  "app_run plenty refusing_kern [App_socket AF_INET SOCK_STREAM 0, App_send 7 (Ptr 0 0) 10 0, App_close 7] tracked_client =
    return (direct_run refusing_kern [App_socket AF_INET SOCK_STREAM 0, App_send 7 (Ptr 0 0) 10 0, App_close 7] tracked_client)"
proof -
  have "list_all (plain_call one_state) [App_socket AF_INET SOCK_STREAM 0, App_send 7 (Ptr 0 0) 10 0, App_close 7]"
    by (simp add: one_state_def IPPROTO_MPTCP_def)
  from plain_calls_transparent [OF tracked_client_abs this] show ?thesis by blast
qed

text \<open>
  C11. After the converter has accepted the connection of a descriptor for which the table has one
  state, the library has done its part: \<open>connect\<close> returns 1, and all calls that follow on this
  descriptor, and on others that are not tracked, go straight to the kernel. (A descriptor that was
  opened twice without a close has a second state, and the next call on it reads another header.)
\<close>

theorem accepted_then_transparent:
  fixes s :: "'z client_scheme"
  assumes "table_abs s T" and "0 \<le> f" and "T f = [e]" and "recv_ok kern"
    and "converter_addr s = Some ca" and "cookie_is s ck" and "request_fits ck"
    and "dest_of dest = Some (port, addr)" and "length addr = 16"
    and "c = Connect f ca" and "d = Send f (wire (request_tlvs ck port addr)) 0"
    and "0 \<le> ret (kern (trace s) c)" and "0 < ret (kern (c # trace s) d)"
    and "verdict (peer_says kern f False (d # c # trace s)) = Accept"
    and "list_all (plain_call (T(f := []))) cs"
  shows "\<exists>s'. connect_call plenty kern f dest s = return (1, s') \<and>
    app_run plenty kern (App_connect f dest # cs) s =
      return (1 # fst (direct_run kern cs s'), snd (direct_run kern cs s'))"
proof -
  obtain rc s1 where s1: "redirect kern e dest s = Inr (rc, s1)" "grown s s1" "0 < rc" "trace s1 = d # c # trace s"
    using redirect_spec [OF table_abs_wf [OF assms(1)] table_abs_fd [OF assms(1)] assms(5,6,8,9), of e f kern]
      assms(3,7,10-13) by auto
  have "connect_call plenty kern f dest s = read_convert plenty kern e False s1"
    using connect_call_tracked [OF assms(1-3) _ s1(1)] assms(8) s1(3) by simp
  then obtain s' where s': "connect_call plenty kern f dest s = return (1, s')" "table_abs s' (T(f := []))"
    using read_convert_verdict [OF table_abs_grown [OF assms(1) s1(2)] assms(3,4)] s1(4) assms(14)
    by (auto simp: accepted_def SYSCALL_RUN_def)
  then show ?thesis using plain_run [OF s'(2) assms(15)] by (auto simp: case_prod_beta)
qed

lemma accepted_then_transparent_witness:
  "\<exists>s'. app_run plenty (stream_kern (wire [])) [App_connect 5 (Sockaddr_in 0x5000 1), App_send 5 (Ptr 0 0) 10 0] tracked_client =
    return ([1, fst (syscall (stream_kern (wire [])) (Send_app 5 (Ptr 0 0) 10 0) s')],
      snd (syscall (stream_kern (wire [])) (Send_app 5 (Ptr 0 0) 10 0) s'))"
proof -
  have "list_all (plain_call (one_state(5 := []))) [App_send 5 (Ptr 0 0) 10 0]" by simp
  then show ?thesis
    using accepted_then_transparent [OF tracked_client_abs _ one_state_5 recv_ok_stream [of "wire []"] tracked_client_fields(2,3),
        where dest = "Sockaddr_in 0x5000 1" and c = "Connect 5 sample_converter" and cs = "[App_send 5 (Ptr 0 0) 10 0]"]
    by (simp add: request_fits_def stream_kern_def [of _ _ "Connect _ _"] stream_kern_def [of _ _ "Send _ _ _"]
        tracked_client_fields(1) says_accept case_prod_beta del: app_run.simps) blast
qed

end
