(* ===== verification/Process.thy ===== *)
theory Process
  imports Config Session
begin

text \<open>
  The life of a process under the client library: \<open>init\<close>, which the loader runs before the
  application, then the calls of the application, then \<open>fini\<close>. The start is shown to establish what
  \<open>Session\<close> needs between two calls.
\<close>

section \<open>The process\<close>

definition process ::
  "alloc \<Rightarrow> kern \<Rightarrow> environment \<Rightarrow> resolver \<Rightarrow> app_call list \<Rightarrow> 'z client_scheme \<Rightarrow> (int list \<times> 'z client_scheme) run"
where
  "process mal kern getenv resolve cs s =
     bindR (init kern getenv resolve s) (\<lambda>s.
     bindR (app_run mal kern cs s) (\<lambda>(rcs, s).
     bindR (fini kern s) (\<lambda>s. return (rcs, s))))"

section \<open>A good start\<close>

text \<open>
  What the start of the library finds: a sysctl with the two bits, a kernel from 4.5 on, a converter
  that resolves, a decimal port, and a cookie or none. 
\<close>

definition sysctl_good :: "kern \<Rightarrow> call list \<Rightarrow> int \<Rightarrow> bool" where
  "sysctl_good kern h f \<longleftrightarrow> f = ret (kern h SYSCTL) \<and> 0 \<le> f \<and>
     (let r = kern (SYSCTL # h) (Read f 1024) in ret r = int (length (data r)) \<and> length (data r) \<le> 1024 \<and>
        (\<exists>n rest. data r = dec n @ 10 # rest \<and> int n \<le> LONG_MAX \<and> (of_nat n :: u32) AND 5 = 5))"

definition kernel_good :: "kern \<Rightarrow> call list \<Rightarrow> bool" where
  "kernel_good kern h \<longleftrightarrow> (let r = kern h Uname in ret r = 0 \<and>
     (\<exists>v w c rest. data r = dec v @ 46 # dec w @ c # rest \<and> \<not> isdigit c \<and> v < 2 ^ 31 \<and> w < 2 ^ 31 \<and>
        (4 < v \<or> v = 4 \<and> 5 \<le> w)))"

definition environment_good :: "mem \<Rightarrow> environment \<Rightarrow> resolver \<Rightarrow> sockaddr \<Rightarrow> byte list option \<Rightarrow> bool" where
  "environment_good m getenv resolve a ck \<longleftrightarrow>
     (\<exists>host n. getenv ''CONVERT_ADDR'' \<noteq> Null \<and> has_bytes m (getenv ''CONVERT_ADDR'') (host @ [0]) \<and> 0 \<notin> set host \<and>
        has_bytes m (getenv ''CONVERT_PORT'') (dec n @ [0]) \<and> int n \<le> LONG_MAX \<and> resolve host (dec n) = Some a) \<and>
     (case ck of
        None \<Rightarrow> getenv ''CONVERT_COOKIE'' = Null
      | Some bs \<Rightarrow> getenv ''CONVERT_COOKIE'' \<noteq> Null \<and> has_bytes m (getenv ''CONVERT_COOKIE'') (bs @ [0]) \<and>
          0 \<notin> set bs \<and> length bs \<le> PTRDIFF_MAX)"

lemma has_bytes_kept:
  assumes "wf_mem m" and "has_bytes m p bs"
    and "\<forall>b < nextb m. blocks m b \<noteq> Some Struct \<longrightarrow> blocks m' b = blocks m b"
  shows "has_bytes m' p bs"
proof (cases p)
  case (Ptr b i)
  then obtain cs where "bytes_at m b = Some cs" using assms(2) by (auto split: option.splits)
  then have "b < nextb m" "blocks m b \<noteq> Some Struct"
    using wf_mem_less [OF assms(1)] by (auto simp: bytes_at_def bind_eq_Some_conv)
  then show ?thesis using assms(2,3) Ptr by (simp add: bytes_at_def)
qed (use assms(2) in simp)

lemma environment_kept:
  assumes "wf_mem m" and "environment_good m getenv resolve a ck"
    and "\<forall>b < nextb m. blocks m b \<noteq> Some Struct \<longrightarrow> blocks m' b = blocks m b"
  shows "environment_good m' getenv resolve a ck"
  using assms(2) has_bytes_kept [OF assms(1) _ assms(3)]
  unfolding environment_good_def by (fastforce split: option.splits)

lemma table_abs_same:
  assumes "table_abs s T" and "memory s' = memory s" and "htable s' = htable s" and "htable_mutex s' = htable_mutex s"
  shows "table_abs s' T"
proof -
  have fd: "fd_of s' = fd_of s" using assms(3) by (simp add: fd_of_def fun_eq_iff)
  then have "in_bucket s' = in_bucket s" "states_of s' = states_of s"
    by (simp_all add: in_bucket_def states_of_def fun_eq_iff)
  then show ?thesis using assms by (simp add: table_abs_def table_inv_def)
qed

lemma init_session:
  fixes s :: "'z client_scheme"
  assumes abs: "table_abs s (\<lambda>f. [])" and none: "convert_cookie_str s = Null"
    and sysctl: "sysctl_good kern (trace s) f" and ver: "kernel_good kern (Close f # Read f 1024 # SYSCTL # trace s)"
    and env: "environment_good (memory s) getenv resolve a ck"
  shows "\<exists>s'. init kern getenv resolve s = return s' \<and> session a ck s' (\<lambda>f. [])"
proof -
  obtain b s0 where arr: "auto_array 1024 s = (b, s0)" by fastforce
  have b: "b = nextb (memory s)" and s0: "memory s0 = snd (new_block (Auto (replicate 1024 None)) (memory s))"
    "trace s0 = trace s" "sys.more s0 = sys.more s"
    using arr by (auto simp: auto_array_def new_block_def)
  have wf: "wf_mem (memory s)" using abs by (rule table_abs_wf)
  have "grown s s0" using wf s0 by (simp add: grown_def mem_ext_new)
  then have abs0: "table_abs s0 (\<lambda>f. [])" by (rule table_abs_grown [OF abs])
  have more0: "tstate.more s0 = tstate.more s" using more_sys [of s0 s] s0(3) by simp
  have kept0: "blocks (memory s0) x = blocks (memory s) x" if "x < nextb (memory s)" for x
    using that s0(1) by (simp add: new_block_def)
  let ?r = "kern (SYSCTL # trace s) (Read f 1024)"
  obtain n rest where f: "f = ret (kern (trace s0) SYSCTL)" "0 \<le> f" "?r = kern (SYSCTL # trace s0) (Read f 1024)"
    "ret ?r = int (length (data ?r))" "length (data ?r) \<le> 1024" "data ?r = dec n @ 10 # rest" "int n \<le> LONG_MAX"
    and five: "(of_nat n :: u32) AND 5 = 5"
    using sysctl unfolding sysctl_good_def Let_def s0(2) by blast
  obtain s1 where s1: "read_sysctl_fastopen kern s0 = return ((0, Some (of_nat n)), s1)" "table_abs s1 (\<lambda>f. [])"
    "trace s1 = Close f # Read f 1024 # SYSCTL # trace s" "tstate.more s1 = tstate.more s0"
    "\<forall>b < nextb (memory s0). blocks (memory s0) b \<noteq> Some Struct \<longrightarrow> blocks (memory s1) b = blocks (memory s0) b"
    using sysctl_read [OF abs0 f] s0(2) by (auto simp: fun_upd_def)
  have or5: "1 OR 4 = (5 :: u32)" by simp
  then have v1: "validate_sysctl_fastopen kern s0 = return (0, s1)"
    using s1(1) five by (simp add: validate_sysctl_fastopen_def Let_def)
  let ?s2 = "snd (syscall kern Uname s1)"
  have v2: "validate_kernel_version kern s1 = return (0, ?s2)"
    using ver version_read [of "kern (trace s1) Uname"] s1(3)
    by (auto simp: kernel_good_def Let_def validate_kernel_version_def answer_def syscall_def)
  have nb: "nextb (memory s0) = Suc (nextb (memory s))" using s0(1) by (simp add: new_block_def)
  have kept: "\<forall>x < nextb (memory s). blocks (memory s) x \<noteq> Some Struct \<longrightarrow> blocks (memory ?s2) x = blocks (memory s) x"
    using s1(5) kept0 nb by simp
  have env2: "environment_good (memory ?s2) getenv resolve a ck" by (rule environment_kept [OF wf env kept])
  then obtain s3 where s3: "validate_parameters getenv resolve ?s2 = return (0, s3)" "converter_addr s3 = Some a"
    "memory s3 = memory ?s2" "htable s3 = htable ?s2" "htable_mutex s3 = htable_mutex ?s2" "convert_cookie_str s3 = (if getenv ''CONVERT_COOKIE'' = Null then convert_cookie_str ?s2
      else getenv ''CONVERT_COOKIE'')"
    unfolding environment_good_def using parameters_taken [of getenv ?s2 _ _ resolve a] by blast
  have abs3: "table_abs s3 (\<lambda>f. [])"
    by (rule table_abs_same [OF table_abs_syscall [OF s1(2)] s3(3-5)])
  have config: "validate_config kern getenv resolve s0 = return (0, s3)"
    using v1 v2 s3(1) by (simp add: validate_config_def)
  have init: "init kern getenv resolve s = return (leave_array b s3)"
    using arr config by (simp add: init_def)
  have auto: "blocks (memory s3) b = Some (Auto (replicate 1024 None))"
    using keeps_auto_validate_config [OF config] s0(1) b nb by (simp add: keeps_auto_def new_block_def)
  then have abs4: "table_abs (leave_array b s3) (\<lambda>f. [])" by (intro table_abs_leave [OF abs3]) simp
  have kept4: "\<forall>x < nextb (memory s). blocks (memory s) x \<noteq> Some Struct \<longrightarrow>
      blocks (memory (leave_array b s3)) x = blocks (memory s) x"
    using kept s3(3) b by (simp add: leave_array_def drop_block_def)
  have "convert_cookie_str s3 = (if getenv ''CONVERT_COOKIE'' = Null then Null else getenv ''CONVERT_COOKIE'')"
    using s3(6) none tstate_more_client [OF s1(4)] tstate_more_client [OF more0]
    by (simp add: syscall_def Let_def)
  then have "cookie_is (leave_array b s3) ck"
    using environment_kept [OF wf env kept4]
    by (auto simp: cookie_is_def environment_good_def leave_array_def split: option.splits)
  then show ?thesis using init abs4 s3(2) by (auto simp: session_def leave_array_def)
qed

section \<open>Properties\<close>

text \<open>
  C14. From start to end: a process that begins without tracked descriptors and without a cookie,
  finds the sysctl with its two bits, a kernel from 4.5 on, a converter whose name resolves, a
  decimal port and a cookie or none, and then makes any calls on descriptors that are not
  negative, with memory that suffices and a \<open>recvfrom\<close> as documented, gives every call a result,
  keeps its table in order and ends by releasing the address of the converter; the only exceptions
  are an answer of the converter on which the parser loops and one that announces an array of
  impossible size. (A start that fails one of its checks is \<open>init_failure_faults\<close>.)
\<close>

theorem process_runs:
  fixes s :: "'z client_scheme"
  assumes "table_abs s (\<lambda>f. [])" and "convert_cookie_str s = Null"
    and "sysctl_good kern (trace s) f" and "kernel_good kern (Close f # Read f 1024 # SYSCTL # trace s)"
    and "environment_good (memory s) getenv resolve a ck"
    and "recv_ok kern" and "list_all app_call_ok cs"
  shows "case process plenty kern getenv resolve cs s of
      None \<Rightarrow> \<exists>h f. verdict (peer_says kern f False h) = Hang
    | Some (Inl flt) \<Rightarrow> flt = BadVla \<and> (\<exists>h f. verdict (peer_says kern f False h) = Crash)
    | Some (Inr (rcs, s')) \<Rightarrow> length rcs = length cs \<and> (\<exists>T. table_abs s' T) \<and> (\<exists>h. trace s' = Freeaddrinfo # h)"
proof -
  obtain s1 where s1: "init kern getenv resolve s = return s1" "session a ck s1 (\<lambda>f. [])"
    using init_session [OF assms(1-5)] by blast
  let ?Q = "\<lambda>x. length (fst x) = length cs \<and> (\<exists>T. table_abs (snd x) T) \<and> (\<exists>h. trace (snd x) = Freeaddrinfo # h)"
  have fini: "survives kern ?Q (bindR (fini kern s2) (\<lambda>s. return (rcs, s)))"
    if rcs: "length rcs = length cs" and go: "goes_on a ck (rcs, s2)" for rcs :: "int list" and s2 :: "'z client_scheme"
  proof -
    obtain T where T: "session a ck s2 T" using go by (auto simp: goes_on_def)
    then have "fini kern s2 = return (snd (syscall kern Freeaddrinfo s2))" by (simp add: fini_def session_def)
    then show ?thesis using rcs table_abs_syscall [OF session_abs [OF T]] by auto
  qed
  have "survives kern ?Q (process plenty kern getenv resolve cs s)"
    unfolding process_def s1(1) bindR.simps(3)
    by (rule survives_bind [OF app_run_survives [OF s1(2) assms(6,7)]]) (auto intro: fini)
  then show ?thesis by (auto simp: survives_def split: option.splits sum.splits)
qed

definition boot_resolve :: resolver where
  "boot_resolve host port = (if host = [104] then Some sample_converter else None)"

lemma process_runs_witness:
  "\<exists>r s h. process plenty boot_kern boot_env boot_resolve [App_connect 5 (Sockaddr_in 0x5000 1)]
     (idle_client\<lparr>memory := boot_memory\<rparr>) = return ([r], s) \<and> trace s = Freeaddrinfo # h"
proof -
  let ?s = "idle_client\<lparr>memory := boot_memory\<rparr>" and ?cs = "[App_connect 5 (Sockaddr_in 0x5000 1)]"
  have d: "dec 7 = [55]" "dec 1234 = [49, 50, 51, 52]" "dec 5 = [53]" "dec 10 = [49, 48]" by (simp_all add: dec.simps)
  have "(of_nat 7 :: u32) AND 5 = 5 \<and> int 7 \<le> LONG_MAX" by (simp add: LONG_MAX_def)
  then have sysctl: "sysctl_good boot_kern (trace ?s) 3"
    using d(1) unfolding sysctl_good_def Let_def
    by (auto simp: boot_kern_def SYSCTL_def intro!: exI [of _ "7 :: nat"])
  have ver: "kernel_good boot_kern h" for h
    unfolding kernel_good_def Let_def
    by (intro conjI exI [of _ 5] exI [of _ 10] exI [of _ 46] exI [of _ "[48, 0]"])
      (simp_all add: boot_kern_def d isdigit_def)
  have env: "environment_good (memory ?s) boot_env boot_resolve sample_converter None"
    unfolding environment_good_def
    by (intro conjI exI [of _ "[104]"] exI [of _ 1234])
      (simp_all add: boot_env_def boot_memory_def mem_of_def bytes_at_def window_def d LONG_MAX_def boot_resolve_def)
  have "table_abs ?s (\<lambda>f. [])"
    by (rule table_abs_no_states) (simp_all add: idle_client_def boot_memory_def)
  moreover have "convert_cookie_str ?s = Null" by (simp add: idle_client_def)
  moreover have "recv_ok boot_kern" by (simp add: recv_ok_def boot_kern_def)
  moreover have "verdict (peer_says boot_kern f False h) = Refuse" for f h
    by (simp add: peer_says_def boot_kern_def verdict_def header_of_def)
  moreover have "list_all app_call_ok ?cs" by simp
  ultimately show ?thesis
    using process_runs [OF _ _ sysctl ver env, of ?cs]
    by (auto simp: length_Suc_conv split: option.splits sum.splits)
qed

end
