(* ===== verification/SockThreads.thy ===== *)
theory SockThreads
  imports SockTable
begin

text \<open>
  Several threads on the table of tracked sockets. The functions of
  \<open>lib_convert/convert_client.c\<close> hold \<open>_socket_htable_mutex\<close> only inside \<open>_lookup\<close>,
  \<open>_alloc\<close> and \<open>_free_state\<close>; a state that was looked up is used, and later freed, without it.
  Here each function is cut into the steps between which another thread can run, any thread
  may take the next step, and what can be relied on is proved for every interleaving.
\<close>

section \<open>What a thread does\<close>

text \<open>
  A thread has requests: a new descriptor (\<open>socket\<close>, which calls \<open>_alloc\<close>), a descriptor to
  forget (\<open>close\<close>, which calls \<open>_free\<close>), and a descriptor whose state is used (\<open>connect\<close>, \<open>recv\<close>
  and \<open>send\<close>, which look the state up and read its \<open>fd\<close>). What the kernel answers decides how a
  use ends: with \<open>_free_state\<close>, or, when the header cannot be received (\<open>goto skip\<close> in
  \<open>_read_convert\<close>) or nothing was sent (\<open>_redirect\<close> returned 0 in \<open>connect\<close>), with the state kept.
  The answer is part of the request: \<open>Consume f True\<close> ends with the state freed. The accesses to
  \<open>fd\<close> in one use are one step.
\<close>

datatype req = Track int | Untrack int | Consume int bool

fun req_fd :: "req \<Rightarrow> int" where
  "req_fd (Track f) = f"
| "req_fd (Untrack f) = f"
| "req_fd (Consume f freed) = f"

text \<open>
  Where a thread stands: \<open>_in\<close> marks the places where it holds the mutex. A thread that
  faulted or whose traversal does not end stays there, with the place it happened at.
\<close>

datatype pc =
    Idle
  | Start req
  | Alloc_wait int nat
  | Alloc_in int nat
  | Lookup_in req
  | Reading int nat bool
  | Dropping int nat
  | Remove_in int nat
  | Freeing int nat
  | Crashed pc fault
  | Spinning pc

definition enter :: "pc \<Rightarrow> 'z tstate_scheme \<Rightarrow> (pc \<times> 'z tstate_scheme) option" where
  "enter p s = (if htable_mutex s then None else Some (p, s\<lparr>htable_mutex := True\<rparr>))"

text \<open>The next step of a thread; \<open>None\<close>: it is done or waits for the mutex.\<close>

fun advance :: "alloc \<Rightarrow> pc \<Rightarrow> 'z tstate_scheme \<Rightarrow> (pc \<times> 'z tstate_scheme) option" where
  "advance mal (Start (Track f)) s =
     Some (case malloc_state mal s of
        (None, s) \<Rightarrow> (Idle, s)
      | (Some e, s) \<Rightarrow> (case set_fd e f s of
          Inl flt \<Rightarrow> (Crashed (Start (Track f)) flt, s)
        | Inr s \<Rightarrow> (Alloc_wait f e, s)))"
| "advance mal (Start (Untrack f)) s = enter (Lookup_in (Untrack f)) s"
| "advance mal (Start (Consume f freed)) s = enter (Lookup_in (Consume f freed)) s"
| "advance mal (Alloc_wait f e) s = enter (Alloc_in f e) s"
| "advance mal (Alloc_in f e) s =
     Some (case bindE (bucket (hash f)) (\<lambda>i. LIST_INSERT_HEAD i e (htable s)) of
        Inl flt \<Rightarrow> (Crashed (Alloc_in f e) flt, s)
      | Inr h \<Rightarrow> (Idle, unlock (s\<lparr>htable := h\<rparr>)))"
| "advance mal (Lookup_in r) s =
     Some (case bindR (Some (bucket (hash (req_fd r)))) (LIST_FOREACH (match_fd (req_fd r)) (htable s)) of
        None \<Rightarrow> (Spinning (Lookup_in r), s)
      | Some (Inl flt) \<Rightarrow> (Crashed (Lookup_in r) flt, s)
      | Some (Inr None) \<Rightarrow> (Idle, unlock s)
      | Some (Inr (Some (e, Inl flt))) \<Rightarrow> (Crashed (Lookup_in r) flt, s)
      | Some (Inr (Some (e, Inr _))) \<Rightarrow>
          (case r of Consume f freed \<Rightarrow> Reading f e freed | _ \<Rightarrow> Dropping (req_fd r) e, unlock s))"
| "advance mal (Reading f e freed) s =
     Some (case get_fd e s of
        Inl flt \<Rightarrow> (Crashed (Reading f e freed) flt, s)
      | Inr _ \<Rightarrow> (if freed then Dropping f e else Idle, s))"
| "advance mal (Dropping f e) s = enter (Remove_in f e) s"
| "advance mal (Remove_in f e) s =
     Some (case LIST_REMOVE e (htable s) of
        Inl flt \<Rightarrow> (Crashed (Remove_in f e) flt, s)
      | Inr h \<Rightarrow> (Freeing f e, unlock (s\<lparr>htable := h\<rparr>)))"
| "advance mal (Freeing f e) s =
     Some (case free_block e s of
        Inl flt \<Rightarrow> (Crashed (Freeing f e) flt, s)
      | Inr s \<Rightarrow> (Idle, s))"
| "advance mal p s = None"

text \<open>Threads with the requests they still have, and the table they share.\<close>

type_synonym pool = "(pc \<times> req list) list \<times> tstate"

inductive pool_step :: "alloc \<Rightarrow> pool \<Rightarrow> pool \<Rightarrow> bool" for mal where
  take_request:
    "i < length ts \<Longrightarrow> ts ! i = (Idle, r # rs) \<Longrightarrow> pool_step mal (ts, s) (ts[i := (Start r, rs)], s)"
| take_step:
    "i < length ts \<Longrightarrow> ts ! i = (p, rs) \<Longrightarrow> advance mal p s = Some (p', s') \<Longrightarrow>
     pool_step mal (ts, s) (ts[i := (p', rs)], s')"

text \<open>A schedule of \<open>n\<close> steps.\<close>

inductive pool_run :: "alloc \<Rightarrow> nat \<Rightarrow> pool \<Rightarrow> pool \<Rightarrow> bool" for mal where
  stop: "pool_run mal 0 c c"
| more: "pool_run mal n c c' \<Longrightarrow> pool_step mal c' c'' \<Longrightarrow> pool_run mal (Suc n) c c''"

definition launch :: "req list list \<Rightarrow> tstate \<Rightarrow> pool" where
  "launch reqs s = (map (Pair Idle) reqs, s)"

text \<open>A given schedule, by the numbers of the threads.\<close>

definition pool_next :: "alloc \<Rightarrow> nat \<Rightarrow> pool \<Rightarrow> pool option" where
  "pool_next mal i c =
     (let (ts, s) = c in
      if i < length ts
      then (case ts ! i of
          (Idle, r # rs) \<Rightarrow> Some (ts[i := (Start r, rs)], s)
        | (p, rs) \<Rightarrow> map_option (\<lambda>(q, s'). (ts[i := (q, rs)], s')) (advance mal p s))
      else None)"

fun schedule :: "alloc \<Rightarrow> nat list \<Rightarrow> pool \<Rightarrow> pool option" where
  "schedule mal [] c = Some c"
| "schedule mal (i # is) c = (case pool_next mal i c of None \<Rightarrow> None | Some c' \<Rightarrow> schedule mal is c')"

lemma pool_next_step:
  assumes "pool_next mal i c = Some c'"
  shows "pool_step mal c c'"
proof -
  obtain ts s where c: "c = (ts, s)" by fastforce
  then have i: "i < length ts" using assms by (auto simp: pool_next_def split: if_splits)
  obtain p rs where p: "ts ! i = (p, rs)" by fastforce
  show ?thesis
  proof (cases "\<exists>r rs'. p = Idle \<and> rs = r # rs'")
    case True
    then show ?thesis using assms c i p take_request by (auto simp: pool_next_def)
  next
    case False
    then have "map_option (\<lambda>(q, s'). (ts[i := (q, rs)], s')) (advance mal p s) = Some c'"
      using assms c i p by (auto simp: pool_next_def simp del: advance.simps split: pc.splits list.splits)
    then show ?thesis using take_step [OF i p] c by auto
  qed
qed

lemma pool_run_first: "pool_run mal n c' c'' \<Longrightarrow> pool_step mal c c' \<Longrightarrow> pool_run mal (Suc n) c c''"
  by (induction rule: pool_run.induct) (auto intro: pool_run.intros)

lemma schedule_run: "schedule mal is c = Some c' \<Longrightarrow> pool_run mal (length is) c c'"
  by (induction "is" arbitrary: c)
    (auto intro: pool_run.intros pool_run_first pool_next_step split: option.splits)

lemma schedule_append:
  "schedule mal is c = Some c' \<Longrightarrow> schedule mal (is @ js) c = schedule mal js c'"
  by (induction "is" arbitrary: c) (auto split: option.splits)

section \<open>The mutex\<close>

fun in_section :: "pc \<Rightarrow> bool" where
  "in_section (Alloc_in f e) = True"
| "in_section (Lookup_in r) = True"
| "in_section (Remove_in f e) = True"
| "in_section (Crashed p flt) = in_section p"
| "in_section (Spinning p) = in_section p"
| "in_section p = False"

definition mutex_ok :: "pool \<Rightarrow> bool" where
  "mutex_ok c \<longleftrightarrow>
     (\<forall>i < length (fst c). \<forall>j < length (fst c).
        in_section (fst (fst c ! i)) \<longrightarrow> in_section (fst (fst c ! j)) \<longrightarrow> i = j) \<and>
     (htable_mutex (snd c) \<longleftrightarrow> (\<exists>i < length (fst c). in_section (fst (fst c ! i))))"

lemma malloc_state_mutex: "malloc_state mal s = (r, s') \<Longrightarrow> htable_mutex s' = htable_mutex s"
  by (auto simp: malloc_state_def split: prod.splits option.splits)

lemma set_fd_mutex: "set_fd e f s = Inr s' \<Longrightarrow> htable_mutex s' = htable_mutex s"
  by (auto simp: set_fd_def bindE_simps)

lemma free_block_mutex: "free_block e s = Inr s' \<Longrightarrow> htable_mutex s' = htable_mutex s"
  by (auto simp: free_block_def bindE_simps)

lemma enter_Some: "enter p s = Some (p', s') \<longleftrightarrow> p' = p \<and> \<not> htable_mutex s \<and> s' = s\<lparr>htable_mutex := True\<rparr>"
  by (auto simp: enter_def)

text \<open>Only entering and leaving a section changes the mutex.\<close>

lemma advance_mutex:
  assumes "advance mal p s = Some (p', s')"
  shows "if in_section p = in_section p' then htable_mutex s' = htable_mutex s
    else if in_section p' then \<not> htable_mutex s \<and> htable_mutex s' else \<not> htable_mutex s'"
  using assms
  by (cases "(mal, p, s)" rule: advance.cases)
    (auto simp: enter_Some dest: malloc_state_mutex set_fd_mutex free_block_mutex
      split: prod.splits option.splits sum.splits req.splits if_splits)

lemma mutex_step:
  assumes ok: "mutex_ok c" and step: "pool_step mal c c'"
  shows "mutex_ok c'"
  using step
proof (cases rule: pool_step.cases)
  case (take_request i ts r rs s)
  then have "in_section (fst (ts[i := (Start r, rs)] ! j)) = in_section (fst (ts ! j))" for j
    by (cases "j = i") simp_all
  then show ?thesis using ok take_request by (simp add: mutex_ok_def)
next
  case (take_step i ts p rs s p' s')
  let ?ts = "ts[i := (p', rs)]"
  note m = advance_mutex [OF take_step(5)]
  have sec: "in_section (fst (?ts ! j)) = (if j = i then in_section p' else in_section (fst (ts ! j)))"
    if "j < length ts" for j using that by simp
  have i: "in_section (fst (ts ! i)) = in_section p" using take_step by simp
  show ?thesis
  proof (cases "in_section p = in_section p'")
    case True
    then have "in_section (fst (?ts ! j)) = in_section (fst (ts ! j))" if "j < length ts" for j
      using sec [OF that] i by (cases "j = i") simp_all
    then show ?thesis using ok True m take_step(1-3) by (auto simp: mutex_ok_def)
  next
    case False
    have "\<not> in_section (fst (ts ! j))" if "j < length ts" "j \<noteq> i" for j
      using ok False m i that take_step(1,3) by (cases "in_section p") (auto simp: mutex_ok_def)
    then have "in_section (fst (?ts ! j)) \<longleftrightarrow> j = i \<and> in_section p'" if "j < length ts" for j
      using sec [OF that] that by (cases "j = i") simp_all
    then show ?thesis using False m take_step(2,3) by (auto simp: mutex_ok_def)
  qed
qed

lemma mutex_run: "pool_run mal n c c' \<Longrightarrow> mutex_ok c \<Longrightarrow> mutex_ok c'"
  by (induction rule: pool_run.induct) (auto intro: mutex_step)

lemma mutex_launch: "\<not> htable_mutex s \<Longrightarrow> mutex_ok (launch reqs s)"
  by (auto simp: mutex_ok_def launch_def)


section \<open>Threads on descriptors of their own\<close>

text \<open>A state that is off every list and belongs to one thread.\<close>

definition owned :: "'z tstate_scheme \<Rightarrow> nat list list \<Rightarrow> int \<Rightarrow> nat \<Rightarrow> bool" where
  "owned s LL f e \<longleftrightarrow> 0 \<le> f \<and> fd_of s e = Some f \<and> e \<notin> members LL"

fun pc_ok :: "'z tstate_scheme \<Rightarrow> nat list list \<Rightarrow> pc \<Rightarrow> bool" where
  "pc_ok s LL Idle = True"
| "pc_ok s LL (Start r) = (0 \<le> req_fd r)"
| "pc_ok s LL (Alloc_wait f e) = owned s LL f e"
| "pc_ok s LL (Alloc_in f e) = owned s LL f e"
| "pc_ok s LL (Lookup_in r) = (0 \<le> req_fd r \<and> (\<forall>f. r \<noteq> Track f))"
| "pc_ok s LL (Reading f e freed) = (e \<in> set (states_of s LL f))"
| "pc_ok s LL (Dropping f e) = (e \<in> set (states_of s LL f))"
| "pc_ok s LL (Remove_in f e) = (e \<in> set (states_of s LL f))"
| "pc_ok s LL (Freeing f e) = owned s LL f e"
| "pc_ok s LL (Crashed p flt) = False"
| "pc_ok s LL (Spinning p) = False"

fun pc_fds :: "pc \<Rightarrow> int set" where
  "pc_fds (Start r) = {req_fd r}"
| "pc_fds (Alloc_wait f e) = {f}"
| "pc_fds (Alloc_in f e) = {f}"
| "pc_fds (Lookup_in r) = {req_fd r}"
| "pc_fds (Reading f e freed) = {f}"
| "pc_fds (Dropping f e) = {f}"
| "pc_fds (Remove_in f e) = {f}"
| "pc_fds (Freeing f e) = {f}"
| "pc_fds p = {}"

text \<open>What a thread has still to do to the stack of its descriptor.\<close>

fun ops_of :: "req \<Rightarrow> (bool \<times> int) list" where
  "ops_of (Track f) = [(True, f)]"
| "ops_of (Untrack f) = [(False, f)]"
| "ops_of (Consume f freed) = (if freed then [(False, f)] else [])"

fun pc_ops :: "pc \<Rightarrow> (bool \<times> int) list" where
  "pc_ops (Start r) = ops_of r"
| "pc_ops (Alloc_wait f e) = [(True, f)]"
| "pc_ops (Alloc_in f e) = [(True, f)]"
| "pc_ops (Lookup_in r) = ops_of r"
| "pc_ops (Reading f e freed) = (if freed then [(False, f)] else [])"
| "pc_ops (Dropping f e) = [(False, f)]"
| "pc_ops (Remove_in f e) = [(False, f)]"
| "pc_ops p = []"

lemma depth_append: "depth (xs @ ys) f d = depth ys f (depth xs f d)"
  by (induction xs arbitrary: d) auto

lemma ops_of_others: "g \<noteq> req_fd r \<Longrightarrow> depth (ops_of r) g d = d"
  by (cases r) simp_all

text \<open>
  A step for one descriptor leaves the stacks of the others, and the states that belong to
  others, as they are.
\<close>

definition spares :: "int \<Rightarrow> 'z tstate_scheme \<Rightarrow> nat list list \<Rightarrow> 'z tstate_scheme \<Rightarrow> nat list list \<Rightarrow> bool" where
  "spares f s LL s' LL' \<longleftrightarrow> (\<forall>g. g \<noteq> f \<longrightarrow> states_of s' LL' g = states_of s LL g) \<and>
     (\<forall>a g. fd_of s a = Some g \<longrightarrow> g \<noteq> f \<longrightarrow> fd_of s' a = Some g \<and> (a \<in> members LL' \<longrightarrow> a \<in> members LL))"

lemma spares_pc_ok:
  assumes "spares f s LL s' LL'" and "pc_ok s LL p" and "f \<notin> pc_fds p"
  shows "pc_ok s' LL' p"
  using assms by (cases p) (auto simp: spares_def owned_def)

lemma spares_same: "htable s' = htable s \<Longrightarrow> spares f s LL s' LL"
  by (simp add: spares_def states_of_def fd_of_def)

text \<open>One lemma for each step that touches the table.\<close>

definition step_ok ::
  "alloc \<Rightarrow> int \<Rightarrow> 'z tstate_scheme \<Rightarrow> nat list list \<Rightarrow> pc \<Rightarrow> 'z tstate_scheme \<Rightarrow> pc \<Rightarrow> bool"
where
  "step_ok mal f s LL p s' p' \<longleftrightarrow> (\<exists>LL'. table_inv (unlock s') LL' \<and> pc_ok s' LL' p' \<and>
     spares f s LL s' LL' \<and> pc_fds p' \<subseteq> {f} \<and>
     ((\<forall>k. mal k SIZEOF_SOCKET_STATE) \<longrightarrow>
        depth (pc_ops p') f (length (states_of s' LL' f)) = depth (pc_ops p) f (length (states_of s LL f))))"

lemma step_enter:
  assumes "table_inv (unlock s) LL" and "enter p' s = Some (q, s')" and "pc_ok s LL p'"
    and "pc_fds p' \<subseteq> {f}" and "pc_ops p' = pc_ops p"
  shows "step_ok mal f s LL p s' q"
proof -
  have s': "q = p'" "htable s' = htable s" "unlock s' = unlock s" using assms(2) by (auto simp: enter_Some)
  have "f + 1 \<notin> pc_fds p'" using assms(4) by auto
  then have "pc_ok s' LL p'" by (rule spares_pc_ok [OF spares_same [OF s'(2), of "f + 1"] assms(3)])
  then show ?thesis
    using assms s' spares_same [OF s'(2), of f LL]
    by (auto simp: step_ok_def states_of_def fd_of_def intro!: exI [of _ LL])
qed

lemma step_alloc_start:
  assumes inv: "table_inv (unlock s) LL" and f: "0 \<le> f"
    and adv: "advance mal (Start (Track f)) s = Some (q, s')"
  shows "step_ok mal f s LL (Start (Track f)) s' q"
proof (cases "mal (nextb (memory s)) SIZEOF_SOCKET_STATE")
  case False
  then have "q = Idle" "s' = s" using adv by (simp_all add: malloc_state_def calloc_struct_def)
  then show ?thesis using inv False spares_same [of s s] by (auto simp: step_ok_def intro!: exI [of _ LL])
next
  case True
  let ?e = "nextb (memory s)"
  obtain s1 where "malloc_state mal s = (Some ?e, s1)" "set_fd ?e f s1 = Inr (make_state ?e f s)"
    using malloc_then_set [where mal = mal and s = s, OF True] by blast
  then have q: "q = Alloc_wait f ?e" "s' = make_state ?e f s" using adv by simp_all
  have mk: "table_inv (unlock s') LL" "states_of s' LL = states_of s LL" "?e \<notin> members LL"
    using table_inv_make [OF inv refl] q by blast+
  have "fd_of s ?e = None"
    using fresh_not_cont [OF inv] by (simp add: fd_of_def)
  then have "spares f s LL s' LL"
    using mk(2) q by (auto simp: spares_def make_state_fd)
  then show ?thesis
    using mk f q by (auto simp: step_ok_def owned_def make_state_fd intro!: exI [of _ LL])
qed

lemma step_alloc_in:
  assumes inv: "table_inv (unlock s) LL" and ow: "owned s LL f e"
    and adv: "advance mal (Alloc_in f e) s = Some (q, s')"
  shows "step_ok mal f s LL (Alloc_in f e) s' q"
proof -
  let ?i = "nat (f mod int NUM_BUCKETS)"
  let ?LL = "LL[?i := e # LL ! ?i]"
  have f: "0 \<le> f" "fd_of s e = Some f" "e \<notin> members LL" using ow by (simp_all add: owned_def)
  obtain h where h: "LIST_INSERT_HEAD ?i e (htable s) = Inr h" "table_inv (unlock (s\<lparr>htable := h\<rparr>)) ?LL"
    "fd_of (s\<lparr>htable := h\<rparr>) = fd_of s"
    "states_of (s\<lparr>htable := h\<rparr>) ?LL = (states_of s LL)(f := e # states_of s LL f)"
    using table_inv_insert [OF inv f refl] by blast
  have q: "q = Idle" "s' = unlock (s\<lparr>htable := h\<rparr>)"
    using adv h(1) bucket_hash [OF f(1)] by simp_all
  have "?i < length LL" using inv bucket_less [of f] by (simp add: table_inv_def)
  then have "members ?LL \<subseteq> insert e (members LL)"
    by (auto simp: members_UN nth_list_update split: if_splits)
  then have "spares f s LL s' ?LL"
    using h(3,4) q f(2) by (auto simp: spares_def)
  then show ?thesis
    using h q by (auto simp: step_ok_def intro!: exI [of _ ?LL])
qed

text \<open>What a traversal in \<open>_lookup\<close> finds.\<close>

definition find_state :: "int \<Rightarrow> 'z tstate_scheme \<Rightarrow> (nat \<times> (fault + unit)) option run" where
  "find_state f s = bindR (Some (bucket (hash f))) (LIST_FOREACH (match_fd f) (htable s))"

lemma find_state_inv:
  assumes inv: "table_inv (unlock s) LL" and f: "0 \<le> f"
  shows "find_state f s = return (case states_of s LL f of [] \<Rightarrow> None | e # _ \<Rightarrow> Some (e, Inr ()))"
proof -
  let ?i = "nat (f mod int NUM_BUCKETS)"
  have LL: "rep (htable s) LL" "?i < length LL"
    using inv bucket_less [of f] by (simp_all add: table_inv_def)
  have "fd_of s e \<noteq> None" if "e \<in> set (LL ! ?i)" for e
    using table_inv_fd [OF inv bucket_less that] by (auto simp: in_bucket_def)
  note fm = first_match_fd [OF this, of "LL ! ?i" f]
  show ?thesis
    using lists.search_ok [OF LL, of "match_fd f"] fm f by (simp add: find_state_def bucket_hash states_of_def)
qed

lemma step_lookup_in:
  assumes inv: "table_inv (unlock s) LL" and r: "0 \<le> req_fd r" "\<forall>f. r \<noteq> Track f"
    and adv: "advance mal (Lookup_in r) s = Some (q, s')"
  shows "step_ok mal (req_fd r) s LL (Lookup_in r) s' q"
proof -
  let ?f = "req_fd r"
  note fe = find_state_inv [OF inv r(1), unfolded find_state_def]
  have s': "s' = unlock s"
    and q: "q = (case states_of s LL ?f of [] \<Rightarrow> Idle
      | e # _ \<Rightarrow> (case r of Consume f freed \<Rightarrow> Reading f e freed | _ \<Rightarrow> Dropping ?f e))"
    using adv fe by (auto split: list.splits)
  have "spares ?f s LL s' LL" by (rule spares_same) (simp add: s')
  moreover have "pc_ok s' LL q" "pc_fds q \<subseteq> {?f}"
    using q s' by (auto split: list.splits req.splits)
  moreover have "depth (pc_ops q) ?f (length (states_of s' LL ?f)) = depth (ops_of r) ?f (length (states_of s LL ?f))"
    using q s' r(2) by (cases r) (auto split: list.splits)
  ultimately show ?thesis
    using inv s' unfolding step_ok_def by (intro exI [of _ LL]) simp
qed

lemma step_reading:
  assumes inv: "table_inv (unlock s) LL" and e: "e \<in> set (states_of s LL f)"
    and adv: "advance mal (Reading f e freed) s = Some (q, s')"
  shows "step_ok mal f s LL (Reading f e freed) s' q"
proof -
  have "fd_of s e = Some f" using e by (auto simp: states_of_def split: if_splits)
  then obtain x where "elems (htable s) e = Some x" "fd (content x) = Some f"
    by (auto simp: fd_of_def cont_def bind_eq_Some_conv)
  then have "get_fd e s = Inr f" by (simp add: get_fd_def get_elem_def)
  then have "q = (if freed then Dropping f e else Idle)" "s' = s" using adv by simp_all
  then show ?thesis using inv e spares_same [of s s] by (auto simp: step_ok_def intro!: exI [of _ LL])
qed

lemma step_remove_in:
  assumes inv: "table_inv (unlock s) LL" and e: "e \<in> set (states_of s LL f)"
    and adv: "advance mal (Remove_in f e) s = Some (q, s')"
  shows "step_ok mal f s LL (Remove_in f e) s' q"
proof -
  let ?i = "nat (f mod int NUM_BUCKETS)"
  let ?LL = "LL[?i := remove1 e (LL ! ?i)]"
  have f: "0 \<le> f" "fd_of s e = Some f" using e by (auto simp: states_of_def split: if_splits)
  obtain h where h: "LIST_REMOVE e (htable s) = Inr h" "table_inv (unlock (s\<lparr>htable := h\<rparr>)) ?LL"
    "fd_of (s\<lparr>htable := h\<rparr>) = fd_of s"
    "states_of (s\<lparr>htable := h\<rparr>) ?LL = (states_of s LL)(f := remove1 e (states_of s LL f))"
    "members ?LL = members LL - {e}"
    using table_inv_remove [OF inv e refl] by blast
  have q: "q = Freeing f e" "s' = unlock (s\<lparr>htable := h\<rparr>)" using adv h(1) by simp_all
  have "spares f s LL s' ?LL" using h(3-5) q f(2) by (auto simp: spares_def)
  moreover have "pc_ok s' ?LL q" using h(3,5) q f by (simp add: owned_def)
  ultimately show ?thesis
    using h q e by (auto simp: step_ok_def length_remove1 intro!: exI [of _ ?LL])
qed

lemma step_freeing:
  assumes inv: "table_inv (unlock s) LL" and ow: "owned s LL f e"
    and adv: "advance mal (Freeing f e) s = Some (q, s')"
  shows "step_ok mal f s LL (Freeing f e) s' q"
proof -
  have f: "fd_of s e = Some f" "e \<notin> members LL" using ow by (simp_all add: owned_def)
  obtain t where t: "free_block e s = Inr t" "table_inv (unlock t) LL" "states_of t LL = states_of s LL"
    "\<forall>a. fd_of t a = (if a = e then None else fd_of s a)"
    using table_inv_free [OF inv _ f(2)] f(1) by auto
  have q: "q = Idle" "s' = t" using adv t(1) by simp_all
  have "spares f s LL s' LL" using t q f by (auto simp: spares_def)
  then show ?thesis using t q by (auto simp: step_ok_def intro!: exI [of _ LL])
qed

text \<open>Every step of a thread that works on one descriptor.\<close>

lemma advance_ok:
  assumes inv: "table_inv (unlock s) LL" and p: "pc_ok s LL p" "f \<in> pc_fds p"
    and adv: "advance mal p s = Some (q, s')"
  shows "step_ok mal f s LL p s' q"
proof (cases "(mal, p, s)" rule: advance.cases)
  case (1 mal g s)
  then show ?thesis using step_alloc_start [OF inv] assms by auto
next
  case (5 mal g e s)
  then show ?thesis using step_alloc_in [OF inv] assms by auto
next
  case (6 mal r s)
  then show ?thesis using step_lookup_in [OF inv] assms by auto
next
  case (7 mal g e freed s)
  then show ?thesis using step_reading [OF inv] assms by auto
next
  case (9 mal g e s)
  then show ?thesis using step_remove_in [OF inv] assms by auto
next
  case (10 mal g e s)
  then show ?thesis using step_freeing [OF inv] assms by auto
next
  case (2 mal g s)
  then show ?thesis using assms step_enter [OF inv, where p' = "Lookup_in (Untrack g)" and p = "Start (Untrack g)" and f = g]
    by auto
next
  case (3 mal g freed s)
  then show ?thesis using assms step_enter [OF inv, where p' = "Lookup_in (Consume g freed)" and p = "Start (Consume g freed)" and f = g]
    by auto
next
  case (4 mal g e s)
  then show ?thesis using assms step_enter [OF inv, where p' = "Alloc_in g e" and p = "Alloc_wait g e" and f = g]
    by auto
next
  case (8 mal g e s)
  then show ?thesis using assms step_enter [OF inv, where p' = "Remove_in g e" and p = "Dropping g e" and f = g]
    by auto
qed (use assms in simp_all)

section \<open>Progress and the number of steps\<close>

lemma advance_progress:
  "pc_ok s LL p \<Longrightarrow> p \<noteq> Idle \<Longrightarrow> \<not> htable_mutex s \<or> in_section p \<Longrightarrow> advance mal p s \<noteq> None"
  by (cases "(mal, p, s)" rule: advance.cases) (auto simp: enter_def)

fun pc_work :: "pc \<Rightarrow> nat" where
  "pc_work (Start (Track f)) = 3"
| "pc_work (Start r) = 6"
| "pc_work (Alloc_wait f e) = 2"
| "pc_work (Alloc_in f e) = 1"
| "pc_work (Lookup_in r) = 5"
| "pc_work (Reading f e freed) = 4"
| "pc_work (Dropping f e) = 3"
| "pc_work (Remove_in f e) = 2"
| "pc_work (Freeing f e) = 1"
| "pc_work p = 0"

definition thread_work :: "pc \<times> req list \<Rightarrow> nat" where
  "thread_work th = pc_work (fst th) + 7 * length (snd th)"

definition pool_work :: "pool \<Rightarrow> nat" where
  "pool_work c = sum_list (map thread_work (fst c))"

lemma advance_work: "advance mal p s = Some (q, s') \<Longrightarrow> pc_work q < pc_work p"
  by (cases "(mal, p, s)" rule: advance.cases)
    (auto simp: enter_Some split: prod.splits option.splits sum.splits req.splits if_splits)

lemma sum_list_less:
  assumes "i < length xs" and "g y < g (xs ! i)"
  shows "sum_list (map g (xs[i := y])) < sum_list (map g xs :: nat list)"
proof -
  have "xs = take i xs @ xs ! i # drop (Suc i) xs" using assms(1) by (rule id_take_nth_drop)
  then have "sum_list (map g xs) = sum_list (map g (take i xs)) + (g (xs ! i) + sum_list (map g (drop (Suc i) xs)))"
    by (metis list.simps(9) map_append sum_list.Cons sum_list_append)
  moreover have "xs[i := y] = take i xs @ y # drop (Suc i) xs" using assms(1) by (rule upd_conv_take_nth_drop)
  ultimately show ?thesis using assms(2) by simp
qed

lemma step_work:
  assumes "pool_step mal c c'"
  shows "pool_work c' < pool_work c"
  using assms
proof (cases rule: pool_step.cases)
  case (take_request i ts r rs s)
  moreover have "pc_work (Start r) \<le> 6" by (cases r) simp_all
  ultimately show ?thesis by (auto simp: pool_work_def thread_work_def intro!: sum_list_less)
next
  case (take_step i ts p rs s p' s')
  then show ?thesis using advance_work [OF take_step(5)]
    by (auto simp: pool_work_def thread_work_def intro!: sum_list_less)
qed

lemma run_work: "pool_run mal n c c' \<Longrightarrow> n + pool_work c' \<le> pool_work c"
proof (induction rule: pool_run.induct)
  case (more n c c' c'')
  then show ?case using step_work [OF more(2)] by simp
qed simp

lemma launch_work: "pool_work (launch reqs s) = 7 * length (concat reqs)"
  by (induction reqs) (simp_all add: pool_work_def thread_work_def launch_def)

section \<open>The invariant of a pool\<close>

text \<open>
  \<open>F i\<close>: the descriptors of thread \<open>i\<close>; \<open>D\<close>: how many states each descriptor is to have in
  the end; \<open>T\<close>: the stacks at the start.
\<close>

definition apart :: "(nat \<Rightarrow> int set) \<Rightarrow> nat \<Rightarrow> bool" where
  "apart F n \<longleftrightarrow> (\<forall>i < n. \<forall>j < n. i \<noteq> j \<longrightarrow> F i \<inter> F j = {})"

definition thread_ok ::
  "alloc \<Rightarrow> int set \<Rightarrow> (int \<Rightarrow> nat) \<Rightarrow> 'z tstate_scheme \<Rightarrow> nat list list \<Rightarrow> pc \<times> req list \<Rightarrow> bool"
where
  "thread_ok mal Fi D s LL th \<longleftrightarrow> pc_ok s LL (fst th) \<and> pc_fds (fst th) \<union> req_fd ` set (snd th) \<subseteq> Fi \<and>
     (\<forall>r \<in> set (snd th). 0 \<le> req_fd r) \<and>
     ((\<forall>k. mal k SIZEOF_SOCKET_STATE) \<longrightarrow> (\<forall>f \<in> Fi.
        depth (pc_ops (fst th) @ concat (map ops_of (snd th))) f (length (states_of s LL f)) = D f))"

definition pool_ok ::
  "alloc \<Rightarrow> (nat \<Rightarrow> int set) \<Rightarrow> (int \<Rightarrow> nat) \<Rightarrow> (int \<Rightarrow> nat list) \<Rightarrow> pool \<Rightarrow> bool"
where
  "pool_ok mal F D T c \<longleftrightarrow> (\<exists>LL. table_inv (unlock (snd c)) LL \<and>
     (\<forall>i < length (fst c). thread_ok mal (F i) D (snd c) LL (fst c ! i)) \<and>
     (\<forall>f. (\<forall>i < length (fst c). f \<notin> F i) \<longrightarrow> states_of (snd c) LL f = T f))"

lemma pc_fds_one: "f \<in> pc_fds p \<Longrightarrow> pc_fds p = {f}"
  by (cases p) auto

lemma pc_ops_others: "g \<notin> pc_fds p \<Longrightarrow> depth (pc_ops p) g d = d"
proof (cases p)
  case (Start r)
  then show "g \<notin> pc_fds p \<Longrightarrow> depth (pc_ops p) g d = d" by (simp add: ops_of_others)
next
  case (Lookup_in r)
  then show "g \<notin> pc_fds p \<Longrightarrow> depth (pc_ops p) g d = d" by (simp add: ops_of_others)
qed simp_all

lemma thread_ok_spares:
  assumes "thread_ok mal Fj D s LL th" and "spares f s LL s' LL'" and "f \<notin> Fj"
  shows "thread_ok mal Fj D s' LL' th"
proof -
  have "pc_ok s' LL' (fst th)"
    using spares_pc_ok [OF assms(2)] assms(1,3) by (auto simp: thread_ok_def)
  moreover have "states_of s' LL' g = states_of s LL g" if "g \<in> Fj" for g
    using assms(2,3) that by (auto simp: spares_def)
  ultimately show ?thesis using assms(1) by (simp add: thread_ok_def)
qed

lemma thread_ok_advance:
  assumes th: "thread_ok mal Fi D s LL (p, rs)" and f: "pc_fds p = {f}"
    and step: "table_inv (unlock s') LL'" "pc_ok s' LL' q" "spares f s LL s' LL'" "pc_fds q \<subseteq> {f}"
      "(\<forall>k. mal k SIZEOF_SOCKET_STATE) \<longrightarrow>
        depth (pc_ops q) f (length (states_of s' LL' f)) = depth (pc_ops p) f (length (states_of s LL f))"
  shows "thread_ok mal Fi D s' LL' (q, rs)"
proof -
  have "depth (pc_ops q) g (length (states_of s' LL' g)) = depth (pc_ops p) g (length (states_of s LL g))"
    if "\<forall>k. mal k SIZEOF_SOCKET_STATE" for g
  proof (cases "g = f")
    case False
    then have "g \<notin> pc_fds q" "g \<notin> pc_fds p" using f step(4) by auto
    then show ?thesis using False step(3) by (simp add: pc_ops_others spares_def)
  qed (use step(5) that in simp)
  then show ?thesis using th f step(2,4) by (auto simp: thread_ok_def depth_append)
qed

lemma pool_ok_step:
  assumes ok: "pool_ok mal F D T c" and F: "apart F (length (fst c))" and step: "pool_step mal c c'"
  shows "pool_ok mal F D T c'"
proof -
  obtain LL where LL: "table_inv (unlock (snd c)) LL"
    "\<And>i. i < length (fst c) \<Longrightarrow> thread_ok mal (F i) D (snd c) LL (fst c ! i)"
    "\<And>f. (\<forall>i < length (fst c). f \<notin> F i) \<Longrightarrow> states_of (snd c) LL f = T f"
    using ok by (auto simp: pool_ok_def)
  from step show ?thesis
  proof (cases rule: pool_step.cases)
    case (take_request i ts r rs s)
    have "thread_ok mal (F i) D s LL (Start r, rs)"
      using LL(2) [of i] take_request by (auto simp: thread_ok_def)
    then have "thread_ok mal (F j) D s LL (ts[i := (Start r, rs)] ! j)" if "j < length ts" for j
      using LL(2) [of j] take_request that by (cases "j = i") simp_all
    then show ?thesis using LL(1,3) take_request by (auto simp: pool_ok_def)
  next
    case (take_step i ts p rs s p' s')
    have th: "thread_ok mal (F i) D s LL (p, rs)" using LL(2) [of i] take_step by simp
    then have p: "pc_ok s LL p" "pc_fds p \<subseteq> F i" by (auto simp: thread_ok_def)
    have "pc_fds p \<noteq> {}" using p(1) take_step(5) by (cases p) auto
    then obtain f where f: "f \<in> pc_fds p" by blast
    have inv: "table_inv (unlock s) LL" using LL(1) take_step by simp
    obtain LL' where n: "table_inv (unlock s') LL'" "pc_ok s' LL' p'" "spares f s LL s' LL'" "pc_fds p' \<subseteq> {f}"
      "(\<forall>k. mal k SIZEOF_SOCKET_STATE) \<longrightarrow>
        depth (pc_ops p') f (length (states_of s' LL' f)) = depth (pc_ops p) f (length (states_of s LL f))"
      using advance_ok [OF inv p(1) f take_step(5)] unfolding step_ok_def by blast
    have mine: "thread_ok mal (F i) D s' LL' (p', rs)"
      by (rule thread_ok_advance [OF th pc_fds_one [OF f] n])
    have "thread_ok mal (F j) D s' LL' (ts[i := (p', rs)] ! j)" if j: "j < length ts" for j
    proof (cases "j = i")
      case False
      then have "f \<notin> F j" using F j p(2) f take_step by (auto simp: apart_def)
      moreover have "thread_ok mal (F j) D s LL (ts ! j)" using LL(2) [of j] j take_step by simp
      ultimately show ?thesis using thread_ok_spares [OF _ n(3)] False by simp
    qed (use mine j in simp)
    moreover have "states_of s' LL' g = T g" if "\<forall>j < length ts. g \<notin> F j" for g
    proof -
      have "g \<noteq> f" using that f p(2) take_step(3) by auto
      then show ?thesis using LL(3) [of g] n(3) that take_step by (simp add: spares_def)
    qed
    ultimately show ?thesis using n(1) take_step by (auto simp: pool_ok_def)
  qed
qed

lemma step_threads: "pool_step mal c c' \<Longrightarrow> length (fst c') = length (fst c)"
  by (induction rule: pool_step.induct) simp_all

lemma pool_ok_run:
  "pool_run mal n c c' \<Longrightarrow> pool_ok mal F D T c \<Longrightarrow> apart F (length (fst c)) \<Longrightarrow>
   pool_ok mal F D T c' \<and> length (fst c') = length (fst c)"
proof (induction rule: pool_run.induct)
  case (more n c c' c'')
  then show ?case using pool_ok_step step_threads by metis
qed simp

text \<open>The start, and what the invariant says at the end.\<close>

definition fds :: "req list list \<Rightarrow> nat \<Rightarrow> int set" where
  "fds reqs i = req_fd ` set (reqs ! i)"

definition goal :: "req list list \<Rightarrow> (int \<Rightarrow> nat list) \<Rightarrow> int \<Rightarrow> nat" where
  "goal reqs T f = depth (concat (map ops_of (concat reqs))) f (length (T f))"

lemma depth_map_others: "f \<notin> req_fd ` set rs \<Longrightarrow> depth (concat (map ops_of rs)) f d = d"
  by (induction rs arbitrary: d) (auto simp: depth_append ops_of_others)

lemma goal_owner:
  assumes "apart (fds reqs) (length reqs)" and "i < length reqs" and "f \<in> fds reqs i"
  shows "goal reqs T f = depth (concat (map ops_of (reqs ! i))) f (length (T f))"
proof -
  have other: "depth (concat (map ops_of (concat rss))) f d = d" if "\<And>rs. rs \<in> set rss \<Longrightarrow> f \<notin> req_fd ` set rs" for rss d
    by (rule depth_map_others) (use that in auto)
  have un: "f \<notin> req_fd ` set (reqs ! j)" if "j < length reqs" "j \<noteq> i" for j
    using assms that by (auto simp: apart_def fds_def)
  have "f \<notin> req_fd ` set rs" if m: "rs \<in> set (take i reqs)" for rs
  proof -
    obtain j where "j < i" "rs = reqs ! j" using m assms(2) unfolding in_set_conv_nth by auto
    then show ?thesis using un [of j] assms(2) by simp
  qed
  moreover have "f \<notin> req_fd ` set rs" if m: "rs \<in> set (drop (Suc i) reqs)" for rs
  proof -
    obtain j where "j < length reqs - Suc i" "rs = reqs ! (Suc i + j)"
      using m assms(2) unfolding in_set_conv_nth by auto
    then show ?thesis using un [of "Suc i + j"] assms(2) by simp
  qed
  moreover have "concat reqs = concat (take i reqs) @ reqs ! i @ concat (drop (Suc i) reqs)"
    using id_take_nth_drop [OF assms(2)] by (metis concat.simps(2) concat_append)
  ultimately show ?thesis using other by (simp add: goal_def depth_append)
qed

lemma pool_ok_launch:
  assumes "table_abs s T" and "apart (fds reqs) (length reqs)"
    and "\<forall>r \<in> set (concat reqs). 0 \<le> req_fd r"
  shows "pool_ok mal (fds reqs) (goal reqs T) T (launch reqs s)"
proof -
  obtain LL where LL: "table_inv s LL" "T = states_of s LL" using assms(1) by (auto simp: table_abs_def)
  have "thread_ok mal (fds reqs i) (goal reqs T) s LL (Idle, reqs ! i)" if i: "i < length reqs" for i
  proof -
    have "\<forall>r \<in> set (reqs ! i). 0 \<le> req_fd r" using assms(3) nth_mem [OF i] by auto
    moreover have "depth (concat (map ops_of (reqs ! i))) f (length (states_of s LL f)) = goal reqs T f" if "f \<in> fds reqs i" for f
      using goal_owner [OF assms(2) i that] LL(2) by simp
    ultimately show ?thesis by (auto simp: thread_ok_def fds_def)
  qed
  moreover have "table_inv (unlock s) LL" using LL(1) table_inv_unlocked by blast
  ultimately show ?thesis using LL(2) by (auto simp: pool_ok_def launch_def intro!: exI [of _ LL])
qed

text \<open>A pool in which no thread can take a step is done.\<close>

lemma pool_done:
  assumes ok: "pool_ok mal F D T (ts, s)" and mx: "mutex_ok (ts, s)" and none: "\<nexists>c. pool_step mal (ts, s) c"
  shows "(\<forall>th \<in> set ts. th = (Idle, [])) \<and> \<not> htable_mutex s"
proof -
  obtain LL where LL: "\<And>i. i < length ts \<Longrightarrow> thread_ok mal (F i) D s LL (ts ! i)"
    using ok by (auto simp: pool_ok_def)
  have stuck: "ts ! i = (Idle, [])"
    if i: "i < length ts" and free: "\<not> htable_mutex s \<or> in_section (fst (ts ! i))" for i
  proof (rule ccontr)
    obtain p rs where p: "ts ! i = (p, rs)" by fastforce
    assume "ts ! i \<noteq> (Idle, [])"
    then have "p \<noteq> Idle \<or> rs \<noteq> []" using p by simp
    moreover have "p = Idle \<Longrightarrow> rs \<noteq> [] \<Longrightarrow> False"
      using take_request [OF i, of _ _ mal s] p none by (cases rs) auto
    moreover have "advance mal p s \<noteq> None" if "p \<noteq> Idle"
      using advance_progress [of s LL p mal] that LL [OF i] free p by (auto simp: thread_ok_def)
    ultimately show False using take_step [OF i p] none by (metis not_Some_eq prod.exhaust)
  qed
  have unl: "\<not> htable_mutex s"
  proof
    assume "htable_mutex s"
    then obtain i where "i < length ts" "in_section (fst (ts ! i))" using mx by (auto simp: mutex_ok_def)
    then show False using stuck by fastforce
  qed
  then show ?thesis using stuck by (metis in_set_conv_nth)
qed

section \<open>A thread alone\<close>

text \<open>Only one thread takes steps, until it cannot go on or \<open>n\<close> steps are done.\<close>

fun run_alone :: "alloc \<Rightarrow> nat \<Rightarrow> pc \<Rightarrow> 'z tstate_scheme \<Rightarrow> pc \<times> 'z tstate_scheme" where
  "run_alone mal 0 p s = (p, s)"
| "run_alone mal (Suc n) p s = (case advance mal p s of None \<Rightarrow> (p, s) | Some (q, s') \<Rightarrow> run_alone mal n q s')"

text \<open>The functions that the steps were cut from.\<close>

fun sequential :: "alloc \<Rightarrow> req \<Rightarrow> 'z tstate_scheme \<Rightarrow> 'z tstate_scheme run" where
  "sequential mal (Track f) s = table_alloc mal f s"
| "sequential mal (Untrack f) s = table_free f s"
| "sequential mal (Consume f freed) s =
     bindR (table_lookup f s) (\<lambda>(state, s). case state of
       None \<Rightarrow> return s
     | Some e \<Rightarrow> bindR (Some (get_fd e s)) (\<lambda>_. if freed then table_free_state e s else return s))"

definition outcome :: "(pc \<times> 'z tstate_scheme) \<Rightarrow> 'z tstate_scheme run \<Rightarrow> bool" where
  "outcome c r \<longleftrightarrow> (case r of
     None \<Rightarrow> (\<exists>p. fst c = Spinning p)
   | Some (Inl flt) \<Rightarrow> (\<exists>p. fst c = Crashed p flt)
   | Some (Inr s') \<Rightarrow> c = (Idle, s'))"

lemma alone_stuck [simp]:
  "run_alone mal n Idle s = (Idle, s)" "run_alone mal n (Crashed p flt) s = (Crashed p flt, s)"
  "run_alone mal n (Spinning p) s = (Spinning p, s)"
  by (cases n; simp)+

lemma lock_free: "\<not> htable_mutex s \<Longrightarrow> lock s = Inr (s\<lparr>htable_mutex := True\<rparr>)"
  by (simp add: lock_def)

lemma alone_drop:
  assumes "\<not> htable_mutex s" and "3 \<le> m"
  shows "outcome (run_alone mal m (Dropping f e) s) (table_free_state e s)"
proof -
  obtain n where m: "m = Suc (Suc (Suc n))"
    using assms(2) by (metis Suc_le_D eval_nat_numeral(3) numeral_2_eq_2 Suc_le_mono)
  have "htable (s\<lparr>htable_mutex := True\<rparr>) = htable s" by simp
  then show ?thesis
    using assms by (auto simp: m outcome_def table_free_state_def lock_free enter_def split: sum.splits)
qed

lemma alone_alloc:
  assumes "\<not> htable_mutex s"
  shows "outcome (run_alone mal (Suc (Suc (Suc n))) (Start (Track f)) s) (table_alloc mal f s)"
proof -
  have m: "\<not> htable_mutex s'" if "malloc_state mal s = (Some e, s1)" "set_fd e f s1 = Inr s'" for e s1 s'
    using assms malloc_state_mutex [OF that(1)] set_fd_mutex [OF that(2)] by simp
  show ?thesis
  proof (cases "malloc_state mal s")
    case (Pair x s1)
    show ?thesis
    proof (cases x)
      case (Some e)
      show ?thesis
      proof (cases "set_fd e f s1")
        case (Inr s2)
        then have "\<not> htable_mutex s2" using m Pair Some by blast
        then show ?thesis using Pair Some Inr
          by (cases "bucket (hash f)") (auto simp: outcome_def table_alloc_def lock_free enter_def split: sum.splits)
      qed (use Pair Some in \<open>simp add: outcome_def table_alloc_def\<close>)
    qed (use Pair in \<open>simp add: outcome_def table_alloc_def\<close>)
  qed
qed

lemma table_lookup_find:
  assumes "\<not> htable_mutex s"
  shows "table_lookup f s = bindR (find_state f s) (\<lambda>found. case found of
     None \<Rightarrow> return (None, s) | Some (e, Inl flt) \<Rightarrow> fail flt | Some (e, Inr _) \<Rightarrow> return (Some e, s))"
  using assms
  by (cases "bucket (hash f)") (simp_all add: table_lookup_def find_state_def lock_free unlock_free)

lemma alone_lookup:
  assumes "\<not> htable_mutex s" and "r = Untrack f \<or> r = Consume f freed"
  shows "run_alone mal (Suc (Suc m)) (Start r) s =
    (case find_state f s of
        None \<Rightarrow> (Spinning (Lookup_in r), s\<lparr>htable_mutex := True\<rparr>)
      | Some (Inl flt) \<Rightarrow> (Crashed (Lookup_in r) flt, s\<lparr>htable_mutex := True\<rparr>)
      | Some (Inr None) \<Rightarrow> (Idle, s)
      | Some (Inr (Some (e, Inl flt))) \<Rightarrow> (Crashed (Lookup_in r) flt, s\<lparr>htable_mutex := True\<rparr>)
      | Some (Inr (Some (e, Inr _))) \<Rightarrow>
          run_alone mal m (case r of Consume f freed \<Rightarrow> Reading f e freed | _ \<Rightarrow> Dropping (req_fd r) e) s)"
proof -
  have "bindR (Some (bucket (hash f))) (LIST_FOREACH (match_fd f) (htable (s\<lparr>htable_mutex := True\<rparr>))) = find_state f s"
    by (simp add: find_state_def)
  then show ?thesis
    using assms
    by (auto simp: enter_def unlock_free split: option.splits sum.splits)
qed

lemma outcome_fail [simp]: "outcome (Crashed p flt, s) (fail flt)" "outcome (Spinning p, s) None"
  "outcome (Idle, s) (return s)"
  by (simp_all add: outcome_def)

lemma alone_untrack:
  assumes s: "\<not> htable_mutex s" and m: "3 \<le> m"
  shows "outcome (run_alone mal (Suc (Suc m)) (Start (Untrack f)) s) (table_free f s)"
  unfolding alone_lookup [OF s disjI1 [OF refl]] table_free_def table_lookup_find [OF s]
  using alone_drop [OF s m, of mal f] by (auto split: option.splits sum.splits)

lemma alone_consume:
  assumes s: "\<not> htable_mutex s" and m: "4 \<le> m"
  shows "outcome (run_alone mal (Suc (Suc m)) (Start (Consume f freed)) s) (sequential mal (Consume f freed) s)"
proof -
  obtain k where k: "m = Suc k" "3 \<le> k" using m by (cases m) auto
  have "outcome (run_alone mal m (Reading f e freed) s)
      (bindR (Some (get_fd e s)) (\<lambda>_. if freed then table_free_state e s else return s))" for e
    using alone_drop [OF s k(2), of mal f e] k(1) by (cases "get_fd e s") simp_all
  then show ?thesis
    unfolding alone_lookup [OF s disjI2 [OF refl]] sequential.simps table_lookup_find [OF s]
    by (auto split: option.splits sum.splits)
qed

lemma removed_and_freed:
  assumes "table_inv (unlock s) LL" and "e \<in> set (states_of s LL f)"
  shows "\<exists>h q. LIST_REMOVE e (htable s) = Inr h \<and> free_block e (s\<lparr>htable := h\<rparr>) = Inr q \<and>
    htable_mutex q = htable_mutex s \<and> elems (htable q) e = None"
proof -
  let ?i = "nat (f mod int NUM_BUCKETS)"
  obtain h where h: "LIST_REMOVE e (htable s) = Inr h" "table_inv (unlock (s\<lparr>htable := h\<rparr>)) (LL[?i := remove1 e (LL ! ?i)])"
    "fd_of (s\<lparr>htable := h\<rparr>) = fd_of s" "members (LL[?i := remove1 e (LL ! ?i)]) = members LL - {e}"
    using table_inv_remove [OF assms refl] by blast
  moreover have "fd_of s e \<noteq> None" using assms(2) by (auto simp: states_of_def split: if_splits)
  ultimately show ?thesis using table_inv_free [OF h(2), of e] by auto
qed

lemma plenty_state: "plenty k SIZEOF_SOCKET_STATE"
  by (simp add: plenty_def SIZEOF_SOCKET_STATE_def PTRDIFF_MAX_def)

section \<open>Properties\<close>

text \<open>
  C26. Mutual exclusion: at every moment of every schedule at most one thread is between
  locking and unlocking the mutex, and the mutex is locked exactly when one is. This holds
  for any requests, also when a thread has faulted.
\<close>

theorem threads_mutual_exclusion:
  assumes "\<not> htable_mutex s" and "pool_run mal n (launch reqs s) (ts, s')"
  shows "(\<forall>i < length ts. \<forall>j < length ts.
      in_section (fst (ts ! i)) \<and> in_section (fst (ts ! j)) \<longrightarrow> i = j) \<and>
    (htable_mutex s' \<longleftrightarrow> (\<exists>i < length ts. in_section (fst (ts ! i))))"
  using mutex_run [OF assms(2) mutex_launch [OF assms(1)]] by (simp add: mutex_ok_def)

lemma first_lookup:
  "pool_run mal 2 (launch [[Untrack 5]] empty_table) ([(Lookup_in (Untrack 5), [])], empty_table\<lparr>htable_mutex := True\<rparr>)"
  using schedule_run [of mal "[0, 0]" "launch [[Untrack 5]] empty_table"]
  by (simp add: launch_def pool_next_def enter_def empty_table_def numeral_2_eq_2)

lemma threads_mutual_exclusion_witness:
  "let ts = [(Lookup_in (Untrack 5), [] :: req list)]; s' = empty_table\<lparr>htable_mutex := True\<rparr> in
   htable_mutex s' \<longleftrightarrow> (\<exists>i < length ts. in_section (fst (ts ! i)))"
proof -
  have "\<not> htable_mutex empty_table" by (simp add: empty_table_def)
  then show ?thesis
    using threads_mutual_exclusion [OF _ first_lookup [of plenty]] unfolding Let_def by blast
qed

text \<open>
  C24. Threads that work on descriptors of their own, none of them negative, are safe, whatever the
  allocator does: at every moment of every schedule no thread has faulted or runs around a broken
  list, the table is well-formed, and some thread can take a step unless all are done, so that
  none waits for the mutex for ever.
\<close>

theorem threads_safe:
  assumes "table_abs s T" and "apart (fds reqs) (length reqs)"
    and "\<forall>r \<in> set (concat reqs). 0 \<le> req_fd r" and "pool_run mal n (launch reqs s) (ts, s')"
  shows "(\<forall>th \<in> set ts. \<forall>p flt. fst th \<noteq> Crashed p flt \<and> fst th \<noteq> Spinning p) \<and>
    (\<exists>T'. table_abs (unlock s') T') \<and>
    ((\<exists>c. pool_step mal (ts, s') c) \<or> (\<forall>th \<in> set ts. th = (Idle, [])))"
proof -
  have ok: "pool_ok mal (fds reqs) (goal reqs T) T (ts, s')"
    using pool_ok_run [OF assms(4) pool_ok_launch [OF assms(1-3)]] assms(2) by (simp add: launch_def)
  then obtain LL where LL: "table_inv (unlock s') LL" "\<And>i. i < length ts \<Longrightarrow> pc_ok s' LL (fst (ts ! i))"
    by (auto simp: pool_ok_def thread_ok_def)
  have "fst th \<noteq> Crashed p flt \<and> fst th \<noteq> Spinning p" if "th \<in> set ts" for th p flt
    using that LL(2) by (fastforce simp: in_set_conv_nth)
  moreover have "\<exists>T'. table_abs (unlock s') T'" using LL(1) by (auto simp: table_abs_def)
  moreover have "\<not> htable_mutex s" using assms(1) by (auto simp: table_abs_def table_inv_def)
  then have "mutex_ok (ts, s')" using mutex_run [OF assms(4) mutex_launch] by blast
  then have "(\<exists>c. pool_step mal (ts, s') c) \<or> (\<forall>th \<in> set ts. th = (Idle, []))" using pool_done [OF ok] by blast
  ultimately show ?thesis by blast
qed

lemma threads_safe_witness:
  "\<exists>c. pool_step plenty ([(Lookup_in (Untrack 5), [])], empty_table\<lparr>htable_mutex := True\<rparr>) c"
  using threads_safe [OF table_abs_empty _ _ first_lookup [of plenty]] by (auto simp: apart_def)

text \<open>
  C25. Threads that work on descriptors of their own, none of them negative, finish when memory
  suffices, and no call waits for ever: a schedule has at most seven steps for each request, it
  can always be continued until every thread is done, and then each descriptor has as many states
  as the requests of its thread, one after the other, make of it, although the threads ran
  interleaved: an opening adds a state, a close and a use that ends with the state freed take
  one away if there is one, and a use that could not receive a header leaves it. Descriptors
  nobody asked for are left alone.
\<close>

theorem threads_finish:
  assumes "table_abs s T" and "apart (fds reqs) (length reqs)"
    and "\<forall>r \<in> set (concat reqs). 0 \<le> req_fd r" and "pool_run plenty n (launch reqs s) (ts, s')"
  shows "n \<le> 7 * length (concat reqs) \<and>
    ((\<exists>c. pool_step plenty (ts, s') c) \<or>
     (\<forall>th \<in> set ts. th = (Idle, [])) \<and>
     (\<exists>T'. table_abs s' T' \<and>
       (\<forall>i < length reqs. \<forall>f \<in> req_fd ` set (reqs ! i).
          length (T' f) = depth (concat (map ops_of (reqs ! i))) f (length (T f))) \<and>
       (\<forall>f. f \<notin> req_fd ` set (concat reqs) \<longrightarrow> T' f = T f)))"
proof -
  have len: "length ts = length reqs"
    and ok: "pool_ok plenty (fds reqs) (goal reqs T) T (ts, s')"
    using pool_ok_run [OF assms(4) pool_ok_launch [OF assms(1-3)]] assms(2) by (simp_all add: launch_def)
  have "\<not> htable_mutex s" using assms(1) by (auto simp: table_abs_def table_inv_def)
  then have mx: "mutex_ok (ts, s')" using mutex_run [OF assms(4) mutex_launch] by blast
  obtain LL where LL: "table_inv (unlock s') LL" "\<And>i. i < length ts \<Longrightarrow> thread_ok plenty (fds reqs i) (goal reqs T) s' LL (ts ! i)"
    "\<And>f. (\<forall>i < length ts. f \<notin> fds reqs i) \<Longrightarrow> states_of s' LL f = T f"
    using ok by (auto simp: pool_ok_def)
  have n: "n \<le> 7 * length (concat reqs)" using run_work [OF assms(4)] by (simp add: launch_work)
  show ?thesis
  proof (cases "\<exists>c. pool_step plenty (ts, s') c")
    case False
    have unl: "\<not> htable_mutex s'" and all: "\<forall>th \<in> set ts. th = (Idle, [])" using pool_done [OF ok mx False] by blast+
    then have fin: "ts ! i = (Idle, [])" if "i < length ts" for i using that by simp
    have "table_abs s' (states_of s' LL)"
      using LL(1) unl by (auto simp: table_abs_def unlock_free)
    moreover have "length (states_of s' LL f) = depth (concat (map ops_of (reqs ! i))) f (length (T f))"
      if "i < length reqs" "f \<in> req_fd ` set (reqs ! i)" for i f
      using LL(2) [of i] fin [of i] that len goal_owner [OF assms(2) that(1), of f T] plenty_state
      by (auto simp: thread_ok_def fds_def)
    moreover have "states_of s' LL f = T f" if "f \<notin> req_fd ` set (concat reqs)" for f
    proof -
      have "\<forall>i < length ts. f \<notin> fds reqs i" using that len nth_mem [of _ reqs] by (fastforce simp: fds_def)
      then show ?thesis by (rule LL(3))
    qed
    ultimately show ?thesis using n all by blast
  qed (use n in blast)
qed

lemma threads_finish_witness:
  "2 \<le> 7 * length (concat [[Untrack 5]]) \<and>
    (\<exists>c. pool_step plenty ([(Lookup_in (Untrack 5), [])], empty_table\<lparr>htable_mutex := True\<rparr>) c)"
proof -
  have "(Lookup_in (Untrack 5), [] :: req list) \<noteq> (Idle, [])" by simp
  then show ?thesis
    using threads_finish [OF table_abs_empty _ _ first_lookup [of plenty]] by (auto simp: apart_def)
qed

text \<open>
  Two threads with one descriptor: the second one finds its state, and before it goes on the
  first one closes the descriptor, which unlinks and frees that state.
\<close>

fun found :: "req \<Rightarrow> nat \<Rightarrow> pc" where
  "found (Consume f freed) e = Reading f e freed"
| "found r e = Dropping (req_fd r) e"

lemma finds_first:
  assumes "table_abs s T" and "0 \<le> req_fd r" and "T (req_fd r) = [e]" and "\<forall>f. r \<noteq> Track f"
  shows "schedule mal [1, 1, 1] ([t, (Idle, [r])], s) = Some ([t, (found r e, [])], s)"
proof -
  obtain LL where LL: "table_inv (unlock s) LL" "states_of s LL (req_fd r) = [e]" and unl: "\<not> htable_mutex s"
    using assms table_inv_unlocked by (auto simp: table_abs_def)
  have "advance mal (Lookup_in r) (s\<lparr>htable_mutex := True\<rparr>) = Some (found r e, s)"
    using find_state_inv [OF LL(1) assms(2)] LL(2) unl assms(4)
    by (cases r) (simp_all add: find_state_def unlock_free)
  then show ?thesis
    using unl assms(4) by (cases r) (simp_all add: pool_next_def enter_def del: advance.simps(6))
qed

text \<open>A request that ends with the descriptor forgotten: a close, or an answer that is read.\<close>

definition forgets :: "int \<Rightarrow> req \<Rightarrow> bool" where
  "forgets f r \<longleftrightarrow> r = Untrack f \<or> r = Consume f True"

text \<open>A request that looks the state of the descriptor up.\<close>

definition uses :: "int \<Rightarrow> req \<Rightarrow> bool" where
  "uses f r \<longleftrightarrow> r = Untrack f \<or> (\<exists>freed. r = Consume f freed)"

lemma closes_meanwhile:
  assumes "table_abs s T" and "0 \<le> f" and "T f = [e]" and "forgets f a"
  shows "\<exists>is q. schedule mal is ([(Idle, [a]), t], s) = Some ([(Idle, []), t], q) \<and>
    \<not> htable_mutex q \<and> elems (htable q) e = None"
proof -
  obtain LL where LL: "table_inv (unlock s) LL" "states_of s LL f = [e]" and unl: "\<not> htable_mutex s"
    using assms table_inv_unlocked by (auto simp: table_abs_def)
  let ?k = "s\<lparr>htable_mutex := True\<rparr>"
  have l: "advance mal (Lookup_in a) ?k = Some (found a e, s)"
    using find_state_inv [OF LL(1) assms(2)] LL(2) unl assms(4) by (auto simp: forgets_def find_state_def unlock_free)
  obtain h q where h: "LIST_REMOVE e (htable s) = Inr h" "free_block e (s\<lparr>htable := h\<rparr>) = Inr q"
    "\<not> htable_mutex q" "elems (htable q) e = None"
    using removed_and_freed [OF LL(1), of e f] LL(2) unl by auto
  have r: "unlock (?k\<lparr>htable := h\<rparr>) = s\<lparr>htable := h\<rparr>" using unl by (cases s) (simp add: unlock_def)
  have rm: "advance mal (Remove_in f e) ?k = Some (Freeing f e, s\<lparr>htable := h\<rparr>)"
    by (simp add: h(1) r)
  have "\<exists>is. schedule mal is ([(Idle, [a]), t], s) = Some ([(Dropping f e, []), t], s)"
  proof (cases "a = Untrack f")
    case True
    then have "schedule mal [0, 0, 0] ([(Idle, [a]), t], s) = Some ([(Dropping f e, []), t], s)"
      using unl l by (simp add: pool_next_def enter_def del: advance.simps(6))
    then show ?thesis by blast
  next
    case False
    then have a: "a = Consume f True" using assms(4) by (simp add: forgets_def)
    have "get_fd e s = Inr f"
      using table_abs_fd [OF assms(1), of e f] assms(3) by simp
    then have "schedule mal [0, 0, 0, 0] ([(Idle, [a]), t], s) = Some ([(Dropping f e, []), t], s)"
      using unl l a by (simp add: pool_next_def enter_def del: advance.simps(6))
    then show ?thesis by blast
  qed
  then obtain "is" where A: "schedule mal is ([(Idle, [a]), t], s) = Some ([(Dropping f e, []), t], s)" by blast
  have B: "schedule mal [0, 0, 0] ([(Dropping f e, []), t], s) = Some ([(Idle, []), t], q)"
    using unl h(2) rm by (simp add: pool_next_def enter_def del: advance.simps(9))
  have "schedule mal (is @ [0, 0, 0]) ([(Idle, [a]), t], s) = Some ([(Idle, []), t], q)"
    by (simp only: schedule_append [OF A] B)
  then show ?thesis using h(3,4) by blast
qed

text \<open>Where the second thread touches the freed state.\<close>

fun too_late :: "req \<Rightarrow> nat \<Rightarrow> pc" where
  "too_late (Consume f freed) e = Reading f e freed"
| "too_late r e = Remove_in (req_fd r) e"

text \<open>
  C28. Two threads that use one descriptor: whether the first one closes it or reads an answer on it,
  and whether the second one closes it or sends, receives or connects on it, there is a schedule
  in which the second one reads or unlinks a state that the first one has freed in the meantime,
  because the functions give up the mutex between finding the state and freeing it.
\<close>

theorem close_race:
  assumes "table_abs s T" and "0 \<le> f" and "T f = [e]" and "forgets f a" and "uses f b"
  shows "\<exists>n s'. pool_run mal n (launch [[a], [b]] s) ([(Idle, []), (Crashed (too_late b e) DeadBlock, [])], s')"
proof -
  let ?t = "(found b e, [] :: req list)"
  have A: "schedule mal [1, 1, 1] (launch [[a], [b]] s) = Some ([(Idle, [a]), ?t], s)"
    using finds_first [OF assms(1), of b e] assms(2,3,5) by (auto simp: uses_def launch_def simp del: schedule.simps)
  obtain "is" q where B: "schedule mal is ([(Idle, [a]), ?t], s) = Some ([(Idle, []), ?t], q)"
    "\<not> htable_mutex q" "elems (htable q) e = None" using closes_meanwhile [OF assms(1-4)] by blast
  have "LIST_REMOVE e (htable (q\<lparr>htable_mutex := True\<rparr>)) = Inl DeadBlock" "get_fd e q = Inl DeadBlock"
    using B(3) by (simp_all add: LIST_REMOVE_def get_fd_def get_elem_def)
  then have "\<exists>js s'. schedule mal js ([(Idle, []), ?t], q) = Some ([(Idle, []), (Crashed (too_late b e) DeadBlock, [])], s')"
  proof (cases "b = Untrack f")
    case True
    then have "schedule mal [1, 1] ([(Idle, []), ?t], q) =
        Some ([(Idle, []), (Crashed (too_late b e) DeadBlock, [])], q\<lparr>htable_mutex := True\<rparr>)"
      using B(2) \<open>LIST_REMOVE e _ = _\<close> by (simp add: pool_next_def enter_def)
    then show ?thesis by blast
  next
    case False
    then obtain freed where "b = Consume f freed" using assms(5) by (auto simp: uses_def)
    then have "schedule mal [1] ([(Idle, []), ?t], q) = Some ([(Idle, []), (Crashed (too_late b e) DeadBlock, [])], q)"
      using \<open>get_fd e q = _\<close> by (simp add: pool_next_def)
    then show ?thesis by blast
  qed
  then obtain js s' where C: "schedule mal js ([(Idle, []), ?t], q) = Some ([(Idle, []), (Crashed (too_late b e) DeadBlock, [])], s')"
    by blast
  have "schedule mal ([1, 1, 1] @ is @ js) (launch [[a], [b]] s) = Some ([(Idle, []), (Crashed (too_late b e) DeadBlock, [])], s')"
    by (simp only: schedule_append [OF A] schedule_append [OF B(1)] C)
  from schedule_run [OF this] show ?thesis by blast
qed

text \<open>A table with one descriptor.\<close>

lemma one_state: "\<exists>s :: tstate. table_abs s ((\<lambda>f. [])(5 := [1]))"
proof -
  have "nextb (memory empty_table) = 1" by (simp add: empty_table_def mem_of_def)
  then show ?thesis
    using table_abs_alloc [OF table_abs_empty, of 5 plenty] plenty_state by (auto simp: numeral_eq_Suc)
qed

lemma close_race_witness:
  "\<exists>s n s'. pool_run plenty n (launch [[Consume 5 True], [Untrack 5]] s)
    ([(Idle, []), (Crashed (Remove_in 5 1) DeadBlock, [])], s')"
proof -
  obtain s :: tstate where "table_abs s ((\<lambda>f. [])(5 := [1]))" using one_state by blast
  from close_race [OF this, of 5 1 "Consume 5 True" "Untrack 5" plenty] show ?thesis
    by (auto simp: forgets_def uses_def simp del: One_nat_def)
qed

text \<open>
  Without other threads the steps are the functions they were cut from: the state they
  leave, the fault they end in, or that they never end, is that of \<open>_alloc\<close>, of \<open>_free\<close>, or of
  the lookup, the reading of the descriptor and the release in \<open>connect\<close>, \<open>recv\<close> and \<open>send\<close>.
\<close>

theorem alone_sequential:
  assumes "\<not> htable_mutex s"
  shows "outcome (run_alone mal 6 (Start r) s) (sequential mal r s)"
proof (cases r)
  case (Track f)
  then show ?thesis using alone_alloc [OF assms, of mal 3 f] by (simp add: numeral_eq_Suc)
next
  case (Untrack f)
  then show ?thesis using alone_untrack [OF assms, of 4 mal f] by (simp add: numeral_eq_Suc)
next
  case (Consume f freed)
  then show ?thesis using alone_consume [OF assms, of 4 mal f freed] by (simp add: numeral_eq_Suc)
qed

lemma alone_sequential_witness:
  "outcome (run_alone plenty 6 (Start (Untrack (-1))) empty_table) (fail OutOfBounds)"
proof -
  have "\<not> htable_mutex empty_table" by (simp add: empty_table_def)
  moreover have "table_free (-1) empty_table = fail OutOfBounds"
    by (simp add: table_free_def table_lookup_def lock_def bucket_def hash_def empty_table_def
        signed_modulo_int_def NUM_BUCKETS_def)
  ultimately show ?thesis using alone_sequential [of empty_table plenty "Untrack (-1)"] by simp
qed

end
