(* ===== verification/BsdSlist.thy ===== *)
theory BsdSlist
  imports BsdList QueueLoops
begin

text \<open>
  The singly linked lists of \<open>lib_convert/bsd_queue.h\<close> (the SLIST macros). The first section
  states the chains of forward pointers that these lists share with the singly linked tail
  queues, and how they change when links are written; the second has the macros; the third
  shows what each of them does to the lists of a heap.
\<close>

section \<open>Chains of forward pointers\<close>

text \<open>
  \<open>chain nx f es v\<close>: from the pointer \<open>f\<close>, the forward pointers \<open>nx\<close> of the live elements
  lead through \<open>es\<close> to the pointer \<open>v\<close>.
\<close>

fun chain :: "(nat \<rightharpoonup> nat option) \<Rightarrow> nat option \<Rightarrow> nat list \<Rightarrow> nat option \<Rightarrow> bool" where
  "chain nx f [] v \<longleftrightarrow> f = v"
| "chain nx f (e # es) v \<longleftrightarrow> f = Some e \<and>
     (case nx e of None \<Rightarrow> False | Some n \<Rightarrow> chain nx n es v)"

lemma chain_append: "chain nx f (xs @ ys) v \<longleftrightarrow> (\<exists>u. chain nx f xs u \<and> chain nx u ys v)"
  by (induction xs arbitrary: f) (auto split: option.splits)

lemma chain_cong: "(\<And>e. e \<in> set es \<Longrightarrow> nx' e = nx e) \<Longrightarrow> chain nx' f es v = chain nx f es v"
  by (induction es arbitrary: f) (auto split: option.splits)

lemma chain_upd [simp]: "e \<notin> set es \<Longrightarrow> chain (nx(e := w)) f es v = chain nx f es v"
  by (rule chain_cong) auto

lemma chain_live: "chain nx f es v \<Longrightarrow> e \<in> set es \<Longrightarrow> nx e \<noteq> None"
  by (induction es arbitrary: f) (auto split: option.splits)

lemma chain_unique: "chain nx f es None \<Longrightarrow> chain nx f es' None \<Longrightarrow> es = es'"
  by (induction es arbitrary: f es') (case_tac es'; auto split: option.splits)+

text \<open>\<open>chains hs nx LL\<close>: the \<open>i\<close>-th head starts the list \<open>LL ! i\<close>, and the lists are separate.\<close>

definition chains :: "nat option list \<Rightarrow> (nat \<rightharpoonup> nat option) \<Rightarrow> nat list list \<Rightarrow> bool" where
  "chains hs nx LL \<longleftrightarrow> length LL = length hs \<and> separate LL \<and>
     (\<forall>i < length LL. chain nx (hs ! i) (LL ! i) None)"

lemma chains_nth: "chains hs nx LL \<Longrightarrow> i < length LL \<Longrightarrow> chain nx (hs ! i) (LL ! i) None"
  by (simp add: chains_def)

lemma chains_distinct: "chains hs nx LL \<Longrightarrow> i < length LL \<Longrightarrow> distinct (LL ! i)"
  by (simp add: chains_def separate_def)

lemma chains_apart:
  "chains hs nx LL \<Longrightarrow> i < length LL \<Longrightarrow> j < length LL \<Longrightarrow> i \<noteq> j \<Longrightarrow> e \<in> set (LL ! i) \<Longrightarrow> e \<notin> set (LL ! j)"
  unfolding chains_def separate_def by blast

lemma chains_live: "chains hs nx LL \<Longrightarrow> e \<in> members LL \<Longrightarrow> nx e \<noteq> None"
  unfolding members_iff by (blast dest: chains_nth chain_live)

lemma chains_unique: "chains hs nx LL \<Longrightarrow> chains hs nx LL' \<Longrightarrow> LL = LL'"
  by (rule nth_equalityI) (metis chains_def, metis chains_def chain_unique)

lemma chains_empty_iff: "chains hs nx LL \<Longrightarrow> i < length LL \<Longrightarrow> hs ! i = None \<longleftrightarrow> LL ! i = []"
  using chains_nth [of hs nx LL i] by (cases "LL ! i") auto

lemma chains_frame:
  assumes "chains hs nx LL" and "\<And>e. e \<in> members LL \<Longrightarrow> nx' e = nx e"
  shows "chains hs nx' LL"
proof -
  have "chain nx' (hs ! i) (LL ! i) None" if "i < length LL" for i
    using chains_nth [OF assms(1) that] assms(2) [OF membersI [OF that]] chain_cong [of "LL ! i" nx' nx] by simp
  then show ?thesis using assms(1) by (simp add: chains_def)
qed

text \<open>One list changes; the elements of the others keep their links.\<close>

lemma chains_update:
  assumes "chains hs nx LL" and "i < length LL"
    and new: "chain nx' v es None" "distinct es"
    and frame: "\<And>e. e \<in> members LL \<Longrightarrow> e \<notin> set (LL ! i) \<Longrightarrow> nx' e = nx e"
    and apart: "\<And>e. e \<in> set es \<Longrightarrow> e \<in> set (LL ! i) \<or> e \<notin> members LL"
  shows "chains (hs[i := v]) nx' (LL[i := es])"
proof -
  have other: "e \<notin> set (LL ! i)" "e \<in> members LL" if "e \<in> set (LL ! j)" "j < length LL" "j \<noteq> i" for e j
    using chains_apart [OF assms(1) that(2) assms(2) that(3,1)] membersI [OF that(2,1)] by auto
  have "chain nx' (hs[i := v] ! j) (LL[i := es] ! j) None" if j: "j < length LL" for j
  proof (cases "j = i")
    case False
    have "chain nx' (hs ! j) (LL ! j) None = chain nx (hs ! j) (LL ! j) None"
      by (rule chain_cong) (use other [OF _ j False] frame in blast)
    then show ?thesis using chains_nth [OF assms(1) j] False by simp
  qed (use assms(1,2) new in \<open>simp add: chains_def\<close>)
  moreover have "separate (LL[i := es])"
  proof -
    have "set es \<inter> set (LL ! j) = {}" if "j < length LL" "j \<noteq> i" for j
      using other [OF _ that] apart by blast
    then show ?thesis using assms(1,2) new(2) by (auto simp: chains_def separate_def nth_list_update)
  qed
  ultimately show ?thesis using assms(1) by (simp add: chains_def)
qed

text \<open>The four ways a single list changes when links are written.\<close>

lemma chains_insert_head:
  assumes "chains hs nx LL" and "i < length LL" and "e \<notin> members LL"
  shows "chains (hs[i := Some e]) (nx(e \<mapsto> hs ! i)) (LL[i := e # LL ! i])"
proof -
  have "e \<notin> set (LL ! i)" using assms membersI by blast
  then show ?thesis
    using assms chains_nth chains_distinct by (intro chains_update [OF assms(1,2)]) auto
qed

lemma chains_insert_after:
  assumes c: "chains hs nx LL" "i < length LL" and es: "LL ! i = xs @ b # ys"
    and "e \<notin> members LL" and "nx b = Some n"
  shows "chains hs (nx(e \<mapsto> n, b \<mapsto> Some e)) (LL[i := xs @ b # e # ys])"
proof -
  have d: "distinct (xs @ b # ys)" using chains_distinct [OF c] es by simp
  have f: "e \<notin> set (xs @ b # ys)" using membersI [OF c(2), of e] es assms(4) by auto
  have "chain nx (hs ! i) (xs @ b # ys) None" using chains_nth [OF c] es by simp
  then have "chain (nx(e \<mapsto> n, b \<mapsto> Some e)) (hs ! i) (xs @ b # e # ys) None"
    using d f assms(5) by (auto simp: chain_append)
  then have "chains (hs[i := hs ! i]) (nx(e \<mapsto> n, b \<mapsto> Some e)) (LL[i := xs @ b # e # ys])"
    using d f es assms(4) by (intro chains_update [OF c]) auto
  then show ?thesis by simp
qed

lemma chains_remove_after:
  assumes c: "chains hs nx LL" "i < length LL" and es: "LL ! i = xs @ b # e # ys" and "nx e = Some n"
  shows "chains hs (nx(b \<mapsto> n)) (LL[i := xs @ b # ys])"
proof -
  have d: "distinct (xs @ b # e # ys)" using chains_distinct [OF c] es by simp
  have "chain nx (hs ! i) (xs @ b # e # ys) None" using chains_nth [OF c] es by simp
  then have "chain (nx(b \<mapsto> n)) (hs ! i) (xs @ b # ys) None"
    using d assms(4) by (auto simp: chain_append split: option.splits)
  then have "chains (hs[i := hs ! i]) (nx(b \<mapsto> n)) (LL[i := xs @ b # ys])"
    using d es by (intro chains_update [OF c]) auto
  then show ?thesis by simp
qed

lemma chains_remove_head:
  assumes c: "chains hs nx LL" "i < length LL" and es: "LL ! i = e # ys" and "nx e = Some n"
  shows "chains (hs[i := n]) nx (LL[i := ys])"
  using chains_nth [OF c] chains_distinct [OF c] es assms(4) by (intro chains_update [OF c]) auto

lemma chains_swap:
  assumes "chains hs nx LL" and "i < length LL" and "j < length LL"
  shows "chains (hs[i := hs ! j, j := hs ! i]) nx (LL[i := LL ! j, j := LL ! i])"
  using assms separate_swap [OF _ assms(2,3)] by (auto simp: chains_def nth_list_update)

section \<open>Elements, heads and macros\<close>

text \<open>
  An element fresh from \<open>malloc\<close> has some indeterminate \<open>sle_next\<close>. Functions that take an
  element pointer which the macro dereferences take the element; pointers that may be null
  are options.
\<close>

record 'a selem =
  sle_next :: "nat option"
  sl_content :: 'a            \<comment> \<open>the other members of the struct\<close>

record 'a sheap =
  sl_heads :: "nat option list"
  sl_elems :: "nat \<rightharpoonup> 'a selem"

definition get_selem :: "'a sheap \<Rightarrow> nat \<Rightarrow> fault + 'a selem" where
  "get_selem h e = (case sl_elems h e of None \<Rightarrow> Inl DeadBlock | Some x \<Rightarrow> Inr x)"

definition set_sle_next :: "nat \<Rightarrow> nat option \<Rightarrow> 'a sheap \<Rightarrow> fault + 'a sheap" where
  "set_sle_next e v h =
     bindE (get_selem h e) (\<lambda>x. Inr (h\<lparr>sl_elems := (sl_elems h)(e \<mapsto> x\<lparr>sle_next := v\<rparr>)\<rparr>))"

definition set_slh_first :: "nat \<Rightarrow> nat option \<Rightarrow> 'a sheap \<Rightarrow> fault + 'a sheap" where
  "set_slh_first i v h =
     (if i < length (sl_heads h) then Inr (h\<lparr>sl_heads := (sl_heads h)[i := v]\<rparr>) else Inl OutOfBounds)"

definition SLIST_FIRST :: "'a sheap \<Rightarrow> nat \<Rightarrow> fault + nat option" where
  "SLIST_FIRST h i = (if i < length (sl_heads h) then Inr (sl_heads h ! i) else Inl OutOfBounds)"

definition SLIST_EMPTY :: "'a sheap \<Rightarrow> nat \<Rightarrow> fault + bool" where
  "SLIST_EMPTY h i = bindE (SLIST_FIRST h i) (\<lambda>first. Inr (first = None))"

definition SLIST_NEXT :: "'a sheap \<Rightarrow> nat \<Rightarrow> fault + nat option" where
  "SLIST_NEXT h e = bindE (get_selem h e) (\<lambda>x. Inr (sle_next x))"

definition SLIST_INIT :: "nat \<Rightarrow> 'a sheap \<Rightarrow> fault + 'a sheap" where
  "SLIST_INIT i h = set_slh_first i None h"

definition SLIST_INSERT_AFTER :: "nat \<Rightarrow> nat \<Rightarrow> 'a sheap \<Rightarrow> fault + 'a sheap" where
  "SLIST_INSERT_AFTER slistelm elm h =
     bindE (SLIST_NEXT h slistelm) (\<lambda>n.
     bindE (set_sle_next elm n h) (\<lambda>h.
     set_sle_next slistelm (Some elm) h))"

definition SLIST_INSERT_HEAD :: "nat \<Rightarrow> nat \<Rightarrow> 'a sheap \<Rightarrow> fault + 'a sheap" where
  "SLIST_INSERT_HEAD i elm h =
     bindE (SLIST_FIRST h i) (\<lambda>first.
     bindE (set_sle_next elm first h) (\<lambda>h.
     set_slh_first i (Some elm) h))"

definition SLIST_REMOVE_AFTER :: "nat \<Rightarrow> 'a sheap \<Rightarrow> fault + 'a sheap" where
  "SLIST_REMOVE_AFTER elm h =
     bindE (SLIST_NEXT h elm) (\<lambda>n. case n of
       None \<Rightarrow> Inl NullDeref
     | Some e \<Rightarrow> bindE (SLIST_NEXT h e) (\<lambda>n'. set_sle_next elm n' h))"

definition SLIST_REMOVE_HEAD :: "nat \<Rightarrow> 'a sheap \<Rightarrow> fault + 'a sheap" where
  "SLIST_REMOVE_HEAD i h =
     bindE (SLIST_FIRST h i) (\<lambda>first. case first of
       None \<Rightarrow> Inl NullDeref
     | Some e \<Rightarrow> bindE (SLIST_NEXT h e) (\<lambda>n. set_slh_first i n h))"

definition SLIST_REMOVE :: "nat \<Rightarrow> nat \<Rightarrow> 'a sheap \<Rightarrow> 'a sheap run" where
  "SLIST_REMOVE i elm h =
     (case SLIST_FIRST h i of
        Inl f \<Rightarrow> fail f
      | Inr first \<Rightarrow>
          (if first = Some elm then Some (SLIST_REMOVE_HEAD i h)
           else bindR (find_before SLIST_NEXT h elm first) (\<lambda>curelm.
             Some (SLIST_REMOVE_AFTER curelm h))))"

definition SLIST_SWAP :: "nat \<Rightarrow> nat \<Rightarrow> 'a sheap \<Rightarrow> fault + 'a sheap" where
  "SLIST_SWAP i j h =
     bindE (SLIST_FIRST h i) (\<lambda>swap_first.
     bindE (SLIST_FIRST h j) (\<lambda>other.
     bindE (set_slh_first i other h) (\<lambda>h.
     set_slh_first j swap_first h)))"

subsection \<open>Traversals\<close>

definition SLIST_FOREACH ::
  "(nat \<Rightarrow> 'a sheap \<Rightarrow> fault + 'a sheap \<times> 'r option) \<Rightarrow> nat \<Rightarrow> 'a sheap \<Rightarrow> ('a sheap \<times> (nat \<times> 'r) option) run"
where
  "SLIST_FOREACH body i h = loop_from (SLIST_FIRST h i) (each SLIST_NEXT body h)"

definition SLIST_FOREACH_FROM ::
  "nat option \<Rightarrow> (nat \<Rightarrow> 'a sheap \<Rightarrow> fault + 'a sheap \<times> 'r option) \<Rightarrow> nat \<Rightarrow> 'a sheap \<Rightarrow> ('a sheap \<times> (nat \<times> 'r) option) run"
where
  "SLIST_FOREACH_FROM var body i h =
     loop_from (start_at var (SLIST_FIRST h i)) (each SLIST_NEXT body h)"

definition SLIST_FOREACH_SAFE ::
  "(nat \<Rightarrow> 'a sheap \<Rightarrow> fault + 'a sheap \<times> 'r option) \<Rightarrow> nat \<Rightarrow> 'a sheap \<Rightarrow> ('a sheap \<times> (nat \<times> 'r) option) run"
where
  "SLIST_FOREACH_SAFE body i h = loop_from (SLIST_FIRST h i) (each_safe SLIST_NEXT body h)"

definition SLIST_FOREACH_FROM_SAFE ::
  "nat option \<Rightarrow> (nat \<Rightarrow> 'a sheap \<Rightarrow> fault + 'a sheap \<times> 'r option) \<Rightarrow> nat \<Rightarrow> 'a sheap \<Rightarrow> ('a sheap \<times> (nat \<times> 'r) option) run"
where
  "SLIST_FOREACH_FROM_SAFE var body i h =
     loop_from (start_at var (SLIST_FIRST h i)) (each_safe SLIST_NEXT body h)"

text \<open>\<open>*varp\<close>, read and written, where \<open>varp\<close> is the address of a head or of an \<open>sle_next\<close>.\<close>

fun load_sl :: "'a sheap \<Rightarrow> link \<Rightarrow> fault + nat option" where
  "load_sl h Nowhere = Inl WildPointer"
| "load_sl h (HeadOf i) = SLIST_FIRST h i"
| "load_sl h (NextOf e) = SLIST_NEXT h e"

fun store_sl :: "link \<Rightarrow> nat option \<Rightarrow> 'a sheap \<Rightarrow> fault + 'a sheap" where
  "store_sl Nowhere v h = Inl WildPointer"
| "store_sl (HeadOf i) v h = set_slh_first i v h"
| "store_sl (NextOf e) v h = set_sle_next e v h"

text \<open>
  The loop of \<open>SLIST_FOREACH_PREVPTR\<close>: the body also gets the address of the pointer to the
  element.
\<close>

partial_function (option) each_prevptr ::
  "(nat \<Rightarrow> link \<Rightarrow> 'a sheap \<Rightarrow> fault + 'a sheap \<times> 'r option) \<Rightarrow> 'a sheap \<Rightarrow> link \<Rightarrow>
   ('a sheap \<times> (nat \<times> 'r) option) run"
where
  "each_prevptr body h varp =
     (case load_sl h varp of
        Inl f \<Rightarrow> fail f
      | Inr var \<Rightarrow> (case var of
          None \<Rightarrow> return (h, None)
        | Some e \<Rightarrow> (case body e varp h of
            Inl f \<Rightarrow> fail f
          | Inr q \<Rightarrow> (case snd q of
              Some r \<Rightarrow> return (fst q, Some (e, r))
            | None \<Rightarrow> each_prevptr body (fst q) (NextOf e)))))"

definition SLIST_FOREACH_PREVPTR ::
  "(nat \<Rightarrow> link \<Rightarrow> 'a sheap \<Rightarrow> fault + 'a sheap \<times> 'r option) \<Rightarrow> nat \<Rightarrow> 'a sheap \<Rightarrow> ('a sheap \<times> (nat \<times> 'r) option) run"
where
  "SLIST_FOREACH_PREVPTR body i h = each_prevptr body h (HeadOf i)"

section \<open>The macros on the lists of a heap\<close>

definition nexts :: "'a sheap \<Rightarrow> nat \<Rightarrow> nat option option" where
  "nexts h e = map_option sle_next (sl_elems h e)"

definition sl_cont :: "'a sheap \<Rightarrow> nat \<Rightarrow> 'a option" where
  "sl_cont h e = map_option sl_content (sl_elems h e)"

definition slists :: "'a sheap \<Rightarrow> nat list list \<Rightarrow> bool" where
  "slists h LL \<longleftrightarrow> chains (sl_heads h) (nexts h) LL"

lemma SLIST_NEXT_eq: "SLIST_NEXT h e = (case nexts h e of None \<Rightarrow> Inl DeadBlock | Some n \<Rightarrow> Inr n)"
  by (simp add: SLIST_NEXT_def get_selem_def nexts_def split: option.splits)

lemma nexts_heads [simp]: "nexts (h\<lparr>sl_heads := hs\<rparr>) = nexts h"
  by (simp add: nexts_def fun_eq_iff)

lemma nexts_live: "nexts h e = None \<longleftrightarrow> sl_cont h e = None"
  by (simp add: nexts_def sl_cont_def)

lemma set_sle_next_ok:
  assumes "nexts h e \<noteq> None"
  shows "\<exists>h'. set_sle_next e v h = Inr h' \<and> sl_heads h' = sl_heads h \<and>
    nexts h' = (nexts h)(e \<mapsto> v) \<and> sl_cont h' = sl_cont h"
  using assms by (auto simp: set_sle_next_def get_selem_def nexts_def sl_cont_def fun_eq_iff)

lemma set_slh_first_ok:
  assumes "i < length (sl_heads h)"
  shows "\<exists>h'. set_slh_first i v h = Inr h' \<and> sl_heads h' = (sl_heads h)[i := v] \<and>
    nexts h' = nexts h \<and> sl_cont h' = sl_cont h"
  using assms by (auto simp: set_slh_first_def nexts_def sl_cont_def fun_eq_iff)

lemma slists_length: "slists h LL \<Longrightarrow> length (sl_heads h) = length LL"
  by (simp add: slists_def chains_def)

lemma SLIST_FIRST_ok: "slists h LL \<Longrightarrow> i < length LL \<Longrightarrow> SLIST_FIRST h i = Inr (sl_heads h ! i)"
  by (simp add: SLIST_FIRST_def slists_length)

lemma slists_walk: "chain (nexts h) v es None \<Longrightarrow> walk SLIST_NEXT h v es"
  by (induction es arbitrary: v) (auto simp: SLIST_NEXT_eq split: option.splits)

lemma slists_chain: "slists h LL \<Longrightarrow> i < length LL \<Longrightarrow> chain (nexts h) (sl_heads h ! i) (LL ! i) None"
  unfolding slists_def by (rule chains_nth)

lemma slists_distinct: "slists h LL \<Longrightarrow> i < length LL \<Longrightarrow> distinct (LL ! i)"
  unfolding slists_def by (rule chains_distinct)

lemma slists_walk_list: "slists h LL \<Longrightarrow> i < length LL \<Longrightarrow> walk SLIST_NEXT h (sl_heads h ! i) (LL ! i)"
  using slists_walk slists_chain by blast

interpretation sl: linked slists SLIST_FIRST SLIST_NEXT
  by unfold_locales (use SLIST_FIRST_ok slists_walk_list slists_distinct in blast)+

lemma SLIST_EMPTY_slists: "slists h LL \<Longrightarrow> i < length LL \<Longrightarrow> SLIST_EMPTY h i = Inr (LL ! i = [])"
  using chains_empty_iff by (fastforce simp: SLIST_EMPTY_def SLIST_FIRST_ok slists_def)

lemma SLIST_INIT_slists:
  assumes "slists h LL" and "i < length LL"
  shows "\<exists>h'. SLIST_INIT i h = Inr h' \<and> slists h' (LL[i := []]) \<and> sl_cont h' = sl_cont h"
proof -
  have "chains ((sl_heads h)[i := None]) (nexts h) (LL[i := []])"
    using assms unfolding slists_def by (rule chains_update) auto
  then show ?thesis
    using set_slh_first_ok [of i h None] assms slists_length [OF assms(1)]
    by (auto simp: SLIST_INIT_def slists_def)
qed

lemma SLIST_INSERT_HEAD_slists:
  assumes "slists h LL" and "i < length LL" and "e \<notin> members LL" and "sl_cont h e \<noteq> None"
  shows "\<exists>h'. SLIST_INSERT_HEAD i e h = Inr h' \<and> slists h' (LL[i := e # LL ! i]) \<and> sl_cont h' = sl_cont h"
proof -
  obtain h1 where h1: "set_sle_next e (sl_heads h ! i) h = Inr h1" "sl_heads h1 = sl_heads h"
      "nexts h1 = (nexts h)(e \<mapsto> sl_heads h ! i)" "sl_cont h1 = sl_cont h"
    using set_sle_next_ok [of h e] assms(4) by (auto simp: nexts_live)
  obtain h2 where h2: "set_slh_first i (Some e) h1 = Inr h2" "sl_heads h2 = (sl_heads h)[i := Some e]"
      "nexts h2 = (nexts h)(e \<mapsto> sl_heads h ! i)" "sl_cont h2 = sl_cont h"
    using set_slh_first_ok [of i h1] slists_length [OF assms(1)] assms(2) h1 by auto
  show ?thesis
    using chains_insert_head [of "sl_heads h" "nexts h" LL i e] assms h1(1) h2
    by (simp add: SLIST_INSERT_HEAD_def SLIST_FIRST_ok slists_def)
qed

lemma SLIST_INSERT_AFTER_slists:
  assumes "slists h LL" and "i < length LL" and "LL ! i = xs @ b # ys"
    and "e \<notin> members LL" and "sl_cont h e \<noteq> None"
  shows "\<exists>h'. SLIST_INSERT_AFTER b e h = Inr h' \<and> slists h' (LL[i := xs @ b # e # ys]) \<and> sl_cont h' = sl_cont h"
proof -
  have "b \<in> members LL" using assms(3) membersI [OF assms(2)] by simp
  then obtain n where n: "nexts h b = Some n"
    using assms(1) chains_live by (fastforce simp: slists_def)
  obtain h1 where h1: "set_sle_next e n h = Inr h1" "sl_heads h1 = sl_heads h"
      "nexts h1 = (nexts h)(e \<mapsto> n)" "sl_cont h1 = sl_cont h"
    using set_sle_next_ok [of h e] assms(5) by (auto simp: nexts_live)
  have "nexts h1 b \<noteq> None" using h1(3) n by simp
  from set_sle_next_ok [OF this, of "Some e"]
  obtain h2 where h2: "set_sle_next b (Some e) h1 = Inr h2" "sl_heads h2 = sl_heads h"
      "nexts h2 = (nexts h)(e \<mapsto> n, b \<mapsto> Some e)" "sl_cont h2 = sl_cont h"
    using h1 by auto
  have "chains (sl_heads h) ((nexts h)(e \<mapsto> n, b \<mapsto> Some e)) (LL[i := xs @ b # e # ys])"
    by (rule chains_insert_after) (use assms n in \<open>simp_all add: slists_def\<close>)
  then show ?thesis
    using h1(1) h2 n by (simp add: SLIST_INSERT_AFTER_def SLIST_NEXT_eq slists_def)
qed

lemma SLIST_REMOVE_AFTER_slists:
  assumes "slists h LL" and "i < length LL" and "LL ! i = xs @ b # e # ys"
  shows "\<exists>h'. SLIST_REMOVE_AFTER b h = Inr h' \<and> slists h' (LL[i := xs @ b # ys]) \<and> sl_cont h' = sl_cont h"
proof -
  have "chain (nexts h) (sl_heads h ! i) (xs @ b # e # ys) None"
    using slists_chain [OF assms(1,2)] assms(3) by simp
  then obtain n where n: "nexts h b = Some (Some e)" "nexts h e = Some n"
    by (auto simp: chain_append split: option.splits)
  obtain h1 where h1: "set_sle_next b n h = Inr h1" "sl_heads h1 = sl_heads h"
      "nexts h1 = (nexts h)(b \<mapsto> n)" "sl_cont h1 = sl_cont h"
    using set_sle_next_ok [of h b n] n by auto
  have "chains (sl_heads h) ((nexts h)(b \<mapsto> n)) (LL[i := xs @ b # ys])"
    by (rule chains_remove_after) (use assms n in \<open>simp_all add: slists_def\<close>)
  then show ?thesis using h1 n by (simp add: SLIST_REMOVE_AFTER_def SLIST_NEXT_eq slists_def)
qed

lemma SLIST_REMOVE_HEAD_slists:
  assumes "slists h LL" and "i < length LL" and "LL ! i = e # ys"
  shows "\<exists>h'. SLIST_REMOVE_HEAD i h = Inr h' \<and> slists h' (LL[i := ys]) \<and> sl_cont h' = sl_cont h"
proof -
  obtain n where n: "sl_heads h ! i = Some e" "nexts h e = Some n"
    using slists_chain [OF assms(1,2)] assms(3) by (auto split: option.splits)
  obtain h1 where h1: "set_slh_first i n h = Inr h1" "sl_heads h1 = (sl_heads h)[i := n]"
      "nexts h1 = nexts h" "sl_cont h1 = sl_cont h"
    using set_slh_first_ok [of i h n] slists_length [OF assms(1)] assms(2) by auto
  have "chains ((sl_heads h)[i := n]) (nexts h) (LL[i := ys])"
    by (rule chains_remove_head) (use assms n in \<open>simp_all add: slists_def\<close>)
  then show ?thesis
    using h1 n SLIST_FIRST_ok [OF assms(1,2)] by (simp add: SLIST_REMOVE_HEAD_def SLIST_NEXT_eq slists_def)
qed

lemma SLIST_REMOVE_HEAD_empty:
  assumes "slists h LL" and "i < length LL" and "LL ! i = []"
  shows "SLIST_REMOVE_HEAD i h = Inl NullDeref"
  using slists_chain [OF assms(1,2)] assms SLIST_FIRST_ok [OF assms(1,2)] by (simp add: SLIST_REMOVE_HEAD_def)

lemma SLIST_REMOVE_present:
  assumes "slists h LL" and "i < length LL" and "e \<in> set (LL ! i)"
  shows "\<exists>h'. SLIST_REMOVE i e h = return h' \<and> slists h' (LL[i := remove1 e (LL ! i)]) \<and> sl_cont h' = sl_cont h"
proof -
  obtain xs ys where es: "LL ! i = xs @ e # ys" "e \<notin> set xs" using split_list_first [OF assms(3)] by blast
  show ?thesis
  proof (cases xs rule: rev_cases)
    case Nil
    then show ?thesis
      using SLIST_REMOVE_HEAD_slists [OF assms(1,2), of e ys] es(1) sl.first_nth [OF assms(1,2)]
      by (auto simp: SLIST_REMOVE_def)
  next
    case (snoc xs' b)
    then show ?thesis
      using SLIST_REMOVE_AFTER_slists [OF assms(1,2), of xs' b e ys] es
        sl.search_present [OF assms(1,2), of xs' b e ys]
      by (auto simp: SLIST_REMOVE_def remove1_append)
  qed
qed

lemma SLIST_REMOVE_absent:
  assumes "slists h LL" and "i < length LL" and "e \<notin> set (LL ! i)"
  shows "SLIST_REMOVE i e h = fail NullDeref"
  using sl.search_absent [OF assms] by (auto simp: SLIST_REMOVE_def)

lemma SLIST_SWAP_slists:
  assumes "slists h LL" and "i < length LL" and "j < length LL"
  shows "\<exists>h'. SLIST_SWAP i j h = Inr h' \<and> slists h' (LL[i := LL ! j, j := LL ! i]) \<and> sl_cont h' = sl_cont h"
proof -
  note l = slists_length [OF assms(1)]
  obtain h1 where h1: "set_slh_first i (sl_heads h ! j) h = Inr h1"
      "sl_heads h1 = (sl_heads h)[i := sl_heads h ! j]" "nexts h1 = nexts h" "sl_cont h1 = sl_cont h"
    using set_slh_first_ok [of i h "sl_heads h ! j"] l assms(2) by auto
  obtain h2 where h2: "set_slh_first j (sl_heads h ! i) h1 = Inr h2"
      "sl_heads h2 = (sl_heads h1)[j := sl_heads h ! i]" "nexts h2 = nexts h" "sl_cont h2 = sl_cont h"
    using set_slh_first_ok [of j h1 "sl_heads h ! i"] l assms(3) h1 by auto
  show ?thesis
    using chains_swap [of "sl_heads h" "nexts h" LL i j] assms h1 h2
    by (simp add: SLIST_SWAP_def SLIST_FIRST_ok slists_def)
qed

section \<open>Traversals of a list\<close>

lemma SLIST_FOREACH_SAFE_visits:
  assumes "slists h LL" and "i < length LL"
    and "\<And>h h' r e a. body e h = Inr (h', r) \<Longrightarrow> a \<noteq> e \<Longrightarrow> nexts h' a = nexts h a"
  shows "SLIST_FOREACH_SAFE body i h = Some (visit body h (LL ! i))"
  unfolding SLIST_FOREACH_SAFE_def
  by (rule sl.visits_safe [OF assms(1,2)]) (simp add: SLIST_NEXT_eq assms(3))

text \<open>The usual body of a safe loop, \<open>free(var)\<close>.\<close>

definition free_selem :: "nat \<Rightarrow> 'a sheap \<Rightarrow> fault + 'a sheap \<times> unit option" where
  "free_selem e h = (if sl_elems h e = None then Inl BadFree
     else Inr (h\<lparr>sl_elems := (sl_elems h)(e := None)\<rparr>, None))"

lemma free_selem_nexts: "free_selem e h = Inr (h', r) \<Longrightarrow> a \<noteq> e \<Longrightarrow> nexts h' a = nexts h a"
  by (auto simp: free_selem_def nexts_def split: if_splits)

lemma visit_free:
  assumes "distinct es" and "\<And>e. e \<in> set es \<Longrightarrow> sl_elems h e \<noteq> None"
  shows "visit free_selem h es =
    Inr (h\<lparr>sl_elems := (\<lambda>e. if e \<in> set es then None else sl_elems h e)\<rparr>, None)"
  using assms
proof (induction es arbitrary: h)
  case (Cons e es)
  let ?h = "h\<lparr>sl_elems := (sl_elems h)(e := None)\<rparr>"
  have "visit free_selem ?h es =
    Inr (?h\<lparr>sl_elems := (\<lambda>a. if a \<in> set es then None else sl_elems ?h a)\<rparr>, None)"
    using Cons.prems by (intro Cons.IH) auto
  moreover have "free_selem e h = Inr (?h, None)"
    using Cons.prems(2) [of e] by (simp add: free_selem_def)
  moreover have "(\<lambda>a. if a \<in> set es then None else sl_elems ?h a) =
      (\<lambda>a. if a \<in> set (e # es) then None else sl_elems h a)"
    by auto
  ultimately show ?case by simp
qed simp

text \<open>
  The usual body of a \<open>PREVPTR\<close> loop: at the first element that matches, store its successor
  where the pointer to it is, and break.
\<close>

definition unlink_match :: "('a \<Rightarrow> bool) \<Rightarrow> nat \<Rightarrow> link \<Rightarrow> 'a sheap \<Rightarrow> fault + 'a sheap \<times> unit option" where
  "unlink_match P e varp h =
     bindE (get_selem h e) (\<lambda>x.
       if P (sl_content x) then bindE (store_sl varp (sle_next x) h) (\<lambda>h. Inr (h, Some ()))
       else Inr (h, None))"

lemma each_prevptr_unlinks:
  assumes "load_sl h varp = Inr v" and "walk SLIST_NEXT h v (xs @ e # ys)"
    and "\<forall>a \<in> set xs. \<forall>c. sl_cont h a = Some c \<longrightarrow> \<not> P c"
    and "sl_cont h e = Some c" and "P c" and "SLIST_NEXT h e = Inr n"
  shows "each_prevptr (unlink_match P) h varp =
    Some (bindE (store_sl (end_link varp xs) n h) (\<lambda>h. Inr (h, Some (e, ()))))"
  using assms
proof (induction xs arbitrary: v varp)
  case Nil
  then obtain x where x: "sl_elems h e = Some x" "sl_content x = c" "sle_next x = n"
    by (auto simp: sl_cont_def SLIST_NEXT_def get_selem_def)
  then show ?case
    using Nil by (subst each_prevptr.simps, cases "store_sl varp n h")
      (auto simp: unlink_match_def get_selem_def)
next
  case (Cons a xs)
  obtain m where m: "v = Some a" "SLIST_NEXT h a = Inr m" "walk SLIST_NEXT h m (xs @ e # ys)"
    using Cons.prems(2) by (auto split: sum.splits)
  then obtain x where x: "sl_elems h a = Some x" "\<not> P (sl_content x)"
    using Cons.prems(3) by (auto simp: SLIST_NEXT_def get_selem_def sl_cont_def split: option.splits)
  have "each_prevptr (unlink_match P) h (NextOf a) =
    Some (bindE (store_sl (end_link (NextOf a) xs) n h) (\<lambda>h. Inr (h, Some (e, ()))))"
    using Cons.prems m by (intro Cons.IH [of "NextOf a" m]) auto
  then show ?case
    using Cons.prems(1) m(1) x by (subst each_prevptr.simps) (simp add: unlink_match_def get_selem_def)
qed

lemma SLIST_FOREACH_PREVPTR_unlinks:
  assumes "slists h LL" and "i < length LL" and es: "LL ! i = xs @ e # ys"
    and "\<forall>a \<in> set xs. \<forall>c. sl_cont h a = Some c \<longrightarrow> \<not> P c"
    and "sl_cont h e = Some c" and "P c"
  shows "\<exists>h'. SLIST_FOREACH_PREVPTR (unlink_match P) i h = return (h', Some (e, ())) \<and>
    slists h' (LL[i := xs @ ys]) \<and> sl_cont h' = sl_cont h"
proof -
  have w: "walk SLIST_NEXT h (sl_heads h ! i) (xs @ e # ys)"
    using slists_walk_list [OF assms(1,2)] es by simp
  obtain n where n: "SLIST_NEXT h e = Inr n" using walk_drop [OF w] by (auto split: sum.splits)
  have run: "SLIST_FOREACH_PREVPTR (unlink_match P) i h =
      Some (bindE (store_sl (end_link (HeadOf i) xs) n h) (\<lambda>h. Inr (h, Some (e, ()))))"
    unfolding SLIST_FOREACH_PREVPTR_def
    by (rule each_prevptr_unlinks [OF _ w]) (use assms(4-6) n SLIST_FIRST_ok [OF assms(1,2)] in simp_all)
  show ?thesis
  proof (cases xs rule: rev_cases)
    case Nil
    then have "SLIST_REMOVE_HEAD i h = set_slh_first i n h"
      using w n SLIST_FIRST_ok [OF assms(1,2)] by (simp add: SLIST_REMOVE_HEAD_def)
    then show ?thesis using SLIST_REMOVE_HEAD_slists [OF assms(1,2), of e ys] es run Nil by auto
  next
    case (snoc xs' b)
    then have "walk SLIST_NEXT h (sl_heads h ! i) (xs' @ b # e # ys)" using w by simp
    then have "SLIST_NEXT h b = Inr (Some e)" using walk_drop by (fastforce split: sum.splits)
    then have "SLIST_REMOVE_AFTER b h = set_sle_next b n h"
      using n by (simp add: SLIST_REMOVE_AFTER_def)
    then show ?thesis using SLIST_REMOVE_AFTER_slists [OF assms(1,2), of xs' b e ys] es run snoc by auto
  qed
qed

section \<open>Properties\<close>

text \<open>Two heads, the first with the elements 0, 1 and 2.\<close>

definition sample_slist :: "nat sheap" where
  "sample_slist = \<lparr>sl_heads = [Some 0, None],
     sl_elems = [0 \<mapsto> \<lparr>sle_next = Some 1, sl_content = 10\<rparr>, 1 \<mapsto> \<lparr>sle_next = Some 2, sl_content = 11\<rparr>,
       2 \<mapsto> \<lparr>sle_next = None, sl_content = 12\<rparr>]\<rparr>"

lemma slists_sample: "slists sample_slist [[0, 1, 2], []]"
  by (auto simp: slists_def chains_def sample_slist_def separate_def nexts_def less_Suc_eq)

text \<open>
  \<open>SLIST_REMOVE\<close> unlinks an element that is on the list it is told, wherever it is; the
  search for one that is not on it runs off the end of the list through a null pointer.
\<close>

theorem slist_remove_outcome:
  assumes "slists h LL" and "i < length LL"
  shows "if e \<in> set (LL ! i)
    then \<exists>h'. SLIST_REMOVE i e h = return h' \<and> slists h' (LL[i := remove1 e (LL ! i)]) \<and> sl_cont h' = sl_cont h
    else SLIST_REMOVE i e h = fail NullDeref"
  using SLIST_REMOVE_present [OF assms] SLIST_REMOVE_absent [OF assms] by simp

lemma slist_remove_outcome_witness:
  "(\<exists>h'. SLIST_REMOVE 0 1 sample_slist = return h' \<and> slists h' [[0, 2], []]) \<and>
   SLIST_REMOVE 0 3 sample_slist = fail NullDeref"
  using slist_remove_outcome [OF slists_sample, of 0 1] slist_remove_outcome [OF slists_sample, of 0 3]
  by auto

text \<open>
  \<open>SLIST_FOREACH_SAFE\<close> may free every element it visits: all elements of the list are gone
  and no other is touched, and once \<open>SLIST_INIT\<close> has run the heap has the other lists. With the
  plain \<open>SLIST_FOREACH\<close> the same body makes the loop read a freed element.
\<close>

theorem slist_foreach_safe_frees:
  assumes "slists h LL" and "i < length LL"
  shows "\<exists>h' h''. SLIST_FOREACH_SAFE free_selem i h = return (h', None) \<and>
    (\<forall>e. sl_elems h' e = (if e \<in> set (LL ! i) then None else sl_elems h e)) \<and>
    SLIST_INIT i h' = Inr h'' \<and> slists h'' (LL[i := []]) \<and>
    (LL ! i \<noteq> [] \<longrightarrow> SLIST_FOREACH free_selem i h = fail DeadBlock)"
proof -
  let ?h = "h\<lparr>sl_elems := (\<lambda>e. if e \<in> set (LL ! i) then None else sl_elems h e)\<rparr>"
  have live: "sl_elems h e \<noteq> None" if "e \<in> set (LL ! i)" for e
    using chains_live [of "sl_heads h" "nexts h" LL e] assms membersI [OF assms(2) that]
    by (auto simp: slists_def nexts_def)
  have 1: "SLIST_FOREACH_SAFE free_selem i h = return (?h, None)"
    using SLIST_FOREACH_SAFE_visits [OF assms, of free_selem] free_selem_nexts
      visit_free [OF slists_distinct [OF assms] live] by fastforce
  have "chains ((sl_heads h)[i := None]) (nexts ?h) (LL[i := []])"
    using assms unfolding slists_def by (rule chains_update) (auto simp: nexts_def)
  then have 2: "\<exists>h''. SLIST_INIT i ?h = Inr h'' \<and> slists h'' (LL[i := []])"
    using assms slists_length [OF assms(1)] nexts_heads [of "(sl_heads h)[i := None]" ?h]
    by (simp add: SLIST_INIT_def set_slh_first_def slists_def)
  have 3: "SLIST_FOREACH free_selem i h = fail DeadBlock" if "LL ! i = e # es" for e es
    using slists_walk_list [OF assms] that live SLIST_FIRST_ok [OF assms]
    by (auto simp: SLIST_FOREACH_def each.simps free_selem_def SLIST_NEXT_def get_selem_def split: sum.splits)
  show ?thesis using 1 2 3 by (cases "LL ! i") auto
qed

lemma slist_foreach_safe_frees_witness:
  "\<exists>h' h''. SLIST_FOREACH_SAFE free_selem 0 sample_slist = return (h', None) \<and> sl_elems h' 1 = None \<and>
    SLIST_INIT 0 h' = Inr h'' \<and> slists h'' [[], []]"
  using slist_foreach_safe_frees [OF slists_sample, of 0] by auto

text \<open>
  A loop of \<open>SLIST_FOREACH_PREVPTR\<close> that stores the successor of the first match through
  \<open>varp\<close> takes it off the list, also when it is the first element.
\<close>

theorem slist_prevptr_unlinks:
  assumes "slists h LL" and "i < length LL" and "LL ! i = xs @ e # ys"
    and "\<forall>a \<in> set xs. \<forall>c. sl_cont h a = Some c \<longrightarrow> \<not> P c"
    and "sl_cont h e = Some c" and "P c"
  shows "\<exists>h'. SLIST_FOREACH_PREVPTR (unlink_match P) i h = return (h', Some (e, ())) \<and>
    slists h' (LL[i := xs @ ys]) \<and> sl_cont h' = sl_cont h"
  by (rule SLIST_FOREACH_PREVPTR_unlinks [OF assms])

lemma slist_prevptr_unlinks_witness:
  "\<exists>h'. SLIST_FOREACH_PREVPTR (unlink_match (\<lambda>c. c = 11)) 0 sample_slist = return (h', Some (1, ())) \<and>
    slists h' [[0, 2], []]"
  using slist_prevptr_unlinks [OF slists_sample, of 0 "[0]" 1 "[2]" "\<lambda>c. c = 11" 11]
  by (auto simp: sample_slist_def sl_cont_def)

end
