(* ===== verification/BsdStailq.thy ===== *)
theory BsdStailq
  imports BsdSlist
begin

text \<open>
  The singly linked tail queues of \<open>lib_convert/bsd_queue.h\<close> (the STAILQ macros). A head also
  has the address of the last forward pointer, so that an element or a whole queue is
  appended without a walk. The macros are shown to keep that address right, a locale states
  what a user of first-in first-out queues relies on, and it is interpreted on the macros.
\<close>

section \<open>Elements, heads and macros\<close>

text \<open>
  \<open>stqh_last\<close> is the address of a \<open>stqe_next\<close> field or of the \<open>stqh_first\<close> field of a head; it
  is indeterminate (\<open>Nowhere\<close>) before \<open>STAILQ_INIT\<close>.
\<close>

record sthead =
  stqh_first :: "nat option"
  stqh_last :: link

record 'a stelem =
  stqe_next :: "nat option"
  st_content :: 'a            \<comment> \<open>the other members of the struct\<close>

record 'a stheap =
  st_heads :: "sthead list"
  st_elems :: "nat \<rightharpoonup> 'a stelem"

definition get_sthead :: "'a stheap \<Rightarrow> nat \<Rightarrow> fault + sthead" where
  "get_sthead h i = (if i < length (st_heads h) then Inr (st_heads h ! i) else Inl OutOfBounds)"

definition set_stqh_first :: "nat \<Rightarrow> nat option \<Rightarrow> 'a stheap \<Rightarrow> fault + 'a stheap" where
  "set_stqh_first i v h =
     bindE (get_sthead h i) (\<lambda>q. Inr (h\<lparr>st_heads := (st_heads h)[i := q\<lparr>stqh_first := v\<rparr>]\<rparr>))"

definition set_stqh_last :: "nat \<Rightarrow> link \<Rightarrow> 'a stheap \<Rightarrow> fault + 'a stheap" where
  "set_stqh_last i l h =
     bindE (get_sthead h i) (\<lambda>q. Inr (h\<lparr>st_heads := (st_heads h)[i := q\<lparr>stqh_last := l\<rparr>]\<rparr>))"

definition get_stelem :: "'a stheap \<Rightarrow> nat \<Rightarrow> fault + 'a stelem" where
  "get_stelem h e = (case st_elems h e of None \<Rightarrow> Inl DeadBlock | Some x \<Rightarrow> Inr x)"

definition set_stqe_next :: "nat \<Rightarrow> nat option \<Rightarrow> 'a stheap \<Rightarrow> fault + 'a stheap" where
  "set_stqe_next e v h =
     bindE (get_stelem h e) (\<lambda>x. Inr (h\<lparr>st_elems := (st_elems h)(e \<mapsto> x\<lparr>stqe_next := v\<rparr>)\<rparr>))"

text \<open>A store through \<open>stqh_last\<close>.\<close>

fun store_st :: "link \<Rightarrow> nat option \<Rightarrow> 'a stheap \<Rightarrow> fault + 'a stheap" where
  "store_st Nowhere v h = Inl WildPointer"
| "store_st (HeadOf i) v h = set_stqh_first i v h"
| "store_st (NextOf e) v h = set_stqe_next e v h"

definition STAILQ_FIRST :: "'a stheap \<Rightarrow> nat \<Rightarrow> fault + nat option" where
  "STAILQ_FIRST h i = bindE (get_sthead h i) (\<lambda>q. Inr (stqh_first q))"

definition STAILQ_EMPTY :: "'a stheap \<Rightarrow> nat \<Rightarrow> fault + bool" where
  "STAILQ_EMPTY h i = bindE (STAILQ_FIRST h i) (\<lambda>first. Inr (first = None))"

definition STAILQ_NEXT :: "'a stheap \<Rightarrow> nat \<Rightarrow> fault + nat option" where
  "STAILQ_NEXT h e = bindE (get_stelem h e) (\<lambda>x. Inr (stqe_next x))"

text \<open>\<open>__containerof\<close> of the address of a \<open>stqe_next\<close> is the element around it.\<close>

definition STAILQ_LAST :: "'a stheap \<Rightarrow> nat \<Rightarrow> fault + nat option" where
  "STAILQ_LAST h i =
     bindE (get_sthead h i) (\<lambda>q.
       if stqh_first q = None then Inr None
       else case stqh_last q of NextOf e \<Rightarrow> Inr (Some e) | _ \<Rightarrow> Inl WildPointer)"

definition STAILQ_INIT :: "nat \<Rightarrow> 'a stheap \<Rightarrow> fault + 'a stheap" where
  "STAILQ_INIT i h =
     bindE (set_stqh_first i None h) (\<lambda>h.
     set_stqh_last i (HeadOf i) h)"

definition STAILQ_CONCAT :: "nat \<Rightarrow> nat \<Rightarrow> 'a stheap \<Rightarrow> fault + 'a stheap" where
  "STAILQ_CONCAT i j h =
     bindE (STAILQ_EMPTY h j) (\<lambda>e.
       if e then Inr h
       else
         bindE (get_sthead h i) (\<lambda>q1.
         bindE (get_sthead h j) (\<lambda>q2.
         bindE (store_st (stqh_last q1) (stqh_first q2) h) (\<lambda>h.
         bindE (get_sthead h j) (\<lambda>q2.
         bindE (set_stqh_last i (stqh_last q2) h) (\<lambda>h.
         STAILQ_INIT j h))))))"

definition STAILQ_INSERT_AFTER :: "nat \<Rightarrow> nat \<Rightarrow> nat \<Rightarrow> 'a stheap \<Rightarrow> fault + 'a stheap" where
  "STAILQ_INSERT_AFTER i tqelm elm h =
     bindE (STAILQ_NEXT h tqelm) (\<lambda>n.
     bindE (set_stqe_next elm n h) (\<lambda>h.
     bindE (if n = None then set_stqh_last i (NextOf elm) h else Inr h) (\<lambda>h.
     set_stqe_next tqelm (Some elm) h)))"

definition STAILQ_INSERT_HEAD :: "nat \<Rightarrow> nat \<Rightarrow> 'a stheap \<Rightarrow> fault + 'a stheap" where
  "STAILQ_INSERT_HEAD i elm h =
     bindE (STAILQ_FIRST h i) (\<lambda>first.
     bindE (set_stqe_next elm first h) (\<lambda>h.
     bindE (if first = None then set_stqh_last i (NextOf elm) h else Inr h) (\<lambda>h.
     set_stqh_first i (Some elm) h)))"

definition STAILQ_INSERT_TAIL :: "nat \<Rightarrow> nat \<Rightarrow> 'a stheap \<Rightarrow> fault + 'a stheap" where
  "STAILQ_INSERT_TAIL i elm h =
     bindE (set_stqe_next elm None h) (\<lambda>h.
     bindE (get_sthead h i) (\<lambda>q.
     bindE (store_st (stqh_last q) (Some elm) h) (\<lambda>h.
     set_stqh_last i (NextOf elm) h)))"

definition STAILQ_REMOVE_AFTER :: "nat \<Rightarrow> nat \<Rightarrow> 'a stheap \<Rightarrow> fault + 'a stheap" where
  "STAILQ_REMOVE_AFTER i elm h =
     bindE (STAILQ_NEXT h elm) (\<lambda>n. case n of
       None \<Rightarrow> Inl NullDeref
     | Some e \<Rightarrow>
         bindE (STAILQ_NEXT h e) (\<lambda>n'.
         bindE (set_stqe_next elm n' h) (\<lambda>h.
         if n' = None then set_stqh_last i (NextOf elm) h else Inr h)))"

definition STAILQ_REMOVE_HEAD :: "nat \<Rightarrow> 'a stheap \<Rightarrow> fault + 'a stheap" where
  "STAILQ_REMOVE_HEAD i h =
     bindE (STAILQ_FIRST h i) (\<lambda>first. case first of
       None \<Rightarrow> Inl NullDeref
     | Some e \<Rightarrow>
         bindE (STAILQ_NEXT h e) (\<lambda>n.
         bindE (set_stqh_first i n h) (\<lambda>h.
         if n = None then set_stqh_last i (HeadOf i) h else Inr h)))"

definition STAILQ_REMOVE :: "nat \<Rightarrow> nat \<Rightarrow> 'a stheap \<Rightarrow> 'a stheap run" where
  "STAILQ_REMOVE i elm h =
     (case STAILQ_FIRST h i of
        Inl f \<Rightarrow> fail f
      | Inr first \<Rightarrow>
          (if first = Some elm then Some (STAILQ_REMOVE_HEAD i h)
           else bindR (find_before STAILQ_NEXT h elm first) (\<lambda>curelm.
             Some (STAILQ_REMOVE_AFTER i curelm h))))"

definition STAILQ_SWAP :: "nat \<Rightarrow> nat \<Rightarrow> 'a stheap \<Rightarrow> fault + 'a stheap" where
  "STAILQ_SWAP i j h =
     bindE (get_sthead h i) (\<lambda>q1.
     bindE (get_sthead h j) (\<lambda>q2.
     bindE (set_stqh_first i (stqh_first q2) h) (\<lambda>h.
     bindE (get_sthead h j) (\<lambda>q2.
     bindE (set_stqh_last i (stqh_last q2) h) (\<lambda>h.
     bindE (set_stqh_first j (stqh_first q1) h) (\<lambda>h.
     bindE (set_stqh_last j (stqh_last q1) h) (\<lambda>h.
     bindE (STAILQ_EMPTY h i) (\<lambda>e.
     bindE (if e then set_stqh_last i (HeadOf i) h else Inr h) (\<lambda>h.
     bindE (STAILQ_EMPTY h j) (\<lambda>e.
     if e then set_stqh_last j (HeadOf j) h else Inr h))))))))))"

subsection \<open>Traversals\<close>

definition STAILQ_FOREACH ::
  "(nat \<Rightarrow> 'a stheap \<Rightarrow> fault + 'a stheap \<times> 'r option) \<Rightarrow> nat \<Rightarrow> 'a stheap \<Rightarrow> ('a stheap \<times> (nat \<times> 'r) option) run"
where
  "STAILQ_FOREACH body i h = loop_from (STAILQ_FIRST h i) (each STAILQ_NEXT body h)"

definition STAILQ_FOREACH_FROM ::
  "nat option \<Rightarrow> (nat \<Rightarrow> 'a stheap \<Rightarrow> fault + 'a stheap \<times> 'r option) \<Rightarrow> nat \<Rightarrow> 'a stheap \<Rightarrow> ('a stheap \<times> (nat \<times> 'r) option) run"
where
  "STAILQ_FOREACH_FROM var body i h =
     loop_from (start_at var (STAILQ_FIRST h i)) (each STAILQ_NEXT body h)"

definition STAILQ_FOREACH_SAFE ::
  "(nat \<Rightarrow> 'a stheap \<Rightarrow> fault + 'a stheap \<times> 'r option) \<Rightarrow> nat \<Rightarrow> 'a stheap \<Rightarrow> ('a stheap \<times> (nat \<times> 'r) option) run"
where
  "STAILQ_FOREACH_SAFE body i h = loop_from (STAILQ_FIRST h i) (each_safe STAILQ_NEXT body h)"

definition STAILQ_FOREACH_FROM_SAFE ::
  "nat option \<Rightarrow> (nat \<Rightarrow> 'a stheap \<Rightarrow> fault + 'a stheap \<times> 'r option) \<Rightarrow> nat \<Rightarrow> 'a stheap \<Rightarrow> ('a stheap \<times> (nat \<times> 'r) option) run"
where
  "STAILQ_FOREACH_FROM_SAFE var body i h =
     loop_from (start_at var (STAILQ_FIRST h i)) (each_safe STAILQ_NEXT body h)"

section \<open>A heap as its links\<close>

text \<open>
  All that the macros look at: the first pointers, the addresses of the last pointers and
  the forward pointers of the live elements; and the contents, which they leave alone.
\<close>

definition view ::
  "'a stheap \<Rightarrow> nat option list \<times> link list \<times> (nat \<rightharpoonup> nat option) \<times> (nat \<rightharpoonup> 'a)"
where
  "view h = (map stqh_first (st_heads h), map stqh_last (st_heads h),
     (\<lambda>e. map_option stqe_next (st_elems h e)), (\<lambda>e. map_option st_content (st_elems h e)))"

lemma view_length: "view h = (fs, ls, nx, c) \<Longrightarrow> length ls = length fs"
  by (auto simp: view_def)

lemma view_live: "view h = (fs, ls, nx, c) \<Longrightarrow> nx e = None \<longleftrightarrow> c e = None"
  by (auto simp: view_def)

lemma view_FIRST: "view h = (fs, ls, nx, c) \<Longrightarrow> i < length fs \<Longrightarrow> STAILQ_FIRST h i = Inr (fs ! i)"
  by (auto simp: view_def STAILQ_FIRST_def get_sthead_def)

lemma view_EMPTY: "view h = (fs, ls, nx, c) \<Longrightarrow> i < length fs \<Longrightarrow> STAILQ_EMPTY h i = Inr (fs ! i = None)"
  by (simp add: STAILQ_EMPTY_def view_FIRST)

lemma view_head:
  "view h = (fs, ls, nx, c) \<Longrightarrow> i < length fs \<Longrightarrow>
    get_sthead h i = Inr \<lparr>stqh_first = fs ! i, stqh_last = ls ! i\<rparr>"
  by (auto simp: view_def get_sthead_def)

lemma view_NEXT:
  "view h = (fs, ls, nx, c) \<Longrightarrow>
    STAILQ_NEXT h e = (case nx e of None \<Rightarrow> Inl DeadBlock | Some n \<Rightarrow> Inr n)"
  by (auto simp: view_def STAILQ_NEXT_def get_stelem_def split: option.splits)

lemma view_set_first:
  "view h = (fs, ls, nx, c) \<Longrightarrow> i < length fs \<Longrightarrow>
    \<exists>h'. set_stqh_first i v h = Inr h' \<and> view h' = (fs[i := v], ls, nx, c)"
  by (auto simp: view_def set_stqh_first_def get_sthead_def map_update intro: list_update_id [symmetric])
    (metis list_update_id nth_map)

lemma view_set_last:
  "view h = (fs, ls, nx, c) \<Longrightarrow> i < length fs \<Longrightarrow>
    \<exists>h'. set_stqh_last i l h = Inr h' \<and> view h' = (fs, ls[i := l], nx, c)"
  by (auto simp: view_def set_stqh_last_def get_sthead_def map_update) (metis list_update_id nth_map)

lemma view_set_next:
  assumes "view h = (fs, ls, nx, c)" and "nx e \<noteq> None"
  shows "\<exists>h'. set_stqe_next e v h = Inr h' \<and> view h' = (fs, ls, nx(e \<mapsto> v), c)"
proof -
  obtain x where x: "st_elems h e = Some x" using assms by (auto simp: view_def)
  let ?h = "h\<lparr>st_elems := (st_elems h)(e \<mapsto> x\<lparr>stqe_next := v\<rparr>)\<rparr>"
  have "view ?h = (fs, ls, nx(e \<mapsto> v), c)"
    using assms(1) x unfolding view_def by (auto intro!: ext)
  then show ?thesis using x by (auto simp: set_stqe_next_def get_stelem_def)
qed

text \<open>A store through a link.\<close>

fun put_link :: "link \<Rightarrow> nat option \<Rightarrow> nat option list \<times> (nat \<rightharpoonup> nat option) \<Rightarrow>
  nat option list \<times> (nat \<rightharpoonup> nat option)"
where
  "put_link (HeadOf i) v (fs, nx) = (fs[i := v], nx)"
| "put_link (NextOf e) v (fs, nx) = (fs, nx(e \<mapsto> v))"
| "put_link Nowhere v (fs, nx) = (fs, nx)"

fun link_live :: "link \<Rightarrow> nat option list \<times> (nat \<rightharpoonup> nat option) \<Rightarrow> bool" where
  "link_live (HeadOf i) (fs, nx) \<longleftrightarrow> i < length fs"
| "link_live (NextOf e) (fs, nx) \<longleftrightarrow> nx e \<noteq> None"
| "link_live Nowhere (fs, nx) \<longleftrightarrow> False"

lemma view_store:
  assumes "view h = (fs, ls, nx, c)" and "link_live l (fs, nx)" and "put_link l v (fs, nx) = (fs', nx')"
  shows "\<exists>h'. store_st l v h = Inr h' \<and> view h' = (fs', ls, nx', c)"
  using assms view_set_first [OF assms(1)] view_set_next [OF assms(1)] by (cases l) auto

section \<open>The queues of a heap\<close>

text \<open>
  \<open>queues fs ls nx LL\<close>: chains, and every head knows where the null pointer behind its last
  element lies.
\<close>

definition queues :: "nat option list \<Rightarrow> link list \<Rightarrow> (nat \<rightharpoonup> nat option) \<Rightarrow> nat list list \<Rightarrow> bool" where
  "queues fs ls nx LL \<longleftrightarrow> chains fs nx LL \<and> length ls = length LL \<and>
     (\<forall>i < length LL. ls ! i = end_link (HeadOf i) (LL ! i))"

definition stailqs :: "'a stheap \<Rightarrow> nat list list \<Rightarrow> bool" where
  "stailqs h LL \<longleftrightarrow> (case view h of (fs, ls, nx, c) \<Rightarrow> queues fs ls nx LL)"

definition st_cont :: "'a stheap \<Rightarrow> nat \<Rightarrow> 'a option" where
  "st_cont h = snd (snd (snd (view h)))"

lemma stailqs_view:
  assumes "stailqs h LL"
  obtains fs ls nx c where "view h = (fs, ls, nx, c)" "queues fs ls nx LL" "st_cont h = c"
    "length fs = length LL" "length ls = length LL"
proof -
  obtain fs ls nx c where v: "view h = (fs, ls, nx, c)" by (cases "view h")
  then have q: "queues fs ls nx LL" using assms by (simp add: stailqs_def)
  show thesis
    by (rule that [OF v q]) (use v q in \<open>simp_all add: st_cont_def queues_def chains_def\<close>)
qed

lemma stailqs_viewI: "view h = (fs, ls, nx, c) \<Longrightarrow> queues fs ls nx LL \<Longrightarrow> stailqs h LL \<and> st_cont h = c"
  by (simp add: stailqs_def st_cont_def)

lemma end_link_last: "end_link l es = (if es = [] then l else NextOf (last es))"
  by (cases es rule: rev_cases) auto

lemma queues_chains: "queues fs ls nx LL \<Longrightarrow> chains fs nx LL"
  by (simp add: queues_def)

lemma queues_chain: "queues fs ls nx LL \<Longrightarrow> i < length LL \<Longrightarrow> chain nx (fs ! i) (LL ! i) None"
  by (simp add: queues_def chains_nth)

lemma queues_last: "queues fs ls nx LL \<Longrightarrow> i < length LL \<Longrightarrow> ls ! i = end_link (HeadOf i) (LL ! i)"
  by (simp add: queues_def)

lemma queues_last_live:
  assumes "queues fs ls nx LL" and "i < length LL"
  shows "link_live (ls ! i) (fs, nx)"
proof (cases "LL ! i" rule: rev_cases)
  case (snoc es e)
  then have "nx e \<noteq> None" using chain_live [OF queues_chain [OF assms]] by simp
  then show ?thesis using queues_last [OF assms] snoc by simp
qed (use assms queues_last [OF assms] in \<open>simp add: queues_def chains_def\<close>)

text \<open>From chains to queues, when one list changes.\<close>

lemma queues_update:
  assumes "queues fs ls nx LL" and "i < length LL" and "chains fs' nx' (LL[i := es])"
    and "ls' = ls[i := end_link (HeadOf i) es]"
  shows "queues fs' ls' nx' (LL[i := es])"
  using assms by (auto simp: queues_def nth_list_update)

text \<open>Appending: the first pointer of a detached chain is stored through the last link.\<close>

lemma chains_detached:
  assumes "chains fs nx LL" and "j < length LL"
  shows "set (LL ! j) \<inter> members (LL[j := []]) = {}"
proof -
  have "a \<notin> set (LL[j := []] ! k)" if "a \<in> set (LL ! j)" "k < length LL" for a k
    using chains_apart [OF assms that(2) _ that(1)] assms(2) by (cases "k = j") auto
  then show ?thesis by (auto simp: members_iff)
qed

lemma chains_append:
  assumes c: "chains fs nx LL" "i < length LL"
    and new: "chain nx v es None" "distinct es" "set es \<inter> members LL = {}"
    and put: "put_link (end_link (HeadOf i) (LL ! i)) v (fs, nx) = (fs', nx')"
  shows "chains fs' nx' (LL[i := LL ! i @ es])"
proof (cases "LL ! i" rule: rev_cases)
  case Nil
  then have "fs' = fs[i := v]" "nx' = nx" using put by auto
  then show ?thesis using new Nil by (auto intro: chains_update [OF c])
next
  case (snoc xs b)
  have d: "distinct (xs @ [b])" using chains_distinct [OF c] snoc by simp
  have b: "b \<notin> set es" using membersI [OF c(2), of b] new(3) snoc by auto
  have s: "fs' = fs" "nx' = nx(b \<mapsto> v)" using put snoc by auto
  have "chain nx (fs ! i) (xs @ [b]) None" using chains_nth [OF c] snoc by simp
  then have "chain nx (fs ! i) xs (Some b)" by (auto simp: chain_append split: option.splits)
  then have "chain (nx(b \<mapsto> v)) (fs ! i) ((xs @ [b]) @ es) None"
    using new(1) d b by (auto simp: chain_append)
  then have "chains (fs[i := fs ! i]) nx' (LL[i := LL ! i @ es])"
    using membersI [OF c(2)] new(2,3) d s snoc by (intro chains_update [OF c]) auto
  then show ?thesis using s by simp
qed

section \<open>The macros on the links\<close>

text \<open>\<open>leads r w\<close>: the step \<open>r\<close> does not fault and gives a heap with the links \<open>w\<close>.\<close>

definition leads :: "fault + 'a stheap \<Rightarrow>
  nat option list \<times> link list \<times> (nat \<rightharpoonup> nat option) \<times> (nat \<rightharpoonup> 'a) \<Rightarrow> bool"
where
  "leads r w \<longleftrightarrow> (\<exists>h'. r = Inr h' \<and> view h' = w)"

lemma leads_bind: "leads r w \<Longrightarrow> (\<And>h'. view h' = w \<Longrightarrow> leads (f h') w') \<Longrightarrow> leads (bindE r f) w'"
  by (auto simp: leads_def)

lemma leads_Inr: "view h = w \<Longrightarrow> leads (Inr h) w"
  by (simp add: leads_def)

lemmas leads_first = view_set_first [folded leads_def]
  and leads_last = view_set_last [folded leads_def]
  and leads_next = view_set_next [folded leads_def]
  and leads_store = view_store [folded leads_def]

lemma leads_if_last:
  "view h = (fs, ls, nx, c) \<Longrightarrow> i < length fs \<Longrightarrow>
    leads (if b then set_stqh_last i l h else Inr h) (fs, if b then ls[i := l] else ls, nx, c)"
  using leads_last [of h fs ls nx c i l] by (auto simp: leads_def)

lemma leads_INIT:
  assumes "view h = (fs, ls, nx, c)" and "i < length fs"
  shows "leads (STAILQ_INIT i h) (fs[i := None], ls[i := HeadOf i], nx, c)"
  unfolding STAILQ_INIT_def
  by (rule leads_bind [OF leads_first [OF assms]], rule leads_last) (use assms(2) in auto)

lemma leads_INSERT_HEAD:
  assumes "view h = (fs, ls, nx, c)" and "i < length fs" and "nx e \<noteq> None"
  shows "leads (STAILQ_INSERT_HEAD i e h)
    (fs[i := Some e], if fs ! i = None then ls[i := NextOf e] else ls, nx(e \<mapsto> fs ! i), c)"
  unfolding STAILQ_INSERT_HEAD_def view_FIRST [OF assms(1,2)] bindE.simps
  by (rule leads_bind [OF leads_next [OF assms(1,3)]],
      rule leads_bind [OF leads_if_last [OF _ assms(2)]], assumption, rule leads_first [OF _ assms(2)])

lemma leads_INSERT_AFTER:
  assumes "view h = (fs, ls, nx, c)" and "i < length fs" and "nx e \<noteq> None" and "nx b = Some n"
  shows "leads (STAILQ_INSERT_AFTER i b e h)
    (fs, if n = None then ls[i := NextOf e] else ls, nx(e \<mapsto> n, b \<mapsto> Some e), c)"
proof -
  have n: "STAILQ_NEXT h b = Inr n" using view_NEXT [OF assms(1)] assms(4) by simp
  have live: "(nx(e \<mapsto> n)) b \<noteq> None" using assms(4) by simp
  show ?thesis
    unfolding STAILQ_INSERT_AFTER_def n bindE.simps
    by (rule leads_bind [OF leads_next [OF assms(1,3)]],
        rule leads_bind [OF leads_if_last [OF _ assms(2)]], assumption, erule leads_next, rule live)
qed

lemma leads_INSERT_TAIL:
  assumes "view h = (fs, ls, nx, c)" and "i < length fs" and "nx e \<noteq> None"
    and "link_live (ls ! i) (fs, nx(e \<mapsto> None))"
    and "put_link (ls ! i) (Some e) (fs, nx(e \<mapsto> None)) = (fs', nx')"
  shows "leads (STAILQ_INSERT_TAIL i e h) (fs', ls[i := NextOf e], nx', c)"
proof -
  have l: "length fs' = length fs" using assms(5) by (cases "ls ! i") auto
  have "leads (bindE (get_sthead h' i) (\<lambda>q. bindE (store_st (stqh_last q) (Some e) h') (\<lambda>h. set_stqh_last i (NextOf e) h)))
      (fs', ls[i := NextOf e], nx', c)" if v: "view h' = (fs, ls, nx(e \<mapsto> None), c)" for h'
    unfolding view_head [OF v assms(2)] bindE.simps sthead.simps
    by (rule leads_bind [OF leads_store [OF v assms(4,5)]], rule leads_last) (use l assms(2) in simp_all)
  then show ?thesis
    unfolding STAILQ_INSERT_TAIL_def by (rule leads_bind [OF leads_next [OF assms(1,3)]])
qed

lemma leads_REMOVE_AFTER:
  assumes "view h = (fs, ls, nx, c)" and "i < length fs" and "nx b = Some (Some e)" and "nx e = Some n"
  shows "leads (STAILQ_REMOVE_AFTER i b h) (fs, if n = None then ls[i := NextOf b] else ls, nx(b \<mapsto> n), c)"
proof -
  have n: "STAILQ_NEXT h b = Inr (Some e)" "STAILQ_NEXT h e = Inr n" "nx b \<noteq> None"
    using view_NEXT [OF assms(1)] assms(3,4) by simp_all
  show ?thesis
    unfolding STAILQ_REMOVE_AFTER_def n(1,2) bindE.simps option.case
    by (rule leads_bind [OF leads_next [OF assms(1) n(3)]], rule leads_if_last [OF _ assms(2)])
qed

lemma leads_REMOVE_HEAD:
  assumes "view h = (fs, ls, nx, c)" and "i < length fs" and "fs ! i = Some e" and "nx e = Some n"
  shows "leads (STAILQ_REMOVE_HEAD i h) (fs[i := n], if n = None then ls[i := HeadOf i] else ls, nx, c)"
proof -
  have n: "STAILQ_FIRST h i = Inr (Some e)" "STAILQ_NEXT h e = Inr n"
    using view_NEXT [OF assms(1)] view_FIRST [OF assms(1,2)] assms(3,4) by simp_all
  show ?thesis
    unfolding STAILQ_REMOVE_HEAD_def n bindE.simps option.case
    by (rule leads_bind [OF leads_first [OF assms(1,2)]], rule leads_if_last) (use assms(2) in simp_all)
qed

lemma leads_CONCAT:
  assumes "view h = (fs, ls, nx, c)" and "i < length fs" and "j < length fs" and "fs ! j \<noteq> None"
    and "link_live (ls ! i) (fs, nx)" and "put_link (ls ! i) (fs ! j) (fs, nx) = (fs', nx')"
  shows "leads (STAILQ_CONCAT i j h) (fs'[j := None], ls[i := ls ! j, j := HeadOf j], nx', c)"
proof -
  have l: "i < length fs'" "j < length fs'" using assms(2,3,6) by (cases "ls ! i"; auto)+
  have "leads (bindE (get_sthead h' j) (\<lambda>q2. bindE (set_stqh_last i (stqh_last q2) h') (\<lambda>h. STAILQ_INIT j h)))
      (fs'[j := None], ls[i := ls ! j, j := HeadOf j], nx', c)" if v: "view h' = (fs', ls, nx', c)" for h'
    unfolding view_head [OF v l(2)] bindE.simps sthead.simps
    by (rule leads_bind [OF leads_last [OF v l(1)]], rule leads_INIT [OF _ l(2)])
  then have "leads (bindE (store_st (ls ! i) (fs ! j) h)
      (\<lambda>h. bindE (get_sthead h j) (\<lambda>q2. bindE (set_stqh_last i (stqh_last q2) h) (\<lambda>h. STAILQ_INIT j h))))
      (fs'[j := None], ls[i := ls ! j, j := HeadOf j], nx', c)"
    by (rule leads_bind [OF leads_store [OF assms(1,5,6)]])
  then show ?thesis
    using view_EMPTY [OF assms(1,3)] view_head [OF assms(1,2)] view_head [OF assms(1,3)] assms(4)
    by (simp add: STAILQ_CONCAT_def)
qed

text \<open>The end of \<open>STAILQ_SWAP\<close>: a head that became empty is its own last link.\<close>

lemma leads_own_last:
  assumes v: "view h = (fs, ls, nx, c)" and "i < length fs" and "j < length fs"
  shows "leads (bindE (STAILQ_EMPTY h i) (\<lambda>e.
       bindE (if e then set_stqh_last i (HeadOf i) h else Inr h) (\<lambda>h.
       bindE (STAILQ_EMPTY h j) (\<lambda>e. if e then set_stqh_last j (HeadOf j) h else Inr h))))
     (fs, (let ls = (if fs ! i = None then ls[i := HeadOf i] else ls)
           in if fs ! j = None then ls[j := HeadOf j] else ls), nx, c)"
proof -
  have "leads (bindE (STAILQ_EMPTY h' j) (\<lambda>e. if e then set_stqh_last j (HeadOf j) h' else Inr h'))
      (fs, (if fs ! j = None then ls'[j := HeadOf j] else ls'), nx, c)"
    if w: "view h' = (fs, ls', nx, c)" for h' ls'
    using leads_if_last [OF w] view_EMPTY [OF w] assms(3) by simp
  then show ?thesis
    unfolding view_EMPTY [OF v assms(2)] bindE.simps Let_def
    by (intro leads_bind [OF leads_if_last [OF v assms(2)]])
qed

lemma leads_SWAP:
  assumes "view h = (fs, ls, nx, c)" and "i < length fs" and "j < length fs" and "i \<noteq> j"
  shows "leads (STAILQ_SWAP i j h)
    (fs[i := fs ! j, j := fs ! i],
     ls[i := if fs ! j = None then HeadOf i else ls ! j, j := if fs ! i = None then HeadOf j else ls ! i], nx, c)"
    (is "leads _ (?fs, ?ls, nx, c)")
proof -
  let ?swapped = "ls[i := ls ! j, j := ls ! i]"
  have "leads (STAILQ_SWAP i j h)
     (?fs, (let ls = (if ?fs ! i = None then ?swapped[i := HeadOf i] else ?swapped)
            in if ?fs ! j = None then ls[j := HeadOf j] else ls), nx, c)"
    unfolding STAILQ_SWAP_def view_head [OF assms(1,2)] view_head [OF assms(1,3)] bindE.simps sthead.simps
    apply (rule leads_bind [OF leads_first [OF assms(1,2)]])
    apply (subst view_head, assumption, use assms(3) in simp)
    apply (unfold bindE.simps sthead.simps)
    apply (rule leads_bind, erule leads_last, use assms(2) in simp)
    apply (rule leads_bind, erule leads_first, use assms(3) in simp)
    apply (rule leads_bind, erule leads_last, use assms(3) in simp)
    apply (erule leads_own_last; use assms(2,3) in simp)
    done
  moreover have "(let ls = (if ?fs ! i = None then ?swapped[i := HeadOf i] else ?swapped)
            in if ?fs ! j = None then ls[j := HeadOf j] else ls) = ?ls"
    using assms view_length [OF assms(1)] by (auto simp: Let_def list_update_swap nth_list_update)
  ultimately show ?thesis by simp
qed

section \<open>The macros on the queues\<close>

lemma leads_stailqs:
  assumes "leads r (fs, ls, nx, c)" and "queues fs ls nx LL"
  shows "\<exists>h'. r = Inr h' \<and> stailqs h' LL \<and> st_cont h' = c"
  using assms stailqs_viewI unfolding leads_def by blast

lemma stailqs_EMPTY:
  assumes "stailqs h LL" and "i < length LL"
  shows "STAILQ_EMPTY h i = Inr (LL ! i = [])"
proof -
  obtain fs ls nx c where v: "view h = (fs, ls, nx, c)" "queues fs ls nx LL" "length fs = length LL"
    using assms(1) by (rule stailqs_view)
  then show ?thesis
    using view_EMPTY [OF v(1), of i] chains_empty_iff [OF queues_chains [OF v(2)]] assms(2) by simp
qed

lemma stailqs_FIRST:
  assumes "stailqs h LL" and "i < length LL"
  shows "STAILQ_FIRST h i = Inr (if LL ! i = [] then None else Some (hd (LL ! i)))"
proof -
  obtain fs ls nx c where v: "view h = (fs, ls, nx, c)" "queues fs ls nx LL" "length fs = length LL"
    using assms(1) by (rule stailqs_view)
  then show ?thesis
    using view_FIRST [OF v(1), of i] queues_chain [OF v(2) assms(2)] assms(2) by (cases "LL ! i") auto
qed

lemma stailqs_LAST:
  assumes "stailqs h LL" and "i < length LL"
  shows "STAILQ_LAST h i = Inr (if LL ! i = [] then None else Some (last (LL ! i)))"
proof -
  obtain fs ls nx c where v: "view h = (fs, ls, nx, c)" "queues fs ls nx LL" "length fs = length LL"
    using assms(1) by (rule stailqs_view)
  then show ?thesis
    using view_head [OF v(1), of i] queues_last [OF v(2) assms(2)] assms(2)
      chains_empty_iff [OF queues_chains [OF v(2)] assms(2)]
    by (auto simp: STAILQ_LAST_def end_link_last)
qed

lemma stailqs_INIT:
  assumes "stailqs h LL" and "i < length LL"
  shows "\<exists>h'. STAILQ_INIT i h = Inr h' \<and> stailqs h' (LL[i := []]) \<and> st_cont h' = st_cont h"
proof -
  obtain fs ls nx c where v: "view h = (fs, ls, nx, c)" "queues fs ls nx LL" "st_cont h = c" "length fs = length LL"
    using assms(1) by (rule stailqs_view)
  have "chains (fs[i := None]) nx (LL[i := []])"
    by (rule chains_update [OF queues_chains [OF v(2)] assms(2)]) auto
  then have "queues (fs[i := None]) (ls[i := HeadOf i]) nx (LL[i := []])"
    by (rule queues_update [OF v(2) assms(2)]) simp
  then show ?thesis using leads_stailqs [OF leads_INIT [OF v(1)]] v(3,4) assms(2) by simp
qed

lemma stailqs_INSERT_HEAD:
  assumes "stailqs h LL" and "i < length LL" and "e \<notin> members LL" and "st_cont h e \<noteq> None"
  shows "\<exists>h'. STAILQ_INSERT_HEAD i e h = Inr h' \<and> stailqs h' (LL[i := e # LL ! i]) \<and> st_cont h' = st_cont h"
proof -
  obtain fs ls nx c where v: "view h = (fs, ls, nx, c)" "queues fs ls nx LL" "st_cont h = c" "length fs = length LL"
    using assms(1) by (rule stailqs_view)
  have "queues (fs[i := Some e]) (if fs ! i = None then ls[i := NextOf e] else ls) (nx(e \<mapsto> fs ! i)) (LL[i := e # LL ! i])"
    by (rule queues_update [OF v(2) assms(2) chains_insert_head [OF queues_chains [OF v(2)] assms(2,3)]])
      (use chains_empty_iff [OF queues_chains [OF v(2)] assms(2)] queues_last [OF v(2) assms(2)]
        list_update_id [of ls i] in \<open>auto simp: end_link_last\<close>)
  moreover have "nx e \<noteq> None" using assms(4) view_live [OF v(1)] v(3) by simp
  ultimately show ?thesis
    using leads_stailqs [OF leads_INSERT_HEAD [OF v(1)]] v(3,4) assms(2) by simp
qed

lemma stailqs_INSERT_AFTER:
  assumes "stailqs h LL" and "i < length LL" and es: "LL ! i = xs @ b # ys"
    and "e \<notin> members LL" and "st_cont h e \<noteq> None"
  shows "\<exists>h'. STAILQ_INSERT_AFTER i b e h = Inr h' \<and> stailqs h' (LL[i := xs @ b # e # ys]) \<and> st_cont h' = st_cont h"
proof -
  obtain fs ls nx c where v: "view h = (fs, ls, nx, c)" "queues fs ls nx LL" "st_cont h = c" "length fs = length LL"
    using assms(1) by (rule stailqs_view)
  obtain n where n: "nx b = Some n" "chain nx n ys None"
    using queues_chain [OF v(2) assms(2)] es by (auto simp: chain_append split: option.splits)
  have "queues fs (if n = None then ls[i := NextOf e] else ls) (nx(e \<mapsto> n, b \<mapsto> Some e)) (LL[i := xs @ b # e # ys])"
    by (rule queues_update [OF v(2) assms(2) chains_insert_after [OF queues_chains [OF v(2)] assms(2,3,4) n(1)]])
      (use n(2) queues_last [OF v(2) assms(2)] es list_update_id [of ls i] in
        \<open>cases ys; auto simp: end_link_last\<close>)
  moreover have "nx e \<noteq> None" using assms(5) view_live [OF v(1)] v(3) by simp
  ultimately show ?thesis
    using leads_stailqs [OF leads_INSERT_AFTER [OF v(1) _ _ n(1)]] v(3,4) assms(2) by simp
qed

lemma stailqs_INSERT_TAIL:
  assumes "stailqs h LL" and "i < length LL" and "e \<notin> members LL" and "st_cont h e \<noteq> None"
  shows "\<exists>h'. STAILQ_INSERT_TAIL i e h = Inr h' \<and> stailqs h' (LL[i := LL ! i @ [e]]) \<and> st_cont h' = st_cont h"
proof -
  obtain fs ls nx c where v: "view h = (fs, ls, nx, c)" "queues fs ls nx LL" "st_cont h = c" "length fs = length LL"
    using assms(1) by (rule stailqs_view)
  let ?nx = "nx(e \<mapsto> None)"
  have "nx e \<noteq> None" using assms(4) view_live [OF v(1)] v(3) by simp
  have "chains fs ?nx LL" by (rule chains_frame [OF queues_chains [OF v(2)]]) (use assms(3) in auto)
  then have q: "queues fs ls ?nx LL" using v(2) by (simp add: queues_def)
  obtain fs' nx' where put: "put_link (ls ! i) (Some e) (fs, ?nx) = (fs', nx')" by fastforce
  have "chains fs' nx' (LL[i := LL ! i @ [e]])"
    by (rule chains_append [OF queues_chains [OF q] assms(2), of "Some e"])
      (use put assms(3) queues_last [OF v(2) assms(2)] in simp_all)
  then have "queues fs' (ls[i := NextOf e]) nx' (LL[i := LL ! i @ [e]])"
    by (rule queues_update [OF v(2) assms(2)]) simp
  moreover have "leads (STAILQ_INSERT_TAIL i e h) (fs', ls[i := NextOf e], nx', c)"
    by (rule leads_INSERT_TAIL [OF v(1) _ \<open>nx e \<noteq> None\<close> queues_last_live [OF q assms(2)] put])
      (use v(4) assms(2) in simp)
  ultimately show ?thesis using leads_stailqs v(3) by blast
qed

lemma stailqs_REMOVE_AFTER:
  assumes "stailqs h LL" and "i < length LL" and es: "LL ! i = xs @ b # e # ys"
  shows "\<exists>h'. STAILQ_REMOVE_AFTER i b h = Inr h' \<and> stailqs h' (LL[i := xs @ b # ys]) \<and> st_cont h' = st_cont h"
proof -
  obtain fs ls nx c where v: "view h = (fs, ls, nx, c)" "queues fs ls nx LL" "st_cont h = c" "length fs = length LL"
    using assms(1) by (rule stailqs_view)
  obtain n where n: "nx b = Some (Some e)" "nx e = Some n" "chain nx n ys None"
    using queues_chain [OF v(2) assms(2)] es by (auto simp: chain_append split: option.splits)
  have "queues fs (if n = None then ls[i := NextOf b] else ls) (nx(b \<mapsto> n)) (LL[i := xs @ b # ys])"
    by (rule queues_update [OF v(2) assms(2) chains_remove_after [OF queues_chains [OF v(2)] assms(2,3) n(2)]])
      (use n(3) queues_last [OF v(2) assms(2)] es list_update_id [of ls i] in
        \<open>cases ys; auto simp: end_link_last\<close>)
  then show ?thesis
    using leads_stailqs [OF leads_REMOVE_AFTER [OF v(1) _ n(1,2)]] v(3,4) assms(2) by simp
qed

lemma stailqs_REMOVE_HEAD:
  assumes "stailqs h LL" and "i < length LL" and es: "LL ! i = e # ys"
  shows "\<exists>h'. STAILQ_REMOVE_HEAD i h = Inr h' \<and> stailqs h' (LL[i := ys]) \<and> st_cont h' = st_cont h"
proof -
  obtain fs ls nx c where v: "view h = (fs, ls, nx, c)" "queues fs ls nx LL" "st_cont h = c" "length fs = length LL"
    using assms(1) by (rule stailqs_view)
  obtain n where n: "fs ! i = Some e" "nx e = Some n" "chain nx n ys None"
    using queues_chain [OF v(2) assms(2)] es by (auto split: option.splits)
  have "queues (fs[i := n]) (if n = None then ls[i := HeadOf i] else ls) nx (LL[i := ys])"
    by (rule queues_update [OF v(2) assms(2) chains_remove_head [OF queues_chains [OF v(2)] assms(2,3) n(2)]])
      (use n(3) queues_last [OF v(2) assms(2)] es list_update_id [of ls i] in
        \<open>cases ys; auto simp: end_link_last\<close>)
  then show ?thesis
    using leads_stailqs [OF leads_REMOVE_HEAD [OF v(1) _ n(1,2)]] v(3,4) assms(2) by simp
qed

lemma stailqs_CONCAT:
  assumes "stailqs h LL" and "i < length LL" and "j < length LL" and "i \<noteq> j"
  shows "\<exists>h'. STAILQ_CONCAT i j h = Inr h' \<and> stailqs h' (LL[i := LL ! i @ LL ! j, j := []]) \<and> st_cont h' = st_cont h"
proof -
  obtain fs ls nx c where v: "view h = (fs, ls, nx, c)" "queues fs ls nx LL" "st_cont h = c"
      "length fs = length LL" "length ls = length LL"
    using assms(1) by (rule stailqs_view)
  note ch = queues_chains [OF v(2)]
  show ?thesis
  proof (cases "LL ! j")
    case Nil
    then have "STAILQ_CONCAT i j h = Inr h"
      using stailqs_EMPTY [OF assms(1,3)] by (simp add: STAILQ_CONCAT_def)
    moreover have "LL[i := LL ! i @ LL ! j, j := []] = LL"
      using Nil assms(3,4) by (metis append_Nil2 list_update_id)
    ultimately show ?thesis using assms(1) by simp
  next
    case (Cons e ys)
    let ?L = "LL[j := []]"
    obtain fs' nx' where put: "put_link (ls ! i) (fs ! j) (fs, nx) = (fs', nx')" by fastforce
    have fs: "put_link (ls ! i) (fs ! j) (fs[j := None], nx) = (fs'[j := None], nx')"
      using put queues_last [OF v(2) assms(2)] assms(4) by (auto simp: end_link_last list_update_swap split: if_splits)
    have "chains (fs[j := None]) nx ?L"
      by (rule chains_update [OF ch assms(3)]) auto
    then have "chains (fs'[j := None]) nx' (?L[i := ?L ! i @ LL ! j])"
      by (rule chains_append [where v = "fs ! j"])
        (use assms(2,4) chains_detached [OF ch assms(3)] fs queues_last [OF v(2) assms(2)] queues_chain [OF v(2) assms(3)]
          chains_distinct [OF ch assms(3)] in simp_all)
    then have "chains (fs'[j := None]) nx' (LL[i := LL ! i @ LL ! j, j := []])"
      using assms(4) by (simp add: list_update_swap)
    moreover have "ls ! j = end_link (HeadOf i) (LL ! i @ LL ! j)"
      using queues_last [OF v(2) assms(3)] Cons by (simp add: end_link_last)
    ultimately have "queues (fs'[j := None]) (ls[i := ls ! j, j := HeadOf j]) nx' (LL[i := LL ! i @ LL ! j, j := []])"
      using v(2,5) assms(2-4) by (auto simp: queues_def nth_list_update)
    moreover have "leads (STAILQ_CONCAT i j h) (fs'[j := None], ls[i := ls ! j, j := HeadOf j], nx', c)"
      by (rule leads_CONCAT [OF v(1) _ _ _ queues_last_live [OF v(2) assms(2)] put])
        (use v(4) assms(2,3) chains_empty_iff [OF ch assms(3)] Cons in simp_all)
    ultimately show ?thesis using leads_stailqs v(3) by blast
  qed
qed

lemma stailqs_SWAP:
  assumes "stailqs h LL" and "i < length LL" and "j < length LL" and "i \<noteq> j"
  shows "\<exists>h'. STAILQ_SWAP i j h = Inr h' \<and> stailqs h' (LL[i := LL ! j, j := LL ! i]) \<and> st_cont h' = st_cont h"
proof -
  obtain fs ls nx c where v: "view h = (fs, ls, nx, c)" "queues fs ls nx LL" "st_cont h = c"
      "length fs = length LL" "length ls = length LL"
    using assms(1) by (rule stailqs_view)
  note e = chains_empty_iff [OF queues_chains [OF v(2)]]
  have "queues (fs[i := fs ! j, j := fs ! i])
      (ls[i := if fs ! j = None then HeadOf i else ls ! j, j := if fs ! i = None then HeadOf j else ls ! i]) nx
      (LL[i := LL ! j, j := LL ! i])"
    unfolding queues_def
  proof (intro conjI allI impI)
    fix k assume "k < length (LL[i := LL ! j, j := LL ! i])"
    then show "ls[i := if fs ! j = None then HeadOf i else ls ! j, j := if fs ! i = None then HeadOf j else ls ! i] ! k =
        end_link (HeadOf k) (LL[i := LL ! j, j := LL ! i] ! k)"
      using v(2,5) e [OF assms(2)] e [OF assms(3)] assms(2,3)
      by (simp add: queues_def nth_list_update end_link_last)
  qed (use v(5) chains_swap [OF queues_chains [OF v(2)] assms(2,3)] in simp_all)
  then show ?thesis
    using leads_stailqs [OF leads_SWAP [OF v(1) _ _ assms(4)]] v(3,4) assms(2,3) by simp
qed

lemma stailqs_distinct:
  assumes "stailqs h LL" and "i < length LL"
  shows "distinct (LL ! i)"
  using assms(1)
  by (rule stailqs_view) (use chains_distinct [OF queues_chains] assms(2) in blast)

lemma stailqs_walk:
  assumes "stailqs h LL" and "i < length LL"
  shows "\<exists>v. STAILQ_FIRST h i = Inr v \<and> walk STAILQ_NEXT h v (LL ! i)"
proof -
  obtain fs ls nx c where v: "view h = (fs, ls, nx, c)" "queues fs ls nx LL" "length fs = length LL"
    using assms(1) by (rule stailqs_view)
  have "chain nx f es None \<Longrightarrow> walk STAILQ_NEXT h f es" for f es
    by (induction es arbitrary: f) (auto simp: view_NEXT [OF v(1)] split: option.splits)
  then show ?thesis using view_FIRST [OF v(1), of i] queues_chain [OF v(2) assms(2)] v(3) assms(2) by auto
qed

interpretation st: linked stailqs STAILQ_FIRST STAILQ_NEXT
  by unfold_locales (use stailqs_walk stailqs_distinct in blast)+

lemma stailqs_REMOVE_present:
  assumes "stailqs h LL" and "i < length LL" and "e \<in> set (LL ! i)"
  shows "\<exists>h'. STAILQ_REMOVE i e h = return h' \<and> stailqs h' (LL[i := remove1 e (LL ! i)]) \<and> st_cont h' = st_cont h"
proof -
  obtain xs ys where es: "LL ! i = xs @ e # ys" "e \<notin> set xs" using split_list_first [OF assms(3)] by blast
  show ?thesis
  proof (cases xs rule: rev_cases)
    case Nil
    then show ?thesis
      using stailqs_REMOVE_HEAD [OF assms(1,2), of e ys] es(1) st.first_nth [OF assms(1,2)]
      by (auto simp: STAILQ_REMOVE_def)
  next
    case (snoc xs' b)
    then show ?thesis
      using stailqs_REMOVE_AFTER [OF assms(1,2), of xs' b e ys] es
        st.search_present [OF assms(1,2), of xs' b e ys]
      by (auto simp: STAILQ_REMOVE_def remove1_append)
  qed
qed

lemma stailqs_REMOVE_absent:
  assumes "stailqs h LL" and "i < length LL" and "e \<notin> set (LL ! i)"
  shows "STAILQ_REMOVE i e h = fail NullDeref"
  using st.search_absent [OF assms] by (auto simp: STAILQ_REMOVE_def)

section \<open>The contract of first-in first-out queues\<close>

text \<open>
  A client puts elements at the tail of a queue and gets them from its front, in any order of
  calls; it looks whether there is a front before it removes it. On lists, the puts append
  and the gets take the first.
\<close>

datatype queue_call = Put nat | Get

fun run_calls ::
  "(nat \<Rightarrow> nat \<Rightarrow> 'h \<Rightarrow> fault + 'h) \<Rightarrow> ('h \<Rightarrow> nat \<Rightarrow> fault + nat option) \<Rightarrow> (nat \<Rightarrow> 'h \<Rightarrow> fault + 'h) \<Rightarrow>
   nat \<Rightarrow> queue_call list \<Rightarrow> 'h \<Rightarrow> fault + nat option list \<times> 'h"
where
  "run_calls put front pop i [] h = Inr ([], h)"
| "run_calls put front pop i (Put e # cs) h = bindE (put i e h) (run_calls put front pop i cs)"
| "run_calls put front pop i (Get # cs) h =
     bindE (front h i) (\<lambda>v.
     bindE (if v = None then Inr h else pop i h) (\<lambda>h.
     bindE (run_calls put front pop i cs h) (\<lambda>(out, h). Inr (v # out, h))))"

fun list_calls :: "queue_call list \<Rightarrow> nat list \<Rightarrow> nat option list \<times> nat list" where
  "list_calls [] q = ([], q)"
| "list_calls (Put e # cs) q = list_calls cs (q @ [e])"
| "list_calls (Get # cs) [] = (let (out, q) = list_calls cs [] in (None # out, q))"
| "list_calls (Get # cs) (e # q) = (let (out, q) = list_calls cs q in (Some e # out, q))"

text \<open>Only live elements that are on no queue may be put: \<open>usable\<close> says what is live and on no other queue.\<close>

fun legal_calls :: "(nat \<Rightarrow> bool) \<Rightarrow> queue_call list \<Rightarrow> nat list \<Rightarrow> bool" where
  "legal_calls usable [] q \<longleftrightarrow> True"
| "legal_calls usable (Put e # cs) q \<longleftrightarrow> usable e \<and> e \<notin> set q \<and> legal_calls usable cs (q @ [e])"
| "legal_calls usable (Get # cs) q \<longleftrightarrow> legal_calls usable cs (tl q)"

locale fifo =
  fixes represents :: "'h \<Rightarrow> nat list list \<Rightarrow> bool"
    and contents :: "'h \<Rightarrow> nat \<Rightarrow> 'a option"
    and put :: "nat \<Rightarrow> nat \<Rightarrow> 'h \<Rightarrow> fault + 'h"
    and front :: "'h \<Rightarrow> nat \<Rightarrow> fault + nat option"
    and drop_front :: "nat \<Rightarrow> 'h \<Rightarrow> fault + 'h"
  assumes put_ok: "represents h LL \<Longrightarrow> i < length LL \<Longrightarrow> e \<notin> members LL \<Longrightarrow> contents h e \<noteq> None \<Longrightarrow>
      \<exists>h'. put i e h = Inr h' \<and> represents h' (LL[i := LL ! i @ [e]]) \<and> contents h' = contents h"
    and front_ok: "represents h LL \<Longrightarrow> i < length LL \<Longrightarrow>
      front h i = Inr (if LL ! i = [] then None else Some (hd (LL ! i)))"
    and drop_ok: "represents h LL \<Longrightarrow> i < length LL \<Longrightarrow> LL ! i = e # ys \<Longrightarrow>
      \<exists>h'. drop_front i h = Inr h' \<and> represents h' (LL[i := ys]) \<and> contents h' = contents h"
begin

lemma calls_refine:
  assumes "represents h LL" and "i < length LL"
    and "legal_calls (\<lambda>e. contents h e \<noteq> None \<and> e \<notin> members (LL[i := []])) cs (LL ! i)"
  shows "\<exists>h'. run_calls put front drop_front i cs h = Inr (fst (list_calls cs (LL ! i)), h') \<and>
    represents h' (LL[i := snd (list_calls cs (LL ! i))]) \<and> contents h' = contents h"
  using assms
proof (induction cs arbitrary: h LL)
  case (Cons c cs)
  show ?case
  proof (cases c)
    case (Put e)
    have "e \<notin> members LL"
      using Cons.prems(2,3) Put by (auto simp: members_iff nth_list_update split: if_splits)
    then obtain h1 where h1: "put i e h = Inr h1" "represents h1 (LL[i := LL ! i @ [e]])" "contents h1 = contents h"
      using put_ok [OF Cons.prems(1,2)] Cons.prems(3) Put by auto
    show ?thesis
      using Cons.IH [OF h1(2)] h1(1,3) Cons.prems(2,3) Put by simp
  next
    case Get
    show ?thesis
    proof (cases "LL ! i")
      case Nil
      then have "LL[i := []] = LL" using Cons.prems(2) by (metis list_update_id)
      then show ?thesis
        using Cons.IH [OF Cons.prems(1,2)] front_ok [OF Cons.prems(1,2)] Cons.prems(2,3) Get Nil
        by (auto split: prod.splits)
    next
      case (Cons e ys)
      then obtain h1 where h1: "drop_front i h = Inr h1" "represents h1 (LL[i := ys])" "contents h1 = contents h"
        using drop_ok [OF Cons.prems(1,2)] by blast
      show ?thesis
        using Cons.IH [OF h1(2)] h1(1,3) front_ok [OF Cons.prems(1,2)] Cons.prems(2,3) Get Cons
        by (auto split: prod.splits)
    qed
  qed
qed (metis (no_types, lifting) list_calls.simps(1) list_update_id run_calls.simps(1) fst_conv snd_conv)

text \<open>What was put is served in the same order.\<close>

lemma put_then_get:
  assumes "represents h LL" and "i < length LL" and "LL ! i = []" and "e \<noteq> a"
    and "\<forall>x \<in> {e, a}. contents h x \<noteq> None \<and> x \<notin> members LL"
  shows "\<exists>h'. run_calls put front drop_front i [Put e, Put a, Get, Get, Get] h =
      Inr ([Some e, Some a, None], h') \<and> represents h' LL"
proof -
  have "LL[i := []] = LL" using assms(2,3) by (metis list_update_id)
  then show ?thesis
    using calls_refine [OF assms(1,2), of "[Put e, Put a, Get, Get, Get]"] assms(3-5) by auto
qed

end

interpretation stailq: fifo stailqs st_cont STAILQ_INSERT_TAIL STAILQ_FIRST STAILQ_REMOVE_HEAD
  by unfold_locales (fact stailqs_INSERT_TAIL stailqs_FIRST stailqs_REMOVE_HEAD)+

section \<open>Properties\<close>

text \<open>Two queues with the elements 0 and 1, and 2; the element 3 is on no queue.\<close>

definition sample_stailq :: "nat stheap" where
  "sample_stailq = \<lparr>st_heads = [\<lparr>stqh_first = Some 0, stqh_last = NextOf 1\<rparr>,
       \<lparr>stqh_first = Some 2, stqh_last = NextOf 2\<rparr>],
     st_elems = [0 \<mapsto> \<lparr>stqe_next = Some 1, st_content = 10\<rparr>, 1 \<mapsto> \<lparr>stqe_next = None, st_content = 11\<rparr>,
       2 \<mapsto> \<lparr>stqe_next = None, st_content = 12\<rparr>, 3 \<mapsto> \<lparr>stqe_next = Some 3, st_content = 13\<rparr>]\<rparr>"

lemma stailqs_sample: "stailqs sample_stailq [[0, 1], [2]]"
  by (auto simp: stailqs_def queues_def chains_def sample_stailq_def separate_def view_def less_Suc_eq)

text \<open>
  C40. Any sequence of two kinds of steps never faults, answers what a list would that is appended
  to and taken from in front, and ends in that list: a \<open>STAILQ_INSERT_TAIL\<close> of a live element that
  is on no queue, and a \<open>STAILQ_FIRST\<close> that is followed by \<open>STAILQ_REMOVE_HEAD\<close> only if it found an
  element. The removal itself does not test for an empty queue and would read through a null
  pointer.
\<close>

theorem stailq_fifo:
  assumes "stailqs h LL" and "i < length LL"
    and "legal_calls (\<lambda>e. st_cont h e \<noteq> None \<and> e \<notin> members (LL[i := []])) cs (LL ! i)"
  shows "\<exists>h'. run_calls STAILQ_INSERT_TAIL STAILQ_FIRST STAILQ_REMOVE_HEAD i cs h =
      Inr (fst (list_calls cs (LL ! i)), h') \<and>
    stailqs h' (LL[i := snd (list_calls cs (LL ! i))]) \<and> st_cont h' = st_cont h"
  by (rule stailq.calls_refine [OF assms])

lemma stailq_fifo_witness:
  "\<exists>h'. run_calls STAILQ_INSERT_TAIL STAILQ_FIRST STAILQ_REMOVE_HEAD 1 [Get, Get, Put 3, Put 2, Get] sample_stailq =
      Inr ([Some 2, None, Some 3], h') \<and> stailqs h' [[0, 1], [2]]"
proof -
  have "legal_calls (\<lambda>e. st_cont sample_stailq e \<noteq> None \<and> e \<notin> members ([[0, 1], [2]][1 := []]))
      [Get, Get, Put 3, Put 2, Get] ([[0, 1], [2]] ! 1)"
    by (simp add: members_def st_cont_def view_def sample_stailq_def)
  then show ?thesis using stailq_fifo [OF stailqs_sample, of 1] by fastforce
qed

text \<open>
  \<open>STAILQ_CONCAT\<close> appends one queue to another and leaves it empty, also when either of
  them was empty; every later append goes to the right place, since the heads know their last
  links again.
\<close>

theorem stailq_concat_appends:
  assumes "stailqs h LL" and "i < length LL" and "j < length LL" and "i \<noteq> j"
  shows "\<exists>h'. STAILQ_CONCAT i j h = Inr h' \<and> stailqs h' (LL[i := LL ! i @ LL ! j, j := []]) \<and> st_cont h' = st_cont h"
  by (rule stailqs_CONCAT [OF assms])

lemma stailq_concat_appends_witness:
  "\<exists>h'. STAILQ_CONCAT 0 1 sample_stailq = Inr h' \<and> stailqs h' [[0, 1, 2], []]"
  using stailq_concat_appends [OF stailqs_sample, of 0 1] by auto

text \<open>
  \<open>STAILQ_REMOVE\<close> unlinks an element of the queue it is told, and the last link follows when
  that was the last element; an element that is not on the queue makes it run off the end.
\<close>

theorem stailq_remove_outcome:
  assumes "stailqs h LL" and "i < length LL"
  shows "if e \<in> set (LL ! i)
    then \<exists>h'. STAILQ_REMOVE i e h = return h' \<and> stailqs h' (LL[i := remove1 e (LL ! i)]) \<and> st_cont h' = st_cont h
    else STAILQ_REMOVE i e h = fail NullDeref"
  using stailqs_REMOVE_present [OF assms] stailqs_REMOVE_absent [OF assms] by simp

lemma stailq_remove_outcome_witness:
  "(\<exists>h'. STAILQ_REMOVE 0 1 sample_stailq = return h' \<and> stailqs h' [[0], [2]]) \<and>
   STAILQ_REMOVE 0 2 sample_stailq = fail NullDeref"
  using stailq_remove_outcome [OF stailqs_sample, of 0 1] stailq_remove_outcome [OF stailqs_sample, of 0 2]
  by auto

end
