(* ===== verification/BsdTailq.thy ===== *)
theory BsdTailq
  imports BsdStailq
begin

text \<open>
  The doubly linked tail queues of \<open>lib_convert/bsd_queue.h\<close> (the TAILQ macros). Without the
  addresses of the last links they are the doubly linked lists, and the macros that both
  families have do the same to the links; so the lemmas on the LIST macros carry over, and only
  the last links, the two macros that append and the way back through the queue are new.
\<close>

section \<open>Elements, heads and macros\<close>

text \<open>\<open>tqe_prev\<close> and \<open>tqh_last\<close> are addresses of a \<open>tqe_next\<close> or of a \<open>tqh_first\<close>.\<close>

record tqhead =
  tqh_first :: "nat option"
  tqh_last :: link

record 'a tqelem =
  tqe_next :: "nat option"
  tqe_prev :: link
  tq_content :: 'a            \<comment> \<open>the other members of the struct\<close>

record 'a tqheap =
  tq_heads :: "tqhead list"
  tq_elems :: "nat \<rightharpoonup> 'a tqelem"

definition get_tqhead :: "'a tqheap \<Rightarrow> nat \<Rightarrow> fault + tqhead" where
  "get_tqhead h i = (if i < length (tq_heads h) then Inr (tq_heads h ! i) else Inl OutOfBounds)"

definition set_tqh_first :: "nat \<Rightarrow> nat option \<Rightarrow> 'a tqheap \<Rightarrow> fault + 'a tqheap" where
  "set_tqh_first i v h =
     bindE (get_tqhead h i) (\<lambda>q. Inr (h\<lparr>tq_heads := (tq_heads h)[i := q\<lparr>tqh_first := v\<rparr>]\<rparr>))"

definition set_tqh_last :: "nat \<Rightarrow> link \<Rightarrow> 'a tqheap \<Rightarrow> fault + 'a tqheap" where
  "set_tqh_last i l h =
     bindE (get_tqhead h i) (\<lambda>q. Inr (h\<lparr>tq_heads := (tq_heads h)[i := q\<lparr>tqh_last := l\<rparr>]\<rparr>))"

definition get_tqelem :: "'a tqheap \<Rightarrow> nat \<Rightarrow> fault + 'a tqelem" where
  "get_tqelem h e = (case tq_elems h e of None \<Rightarrow> Inl DeadBlock | Some x \<Rightarrow> Inr x)"

definition set_tqe_next :: "nat \<Rightarrow> nat option \<Rightarrow> 'a tqheap \<Rightarrow> fault + 'a tqheap" where
  "set_tqe_next e v h =
     bindE (get_tqelem h e) (\<lambda>x. Inr (h\<lparr>tq_elems := (tq_elems h)(e \<mapsto> x\<lparr>tqe_next := v\<rparr>)\<rparr>))"

definition set_tqe_prev :: "nat \<Rightarrow> link \<Rightarrow> 'a tqheap \<Rightarrow> fault + 'a tqheap" where
  "set_tqe_prev e l h =
     bindE (get_tqelem h e) (\<lambda>x. Inr (h\<lparr>tq_elems := (tq_elems h)(e \<mapsto> x\<lparr>tqe_prev := l\<rparr>)\<rparr>))"

definition TAILQ_FIRST :: "'a tqheap \<Rightarrow> nat \<Rightarrow> fault + nat option" where
  "TAILQ_FIRST h i = bindE (get_tqhead h i) (\<lambda>q. Inr (tqh_first q))"

definition TAILQ_EMPTY :: "'a tqheap \<Rightarrow> nat \<Rightarrow> fault + bool" where
  "TAILQ_EMPTY h i = bindE (TAILQ_FIRST h i) (\<lambda>first. Inr (first = None))"

definition TAILQ_NEXT :: "'a tqheap \<Rightarrow> nat \<Rightarrow> fault + nat option" where
  "TAILQ_NEXT h e = bindE (get_tqelem h e) (\<lambda>x. Inr (tqe_next x))"

text \<open>A store through a link, and a load.\<close>

fun store_tq :: "link \<Rightarrow> nat option \<Rightarrow> 'a tqheap \<Rightarrow> fault + 'a tqheap" where
  "store_tq Nowhere v h = Inl WildPointer"
| "store_tq (HeadOf i) v h = set_tqh_first i v h"
| "store_tq (NextOf e) v h = set_tqe_next e v h"

fun load_tq :: "'a tqheap \<Rightarrow> link \<Rightarrow> fault + nat option" where
  "load_tq h Nowhere = Inl WildPointer"
| "load_tq h (HeadOf i) = TAILQ_FIRST h i"
| "load_tq h (NextOf e) = TAILQ_NEXT h e"

text \<open>
  \<open>((struct headname *) l)->tqh_last\<close>: a head and the links of an element have the same
  layout, so that the field behind the pointer at \<open>l\<close> is the \<open>tqh_last\<close> of a head or the
  \<open>tqe_prev\<close> of an element.
\<close>

fun last_behind :: "'a tqheap \<Rightarrow> link \<Rightarrow> fault + link" where
  "last_behind h Nowhere = Inl WildPointer"
| "last_behind h (HeadOf i) = bindE (get_tqhead h i) (\<lambda>q. Inr (tqh_last q))"
| "last_behind h (NextOf e) = bindE (get_tqelem h e) (\<lambda>x. Inr (tqe_prev x))"

definition TAILQ_LAST :: "'a tqheap \<Rightarrow> nat \<Rightarrow> fault + nat option" where
  "TAILQ_LAST h i =
     bindE (get_tqhead h i) (\<lambda>q.
     bindE (last_behind h (tqh_last q)) (\<lambda>l.
     load_tq h l))"

definition TAILQ_PREV :: "'a tqheap \<Rightarrow> nat \<Rightarrow> fault + nat option" where
  "TAILQ_PREV h e =
     bindE (get_tqelem h e) (\<lambda>x.
     bindE (last_behind h (tqe_prev x)) (\<lambda>l.
     load_tq h l))"

definition TAILQ_INIT :: "nat \<Rightarrow> 'a tqheap \<Rightarrow> fault + 'a tqheap" where
  "TAILQ_INIT i h =
     bindE (set_tqh_first i None h) (\<lambda>h.
     set_tqh_last i (HeadOf i) h)"

definition TAILQ_CONCAT :: "nat \<Rightarrow> nat \<Rightarrow> 'a tqheap \<Rightarrow> fault + 'a tqheap" where
  "TAILQ_CONCAT i j h =
     bindE (TAILQ_FIRST h j) (\<lambda>first. case first of
       None \<Rightarrow> Inr h
     | Some f \<Rightarrow>
         bindE (get_tqhead h i) (\<lambda>q1.
         bindE (store_tq (tqh_last q1) (Some f) h) (\<lambda>h.
         bindE (TAILQ_FIRST h j) (\<lambda>first. case first of
           None \<Rightarrow> Inl NullDeref
         | Some f \<Rightarrow>
             bindE (set_tqe_prev f (tqh_last q1) h) (\<lambda>h.
             bindE (get_tqhead h j) (\<lambda>q2.
             bindE (set_tqh_last i (tqh_last q2) h) (\<lambda>h.
             TAILQ_INIT j h)))))))"

definition TAILQ_INSERT_AFTER :: "nat \<Rightarrow> nat \<Rightarrow> nat \<Rightarrow> 'a tqheap \<Rightarrow> fault + 'a tqheap" where
  "TAILQ_INSERT_AFTER i listelm elm h =
     bindE (TAILQ_NEXT h listelm) (\<lambda>nxt.
     bindE (set_tqe_next elm nxt h) (\<lambda>h.
     bindE (case nxt of None \<Rightarrow> set_tqh_last i (NextOf elm) h | Some n \<Rightarrow> set_tqe_prev n (NextOf elm) h) (\<lambda>h.
     bindE (set_tqe_next listelm (Some elm) h) (\<lambda>h.
     set_tqe_prev elm (NextOf listelm) h))))"

definition TAILQ_INSERT_BEFORE :: "nat \<Rightarrow> nat \<Rightarrow> 'a tqheap \<Rightarrow> fault + 'a tqheap" where
  "TAILQ_INSERT_BEFORE listelm elm h =
     bindE (get_tqelem h listelm) (\<lambda>x.
     bindE (set_tqe_prev elm (tqe_prev x) h) (\<lambda>h.
     bindE (set_tqe_next elm (Some listelm) h) (\<lambda>h.
     bindE (store_tq (tqe_prev x) (Some elm) h) (\<lambda>h.
     set_tqe_prev listelm (NextOf elm) h))))"

definition TAILQ_INSERT_HEAD :: "nat \<Rightarrow> nat \<Rightarrow> 'a tqheap \<Rightarrow> fault + 'a tqheap" where
  "TAILQ_INSERT_HEAD i elm h =
     bindE (TAILQ_FIRST h i) (\<lambda>first.
     bindE (set_tqe_next elm first h) (\<lambda>h.
     bindE (case first of None \<Rightarrow> set_tqh_last i (NextOf elm) h | Some f \<Rightarrow> set_tqe_prev f (NextOf elm) h) (\<lambda>h.
     bindE (set_tqh_first i (Some elm) h) (\<lambda>h.
     set_tqe_prev elm (HeadOf i) h))))"

definition TAILQ_INSERT_TAIL :: "nat \<Rightarrow> nat \<Rightarrow> 'a tqheap \<Rightarrow> fault + 'a tqheap" where
  "TAILQ_INSERT_TAIL i elm h =
     bindE (set_tqe_next elm None h) (\<lambda>h.
     bindE (get_tqhead h i) (\<lambda>q.
     bindE (set_tqe_prev elm (tqh_last q) h) (\<lambda>h.
     bindE (store_tq (tqh_last q) (Some elm) h) (\<lambda>h.
     set_tqh_last i (NextOf elm) h))))"

definition TAILQ_REMOVE :: "nat \<Rightarrow> nat \<Rightarrow> 'a tqheap \<Rightarrow> fault + 'a tqheap" where
  "TAILQ_REMOVE i elm h =
     bindE (get_tqelem h elm) (\<lambda>x.
     bindE (case tqe_next x of None \<Rightarrow> set_tqh_last i (tqe_prev x) h | Some n \<Rightarrow> set_tqe_prev n (tqe_prev x) h) (\<lambda>h.
     bindE (TAILQ_NEXT h elm) (\<lambda>nxt.
     store_tq (tqe_prev x) nxt h)))"

definition TAILQ_SWAP :: "nat \<Rightarrow> nat \<Rightarrow> 'a tqheap \<Rightarrow> fault + 'a tqheap" where
  "TAILQ_SWAP i j h =
     bindE (get_tqhead h i) (\<lambda>q1.
     bindE (get_tqhead h j) (\<lambda>q2.
     bindE (set_tqh_first i (tqh_first q2) h) (\<lambda>h.
     bindE (get_tqhead h j) (\<lambda>q2.
     bindE (set_tqh_last i (tqh_last q2) h) (\<lambda>h.
     bindE (set_tqh_first j (tqh_first q1) h) (\<lambda>h.
     bindE (set_tqh_last j (tqh_last q1) h) (\<lambda>h.
     bindE (TAILQ_FIRST h i) (\<lambda>f.
     bindE (case f of None \<Rightarrow> set_tqh_last i (HeadOf i) h | Some e \<Rightarrow> set_tqe_prev e (HeadOf i) h) (\<lambda>h.
     bindE (TAILQ_FIRST h j) (\<lambda>f.
     case f of None \<Rightarrow> set_tqh_last j (HeadOf j) h | Some e \<Rightarrow> set_tqe_prev e (HeadOf j) h))))))))))"

subsection \<open>Traversals\<close>

definition TAILQ_FOREACH ::
  "(nat \<Rightarrow> 'a tqheap \<Rightarrow> fault + 'a tqheap \<times> 'r option) \<Rightarrow> nat \<Rightarrow> 'a tqheap \<Rightarrow> ('a tqheap \<times> (nat \<times> 'r) option) run"
where
  "TAILQ_FOREACH body i h =
     loop_from (TAILQ_FIRST h i) (each TAILQ_NEXT body h)"

definition TAILQ_FOREACH_FROM ::
  "nat option \<Rightarrow> (nat \<Rightarrow> 'a tqheap \<Rightarrow> fault + 'a tqheap \<times> 'r option) \<Rightarrow> nat \<Rightarrow> 'a tqheap \<Rightarrow> ('a tqheap \<times> (nat \<times> 'r) option) run"
where
  "TAILQ_FOREACH_FROM var body i h =
     loop_from (start_at var (TAILQ_FIRST h i)) (each TAILQ_NEXT body h)"

definition TAILQ_FOREACH_SAFE ::
  "(nat \<Rightarrow> 'a tqheap \<Rightarrow> fault + 'a tqheap \<times> 'r option) \<Rightarrow> nat \<Rightarrow> 'a tqheap \<Rightarrow> ('a tqheap \<times> (nat \<times> 'r) option) run"
where
  "TAILQ_FOREACH_SAFE body i h =
     loop_from (TAILQ_FIRST h i) (each_safe TAILQ_NEXT body h)"

definition TAILQ_FOREACH_FROM_SAFE ::
  "nat option \<Rightarrow> (nat \<Rightarrow> 'a tqheap \<Rightarrow> fault + 'a tqheap \<times> 'r option) \<Rightarrow> nat \<Rightarrow> 'a tqheap \<Rightarrow> ('a tqheap \<times> (nat \<times> 'r) option) run"
where
  "TAILQ_FOREACH_FROM_SAFE var body i h =
     loop_from (start_at var (TAILQ_FIRST h i)) (each_safe TAILQ_NEXT body h)"

definition TAILQ_FOREACH_REVERSE ::
  "(nat \<Rightarrow> 'a tqheap \<Rightarrow> fault + 'a tqheap \<times> 'r option) \<Rightarrow> nat \<Rightarrow> 'a tqheap \<Rightarrow> ('a tqheap \<times> (nat \<times> 'r) option) run"
where
  "TAILQ_FOREACH_REVERSE body i h =
     loop_from (TAILQ_LAST h i) (each TAILQ_PREV body h)"

definition TAILQ_FOREACH_REVERSE_FROM ::
  "nat option \<Rightarrow> (nat \<Rightarrow> 'a tqheap \<Rightarrow> fault + 'a tqheap \<times> 'r option) \<Rightarrow> nat \<Rightarrow> 'a tqheap \<Rightarrow> ('a tqheap \<times> (nat \<times> 'r) option) run"
where
  "TAILQ_FOREACH_REVERSE_FROM var body i h =
     loop_from (start_at var (TAILQ_LAST h i)) (each TAILQ_PREV body h)"

definition TAILQ_FOREACH_REVERSE_SAFE ::
  "(nat \<Rightarrow> 'a tqheap \<Rightarrow> fault + 'a tqheap \<times> 'r option) \<Rightarrow> nat \<Rightarrow> 'a tqheap \<Rightarrow> ('a tqheap \<times> (nat \<times> 'r) option) run"
where
  "TAILQ_FOREACH_REVERSE_SAFE body i h =
     loop_from (TAILQ_LAST h i) (each_safe TAILQ_PREV body h)"

definition TAILQ_FOREACH_REVERSE_FROM_SAFE ::
  "nat option \<Rightarrow> (nat \<Rightarrow> 'a tqheap \<Rightarrow> fault + 'a tqheap \<times> 'r option) \<Rightarrow> nat \<Rightarrow> 'a tqheap \<Rightarrow> ('a tqheap \<times> (nat \<times> 'r) option) run"
where
  "TAILQ_FOREACH_REVERSE_FROM_SAFE var body i h =
     loop_from (start_at var (TAILQ_LAST h i)) (each_safe TAILQ_PREV body h)"

section \<open>The doubly linked lists inside\<close>

definition as_elem :: "'a tqelem \<Rightarrow> 'a elem" where
  "as_elem x = \<lparr>le_next = tqe_next x, le_prev = tqe_prev x, content = tq_content x\<rparr>"

definition as_list :: "'a tqheap \<Rightarrow> 'a lheap" where
  "as_list h = \<lparr>heads = map tqh_first (tq_heads h), elems = (\<lambda>e. map_option as_elem (tq_elems h e))\<rparr>"

definition last_links :: "'a tqheap \<Rightarrow> link list" where
  "last_links h = map tqh_last (tq_heads h)"

lemma last_links_length: "length (last_links h) = length (heads (as_list h))"
  by (simp add: last_links_def as_list_def)

text \<open>
  \<open>lifts r r' ls\<close>: if the step \<open>r'\<close> on the lists inside succeeds, so does the step \<open>r\<close> on the
  tail queues, with the same lists inside and the last links \<open>ls\<close>.
\<close>

definition lifts :: "fault + 'a tqheap \<Rightarrow> fault + 'a lheap \<Rightarrow> link list \<Rightarrow> bool" where
  "lifts r r' ls \<longleftrightarrow> (\<forall>g. r' = Inr g \<longrightarrow> (\<exists>h. r = Inr h \<and> as_list h = g \<and> last_links h = ls))"

lemma lifts_step:
  assumes "lifts r r' ls" and "\<And>h. last_links h = ls \<Longrightarrow> lifts (f h) (f' (as_list h)) ls'"
  shows "lifts (bindE r f) (bindE r' f') ls'"
  using assms by (cases r') (fastforce simp: lifts_def)+

lemma lifts_Inr: "last_links h = ls \<Longrightarrow> lifts (Inr h) (Inr (as_list h)) ls"
  by (simp add: lifts_def)

lemma FIRST_as_list: "TAILQ_FIRST h i = LIST_FIRST (as_list h) i"
  by (simp add: TAILQ_FIRST_def LIST_FIRST_def get_tqhead_def as_list_def)

lemma NEXT_as_list: "TAILQ_NEXT h e = LIST_NEXT (as_list h) e"
  by (simp add: TAILQ_NEXT_def LIST_NEXT_def get_tqelem_def get_elem_def as_list_def as_elem_def
      split: option.splits)

lemma elem_as_list: "get_elem (as_list h) e = bindE (get_tqelem h e) (\<lambda>x. Inr (as_elem x))"
  by (simp add: get_tqelem_def get_elem_def as_list_def split: option.splits)

lemma head_last: "i < length (last_links h) \<Longrightarrow> get_tqhead h i =
    Inr \<lparr>tqh_first = heads (as_list h) ! i, tqh_last = last_links h ! i\<rparr>"
  by (simp add: get_tqhead_def last_links_def as_list_def)

lemma lifts_set_next: "last_links h = ls \<Longrightarrow> lifts (set_tqe_next e v h) (set_next e v (as_list h)) ls"
  unfolding lifts_def set_tqe_next_def set_next_def elem_as_list
  by (cases "get_tqelem h e") (auto simp: as_list_def as_elem_def last_links_def)

lemma lifts_set_prev: "last_links h = ls \<Longrightarrow> lifts (set_tqe_prev e l h) (set_prev e l (as_list h)) ls"
  unfolding lifts_def set_tqe_prev_def set_prev_def elem_as_list
  by (cases "get_tqelem h e") (auto simp: as_list_def as_elem_def last_links_def)

lemma lifts_set_first: "last_links h = ls \<Longrightarrow> lifts (set_tqh_first i v h) (set_first i v (as_list h)) ls"
  unfolding lifts_def set_tqh_first_def set_first_def
  by (auto simp: as_list_def get_tqhead_def last_links_def map_update) (metis list_update_id nth_map)

lemma lifts_set_last:
  "last_links h = ls \<Longrightarrow> i < length ls \<Longrightarrow> lifts (set_tqh_last i l h) (Inr (as_list h)) (ls[i := l])"
  unfolding lifts_def set_tqh_last_def
  by (auto simp: as_list_def get_tqhead_def last_links_def map_update) (metis list_update_id nth_map)

lemma lifts_Inl [simp]: "lifts r (Inl f) ls"
  by (simp add: lifts_def)

lemma lifts_store: "last_links h = ls \<Longrightarrow> lifts (store_tq l v h) (store_link l v (as_list h)) ls"
  by (cases l) (simp_all add: lifts_set_first lifts_set_next)

text \<open>Where a LIST macro does nothing behind the last element, the TAILQ macro moves the last link.\<close>

lemma lifts_prev_or_last:
  assumes "last_links h = ls" and "i < length ls"
  shows "lifts (case v of None \<Rightarrow> set_tqh_last i l h | Some f \<Rightarrow> set_tqe_prev f k h)
    (case v of None \<Rightarrow> Inr (as_list h) | Some f \<Rightarrow> set_prev f k (as_list h)) (if v = None then ls[i := l] else ls)"
  using lifts_set_last [OF assms] lifts_set_prev [OF assms(1)] by (cases v) simp_all

subsection \<open>The macros that both families have\<close>

lemma lifts_INSERT_HEAD:
  assumes "last_links h = ls" and "i < length ls"
  shows "lifts (TAILQ_INSERT_HEAD i e h) (LIST_INSERT_HEAD i e (as_list h))
    (if heads (as_list h) ! i = None then ls[i := NextOf e] else ls)"
proof -
  have f: "LIST_FIRST (as_list h) i = Inr (heads (as_list h) ! i)"
    using assms last_links_length [of h] by (simp add: LIST_FIRST_def)
  show ?thesis
    unfolding TAILQ_INSERT_HEAD_def LIST_INSERT_HEAD_def FIRST_as_list f bindE.simps
    by (intro lifts_step [OF lifts_set_next [OF assms(1)]] lifts_step [OF lifts_prev_or_last [OF _ assms(2)]]
      lifts_step [OF lifts_set_first] lifts_set_prev)
qed

lemma lifts_INSERT_AFTER:
  assumes "last_links h = ls" and "i < length ls" and n: "LIST_NEXT (as_list h) b = Inr n"
  shows "lifts (TAILQ_INSERT_AFTER i b e h) (LIST_INSERT_AFTER b e (as_list h))
    (if n = None then ls[i := NextOf e] else ls)"
  unfolding TAILQ_INSERT_AFTER_def LIST_INSERT_AFTER_def NEXT_as_list n bindE.simps
  by (intro lifts_step [OF lifts_set_next [OF assms(1)]] lifts_step [OF lifts_prev_or_last [OF _ assms(2)]]
      lifts_step [OF lifts_set_next] lifts_set_prev)

lemma lifts_INSERT_BEFORE:
  assumes "last_links h = ls"
  shows "lifts (TAILQ_INSERT_BEFORE b e h) (LIST_INSERT_BEFORE b e (as_list h)) ls"
proof (cases "get_tqelem h b")
  case (Inr x)
  have p: "le_prev (as_elem x) = tqe_prev x" by (simp add: as_elem_def)
  show ?thesis
    unfolding TAILQ_INSERT_BEFORE_def LIST_INSERT_BEFORE_def elem_as_list Inr bindE.simps p
    by (intro lifts_step [OF lifts_set_prev [OF assms]] lifts_step [OF lifts_set_next]
        lifts_step [OF lifts_store] lifts_set_prev)
qed (simp add: LIST_INSERT_BEFORE_def elem_as_list)

lemma lifts_REMOVE:
  assumes "last_links h = ls" and "i < length ls" and x: "elems (as_list h) e = Some x"
  shows "lifts (TAILQ_REMOVE i e h) (LIST_REMOVE e (as_list h))
    (if le_next x = None then ls[i := le_prev x] else ls)"
proof -
  obtain y where y: "get_tqelem h e = Inr y" "x = as_elem y"
    using x by (auto simp: as_list_def get_tqelem_def)
  have p: "le_prev x = tqe_prev y" "le_next x = tqe_next y" "get_elem (as_list h) e = Inr x"
    using y x by (simp_all add: as_elem_def get_elem_def)
  have nxt: "lifts (bindE (TAILQ_NEXT h' e) (\<lambda>nxt. store_tq (tqe_prev y) nxt h'))
      (bindE (LIST_NEXT (as_list h') e) (\<lambda>nxt. store_link (tqe_prev y) nxt (as_list h'))) ls'"
    if "last_links h' = ls'" for h' ls'
    unfolding NEXT_as_list using lifts_store [OF that] by (cases "LIST_NEXT (as_list h') e") auto
  show ?thesis
    unfolding TAILQ_REMOVE_def LIST_REMOVE_def p y(1) bindE.simps
    by (intro lifts_step [OF lifts_prev_or_last [OF assms(1,2)]] nxt)
qed

lemma lifts_track:
  assumes "lifts r r' ls" and "\<And>h. r' = Inr (as_list h) \<Longrightarrow> last_links h = ls \<Longrightarrow> lifts (f h) (f' (as_list h)) ls'"
  shows "lifts (bindE r f) (bindE r' f') ls'"
  using assms by (cases r') (fastforce simp: lifts_def)+

lemma bindE_Inr_right: "bindE r Inr = r"
  by (cases r) auto

text \<open>A step that only moves a last link.\<close>

lemma lifts_only_last:
  assumes "last_links h = ls" and "i < length ls"
    and "\<And>h'. as_list h' = as_list h \<Longrightarrow> last_links h' = ls[i := l] \<Longrightarrow> lifts (f h') r' ls'"
  shows "lifts (bindE (set_tqh_last i l h) f) r' ls'"
  using lifts_set_last [OF assms(1,2), of l] assms(3) by (auto simp: lifts_def)

lemma LIST_FIRST_heads: "i < length (heads g) \<Longrightarrow> LIST_FIRST g i = Inr (heads g ! i)"
  by (simp add: LIST_FIRST_def)

lemma set_prev_heads: "set_prev e l g = Inr g' \<Longrightarrow> heads g' = heads g"
  by (auto simp: set_prev_def bindE_simps)

lemma set_first_heads: "set_first i v g = Inr g' \<Longrightarrow> heads g' = (heads g)[i := v]"
  by (auto simp: set_first_def split: if_splits)

text \<open>The end of \<open>TAILQ_SWAP\<close>: the first element, or else the last link, of both heads is corrected.\<close>

lemma lifts_own_links:
  assumes ls: "last_links h = ls" and i: "i < length ls" and j: "j < length ls"
  shows "lifts
     (bindE (TAILQ_FIRST h i) (\<lambda>f.
      bindE (case f of None \<Rightarrow> set_tqh_last i (HeadOf i) h | Some e \<Rightarrow> set_tqe_prev e (HeadOf i) h) (\<lambda>h.
      bindE (TAILQ_FIRST h j) (\<lambda>f.
      case f of None \<Rightarrow> set_tqh_last j (HeadOf j) h | Some e \<Rightarrow> set_tqe_prev e (HeadOf j) h))))
     (bindE (LIST_FIRST (as_list h) i) (\<lambda>f.
      bindE (case f of None \<Rightarrow> Inr (as_list h) | Some e \<Rightarrow> set_prev e (HeadOf i) (as_list h)) (\<lambda>g.
      bindE (LIST_FIRST g j) (\<lambda>f.
      case f of None \<Rightarrow> Inr g | Some e \<Rightarrow> set_prev e (HeadOf j) g))))
     (let ls = (if heads (as_list h) ! i = None then ls[i := HeadOf i] else ls)
      in if heads (as_list h) ! j = None then ls[j := HeadOf j] else ls)"
proof -
  have f: "LIST_FIRST (as_list h) i = Inr (heads (as_list h) ! i)"
    using i ls last_links_length [of h] by (simp add: LIST_FIRST_heads)
  show ?thesis
    unfolding FIRST_as_list f bindE.simps
  proof (rule lifts_track [OF lifts_prev_or_last [OF ls i]], goal_cases)
    case (1 h1)
    have hs: "heads (as_list h1) = heads (as_list h)"
      using 1(1) by (auto split: option.splits dest: set_prev_heads)
    have "LIST_FIRST (as_list h1) j = Inr (heads (as_list h) ! j)"
      using j ls last_links_length [of h] hs by (simp add: LIST_FIRST_heads)
    then show ?case
      using lifts_prev_or_last [OF 1(2), of j] j by (simp add: Let_def)
  qed
qed

lemma lifts_SWAP:
  assumes ls: "last_links h = ls" and i: "i < length ls" and j: "j < length ls" and "i \<noteq> j"
    and hs: "heads (as_list h) = hs"
  shows "lifts (TAILQ_SWAP i j h) (LIST_SWAP i j (as_list h))
    (ls[i := if hs ! j = None then HeadOf i else ls ! j, j := if hs ! i = None then HeadOf j else ls ! i])"
proof -
  let ?hs = "hs[i := hs ! j, j := hs ! i]" and ?swapped = "ls[i := ls ! j, j := ls ! i]"
  have l: "length hs = length ls" using last_links_length [of h] ls hs by simp
  have f: "LIST_FIRST (as_list h) i = Inr (hs ! i)" "LIST_FIRST (as_list h) j = Inr (hs ! j)"
    using i j l hs by (simp_all add: LIST_FIRST_heads)
  have g: "get_tqhead h i = Inr \<lparr>tqh_first = hs ! i, tqh_last = ls ! i\<rparr>"
      "get_tqhead h j = Inr \<lparr>tqh_first = hs ! j, tqh_last = ls ! j\<rparr>"
    using head_last [of i h] head_last [of j h] ls hs i j by simp_all
  have "lifts (TAILQ_SWAP i j h) (LIST_SWAP i j (as_list h))
    (let ls = (if ?hs ! i = None then ?swapped[i := HeadOf i] else ?swapped)
      in if ?hs ! j = None then ls[j := HeadOf j] else ls)"
    unfolding TAILQ_SWAP_def LIST_SWAP_def f g bindE.simps tqhead.simps
  proof (rule lifts_track [OF lifts_set_first [OF ls]], goal_cases)
    case (1 h1)
    have g1: "get_tqhead h1 j = Inr \<lparr>tqh_first = heads (as_list h1) ! j, tqh_last = ls ! j\<rparr>"
      using head_last [of j h1] 1(2) j by simp
    have hs1: "heads (as_list h1) = hs[i := hs ! j]"
      using set_first_heads [OF 1(1)] hs by simp
    show ?case
      unfolding g1 bindE.simps tqhead.simps
    proof (rule lifts_only_last [OF 1(2) i], goal_cases)
      case (1 h2)
      show ?case
        unfolding 1(1) [symmetric]
      proof (rule lifts_track [OF lifts_set_first [OF 1(2)]], goal_cases)
        case (1 h3)
        have hs3: "heads (as_list h3) = ?hs"
          using set_first_heads [OF 1(1)] hs1 \<open>as_list h2 = as_list h1\<close> by simp
        show ?case
        proof (rule lifts_only_last [OF 1(2)], goal_cases)
          case (2 h4)
          show ?case
            using lifts_own_links [OF 2(2), of i j] i j hs3 unfolding 2(1) by simp
        qed (use j in simp)
      qed
    qed
  qed
  moreover have "(let ls = (if ?hs ! i = None then ?swapped[i := HeadOf i] else ?swapped)
      in if ?hs ! j = None then ls[j := HeadOf j] else ls) =
    ls[i := if hs ! j = None then HeadOf i else ls ! j, j := if hs ! i = None then HeadOf j else ls ! i]"
    using assms l by (auto simp: Let_def list_update_swap nth_list_update)
  ultimately show ?thesis by simp
qed

section \<open>The queues of a heap\<close>

text \<open>\<open>tailqs h LL\<close>: the lists inside are \<open>LL\<close>, and every head knows its last link.\<close>

definition tailqs :: "'a tqheap \<Rightarrow> nat list list \<Rightarrow> bool" where
  "tailqs h LL \<longleftrightarrow> rep (as_list h) LL \<and>
     (\<forall>i < length LL. last_links h ! i = end_link (HeadOf i) (LL ! i))"

definition tq_cont :: "'a tqheap \<Rightarrow> nat \<Rightarrow> 'a option" where
  "tq_cont h = cont (as_list h)"

lemma tailqs_rep: "tailqs h LL \<Longrightarrow> rep (as_list h) LL"
  by (simp add: tailqs_def)

lemma tailqs_last: "tailqs h LL \<Longrightarrow> i < length LL \<Longrightarrow> last_links h ! i = end_link (HeadOf i) (LL ! i)"
  by (simp add: tailqs_def)

lemma tailqs_length: "tailqs h LL \<Longrightarrow> length (last_links h) = length LL"
  using last_links_length [of h] by (simp add: tailqs_def rep_def)

lemma tailqs_live: "tq_cont h e \<noteq> None \<Longrightarrow> \<exists>x. elems (as_list h) e = Some x"
  by (auto simp: tq_cont_def cont_def)

text \<open>From a step on the lists inside to the step on the tail queues.\<close>

lemma lifts_tailqs:
  assumes "lifts r r' ls" and "\<exists>g. r' = Inr g \<and> rep g LL \<and> keeps (as_list h) g"
    and "\<And>i. i < length LL \<Longrightarrow> ls ! i = end_link (HeadOf i) (LL ! i)"
  shows "\<exists>h'. r = Inr h' \<and> tailqs h' LL \<and> tq_cont h' = tq_cont h"
proof -
  obtain g where g: "r' = Inr g" "rep g LL" "cont g = cont (as_list h)" using assms(2) keeps_cont by blast
  then obtain h' where "r = Inr h'" "as_list h' = g" "last_links h' = ls" using assms(1) by (auto simp: lifts_def)
  then show ?thesis using g assms(3) by (auto simp: tailqs_def tq_cont_def)
qed

text \<open>The last links when one queue changes.\<close>

lemma last_links_fit:
  assumes "tailqs h LL" and "i < length LL"
    and "(if moved then l else end_link (HeadOf i) (LL ! i)) = end_link (HeadOf i) es"
    and "k < length (LL[i := es])"
  shows "(if moved then (last_links h)[i := l] else last_links h) ! k = end_link (HeadOf k) (LL[i := es] ! k)"
proof (cases "k = i")
  case True
  have "(if moved then (last_links h)[i := l] else last_links h) ! i =
      (if moved then l else end_link (HeadOf i) (LL ! i))"
    using assms(2) tailqs_length [OF assms(1)] tailqs_last [OF assms(1,2)] by simp
  then show ?thesis unfolding assms(3) True nth_list_update_eq [OF assms(2)] .
next
  case False
  then show ?thesis using assms(4) tailqs_last [OF assms(1), of k] by simp
qed

lemma rep_head_None: "rep g LL \<Longrightarrow> i < length LL \<Longrightarrow> heads g ! i = None \<longleftrightarrow> LL ! i = []"
  using rep_seg [of g LL i] by (cases "LL ! i") auto

lemma tailqs_INSERT_HEAD:
  assumes t: "tailqs h LL" and i: "i < length LL" and "e \<notin> members LL" and "tq_cont h e \<noteq> None"
  shows "\<exists>h'. TAILQ_INSERT_HEAD i e h = Inr h' \<and> tailqs h' (LL[i := e # LL ! i]) \<and> tq_cont h' = tq_cont h"
proof -
  obtain x where "elems (as_list h) e = Some x" using tailqs_live [OF assms(4)] ..
  note step = LIST_INSERT_HEAD_rep [OF tailqs_rep [OF t] i assms(3) this]
  have "i < length (last_links h)" using tailqs_length [OF t] i by simp
  note run = lifts_INSERT_HEAD [OF refl this]
  show ?thesis
    by (rule lifts_tailqs [OF run step], rule last_links_fit [OF t i])
      (use rep_head_None [OF tailqs_rep [OF t] i] in \<open>simp_all add: end_link_last\<close>)
qed

lemma tailqs_INSERT_AFTER:
  assumes t: "tailqs h LL" and i: "i < length LL" and es: "LL ! i = xs @ b # ys"
    and "e \<notin> members LL" and "tq_cont h e \<noteq> None"
  shows "\<exists>h'. TAILQ_INSERT_AFTER i b e h = Inr h' \<and> tailqs h' (LL[i := xs @ b # e # ys]) \<and> tq_cont h' = tq_cont h"
proof -
  obtain x where "elems (as_list h) e = Some x" using tailqs_live [OF assms(5)] ..
  note step = LIST_INSERT_AFTER_rep [OF tailqs_rep [OF t] i es assms(4) this]
  obtain n where n: "LIST_NEXT (as_list h) b = Inr n" "n = None \<longleftrightarrow> ys = []"
    using ls.walks_from [OF tailqs_rep [OF t] i es] by (cases ys) (auto split: sum.splits)
  have "i < length (last_links h)" using tailqs_length [OF t] i by simp
  note run = lifts_INSERT_AFTER [OF refl this n(1), of e]
  show ?thesis
    by (rule lifts_tailqs [OF run step], rule last_links_fit [OF t i])
      (use n(2) es in \<open>simp_all add: end_link_last\<close>)
qed

lemma tailqs_INSERT_BEFORE:
  assumes t: "tailqs h LL" and i: "i < length LL" and es: "LL ! i = xs @ b # ys"
    and "e \<notin> members LL" and "tq_cont h e \<noteq> None"
  shows "\<exists>h'. TAILQ_INSERT_BEFORE b e h = Inr h' \<and> tailqs h' (LL[i := xs @ e # b # ys]) \<and> tq_cont h' = tq_cont h"
proof -
  obtain x where "elems (as_list h) e = Some x" using tailqs_live [OF assms(5)] ..
  note step = LIST_INSERT_BEFORE_rep [OF tailqs_rep [OF t] i es assms(4) this]
  show ?thesis
    by (rule lifts_tailqs [OF lifts_INSERT_BEFORE [OF refl] step],
        rule last_links_fit [OF t i, where moved = False, simplified])
      (use es in \<open>simp_all add: end_link_last\<close>)
qed

lemma tailqs_REMOVE:
  assumes t: "tailqs h LL" and i: "i < length LL" and es: "LL ! i = xs @ e # ys"
  shows "\<exists>h'. TAILQ_REMOVE i e h = Inr h' \<and> tailqs h' (LL[i := xs @ ys]) \<and> tq_cont h' = tq_cont h"
proof -
  note step = LIST_REMOVE_split [OF tailqs_rep [OF t] i es]
  obtain x where x: "elems (as_list h) e = Some x" "le_prev x = end_link (HeadOf i) xs" "le_next x = None \<longleftrightarrow> ys = []"
    using rep_seg [OF tailqs_rep [OF t] i] unfolding es
    by (cases ys) (auto simp: seg_append split: option.splits)
  have "i < length (last_links h)" using tailqs_length [OF t] i by simp
  note run = lifts_REMOVE [OF refl this x(1)]
  show ?thesis
    by (rule lifts_tailqs [OF run step], rule last_links_fit [OF t i])
      (use x es in \<open>simp_all add: end_link_last\<close>)
qed

lemma tailqs_SWAP:
  assumes t: "tailqs h LL" and i: "i < length LL" and j: "j < length LL" and "i \<noteq> j"
  shows "\<exists>h'. TAILQ_SWAP i j h = Inr h' \<and> tailqs h' (LL[i := LL ! j, j := LL ! i]) \<and> tq_cont h' = tq_cont h"
proof -
  note r = tailqs_rep [OF t] and l = tailqs_length [OF t]
  have "i < length (last_links h)" "j < length (last_links h)" using l i j by simp_all
  note run = lifts_SWAP [OF refl this assms(4) refl]
  show ?thesis
    by (rule lifts_tailqs [OF run LIST_SWAP_rep [OF r i j assms(4)]])
      (use i j l rep_head_None [OF r i] rep_head_None [OF r j] tailqs_last [OF t]
        in \<open>simp add: nth_list_update end_link_last\<close>)
qed

section \<open>Appending\<close>

text \<open>What the two macros do to the lists inside.\<close>

definition list_append :: "link \<Rightarrow> nat \<Rightarrow> 'a lheap \<Rightarrow> fault + 'a lheap" where
  "list_append l e g =
     bindE (set_next e None g) (\<lambda>g.
     bindE (set_prev e l g) (\<lambda>g.
     store_link l (Some e) g))"

definition list_join :: "link \<Rightarrow> nat \<Rightarrow> nat \<Rightarrow> 'a lheap \<Rightarrow> fault + 'a lheap" where
  "list_join l f j g =
     bindE (store_link l (Some f) g) (\<lambda>g.
     bindE (set_prev f l g) (\<lambda>g.
     set_first j None g))"

text \<open>A detached segment that begins where a list ends becomes its rest.\<close>

lemma rep_join:
  assumes r: "rep g L" and i: "i < length L"
    and pre: "seg g' (HeadOf i) (heads g' ! i) (L ! i) v"
    and new: "seg g' (end_link (HeadOf i) (L ! i)) v es None" "distinct es" "set es \<inter> members L = {}"
    and heads: "length (heads g') = length (heads g)" "\<And>k. k \<noteq> i \<Longrightarrow> heads g' ! k = heads g ! k"
    and elems: "\<And>a. a \<notin> set (L ! i) \<Longrightarrow> a \<notin> set es \<Longrightarrow> elems g' a = elems g a"
  shows "rep g' (L[i := L ! i @ es])"
proof (rule rep_update [OF r i heads])
  show "seg g' (HeadOf i) (heads g' ! i) (L ! i @ es) None" using pre new(1) by (auto simp: seg_append)
  show "distinct (L ! i @ es)" using rep_distinct [OF r i] new(2,3) membersI [OF i] by auto
next
  fix a k assume k: "k < length L" "k \<noteq> i"
  show "elems g' a = elems g a" if "a \<in> set (L ! k)"
    using elems [of a] rep_other [OF r k(1) i k(2) that] membersI [OF k(1) that] new(3) by blast
  show "set (L ! i @ es) \<inter> set (L ! k) = {}"
    using rep_other [OF r i k(1) k(2) [symmetric]] membersI [OF k(1)] new(3) by auto
qed

lemma list_append_rep:
  assumes r: "rep g LL" and i: "i < length LL" and "e \<notin> members LL" and x: "elems g e = Some x"
  shows "\<exists>g'. list_append (end_link (HeadOf i) (LL ! i)) e g = Inr g' \<and>
    rep g' (LL[i := LL ! i @ [e]]) \<and> keeps g g'"
proof -
  let ?l = "end_link (HeadOf i) (LL ! i)" and ?x = "x\<lparr>le_next := None, le_prev := end_link (HeadOf i) (LL ! i)\<rparr>"
  let ?g = "g\<lparr>elems := (elems g)(e \<mapsto> ?x)\<rparr>"
  have e: "e \<notin> set (LL ! i)" using assms(3) membersI [OF i] by blast
  have il: "i < length (heads ?g)" using r i by (simp add: rep_def)
  have r1: "rep ?g LL" by (rule rep_frame [OF r]) (use assms(3) in auto)
  from store_end_link [OF rep_seg [OF r1 i] rep_distinct [OF r i] il, of "Some e"]
  obtain g' where g': "store_link ?l (Some e) ?g = Inr g'" "seg g' (HeadOf i) (heads g' ! i) (LL ! i) (Some e)"
      "\<And>k. k \<noteq> i \<Longrightarrow> heads g' ! k = heads ?g ! k" "\<And>a. a \<notin> set (LL ! i) \<Longrightarrow> elems g' a = elems ?g a" "keeps ?g g'"
    by blast
  have "elems g' e = Some ?x" using g'(4) [OF e] by simp
  then have "rep g' (LL[i := LL ! i @ [e]])"
    using r1 i g' assms(3) by (intro rep_join [OF r1 i g'(2)]) (simp_all add: keeps_def)
  moreover have "list_append ?l e g = Inr g'"
    using g'(1) x by (simp add: list_append_def set_next_def set_prev_def get_elem_def)
  moreover have "keeps g g'" using keeps_trans [OF keeps_upd(1) [OF x, of ?x] g'(5)] by simp
  ultimately show ?thesis by blast
qed

lemma list_join_rep:
  assumes r: "rep g LL" and i: "i < length LL" and j: "j < length LL" and ij: "i \<noteq> j" and es: "LL ! j = f # ys"
  shows "\<exists>g1 g'. store_link (end_link (HeadOf i) (LL ! i)) (Some f) g = Inr g1 \<and> heads g1 ! j = heads g ! j \<and>
    length (heads g1) = length (heads g) \<and>
    list_join (end_link (HeadOf i) (LL ! i)) f j g = Inr g' \<and>
    rep g' (LL[i := LL ! i @ LL ! j, j := []]) \<and> keeps g g'"
proof -
  let ?l = "end_link (HeadOf i) (LL ! i)" and ?L = "LL[j := []]" and ?g = "g\<lparr>heads := (heads g)[j := None]\<rparr>"
  have l: "i < length (heads g)" "j < length (heads g)" using r i j by (simp_all add: rep_def)
  have apart: "set (LL ! i) \<inter> set (LL ! j) = {}" using rep_other [OF r i j ij] by blast
  from store_end_link [OF rep_seg [OF r i] rep_distinct [OF r i] l(1), of "Some f"]
  obtain g1 where g1: "store_link ?l (Some f) g = Inr g1" "seg g1 (HeadOf i) (heads g1 ! i) (LL ! i) (Some f)"
      "\<And>k. k \<noteq> i \<Longrightarrow> heads g1 ! k = heads g ! k" "\<And>a. a \<notin> set (LL ! i) \<Longrightarrow> elems g1 a = elems g a" "keeps g g1"
    by blast
  have l1: "length (heads g1) = length (heads g)" using g1(5) by (simp add: keeps_def)
  have "seg g (HeadOf j) (Some f) (LL ! j) None" using rep_seg [OF r j] es by simp
  then have "seg g1 (HeadOf j) (Some f) (LL ! j) None"
    by (rule seg_frame) (use g1(4) apart in blast)
  from fix_prev_seg [OF this rep_distinct [OF r j], of ?l]
  obtain g2 where g2: "set_prev f ?l g1 = Inr g2" "seg g2 ?l (Some f) (LL ! j) None" "heads g2 = heads g1"
      "\<And>a. a \<notin> set (LL ! j) \<Longrightarrow> elems g2 a = elems g1 a" "keeps g1 g2"
    by (auto simp: fix_prev_def)
  let ?g' = "g2\<lparr>heads := (heads g2)[j := None]\<rparr>"
  have r0: "rep ?g ?L"
    by (rule rep_update [OF r j]) (use l in auto)
  have s: "seg ?g' ?l (Some f) (LL ! j) None" by (rule seg_frame [OF g2(2)]) simp
  have "seg ?g' (HeadOf i) (heads g1 ! i) (LL ! i) (Some f)"
    by (rule seg_frame [OF g1(2)]) (use g2(4) apart in auto)
  then have p: "seg ?g' (HeadOf i) (heads ?g' ! i) (?L ! i) (Some f)" using g2(3) ij by simp
  have m: "set (LL ! j) \<inter> members ?L = {}"
    using rep_other [OF r j _] j by (fastforce simp: members_iff nth_list_update split: if_splits)
  have "rep ?g' (?L[i := ?L ! i @ LL ! j])"
    by (rule rep_join [OF r0 _ p _ rep_distinct [OF r j] m])
      (use s ij i l l1 g1(3,4) g2(3,4) in \<open>simp_all add: nth_list_update\<close>)
  then have "rep ?g' (LL[i := LL ! i @ LL ! j, j := []])" using ij by (simp add: list_update_swap)
  moreover have "list_join ?l f j g = Inr ?g'"
    using g1(1) g2(1,3) l l1 by (simp add: list_join_def set_first_def)
  moreover have "keeps g ?g'" using keeps_trans [OF g1(5) keeps_trans [OF g2(5) keeps_upd(2)]] .
  ultimately show ?thesis using g1(1) g1(3) [of j] ij l1 by blast
qed

lemma lifts_INSERT_TAIL:
  assumes ls: "last_links h = ls" and i: "i < length ls"
  shows "lifts (TAILQ_INSERT_TAIL i e h) (list_append (ls ! i) e (as_list h)) (ls[i := NextOf e])"
  unfolding TAILQ_INSERT_TAIL_def list_append_def
proof (rule lifts_step [OF lifts_set_next [OF ls]], goal_cases)
  case (1 h1)
  have q: "get_tqhead h1 i = Inr \<lparr>tqh_first = heads (as_list h1) ! i, tqh_last = ls ! i\<rparr>"
    using head_last [of i h1] 1 i by simp
  show ?case
    unfolding q bindE.simps tqhead.simps
  proof (rule lifts_step [OF lifts_set_prev [OF 1]], goal_cases)
    case (1 h2)
    have "lifts (bindE (store_tq (ls ! i) (Some e) h2) (\<lambda>h. set_tqh_last i (NextOf e) h))
        (bindE (store_link (ls ! i) (Some e) (as_list h2)) Inr) (ls[i := NextOf e])"
      by (rule lifts_step [OF lifts_store [OF 1]], rule lifts_set_last) (use i in simp_all)
    then show ?case by (simp only: bindE_Inr_right)
  qed
qed

lemma tailqs_INSERT_TAIL:
  assumes t: "tailqs h LL" and i: "i < length LL" and "e \<notin> members LL" and "tq_cont h e \<noteq> None"
  shows "\<exists>h'. TAILQ_INSERT_TAIL i e h = Inr h' \<and> tailqs h' (LL[i := LL ! i @ [e]]) \<and> tq_cont h' = tq_cont h"
proof -
  obtain x where "elems (as_list h) e = Some x" using tailqs_live [OF assms(4)] ..
  note step = list_append_rep [OF tailqs_rep [OF t] i assms(3) this]
  have "i < length (last_links h)" using tailqs_length [OF t] i by simp
  note run = lifts_INSERT_TAIL [OF refl this, of e, unfolded tailqs_last [OF t i]]
  show ?thesis
    by (rule lifts_tailqs [OF run step], rule last_links_fit [OF t i, where moved = True, simplified])
      (simp_all add: end_link_last)
qed

lemma lifts_INIT:
  assumes "last_links h = ls" and "i < length ls"
  shows "lifts (TAILQ_INIT i h) (set_first i None (as_list h)) (ls[i := HeadOf i])"
proof -
  have "lifts (TAILQ_INIT i h) (bindE (set_first i None (as_list h)) Inr) (ls[i := HeadOf i])"
    unfolding TAILQ_INIT_def
    by (rule lifts_step [OF lifts_set_first [OF assms(1)]], rule lifts_set_last) (use assms(2) in simp_all)
  then show ?thesis by (simp only: bindE_Inr_right)
qed

lemma tailqs_INIT:
  assumes t: "tailqs h LL" and i: "i < length LL"
  shows "\<exists>h'. TAILQ_INIT i h = Inr h' \<and> tailqs h' (LL[i := []]) \<and> tq_cont h' = tq_cont h"
proof -
  note r = tailqs_rep [OF t]
  let ?g = "(as_list h)\<lparr>heads := (heads (as_list h))[i := None]\<rparr>"
  have "rep ?g (LL[i := []])" by (rule rep_update [OF r i]) (use r i in \<open>auto simp: rep_def\<close>)
  then have step: "\<exists>g. set_first i None (as_list h) = Inr g \<and> rep g (LL[i := []]) \<and> keeps (as_list h) g"
    using r i keeps_upd(2) [of "as_list h" i None] by (auto simp: set_first_def rep_def)
  have "i < length (last_links h)" using tailqs_length [OF t] i by simp
  note run = lifts_INIT [OF refl this]
  show ?thesis
    by (rule lifts_tailqs [OF run step], rule last_links_fit [OF t i, where moved = True, simplified])
      (simp_all add: end_link_last)
qed

lemma lifts_CONCAT:
  assumes ls: "last_links h = ls" and i: "i < length ls" and j: "j < length ls"
    and f: "heads (as_list h) ! j = Some f"
    and g1: "store_link (ls ! i) (Some f) (as_list h) = Inr g1" "heads g1 ! j = Some f"
  shows "lifts (TAILQ_CONCAT i j h) (list_join (ls ! i) f j (as_list h)) (ls[i := ls ! j, j := HeadOf j])"
proof -
  have q: "get_tqhead h i = Inr \<lparr>tqh_first = heads (as_list h) ! i, tqh_last = ls ! i\<rparr>"
    using head_last [of i h] ls i by simp
  have first: "LIST_FIRST (as_list h) j = Inr (Some f)"
    using f j ls last_links_length [of h] by (simp add: LIST_FIRST_heads)
  show ?thesis
    unfolding TAILQ_CONCAT_def list_join_def FIRST_as_list first q bindE.simps option.case tqhead.simps
  proof (rule lifts_track [OF lifts_store [OF ls]], goal_cases)
    case (1 h1)
    have "LIST_FIRST (as_list h1) j = Inr (Some f)"
      using g1 1 j last_links_length [of h1] by (simp add: LIST_FIRST_heads)
    note first1 = this
    show ?case
      unfolding first1 bindE.simps option.case
    proof (rule lifts_step [OF lifts_set_prev [OF 1(2)]], goal_cases)
      case (1 h2)
      have q2: "get_tqhead h2 j = Inr \<lparr>tqh_first = heads (as_list h2) ! j, tqh_last = ls ! j\<rparr>"
        using head_last [of j h2] 1 j by simp
      show ?case
        unfolding q2 bindE.simps tqhead.simps
      proof (rule lifts_only_last [OF 1 i], goal_cases)
        case (1 h3)
        then show ?case using lifts_INIT [OF 1(2), of j] j by simp
      qed
    qed
  qed
qed

lemma tailqs_CONCAT:
  assumes t: "tailqs h LL" and i: "i < length LL" and j: "j < length LL" and ij: "i \<noteq> j"
  shows "\<exists>h'. TAILQ_CONCAT i j h = Inr h' \<and> tailqs h' (LL[i := LL ! i @ LL ! j, j := []]) \<and> tq_cont h' = tq_cont h"
proof (cases "LL ! j")
  case Nil
  then have "TAILQ_CONCAT i j h = Inr h"
    using rep_head_None [OF tailqs_rep [OF t] j] LIST_FIRST_rep [OF tailqs_rep [OF t] j]
    by (simp add: TAILQ_CONCAT_def FIRST_as_list)
  moreover have "LL[i := LL ! i @ LL ! j, j := []] = LL"
    using Nil j ij by (metis append_Nil2 list_update_id)
  ultimately show ?thesis using t by simp
next
  case (Cons f ys)
  note r = tailqs_rep [OF t] and l = tailqs_length [OF t]
  obtain g1 g' where g: "store_link (last_links h ! i) (Some f) (as_list h) = Inr g1"
      "heads g1 ! j = heads (as_list h) ! j" "list_join (last_links h ! i) f j (as_list h) = Inr g'"
      "rep g' (LL[i := LL ! i @ LL ! j, j := []])" "keeps (as_list h) g'"
    using list_join_rep [OF r i j ij Cons] tailqs_last [OF t i] by auto
  have f: "heads (as_list h) ! j = Some f" using rep_seg [OF r j] Cons by simp
  note run = lifts_CONCAT [OF refl _ _ f g(1)]
  show ?thesis
  proof (rule lifts_tailqs [OF run])
    show "(last_links h)[i := last_links h ! j, j := HeadOf j] ! k =
        end_link (HeadOf k) (LL[i := LL ! i @ LL ! j, j := []] ! k)"
      if "k < length (LL[i := LL ! i @ LL ! j, j := []])" for k
      using that i j l ij tailqs_last [OF t] Cons by (simp add: nth_list_update end_link_last)
  qed (use g f i j l in auto)
qed

section \<open>The way back\<close>

text \<open>The pointer at a link of a queue, and the field behind it.\<close>

lemma load_link:
  assumes t: "tailqs h LL" and i: "i < length LL" and es: "LL ! i = xs @ ys"
  shows "load_tq h (end_link (HeadOf i) xs) = Inr (if ys = [] then None else Some (hd ys))"
proof (cases xs rule: rev_cases)
  case Nil
  then show ?thesis
    using ls.first_nth [OF tailqs_rep [OF t] i] es by (simp add: FIRST_as_list)
next
  case (snoc xs' b)
  then have "walk LIST_NEXT (as_list h) (Some b) (b # ys)"
    using ls.walks_from [OF tailqs_rep [OF t] i, of xs' b ys] es by simp
  then show ?thesis using snoc by (cases ys) (auto simp: NEXT_as_list split: sum.splits)
qed

lemma link_before:
  assumes t: "tailqs h LL" and i: "i < length LL" and es: "LL ! i = xs @ e # ys"
  shows "\<exists>x. get_tqelem h e = Inr x \<and> tqe_prev x = end_link (HeadOf i) xs"
  using rep_seg [OF tailqs_rep [OF t] i] unfolding es
  by (auto simp: seg_append as_list_def as_elem_def get_tqelem_def split: option.splits)

lemma head_of:
  assumes "tailqs h LL" and "i < length LL"
  shows "\<exists>q. get_tqhead h i = Inr q \<and> tqh_last q = end_link (HeadOf i) (LL ! i)"
  using head_last [of i h] tailqs_last [OF assms] tailqs_length [OF assms(1)] assms(2) by simp

lemma tailqs_LAST:
  assumes t: "tailqs h LL" and i: "i < length LL"
  shows "TAILQ_LAST h i = Inr (if LL ! i = [] then None else Some (last (LL ! i)))"
proof -
  obtain q where q: "get_tqhead h i = Inr q" "tqh_last q = end_link (HeadOf i) (LL ! i)"
    using head_of [OF t i] by blast
  show ?thesis
  proof (cases "LL ! i" rule: rev_cases)
    case Nil
    then show ?thesis using q load_link [OF t i, of "[]" "[]"] by (simp add: TAILQ_LAST_def)
  next
    case (snoc xs e)
    then obtain x where "get_tqelem h e = Inr x" "tqe_prev x = end_link (HeadOf i) xs"
      using link_before [OF t i, of xs e "[]"] by auto
    then show ?thesis using q snoc load_link [OF t i, of xs "[e]"] by (simp add: TAILQ_LAST_def)
  qed
qed

lemma tailqs_PREV:
  assumes t: "tailqs h LL" and i: "i < length LL" and es: "LL ! i = xs @ e # ys"
  shows "TAILQ_PREV h e = Inr (if xs = [] then None else Some (last xs))"
proof -
  obtain x where x: "get_tqelem h e = Inr x" "tqe_prev x = end_link (HeadOf i) xs"
    using link_before [OF t i es] by blast
  show ?thesis
  proof (cases xs rule: rev_cases)
    case Nil
    obtain q where "get_tqhead h i = Inr q" "tqh_last q = end_link (HeadOf i) (LL ! i)"
      using head_of [OF t i] by blast
    then show ?thesis
      using x Nil load_link [OF t i, of "LL ! i" "[]"] by (simp add: TAILQ_PREV_def)
  next
    case (snoc xs' b)
    then obtain y where "get_tqelem h b = Inr y" "tqe_prev y = end_link (HeadOf i) xs'"
      using link_before [OF t i, of xs' b "e # ys"] es by auto
    then show ?thesis using x snoc load_link [OF t i, of xs' "b # e # ys"] es by (simp add: TAILQ_PREV_def)
  qed
qed

lemma walk_back:
  assumes t: "tailqs h LL" and i: "i < length LL"
  shows "LL ! i = xs @ ys \<Longrightarrow> walk TAILQ_PREV h (if xs = [] then None else Some (last xs)) (rev xs)"
proof (induction xs arbitrary: ys rule: rev_induct)
  case (snoc e xs)
  then show ?case using tailqs_PREV [OF t i, of xs e ys] by simp
qed simp

section \<open>The contracts\<close>

text \<open>Forwards and backwards the tail queues are traversable.\<close>

interpretation tq: linked tailqs TAILQ_FIRST TAILQ_NEXT
proof
  fix h :: "'a tqheap" and LL i
  assume a: "tailqs h LL" "i < length LL"
  have "walk TAILQ_NEXT h = walk LIST_NEXT (as_list h)" (is "?l = ?r")
  proof (intro ext)
    show "?l v es = ?r v es" for v es
      by (induction es arbitrary: v) (auto simp: NEXT_as_list split: sum.splits)
  qed
  then show "\<exists>v. TAILQ_FIRST h i = Inr v \<and> walk TAILQ_NEXT h v (LL ! i)"
    using ls.leads_through [OF tailqs_rep [OF a(1)] a(2)] by (simp add: FIRST_as_list)
  show "distinct (LL ! i)" using rep_distinct [OF tailqs_rep [OF a(1)] a(2)] .
qed

interpretation bw: linked "\<lambda>h LL. tailqs h (map rev LL)" TAILQ_LAST TAILQ_PREV
proof
  fix h :: "'a tqheap" and LL i
  assume a: "tailqs h (map rev LL)" "i < length LL"
  have i: "i < length (map rev LL)" using a(2) by simp
  show "\<exists>v. TAILQ_LAST h i = Inr v \<and> walk TAILQ_PREV h v (LL ! i)"
    using tailqs_LAST [OF a(1) i] walk_back [OF a(1) i, of "map rev LL ! i" "[]"] a(2) by simp
  show "distinct (LL ! i)" using rep_distinct [OF tailqs_rep [OF a(1)] i] a(2) by simp
qed

text \<open>They are also first-in first-out queues, whose front is removed by \<open>TAILQ_REMOVE\<close>.\<close>

definition remove_first :: "nat \<Rightarrow> 'a tqheap \<Rightarrow> fault + 'a tqheap" where
  "remove_first i h =
     bindE (TAILQ_FIRST h i) (\<lambda>f. case f of None \<Rightarrow> Inl NullDeref | Some e \<Rightarrow> TAILQ_REMOVE i e h)"

lemma remove_first_ok:
  assumes "tailqs h LL" and "i < length LL" and "LL ! i = e # ys"
  shows "\<exists>h'. remove_first i h = Inr h' \<and> tailqs h' (LL[i := ys]) \<and> tq_cont h' = tq_cont h"
  using tailqs_REMOVE [OF assms(1,2), of "[]" e ys] tq.first_nth [OF assms(1,2)] assms(3)
  by (simp add: remove_first_def)

interpretation tailq: fifo tailqs tq_cont TAILQ_INSERT_TAIL TAILQ_FIRST remove_first
  by unfold_locales (fact tailqs_INSERT_TAIL tq.first_nth remove_first_ok)+

section \<open>Properties\<close>

text \<open>Two queues with the elements 0 and 1, and 2; the element 3 is on no queue.\<close>

definition sample_tailq :: "nat tqheap" where
  "sample_tailq = \<lparr>tq_heads = [\<lparr>tqh_first = Some 0, tqh_last = NextOf 1\<rparr>,
       \<lparr>tqh_first = Some 2, tqh_last = NextOf 2\<rparr>],
     tq_elems = [0 \<mapsto> \<lparr>tqe_next = Some 1, tqe_prev = HeadOf 0, tq_content = 10\<rparr>,
       1 \<mapsto> \<lparr>tqe_next = None, tqe_prev = NextOf 0, tq_content = 11\<rparr>,
       2 \<mapsto> \<lparr>tqe_next = None, tqe_prev = HeadOf 1, tq_content = 12\<rparr>,
       3 \<mapsto> \<lparr>tqe_next = None, tqe_prev = Nowhere, tq_content = 13\<rparr>]\<rparr>"

lemma tailqs_sample: "tailqs sample_tailq [[0, 1], [2]]"
  by (auto simp: tailqs_def rep_def sample_tailq_def separate_def as_list_def as_elem_def
      last_links_def less_Suc_eq)

text \<open>
  A loop of \<open>TAILQ_FOREACH_REVERSE\<close> whose body leaves the links alone visits the elements
  from the last to the first: the casts in \<open>TAILQ_LAST\<close> and \<open>TAILQ_PREV\<close>, which read the links of
  an element as a head, find the element before.
\<close>

theorem tailq_reverse_visits:
  assumes "tailqs h LL" and "i < length LL"
    and "\<And>h h' r e. body e h = Inr (h', r) \<Longrightarrow> TAILQ_PREV h' = TAILQ_PREV h"
  shows "TAILQ_FOREACH_REVERSE body i h = Some (visit body h (rev (LL ! i)))"
proof -
  have "tailqs h (map rev (map rev LL))" "i < length (map rev LL)" using assms(1,2) by (simp_all add: comp_def)
  from bw.visits [OF this assms(3)] show ?thesis using assms(2) by (simp add: TAILQ_FOREACH_REVERSE_def)
qed

lemma tailq_reverse_visits_witness:
  "TAILQ_FOREACH_REVERSE (\<lambda>e h. Inr (h, if e = 0 then Some (tq_cont h e) else None)) 0 sample_tailq =
    return (sample_tailq, Some (0, Some 10))"
  using tailq_reverse_visits [OF tailqs_sample, of 0 "\<lambda>e h. Inr (h, if e = 0 then Some (tq_cont h e) else None)"]
  by (simp add: tq_cont_def cont_def sample_tailq_def as_list_def as_elem_def)

text \<open>
  \<open>TAILQ_REMOVE\<close> unlinks an element of the queue it is told in constant time, and the last link
  follows when it was the last.
\<close>

theorem tailq_remove_unlinks:
  assumes "tailqs h LL" and "i < length LL" and "LL ! i = xs @ e # ys"
  shows "\<exists>h'. TAILQ_REMOVE i e h = Inr h' \<and> tailqs h' (LL[i := xs @ ys]) \<and> tq_cont h' = tq_cont h"
  by (rule tailqs_REMOVE [OF assms])

lemma tailq_remove_unlinks_witness:
  "\<exists>h'. TAILQ_REMOVE 0 1 sample_tailq = Inr h' \<and> tailqs h' [[0], [2]]"
  using tailq_remove_unlinks [OF tailqs_sample, of 0 "[0]" 1 "[]"] by auto

text \<open>\<open>TAILQ_CONCAT\<close> appends one queue to another and leaves it empty.\<close>

theorem tailq_concat_appends:
  assumes "tailqs h LL" and "i < length LL" and "j < length LL" and "i \<noteq> j"
  shows "\<exists>h'. TAILQ_CONCAT i j h = Inr h' \<and> tailqs h' (LL[i := LL ! i @ LL ! j, j := []]) \<and> tq_cont h' = tq_cont h"
  by (rule tailqs_CONCAT [OF assms])

lemma tailq_concat_appends_witness:
  "\<exists>h'. TAILQ_CONCAT 0 1 sample_tailq = Inr h' \<and> tailqs h' [[0, 1, 2], []]"
  using tailq_concat_appends [OF tailqs_sample, of 0 1] by auto

text \<open>
  Any sequence of \<open>TAILQ_INSERT_TAIL\<close>s and of \<open>TAILQ_REMOVE\<close>s of the first element serves the
  elements in the order they came.
\<close>

theorem tailq_fifo:
  assumes "tailqs h LL" and "i < length LL"
    and "legal_calls (\<lambda>e. tq_cont h e \<noteq> None \<and> e \<notin> members (LL[i := []])) cs (LL ! i)"
  shows "\<exists>h'. run_calls TAILQ_INSERT_TAIL TAILQ_FIRST remove_first i cs h =
      Inr (fst (list_calls cs (LL ! i)), h') \<and>
    tailqs h' (LL[i := snd (list_calls cs (LL ! i))]) \<and> tq_cont h' = tq_cont h"
  by (rule tailq.calls_refine [OF assms])

lemma tailq_fifo_witness:
  "\<exists>h'. run_calls TAILQ_INSERT_TAIL TAILQ_FIRST remove_first 1 [Get, Get, Put 3, Put 2, Get] sample_tailq =
      Inr ([Some 2, None, Some 3], h') \<and> tailqs h' [[0, 1], [2]]"
proof -
  have "legal_calls (\<lambda>e. tq_cont sample_tailq e \<noteq> None \<and> e \<notin> members ([[0, 1], [2]][1 := []]))
      [Get, Get, Put 3, Put 2, Get] ([[0, 1], [2]] ! 1)"
    by (simp add: members_def tq_cont_def cont_def as_list_def sample_tailq_def)
  then show ?thesis using tailq_fifo [OF tailqs_sample, of 1] by fastforce
qed

end
