(* ===== verification/BsdChecks.thy ===== *)
theory BsdChecks
  imports BsdTailq
begin

text \<open>
  The consistency checks of \<open>lib_convert/bsd_queue.h\<close>: the QMD macros, which a debugging build
  runs in front of the operations on doubly linked lists and tail queues and which panic, and
  are empty otherwise; and the initial values of the heads. The checks are shown to be exact:
  along a list that is linked forwards they all pass if and only if it is linked backwards
  too.
\<close>

section \<open>The checks\<close>

text \<open>A check gives whether it passes; \<open>False\<close> is the panic.\<close>

fun load_le :: "'a lheap \<Rightarrow> link \<Rightarrow> fault + nat option" where
  "load_le h Nowhere = Inl WildPointer"
| "load_le h (HeadOf i) = LIST_FIRST h i"
| "load_le h (NextOf e) = LIST_NEXT h e"

definition QMD_LIST_CHECK_HEAD :: "'a lheap \<Rightarrow> nat \<Rightarrow> fault + bool" where
  "QMD_LIST_CHECK_HEAD h i =
     bindE (LIST_FIRST h i) (\<lambda>first. case first of
       None \<Rightarrow> Inr True
     | Some f \<Rightarrow> bindE (get_elem h f) (\<lambda>x. Inr (le_prev x = HeadOf i)))"

definition QMD_LIST_CHECK_NEXT :: "'a lheap \<Rightarrow> nat \<Rightarrow> fault + bool" where
  "QMD_LIST_CHECK_NEXT h elm =
     bindE (LIST_NEXT h elm) (\<lambda>nxt. case nxt of
       None \<Rightarrow> Inr True
     | Some n \<Rightarrow> bindE (get_elem h n) (\<lambda>x. Inr (le_prev x = NextOf elm)))"

definition QMD_LIST_CHECK_PREV :: "'a lheap \<Rightarrow> nat \<Rightarrow> fault + bool" where
  "QMD_LIST_CHECK_PREV h elm =
     bindE (get_elem h elm) (\<lambda>x.
     bindE (load_le h (le_prev x)) (\<lambda>p.
     Inr (p = Some elm)))"

definition QMD_TAILQ_CHECK_HEAD :: "'a tqheap \<Rightarrow> nat \<Rightarrow> fault + bool" where
  "QMD_TAILQ_CHECK_HEAD h i =
     bindE (TAILQ_FIRST h i) (\<lambda>first. case first of
       None \<Rightarrow> Inr True
     | Some f \<Rightarrow> bindE (get_tqelem h f) (\<lambda>x. Inr (tqe_prev x = HeadOf i)))"

definition QMD_TAILQ_CHECK_TAIL :: "'a tqheap \<Rightarrow> nat \<Rightarrow> fault + bool" where
  "QMD_TAILQ_CHECK_TAIL h i =
     bindE (get_tqhead h i) (\<lambda>q.
     bindE (load_tq h (tqh_last q)) (\<lambda>p.
     Inr (p = None)))"

definition QMD_TAILQ_CHECK_NEXT :: "'a tqheap \<Rightarrow> nat \<Rightarrow> fault + bool" where
  "QMD_TAILQ_CHECK_NEXT h elm =
     bindE (TAILQ_NEXT h elm) (\<lambda>nxt. case nxt of
       None \<Rightarrow> Inr True
     | Some n \<Rightarrow> bindE (get_tqelem h n) (\<lambda>x. Inr (tqe_prev x = NextOf elm)))"

definition QMD_TAILQ_CHECK_PREV :: "'a tqheap \<Rightarrow> nat \<Rightarrow> fault + bool" where
  "QMD_TAILQ_CHECK_PREV h elm =
     bindE (get_tqelem h elm) (\<lambda>x.
     bindE (load_tq h (tqe_prev x)) (\<lambda>p.
     Inr (p = Some elm)))"

section \<open>The initial heads\<close>

definition SLIST_HEAD_INITIALIZER :: "nat option" where
  "SLIST_HEAD_INITIALIZER = None"

definition STAILQ_HEAD_INITIALIZER :: "nat \<Rightarrow> sthead" where
  "STAILQ_HEAD_INITIALIZER i = \<lparr>stqh_first = None, stqh_last = HeadOf i\<rparr>"

definition LIST_HEAD_INITIALIZER :: "nat option" where
  "LIST_HEAD_INITIALIZER = None"

definition TAILQ_HEAD_INITIALIZER :: "nat \<Rightarrow> tqhead" where
  "TAILQ_HEAD_INITIALIZER i = \<lparr>tqh_first = None, tqh_last = HeadOf i\<rparr>"

lemma separate_empty: "separate (replicate n [])"
  by (simp add: separate_def)

lemma heads_initial:
  shows slists_initial: "slists \<lparr>sl_heads = replicate n SLIST_HEAD_INITIALIZER, sl_elems = m\<rparr> (replicate n [])"
    and stailqs_initial:
      "stailqs \<lparr>st_heads = map STAILQ_HEAD_INITIALIZER [0 ..< n], st_elems = m'\<rparr> (replicate n [])"
    and lists_initial: "rep \<lparr>heads = replicate n LIST_HEAD_INITIALIZER, elems = m''\<rparr> (replicate n [])"
    and tailqs_initial:
      "tailqs \<lparr>tq_heads = map TAILQ_HEAD_INITIALIZER [0 ..< n], tq_elems = m3\<rparr> (replicate n [])"
  by (simp_all add: slists_def chains_def separate_empty SLIST_HEAD_INITIALIZER_def stailqs_def view_def
      queues_def STAILQ_HEAD_INITIALIZER_def rep_def LIST_HEAD_INITIALIZER_def tailqs_def as_list_def
      last_links_def TAILQ_HEAD_INITIALIZER_def)

section \<open>The checks are exact\<close>

text \<open>The forward pointers alone.\<close>

definition le_nexts :: "'a lheap \<Rightarrow> nat \<Rightarrow> nat option option" where
  "le_nexts h e = map_option le_next (elems h e)"

lemma le_nexts_Some: "le_nexts h e = Some n \<longleftrightarrow> (\<exists>x. elems h e = Some x \<and> le_next x = n)"
  by (auto simp: le_nexts_def)

definition prev_is :: "'a lheap \<Rightarrow> nat option \<Rightarrow> link \<Rightarrow> bool" where
  "prev_is h v l \<longleftrightarrow> (case v of None \<Rightarrow> True | Some e \<Rightarrow>
     (case elems h e of None \<Rightarrow> False | Some x \<Rightarrow> le_prev x = l))"

lemma check_head_iff:
  "i < length (heads h) \<Longrightarrow> QMD_LIST_CHECK_HEAD h i = Inr True \<longleftrightarrow> prev_is h (heads h ! i) (HeadOf i)"
  by (auto simp: QMD_LIST_CHECK_HEAD_def LIST_FIRST_def prev_is_def get_elem_def split: option.splits)

lemma check_next_iff:
  "le_nexts h e = Some n \<Longrightarrow> QMD_LIST_CHECK_NEXT h e = Inr True \<longleftrightarrow> prev_is h n (NextOf e)"
  by (auto simp: QMD_LIST_CHECK_NEXT_def LIST_NEXT_def le_nexts_def prev_is_def get_elem_def split: option.splits)

lemma seg_iff_checks:
  "chain (le_nexts h) f es None \<Longrightarrow>
    seg h l f es None \<longleftrightarrow> prev_is h f l \<and> (\<forall>e \<in> set es. QMD_LIST_CHECK_NEXT h e = Inr True)"
proof (induction es arbitrary: l f)
  case (Cons e es)
  obtain x where x: "f = Some e" "elems h e = Some x" "chain (le_nexts h) (le_next x) es None"
    using Cons.prems by (auto simp: le_nexts_Some split: option.splits)
  then have "QMD_LIST_CHECK_NEXT h e = Inr True \<longleftrightarrow> prev_is h (le_next x) (NextOf e)"
    by (intro check_next_iff) (simp add: le_nexts_def)
  then show ?case using Cons.IH [OF x(3), of "NextOf e"] x(1,2) by (auto simp: prev_is_def)
qed (simp add: prev_is_def)

lemma load_le_link:
  assumes "rep h LL" and "i < length LL" and "LL ! i = xs @ e # ys"
  shows "load_le h (end_link (HeadOf i) xs) = Inr (Some e)"
proof (cases xs rule: rev_cases)
  case Nil
  then show ?thesis using ls.first_nth [OF assms(1,2)] assms(3) by simp
next
  case (snoc xs' b)
  then show ?thesis
    using ls.walks_from [OF assms(1,2), of xs' b "e # ys"] assms(3) by (auto split: sum.splits)
qed

lemma check_prev_rep:
  assumes "rep h LL" and "i < length LL" and "e \<in> set (LL ! i)"
  shows "QMD_LIST_CHECK_PREV h e = Inr True"
proof -
  obtain xs ys where es: "LL ! i = xs @ e # ys" using assms(3) by (meson split_list)
  then obtain x where "elems h e = Some x" "le_prev x = end_link (HeadOf i) xs"
    using rep_seg [OF assms(1,2)] by (auto simp: seg_append split: option.splits)
  then show ?thesis
    using load_le_link [OF assms(1,2) es] by (simp add: QMD_LIST_CHECK_PREV_def get_elem_def)
qed

text \<open>The checks of the tail queues are those of the lists inside.\<close>

lemma checks_as_list:
  shows "QMD_TAILQ_CHECK_HEAD h i = QMD_LIST_CHECK_HEAD (as_list h) i"
    and "QMD_TAILQ_CHECK_NEXT h e = QMD_LIST_CHECK_NEXT (as_list h) e"
    and "QMD_TAILQ_CHECK_PREV h e = QMD_LIST_CHECK_PREV (as_list h) e"
proof -
  have load: "load_tq h l = load_le (as_list h) l" for l
    by (cases l) (simp_all add: FIRST_as_list NEXT_as_list)
  have get: "bindE (get_elem (as_list h) a) (\<lambda>x. f (le_prev x)) = bindE (get_tqelem h a) (\<lambda>x. f (tqe_prev x))"
    for a and f :: "link \<Rightarrow> fault + bool"
    unfolding elem_as_list by (cases "get_tqelem h a") (simp_all add: as_elem_def)
  show "QMD_TAILQ_CHECK_HEAD h i = QMD_LIST_CHECK_HEAD (as_list h) i"
    unfolding QMD_TAILQ_CHECK_HEAD_def QMD_LIST_CHECK_HEAD_def FIRST_as_list
    by (simp only: get [of _ "\<lambda>l. Inr (l = HeadOf i)"])
  show "QMD_TAILQ_CHECK_NEXT h e = QMD_LIST_CHECK_NEXT (as_list h) e"
    unfolding QMD_TAILQ_CHECK_NEXT_def QMD_LIST_CHECK_NEXT_def NEXT_as_list
    by (simp only: get [of _ "\<lambda>l. Inr (l = NextOf e)"])
  show "QMD_TAILQ_CHECK_PREV h e = QMD_LIST_CHECK_PREV (as_list h) e"
    unfolding QMD_TAILQ_CHECK_PREV_def QMD_LIST_CHECK_PREV_def load
    by (simp only: get [of _ "\<lambda>l. bindE (load_le (as_list h) l) (\<lambda>p. Inr (p = Some e))"])
qed

section \<open>Properties\<close>

text \<open>
  Along a list that is linked forwards, the checks of its head and of its elements pass exactly
  if it is linked backwards too, so that the macros which write through \<open>le_prev\<close> are safe.
\<close>

theorem list_checks_exact:
  assumes "i < length (heads h)" and "chain (le_nexts h) (heads h ! i) es None"
  shows "(QMD_LIST_CHECK_HEAD h i = Inr True \<and> (\<forall>e \<in> set es. QMD_LIST_CHECK_NEXT h e = Inr True)) \<longleftrightarrow>
    seg h (HeadOf i) (heads h ! i) es None"
  using check_head_iff [OF assms(1)] seg_iff_checks [OF assms(2), of "HeadOf i"] by simp

lemma list_checks_exact_witness:
  "\<not> seg \<lparr>heads = [Some 0], elems = [0 \<mapsto> \<lparr>le_next = None, le_prev = HeadOf 1, content = 7 :: nat\<rparr>]\<rparr>
      (HeadOf 0) (Some 0) [0] None"
  using list_checks_exact [of 0 "\<lparr>heads = [Some 0],
      elems = [0 \<mapsto> \<lparr>le_next = None, le_prev = HeadOf 1, content = 7 :: nat\<rparr>]\<rparr>" "[0]"]
  by (simp add: le_nexts_def QMD_LIST_CHECK_HEAD_def LIST_FIRST_def get_elem_def)

text \<open>No check panics on a heap of tail queues, nor on the lists of a heap.\<close>

theorem tailq_checks_pass:
  assumes "tailqs h LL" and "i < length LL"
  shows "QMD_TAILQ_CHECK_HEAD h i = Inr True \<and> QMD_TAILQ_CHECK_TAIL h i = Inr True \<and>
    (\<forall>e \<in> set (LL ! i). QMD_TAILQ_CHECK_NEXT h e = Inr True \<and> QMD_TAILQ_CHECK_PREV h e = Inr True)"
proof -
  note r = tailqs_rep [OF assms(1)]
  have i: "i < length (heads (as_list h))" using r assms(2) by (simp add: rep_def)
  have s: "seg (as_list h) (HeadOf i) (heads (as_list h) ! i) (LL ! i) None" using rep_seg [OF r assms(2)] .
  then have c: "chain (le_nexts (as_list h)) (heads (as_list h) ! i) (LL ! i) None"
  proof -
    have "seg g l f es None \<Longrightarrow> chain (le_nexts g) f es None" for g :: "'a lheap" and l f es
      by (induction es arbitrary: l f) (auto simp: le_nexts_def split: option.splits)
    then show ?thesis using s by blast
  qed
  obtain q where "get_tqhead h i = Inr q" "tqh_last q = end_link (HeadOf i) (LL ! i)"
    using head_of [OF assms] by blast
  then have "QMD_TAILQ_CHECK_TAIL h i = Inr True"
    using load_link [OF assms, of "LL ! i" "[]"] by (simp add: QMD_TAILQ_CHECK_TAIL_def)
  then show ?thesis
    using seg_iff_checks [OF c, of "HeadOf i"] s check_head_iff [OF i] check_prev_rep [OF r assms(2)]
    by (simp add: checks_as_list)
qed

lemma tailq_checks_pass_witness:
  "QMD_TAILQ_CHECK_TAIL sample_tailq 0 = Inr True \<and> QMD_TAILQ_CHECK_PREV sample_tailq 1 = Inr True"
  using tailq_checks_pass [OF tailqs_sample, of 0] by simp

end
