(* ===== verification/MptcpUtil.thy ===== *)
theory MptcpUtil
  imports Kernel CText "HOL-Library.AList"
begin

text \<open>
  The Python extension module \<open>5GTC/pkg/mptcp_util/mptcp_util.c\<close>, which reports what the
  kernel tells about an MPTCP connection and its subflows. The structs that the kernel fills
  in are declared in its own headers: here they are the values of their fields, by name, and
  for addresses the bytes of a \<open>sockaddr_storage\<close>. The arrays for the subflows have two
  elements, whatever number of subflows the kernel reports.
\<close>

section \<open>Python values\<close>

datatype pyobj =
    PyLong int
  | PyUnicode "byte list"
  | PyDict "(string \<times> pyobj) list"      \<comment> \<open>in the order of insertion\<close>
  | PyList "pyobj option list"           \<comment> \<open>\<open>None\<close> is a slot that was never set\<close>

datatype exn = Argument_error | RuntimeError "byte list" | SystemError

text \<open>What a function of the module returns; a null pointer comes with an exception.\<close>

datatype pyresult = Returned pyobj | Raised exn

type_synonym dict = "(string \<times> pyobj) list"

text \<open>\<open>PyArg_ParseTuple(args, "i", &sockfd)\<close>: one integer that fits an \<open>int\<close>.\<close>

fun parse_int_arg :: "pyobj list \<Rightarrow> int option" where
  "parse_int_arg [PyLong v] = (if - (2 ^ 31) \<le> v \<and> v < 2 ^ 31 then Some v else None)"
| "parse_int_arg _ = None"

text \<open>\<open>PyLong_FromLong\<close> takes a signed \<open>long\<close>; unsigned fields are converted to it.\<close>

definition PyLong_FromLong :: "64 word \<Rightarrow> pyobj" where
  "PyLong_FromLong v = PyLong (sint v)"

text \<open>The fields of a struct, each as wide as its declaration and extended with zeros.\<close>

type_synonym fields = "string \<Rightarrow> 64 word"

fun set_fields :: "fields \<Rightarrow> string list \<Rightarrow> dict \<Rightarrow> dict" where
  "set_fields st [] d = d"
| "set_fields st (k # ks) d = set_fields st ks (AList.update k (PyLong_FromLong (st k)) d)"

section \<open>The kernel's side\<close>

text \<open>
  \<open>getsockopt\<close> for each of the three options: the error number, or what was stored. The text
  of an error and of an IPv6 address are the C library's, and \<open>malloc\<close> may fail.
\<close>

record subflow_addrs =
  sa_local :: "byte list"
  sa_remote :: "byte list"

record host =
  opt_info :: "int \<Rightarrow> int + fields"
  opt_addrs :: "int \<Rightarrow> int + u32 \<times> (nat \<Rightarrow> subflow_addrs)"
  opt_tcpinfo :: "int \<Rightarrow> int + u32 \<times> (nat \<Rightarrow> fields)"
  strerror :: "int \<Rightarrow> byte list"
  ntop6 :: "byte list \<Rightarrow> byte list"
  can_malloc :: "nat \<Rightarrow> bool"

text \<open>The elements that the arrays \<open>addr\<close> and \<open>ti\<close> have.\<close>

definition SUBFLOW_SLOTS :: nat where
  "SUBFLOW_SLOTS = 2"

text \<open>\<open>&a[i]\<close>, to be read.\<close>

definition slot :: "(nat \<Rightarrow> 'a) \<Rightarrow> nat \<Rightarrow> fault + 'a" where
  "slot a i = (if i < SUBFLOW_SLOTS then Inr (a i) else Inl OutOfBounds)"

text \<open>\<open>sprintf\<close> into a block of \<open>strlen(err_msg) + 100\<close> bytes and the exception made of it.\<close>

definition raise_errno :: "host \<Rightarrow> string \<Rightarrow> int \<Rightarrow> fault + pyresult" where
  "raise_errno hst what e =
     (let err_msg = strerror hst e;
          size = length err_msg + 100;
          text = lit what @ lit ''['' @ dec_int e @ lit ''] '' @ err_msg in
      if \<not> can_malloc hst size then Inl NullDeref
      else if size < length text + 1 then Inl OutOfBounds
      else Inr (Raised (RuntimeError text)))"

section \<open>Information about the connection\<close>

definition mptcp_info_keys :: "string list" where
  "mptcp_info_keys = [''mptcpi_subflows'', ''mptcpi_add_addr_signal'', ''mptcpi_add_addr_accepted'',
     ''mptcpi_subflows_max'', ''mptcpi_add_addr_signal_max'', ''mptcpi_add_addr_accepted_max'',
     ''mptcpi_flags'', ''mptcpi_token'', ''mptcpi_write_seq'', ''mptcpi_snd_una'', ''mptcpi_rcv_nxt'',
     ''mptcpi_local_addr_used'', ''mptcpi_local_addr_max'', ''mptcpi_csum_enabled'']"

definition get_mptcp_info :: "host \<Rightarrow> pyobj list \<Rightarrow> fault + pyresult" where
  "get_mptcp_info hst args =
     (case parse_int_arg args of
        None \<Rightarrow> Inr (Raised Argument_error)
      | Some sockfd \<Rightarrow> (case opt_info hst sockfd of
          Inl e \<Rightarrow> raise_errno hst ''Error getting mptcp info: '' e
        | Inr mptcp_info \<Rightarrow> Inr (Returned (PyDict (set_fields mptcp_info mptcp_info_keys [])))))"

section \<open>The addresses of the subflows\<close>

definition sa_family :: "byte list \<Rightarrow> int" where
  "sa_family sa = uint (of_le16 (take 2 sa))"

definition sin_port_of :: "byte list \<Rightarrow> int" where
  "sin_port_of sa = uint (ntohs (of_le16 (window 2 2 sa)))"

text \<open>
  The text of both addresses and both ports, read as the family of the local address says;
  \<open>None\<close> for a family that is neither.
\<close>

definition endpoint_text :: "host \<Rightarrow> subflow_addrs \<Rightarrow> ((byte list \<times> int) \<times> (byte list \<times> int)) option" where
  "endpoint_text hst a =
     (let l = sa_local a; r = sa_remote a in
      if sa_family l = AF_INET
      then Some ((dotted (window 4 4 l), sin_port_of l), (dotted (window 4 4 r), sin_port_of r))
      else if sa_family l = AF_INET6
      then Some ((ntop6 hst (window 8 16 l), sin_port_of l), (ntop6 hst (window 8 16 r), sin_port_of r))
      else None)"

definition subflow_dict :: "nat \<Rightarrow> (byte list \<times> int) \<times> (byte list \<times> int) \<Rightarrow> dict" where
  "subflow_dict i ends =
     (let ((local_ip, local_port), (remote_ip, remote_port)) = ends;
          d = AList.update ''id'' (PyLong (int i)) [];
          d = AList.update ''local_addr'' (PyUnicode local_ip) d;
          d = AList.update ''local_port'' (PyLong local_port) d;
          d = AList.update ''remote_addr'' (PyUnicode remote_ip) d in
      AList.update ''remote_port'' (PyLong remote_port) d)"

text \<open>
  The loop from \<open>i\<close> on, with the number of rounds left. A subflow of an unknown family is
  skipped, its slot of the list stays as it was.
\<close>

fun subflow_loop :: "host \<Rightarrow> (nat \<Rightarrow> subflow_addrs) \<Rightarrow> nat \<Rightarrow> nat \<Rightarrow> pyobj option list \<Rightarrow> fault + pyobj option list"
where
  "subflow_loop hst addr i 0 subflow_list = Inr subflow_list"
| "subflow_loop hst addr i (Suc rounds) subflow_list =
     bindE (slot addr i) (\<lambda>a.
       subflow_loop hst addr (Suc i) rounds
         (case endpoint_text hst a of
            None \<Rightarrow> subflow_list
          | Some ends \<Rightarrow> subflow_list[i := Some (PyDict (subflow_dict i ends))]))"

text \<open>\<open>PyList_New\<close> refuses a negative length, and the loop then has no rounds.\<close>

definition get_subflow_info :: "host \<Rightarrow> pyobj list \<Rightarrow> fault + pyresult" where
  "get_subflow_info hst args =
     (case parse_int_arg args of
        None \<Rightarrow> Inr (Raised Argument_error)
      | Some sockfd \<Rightarrow> (case opt_addrs hst sockfd of
          Inl e \<Rightarrow> raise_errno hst ''Error getting subflow info: '' e
        | Inr (count, addr) \<Rightarrow>
            let num_subflows = sint count in
            if num_subflows < 0 then Inr (Raised SystemError)
            else bindE (subflow_loop hst addr 0 (nat num_subflows) (replicate (nat num_subflows) None))
              (\<lambda>subflow_list. Inr (Returned (PyList subflow_list)))))"

section \<open>The TCP state of the subflows\<close>

definition tcp_info_keys :: "string list" where
  "tcp_info_keys = [''tcpi_state'', ''tcpi_ca_state'', ''tcpi_retransmits'', ''tcpi_probes'',
     ''tcpi_backoff'', ''tcpi_options'', ''tcpi_snd_wscale'', ''tcpi_rcv_wscale'',
     ''tcpi_delivery_rate_app_limited'', ''tcpi_fastopen_client_fail'', ''tcpi_rto'', ''tcpi_ato'',
     ''tcpi_snd_mss'', ''tcpi_rcv_mss'', ''tcpi_unacked'', ''tcpi_sacked'', ''tcpi_lost'',
     ''tcpi_retrans'', ''tcpi_fackets'', ''tcpi_last_data_sent'', ''tcpi_last_ack_sent'',
     ''tcpi_last_data_recv'', ''tcpi_last_ack_recv'', ''tcpi_pmtu'', ''tcpi_rcv_ssthresh'',
     ''tcpi_rtt'', ''tcpi_rttvar'', ''tcpi_snd_ssthresh'', ''tcpi_snd_cwnd'', ''tcpi_advmss'',
     ''tcpi_reordering'', ''tcpi_rcv_rtt'', ''tcpi_rcv_space'', ''tcpi_total_retrans'',
     ''tcpi_pacing_rate'', ''tcpi_max_pacing_rate'', ''tcpi_bytes_acked'', ''tcpi_bytes_received'',
     ''tcpi_segs_out'', ''tcpi_segs_in'', ''tcpi_notsent_bytes'', ''tcpi_min_rtt'',
     ''tcpi_data_segs_in'', ''tcpi_data_segs_out'', ''tcpi_delivery_rate'', ''tcpi_busy_time'',
     ''tcpi_rwnd_limited'', ''tcpi_sndbuf_limited'', ''tcpi_delivered'', ''tcpi_delivered_ce'',
     ''tcpi_bytes_sent'', ''tcpi_bytes_retrans'', ''tcpi_dsack_dups'', ''tcpi_reord_seen'',
     ''tcpi_rcv_ooopack'']"

fun tcp_info_loop :: "(nat \<Rightarrow> fields) \<Rightarrow> nat \<Rightarrow> nat \<Rightarrow> pyobj option list \<Rightarrow> fault + pyobj option list" where
  "tcp_info_loop ti i 0 subflow_list = Inr subflow_list"
| "tcp_info_loop ti i (Suc rounds) subflow_list =
     bindE (slot ti i) (\<lambda>t.
       tcp_info_loop ti (Suc i) rounds
         (subflow_list @ [Some (PyDict (set_fields t tcp_info_keys
            (AList.update ''id'' (PyLong (int i)) [])))]))"

definition get_subflow_tcp_info :: "host \<Rightarrow> pyobj list \<Rightarrow> fault + pyresult" where
  "get_subflow_tcp_info hst args =
     (case parse_int_arg args of
        None \<Rightarrow> Inr (Raised Argument_error)
      | Some sockfd \<Rightarrow> (case opt_tcpinfo hst sockfd of
          Inl e \<Rightarrow> raise_errno hst ''Error getting subflow tcp info: '' e
        | Inr (count, ti) \<Rightarrow>
            bindE (tcp_info_loop ti 0 (nat (sint count)) []) (\<lambda>subflow_list.
              Inr (Returned (PyList subflow_list)))))"

section \<open>The module\<close>

definition MptcpUtilMethods :: "(string \<times> (host \<Rightarrow> pyobj list \<Rightarrow> fault + pyresult)) list" where
  "MptcpUtilMethods = [(''get_mptcp_info'', get_mptcp_info), (''get_subflow_info'', get_subflow_info),
     (''get_subflow_tcp_info'', get_subflow_tcp_info)]"

section \<open>What the dictionaries hold\<close>

lemma map_of_set_fields:
  "map_of (set_fields st ks d) k = (if k \<in> set ks then Some (PyLong_FromLong (st k)) else map_of d k)"
  by (induction ks arbitrary: d) (auto simp: update_conv')

lemma keys_set_fields: "distinct (map fst d) \<Longrightarrow> distinct (map fst (set_fields st ks d))"
  by (induction ks arbitrary: d) (simp_all add: distinct_update)

lemma sint_field: "sint (v :: 64 word) = (if uint v < 2 ^ 63 then uint v else uint v - 2 ^ 64)"
proof -
  have "take_bit 64 (uint v) = uint v" by (rule take_bit_int_eq_self) (use uint_lt2p [of v] in simp_all)
  moreover have "bit (uint v) 63 \<longleftrightarrow> 2 ^ 63 \<le> uint v"
  proof -
    have "uint v div 2 ^ 63 = (if 2 ^ 63 \<le> uint v then 1 else 0)"
      using uint_lt2p [of v] by (auto simp: div_pos_pos_trivial intro: int_div_pos_eq [where r = "uint v - 2 ^ 63"])
    then show ?thesis by (simp add: bit_iff_odd)
  qed
  ultimately show ?thesis
    by (simp add: sint_uint signed_take_bit_eq_take_bit_minus not_le)
qed

text \<open>The loop over the addresses, as long as it stays in the array.\<close>

lemma subflow_loop_inside:
  assumes "i + rounds \<le> SUBFLOW_SLOTS" and "length slots = i + rounds"
  shows "subflow_loop hst addr i rounds slots = Inr (take i slots @
    map (\<lambda>j. case endpoint_text hst (addr j) of
        None \<Rightarrow> slots ! j | Some ends \<Rightarrow> Some (PyDict (subflow_dict j ends))) [i..<i + rounds])"
  using assms
proof (induction rounds arbitrary: i slots)
  case (Suc rounds)
  let ?slots = "case endpoint_text hst (addr i) of None \<Rightarrow> slots
    | Some ends \<Rightarrow> slots[i := Some (PyDict (subflow_dict i ends))]"
  have len: "length ?slots = length slots" by (simp split: option.split)
  have same: "?slots ! j = slots ! j" if "j \<noteq> i" for j using that by (simp split: option.split)
  have "take (Suc i) ?slots = take i slots @ [?slots ! i]"
    using Suc.prems len by (simp add: take_Suc_conv_app_nth split: option.split)
  moreover have "?slots ! i = (case endpoint_text hst (addr i) of
      None \<Rightarrow> slots ! i | Some ends \<Rightarrow> Some (PyDict (subflow_dict i ends)))"
    using Suc.prems by (simp split: option.split)
  moreover have "[i..<i + Suc rounds] = i # [Suc i..<Suc i + rounds]" by (simp add: upt_conv_Cons)
  moreover have "map (\<lambda>j. case endpoint_text hst (addr j) of
        None \<Rightarrow> ?slots ! j | Some ends \<Rightarrow> Some (PyDict (subflow_dict j ends))) [Suc i..<Suc i + rounds] =
      map (\<lambda>j. case endpoint_text hst (addr j) of
        None \<Rightarrow> slots ! j | Some ends \<Rightarrow> Some (PyDict (subflow_dict j ends))) [Suc i..<Suc i + rounds]"
  proof (rule map_cong [OF refl])
    fix j assume "j \<in> set [Suc i..<Suc i + rounds]"
    then have "?slots ! j = slots ! j" by (intro same) auto
    then show "(case endpoint_text hst (addr j) of None \<Rightarrow> ?slots ! j | Some ends \<Rightarrow> Some (PyDict (subflow_dict j ends))) =
        (case endpoint_text hst (addr j) of None \<Rightarrow> slots ! j | Some ends \<Rightarrow> Some (PyDict (subflow_dict j ends)))"
      by (cases "endpoint_text hst (addr j)") simp_all
  qed
  moreover have "slot addr i = Inr (addr i)" using Suc.prems by (simp add: slot_def)
  ultimately show ?case using Suc.IH [of "Suc i" ?slots] Suc.prems len by simp
qed simp

lemma subflow_loop_outside:
  "i \<le> SUBFLOW_SLOTS \<Longrightarrow> SUBFLOW_SLOTS < i + rounds \<Longrightarrow>
   subflow_loop hst addr i rounds slots = Inl OutOfBounds"
  by (induction rounds arbitrary: i slots) (auto simp: slot_def)

lemma tcp_info_loop_inside:
  "i + rounds \<le> SUBFLOW_SLOTS \<Longrightarrow> tcp_info_loop ti i rounds slots = Inr (slots @
     map (\<lambda>j. Some (PyDict (set_fields (ti j) tcp_info_keys [(''id'', PyLong (int j))]))) [i..<i + rounds])"
proof (induction rounds arbitrary: i slots)
  case (Suc rounds)
  have "[i..<i + Suc rounds] = i # [Suc i..<Suc i + rounds]" by (simp add: upt_conv_Cons)
  then show ?case using Suc by (simp add: slot_def)
qed simp

lemma tcp_info_loop_outside:
  "i \<le> SUBFLOW_SLOTS \<Longrightarrow> SUBFLOW_SLOTS < i + rounds \<Longrightarrow> tcp_info_loop ti i rounds slots = Inl OutOfBounds"
  by (induction rounds arbitrary: i slots) (auto simp: slot_def)

section \<open>Properties\<close>

text \<open>
  The subflows of a connection: with at most two of them, of known families, the list has
  one dictionary for each, numbered from 0, with the printed addresses and the ports in host
  order of both ends.
\<close>

theorem subflow_info_lists:
  assumes "opt_addrs hst f = Inr (count, addr)" and "- (2 ^ 31) \<le> f" and "f < 2 ^ 31"
    and "0 \<le> sint count" and "nat (sint count) \<le> SUBFLOW_SLOTS"
    and "\<And>i. i < nat (sint count) \<Longrightarrow> endpoint_text hst (addr i) = Some ((la i, lp i), (ra i, rp i))"
  shows "get_subflow_info hst [PyLong f] = Inr (Returned (PyList (map (\<lambda>i. Some (PyDict
    [(''id'', PyLong (int i)), (''local_addr'', PyUnicode (la i)), (''local_port'', PyLong (lp i)),
     (''remote_addr'', PyUnicode (ra i)), (''remote_port'', PyLong (rp i))])) [0..<nat (sint count)])))"
proof -
  let ?n = "nat (sint count)"
  let ?F = "\<lambda>j. case endpoint_text hst (addr j) of
      None \<Rightarrow> replicate ?n None ! j | Some ends \<Rightarrow> Some (PyDict (subflow_dict j ends))"
  have "subflow_loop hst addr 0 ?n (replicate ?n None) = Inr (map ?F [0..<?n])"
    using subflow_loop_inside [of 0 ?n "replicate ?n None" hst addr] assms(5) by simp
  then have run: "get_subflow_info hst [PyLong f] = Inr (Returned (PyList (map ?F [0..<?n])))"
    using assms(1-4) by (simp add: get_subflow_info_def Let_def)
  have "map ?F [0..<?n] = map (\<lambda>i. Some (PyDict [(''id'', PyLong (int i)), (''local_addr'', PyUnicode (la i)),
      (''local_port'', PyLong (lp i)), (''remote_addr'', PyUnicode (ra i)), (''remote_port'', PyLong (rp i))])) [0..<?n]"
    by (rule map_cong) (simp_all add: assms(6) subflow_dict_def)
  then show ?thesis by (simp only: run)
qed

text \<open>A host with one subflow from 10.0.0.1:80 to 10.0.0.2:8080, and one with \<open>n\<close> of them.\<close>

definition sample_addrs :: subflow_addrs where
  "sample_addrs = \<lparr>sa_local = [2, 0, 0, 80, 10, 0, 0, 1] @ replicate 120 0,
     sa_remote = [2, 0, 31, 144, 10, 0, 0, 2] @ replicate 120 0\<rparr>"

definition sample_host :: "u32 \<Rightarrow> host" where
  "sample_host n = \<lparr>opt_info = (\<lambda>f. Inr (\<lambda>k. if k = ''mptcpi_write_seq'' then 2 ^ 63 else 1)),
     opt_addrs = (\<lambda>f. Inr (n, \<lambda>i. sample_addrs)), opt_tcpinfo = (\<lambda>f. Inr (n, \<lambda>i k. 0)),
     strerror = (\<lambda>e. lit ''Bad file descriptor''), ntop6 = (\<lambda>a. lit ''::''), can_malloc = (\<lambda>n. n < 1000)\<rparr>"

lemma sample_endpoint:
  "endpoint_text hst sample_addrs = Some ((lit ''10.0.0.1'', 80), (lit ''10.0.0.2'', 8080))"
proof -
  have d: "dec 10 = [49, 48]" "dec 0 = [48]" "dec (Suc 0) = [49]" "dec 2 = [50]" by (simp_all add: dec.simps)
  have p: "uint (ntohs (of_le16 [0, 80])) = 80" "uint (ntohs (of_le16 [31, 144])) = 8080"
    "uint (of_le16 [2, 0]) = 2" by (simp_all add: of_le16_def ntohs_def)
  show ?thesis
    by (simp add: endpoint_text_def sample_addrs_def sa_family_def sin_port_of_def window_def AF_INET_def d p lit_def)
qed

lemma subflow_info_lists_witness:
  "get_subflow_info (sample_host 1) [PyLong 3] = Inr (Returned (PyList [Some (PyDict
     [(''id'', PyLong 0), (''local_addr'', PyUnicode (lit ''10.0.0.1'')), (''local_port'', PyLong 80),
      (''remote_addr'', PyUnicode (lit ''10.0.0.2'')), (''remote_port'', PyLong 8080)])]))"
  using subflow_info_lists [where hst = "sample_host 1" and f = 3 and count = 1 and addr = "\<lambda>i. sample_addrs"
      and la = "\<lambda>i. lit ''10.0.0.1''" and lp = "\<lambda>i. 80" and ra = "\<lambda>i. lit ''10.0.0.2''" and rp = "\<lambda>i. 8080"]
  by (simp add: sample_host_def sample_endpoint SUBFLOW_SLOTS_def)

text \<open>
  C32. With three or more subflows both functions read behind their arrays of two elements,
  because the loops run to the number that the kernel reports.
\<close>

theorem subflows_overrun:
  assumes "- (2 ^ 31) \<le> f" and "f < 2 ^ 31" and "opt_addrs hst f = Inr (count, addr)"
    and "opt_tcpinfo hst f = Inr (count, ti)" and "2 < sint count"
  shows "get_subflow_info hst [PyLong f] = Inl OutOfBounds \<and>
    get_subflow_tcp_info hst [PyLong f] = Inl OutOfBounds"
  using assms subflow_loop_outside [of 0 "nat (sint count)"] tcp_info_loop_outside [of 0 "nat (sint count)"]
  by (simp add: get_subflow_info_def get_subflow_tcp_info_def SUBFLOW_SLOTS_def)

lemma subflows_overrun_witness:
  "get_subflow_info (sample_host 3) [PyLong 3] = Inl OutOfBounds"
  using subflows_overrun [of 3 "sample_host 3" 3 "\<lambda>i. sample_addrs" "\<lambda>i k. 0"] by (simp add: sample_host_def)

text \<open>
  The dictionary of a connection has every field once; a field of 64 bits whose highest
  bit is set, such as a sequence number, is reported as a negative number.
\<close>

theorem mptcp_info_values:
  assumes "- (2 ^ 31) \<le> f" and "f < 2 ^ 31" and "opt_info hst f = Inr st"
  shows "\<exists>d. get_mptcp_info hst [PyLong f] = Inr (Returned (PyDict d)) \<and> distinct (map fst d) \<and>
    (\<forall>k. map_of d k = (if k \<in> set mptcp_info_keys
      then Some (PyLong (if uint (st k) < 2 ^ 63 then uint (st k) else uint (st k) - 2 ^ 64)) else None))"
proof -
  have "get_mptcp_info hst [PyLong f] = Inr (Returned (PyDict (set_fields st mptcp_info_keys [])))"
    using assms by (simp add: get_mptcp_info_def)
  moreover have "distinct (map fst (set_fields st mptcp_info_keys []))"
    by (rule keys_set_fields) simp
  ultimately show ?thesis
    by (intro exI [of _ "set_fields st mptcp_info_keys []"])
      (simp add: map_of_set_fields PyLong_FromLong_def sint_field)
qed

lemma mptcp_info_values_witness:
  "\<exists>d. get_mptcp_info (sample_host 1) [PyLong 3] = Inr (Returned (PyDict d)) \<and>
     map_of d ''mptcpi_write_seq'' = Some (PyLong (- (2 ^ 63))) \<and> map_of d ''mptcpi_subflows'' = Some (PyLong 1)"
proof -
  obtain d where "get_mptcp_info (sample_host 1) [PyLong 3] = Inr (Returned (PyDict d))"
    and d: "map_of d k = (if k \<in> set mptcp_info_keys then Some (PyLong
      (let v = uint (if k = ''mptcpi_write_seq'' then 2 ^ 63 else 1 :: 64 word) in if v < 2 ^ 63 then v else v - 2 ^ 64)) else None)" for k
    using mptcp_info_values [of 3 "sample_host 1"] by (auto simp: sample_host_def Let_def)
  moreover have "map_of d ''mptcpi_write_seq'' = Some (PyLong (- (2 ^ 63)))" "map_of d ''mptcpi_subflows'' = Some (PyLong 1)"
    unfolding d by (simp_all add: mptcp_info_keys_def)
  ultimately show ?thesis by blast
qed

text \<open>
  When the kernel refuses, all three functions raise a \<open>RuntimeError\<close> with the number and
  the text of the error; the message always fits the block that was allocated for it.
\<close>

theorem errors_reported:
  assumes "- (2 ^ 31) \<le> f" and "f < 2 ^ 31" and "- (2 ^ 31) \<le> e" and "e < 2 ^ 31"
    and "opt_info hst f = Inl e" and "opt_addrs hst f = Inl e" and "opt_tcpinfo hst f = Inl e"
    and "can_malloc hst (length (strerror hst e) + 100)"
    and "m \<in> {(get_mptcp_info, ''Error getting mptcp info: ''), (get_subflow_info, ''Error getting subflow info: ''),
      (get_subflow_tcp_info, ''Error getting subflow tcp info: '')}"
  shows "(fst m) hst [PyLong f] =
    Inr (Raised (RuntimeError (lit (snd m) @ lit ''['' @ dec_int e @ lit ''] '' @ strerror hst e)))"
proof -
  have "length what \<le> 32 \<Longrightarrow> raise_errno hst what e =
      Inr (Raised (RuntimeError (lit what @ lit ''['' @ dec_int e @ lit ''] '' @ strerror hst e)))" for what
    using length_dec_int [OF assms(3,4)] assms(8) by (simp add: raise_errno_def Let_def)
  then show ?thesis
    using assms(1,2,5-7,9)
    by (auto simp: get_mptcp_info_def get_subflow_info_def get_subflow_tcp_info_def)
qed

lemma errors_reported_witness:
  "get_mptcp_info ((sample_host 1)\<lparr>opt_info := \<lambda>f. Inl 9, opt_addrs := \<lambda>f. Inl 9, opt_tcpinfo := \<lambda>f. Inl 9\<rparr>) [PyLong (-1)] =
     Inr (Raised (RuntimeError (lit ''Error getting mptcp info: [9] Bad file descriptor'')))"
proof -
  have "dec_int 9 = [57]" by (simp add: dec_int_def dec.simps)
  then show ?thesis
    using errors_reported [of "-1" 9 "(sample_host 1)\<lparr>opt_info := \<lambda>f. Inl 9, opt_addrs := \<lambda>f. Inl 9, opt_tcpinfo := \<lambda>f. Inl 9\<rparr>"
        "(get_mptcp_info, ''Error getting mptcp info: '')"]
    by (simp add: sample_host_def lit_def)
qed

end
