(* ===== verification/DeprecatedMap.thy ===== *)
theory DeprecatedMap
  imports Kernel "HOL-Library.AList"
begin

text \<open>
  The map of \<open>deprecated/map.h\<close> from descriptors to strings: an array of 1000 pointers to
  entries, searched from the front. The abstract map is an association list that keeps the
  order of insertion; the refinement covers the two oddities of the code, that a full map
  ignores new keys and that a key whose value is null can never get another value.
\<close>

section \<open>The array of entries\<close>

definition MAP_SIZE :: nat where
  "MAP_SIZE = 1000"

record map_entry =
  key :: int
  val :: ptr

definition SIZEOF_MAP_ENTRY :: nat where
  "SIZEOF_MAP_ENTRY = 16"

text \<open>An entry is a block of the memory, its members are kept under the block number.\<close>

record mapstate = sys +
  slots :: "nat option list"
  entries :: "nat \<rightharpoonup> map_entry"

definition map_init :: "'z mapstate_scheme \<Rightarrow> 'z mapstate_scheme" where
  "map_init s = s\<lparr>slots := fold (\<lambda>i xs. xs[i := None]) [0..<MAP_SIZE] (slots s)\<rparr>"

definition get_entry :: "(nat \<rightharpoonup> map_entry) \<Rightarrow> nat \<Rightarrow> fault + map_entry" where
  "get_entry es e = (case es e of None \<Rightarrow> Inl DeadBlock | Some x \<Rightarrow> Inr x)"

text \<open>
  \<open>while (idx < MAP_SIZE && map[idx] != NULL && map[idx]->key != key) idx++\<close>, from \<open>idx\<close> on,
  with the pointers that are left.
\<close>

fun scan :: "(nat \<rightharpoonup> map_entry) \<Rightarrow> int \<Rightarrow> nat option list \<Rightarrow> nat \<Rightarrow> fault + nat" where
  "scan es k [] idx = Inr idx"
| "scan es k (None # ps) idx = Inr idx"
| "scan es k (Some e # ps) idx =
     bindE (get_entry es e) (\<lambda>x. if key x \<noteq> k then scan es k ps (Suc idx) else Inr idx)"

definition strdup :: "alloc \<Rightarrow> ptr \<Rightarrow> mem \<Rightarrow> fault + ptr \<times> mem" where
  "strdup mal p m =
     bindE (strlen m p) (\<lambda>n.
     let (q, m1) = malloc mal (n + 1) m in
     if q = Null then Inr (Null, m1)
     else bindE (memcpy m1 q p (n + 1)) (\<lambda>m2. Inr (q, m2)))"

definition set_entry :: "nat \<Rightarrow> map_entry \<Rightarrow> 'z mapstate_scheme \<Rightarrow> 'z mapstate_scheme" where
  "set_entry e x s = s\<lparr>entries := (entries s)(e \<mapsto> x)\<rparr>"

text \<open>A null pointer of \<open>malloc\<close> for the entry is written through.\<close>

definition map_set :: "alloc \<Rightarrow> int \<Rightarrow> ptr \<Rightarrow> 'z mapstate_scheme \<Rightarrow> fault + 'z mapstate_scheme" where
  "map_set mal k v s =
     bindE (scan (entries s) k (slots s) 0) (\<lambda>idx.
     if idx = MAP_SIZE then Inr s
     else case slots s ! idx of
       None \<Rightarrow>
         (case calloc_struct mal SIZEOF_MAP_ENTRY (memory s) of
            (None, m) \<Rightarrow> Inl NullDeref
          | (Some e, m) \<Rightarrow>
              let s = s\<lparr>memory := m, slots := (slots s)[idx := Some e]\<rparr> in
              if v \<noteq> Null
              then bindE (strdup mal v (memory s)) (\<lambda>(p, m).
                Inr (set_entry e \<lparr>key = k, val = p\<rparr> (s\<lparr>memory := m\<rparr>)))
              else Inr (set_entry e \<lparr>key = k, val = Null\<rparr> s))
     | Some e \<Rightarrow>
         bindE (get_entry (entries s) e) (\<lambda>x.
         if val x \<noteq> Null
         then (if v \<noteq> Null
           then bindE (free (val x) (memory s)) (\<lambda>m.
             bindE (strdup mal v m) (\<lambda>(p, m).
             Inr (set_entry e \<lparr>key = k, val = p\<rparr> (s\<lparr>memory := m\<rparr>))))
           else Inr (set_entry e \<lparr>key = k, val = Null\<rparr> s))
         else Inr s))"

definition map_get :: "int \<Rightarrow> 'z mapstate_scheme \<Rightarrow> fault + ptr" where
  "map_get k s =
     bindE (scan (entries s) k (slots s) 0) (\<lambda>idx.
     if idx = MAP_SIZE then Inr Null
     else case slots s ! idx of
       None \<Rightarrow> Inr Null
     | Some e \<Rightarrow> bindE (get_entry (entries s) e) (\<lambda>x. Inr (val x)))"

text \<open>\<open>map_free\<close> leaves the pointers in the array.\<close>

fun free_slots :: "nat option list \<Rightarrow> 'z mapstate_scheme \<Rightarrow> fault + 'z mapstate_scheme" where
  "free_slots [] s = Inr s"
| "free_slots (None # ps) s = free_slots ps s"
| "free_slots (Some e # ps) s =
     bindE (get_entry (entries s) e) (\<lambda>x.
     bindE (free (val x) (memory s)) (\<lambda>m.
     bindE (free_struct e m) (\<lambda>m.
     free_slots ps (s\<lparr>memory := m, entries := (entries s)(e := None)\<rparr>))))"

definition map_free :: "'z mapstate_scheme \<Rightarrow> fault + 'z mapstate_scheme" where
  "map_free s = free_slots (slots s) s"

section \<open>The abstract map\<close>

type_synonym amap = "(int \<times> byte list option) list"

definition aset :: "int \<Rightarrow> byte list option \<Rightarrow> amap \<Rightarrow> amap" where
  "aset k v al = (case map_of al k of
     None \<Rightarrow> if length al < MAP_SIZE then al @ [(k, v)] else al
   | Some None \<Rightarrow> al
   | Some (Some _) \<Rightarrow> AList.update k v al)"

text \<open>
  The concrete contents: for each entry in use its block, its key and, unless the value is
  null, the block and the bytes of the value.
\<close>

type_synonym row = "nat \<times> int \<times> (nat \<times> byte list) option"

fun row_ptr :: "(nat \<times> byte list) option \<Rightarrow> ptr" where
  "row_ptr None = Null"
| "row_ptr (Some (b, bs)) = Ptr b 0"

fun row_ok :: "'z mapstate_scheme \<Rightarrow> row \<Rightarrow> bool" where
  "row_ok s (e, k, v) \<longleftrightarrow> blocks (memory s) e = Some Struct \<and>
     entries s e = Some \<lparr>key = k, val = row_ptr v\<rparr> \<and>
     (case v of None \<Rightarrow> True | Some (b, bs) \<Rightarrow>
        blocks (memory s) b = Some (Heap (map Some (bs @ [0]))) \<and> 0 \<notin> set bs)"

definition val_blocks :: "row list \<Rightarrow> nat list" where
  "val_blocks L = concat (map (\<lambda>(e, k, v). case v of None \<Rightarrow> [] | Some (b, bs) \<Rightarrow> [b]) L)"

definition layout :: "'z mapstate_scheme \<Rightarrow> row list \<Rightarrow> bool" where
  "layout s L \<longleftrightarrow> length L \<le> MAP_SIZE \<and>
     slots s = map (\<lambda>r. Some (fst r)) L @ replicate (MAP_SIZE - length L) None \<and>
     distinct (map fst L) \<and> distinct (map (fst \<circ> snd) L) \<and> distinct (val_blocks L) \<and>
     wf_mem (memory s) \<and> (\<forall>r \<in> set L. row_ok s r)"

definition abs_rows :: "row list \<Rightarrow> amap" where
  "abs_rows L = map (\<lambda>(e, k, v). (k, map_option snd v)) L"

definition map_rep :: "'z mapstate_scheme \<Rightarrow> amap \<Rightarrow> bool" where
  "map_rep s al \<longleftrightarrow> (\<exists>L. layout s L \<and> al = abs_rows L)"

lemma map_init_empty:
  assumes "wf_mem (memory s)" and "length (slots s) = MAP_SIZE"
  shows "map_rep (map_init s) []"
proof -
  have "fold (\<lambda>i xs. xs[i := None]) [0..<n] xs = replicate n None @ drop n xs"
    if "n \<le> length xs" for n and xs :: "nat option list"
    using that
  proof (induction n)
    case (Suc n)
    then show ?case
      by (simp add: list_update_append replicate_append_same [symmetric] Cons_nth_drop_Suc [symmetric])
  qed simp
  from this [of MAP_SIZE "slots s"] have "slots (map_init s) = replicate MAP_SIZE None"
    using assms(2) by (simp add: map_init_def)
  then have "layout (map_init s) []"
    using assms(1) by (simp add: layout_def val_blocks_def map_init_def)
  then show ?thesis by (auto simp: map_rep_def abs_rows_def)
qed

lemma strdup_ok:
  assumes "wf_mem m" and "has_bytes m p (bs @ [0])" and "0 \<notin> set bs" and "length bs < PTRDIFF_MAX"
  shows "strdup plenty p m = Inr (Ptr (nextb m) 0, snd (new_block (Heap (map Some (bs @ [0]))) m))"
  using strlen_has [OF assms(2,3)] malloc_memcpy_has [OF assms(1,2), of plenty] assms(4)
  by (auto simp: strdup_def plenty_def)

text \<open>The place where the scan stops.\<close>

definition pos :: "int \<Rightarrow> row list \<Rightarrow> nat" where
  "pos k L = length (takeWhile (\<lambda>r. fst (snd r) \<noteq> k) L)"

lemma pos_le: "pos k L \<le> length L"
  by (simp add: pos_def length_takeWhile_le)

lemma scan_pos:
  "\<forall>r \<in> set L. row_ok s r \<Longrightarrow>
   scan (entries s) k (map (\<lambda>r. Some (fst r)) L @ replicate n None) idx = Inr (idx + pos k L)"
proof (induction L arbitrary: idx)
  case Nil
  then show ?case by (cases n) (simp_all add: pos_def)
next
  case (Cons r L)
  then show ?case by (cases r) (simp add: pos_def get_entry_def)
qed

lemma pos_less:
  "pos k L < length L \<Longrightarrow> fst (snd (L ! pos k L)) = k"
  unfolding pos_def by (metis (mono_tags, lifting) nth_length_takeWhile)

lemma pos_none: "pos k L = length L \<longleftrightarrow> map_of (abs_rows L) k = None"
  by (induction L) (auto simp: pos_def abs_rows_def)

lemma pos_some:
  "pos k L < length L \<Longrightarrow> map_of (abs_rows L) k = Some (map_option snd (snd (snd (L ! pos k L))))"
  by (induction L) (auto simp: pos_def abs_rows_def)

lemma layout_scan: "layout s L \<Longrightarrow> scan (entries s) k (slots s) 0 = Inr (pos k L)"
  using scan_pos [of L s k "MAP_SIZE - length L" 0] by (simp add: layout_def)

lemma layout_slot:
  "layout s L \<Longrightarrow> i < MAP_SIZE \<Longrightarrow> slots s ! i = (if i < length L then Some (fst (L ! i)) else None)"
  by (auto simp: layout_def nth_append)

section \<open>Setting a value\<close>

definition row_blocks :: "row \<Rightarrow> nat set" where
  "row_blocks r = {fst r} \<union> (case snd (snd r) of None \<Rightarrow> {} | Some (b, bs) \<Rightarrow> {b})"

lemma row_ok_frame:
  assumes "row_ok s r" and "entries s' (fst r) = entries s (fst r)"
    and "\<And>b. b \<in> row_blocks r \<Longrightarrow> blocks (memory s') b = blocks (memory s) b"
  shows "row_ok s' r"
  using assms by (cases r) (auto simp: row_blocks_def split: option.splits)

lemma row_blocks_less: "row_ok s r \<Longrightarrow> wf_mem (memory s) \<Longrightarrow> b \<in> row_blocks r \<Longrightarrow> b < nextb (memory s)"
  by (cases r) (auto simp: row_blocks_def intro: wf_mem_less split: option.splits)

lemma val_blocks_heap: "row_ok s r \<Longrightarrow> snd (snd r) = Some (b, bs) \<Longrightarrow> b \<noteq> fst r'  \<or> \<not> row_ok s r'"
  by (cases r; cases r') auto

lemma val_blocks_append [simp]: "val_blocks (L @ M) = val_blocks L @ val_blocks M"
  by (simp add: val_blocks_def)

lemma val_blocks_Cons: "val_blocks (r # L) = (case snd (snd r) of None \<Rightarrow> [] | Some (b, bs) \<Rightarrow> [b]) @ val_blocks L"
  by (cases r) (simp add: val_blocks_def)

lemma val_blocks_in: "b \<in> set (val_blocks L) \<longleftrightarrow> (\<exists>r \<in> set L. \<exists>bs. snd (snd r) = Some (b, bs))"
proof (induction L)
  case Nil
  show ?case by (simp add: val_blocks_def)
next
  case (Cons r L)
  then show ?case by (cases "snd (snd r)") (auto simp: val_blocks_Cons)
qed

text \<open>A new entry at the end.\<close>

lemma layout_append:
  assumes L: "layout s L" "length L < MAP_SIZE" and k: "map_of (abs_rows L) k = None"
    and new: "row_ok s' (e, k, v)" and fresh: "nextb (memory s) \<le> e" "\<And>b bs. v = Some (b, bs) \<Longrightarrow> nextb (memory s) \<le> b"
    and keep: "\<And>b. b < nextb (memory s) \<Longrightarrow> blocks (memory s') b = blocks (memory s) b"
      "\<And>b. b < nextb (memory s) \<Longrightarrow> entries s' b = entries s b" "wf_mem (memory s')"
    and sl: "slots s' = (slots s)[length L := Some e]"
  shows "layout s' (L @ [(e, k, v)])"
proof -
  have ok: "\<And>r. r \<in> set L \<Longrightarrow> row_ok s r" and wf: "wf_mem (memory s)" using L(1) by (simp_all add: layout_def)
  have less: "b < nextb (memory s)" if "r \<in> set L" "b \<in> row_blocks r" for r b
    using row_blocks_less [OF ok wf] that by blast
  have rows: "row_ok s' r" if "r \<in> set L" for r
    by (rule row_ok_frame [OF ok [OF that]]) (use less [OF that] keep in \<open>auto simp: row_blocks_def\<close>)
  have "e \<notin> set (map fst L)" using less fresh(1) by (fastforce simp: row_blocks_def)
  moreover have "k \<notin> set (map (fst \<circ> snd) L)"
    using k by (force simp: map_of_eq_None_iff abs_rows_def)
  moreover have "b \<notin> set (val_blocks L)" if "v = Some (b, bs)" for b bs
    using less fresh(2) [OF that] by (fastforce simp: val_blocks_in row_blocks_def)
  moreover have "MAP_SIZE - length L = Suc (MAP_SIZE - Suc (length L))" using L(2) by simp
  then have "slots s' = map (\<lambda>r. Some (fst r)) (L @ [(e, k, v)]) @ replicate (MAP_SIZE - Suc (length L)) None"
    using L(1) by (simp add: sl layout_def list_update_append)
  ultimately show ?thesis
    using L rows new keep(3) by (auto simp: layout_def val_blocks_Cons val_blocks_def split: option.splits)
qed

text \<open>Another value for an entry.\<close>

lemma layout_update:
  assumes L: "layout s L" "i < length L" and r: "L ! i = (e, k, Some (b, bs))"
    and new: "row_ok s' (e, k, v)" and fresh: "\<And>c cs. v = Some (c, cs) \<Longrightarrow> nextb (memory s) \<le> c"
    and keep: "\<And>c. c < nextb (memory s) \<Longrightarrow> c \<noteq> b \<Longrightarrow> blocks (memory s') c = blocks (memory s) c"
      "\<And>c. c \<noteq> e \<Longrightarrow> entries s' c = entries s c" "wf_mem (memory s')" and sl: "slots s' = slots s"
  shows "layout s' (L[i := (e, k, v)])"
proof -
  have ok: "\<And>r. r \<in> set L \<Longrightarrow> row_ok s r" and wf: "wf_mem (memory s)" using L(1) by (simp_all add: layout_def)
  have split: "L = take i L @ (e, k, Some (b, bs)) # drop (Suc i) L" "L[i := (e, k, v)] = take i L @ (e, k, v) # drop (Suc i) L"
    using id_take_nth_drop [OF L(2)] r upd_conv_take_nth_drop [OF L(2)] by simp_all
  define A B where "A = take i L" and "B = drop (Suc i) L"
  have LL: "L = A @ (e, k, Some (b, bs)) # B" "L[i := (e, k, v)] = A @ (e, k, v) # B"
    using split A_def B_def by simp_all
  have dist: "distinct (map fst L)" "distinct (map (fst \<circ> snd) L)" "distinct (val_blocks L)" using L(1) by (simp_all add: layout_def)
  have less: "c < nextb (memory s)" if "q \<in> set L" "c \<in> row_blocks q" for q c
    using row_blocks_less [OF ok wf] that by blast
  have rows: "row_ok s' q" if q: "q \<in> set A \<union> set B" for q
  proof (rule row_ok_frame [OF ok])
    show "q \<in> set L" using q LL(1) by auto
    show "entries s' (fst q) = entries s (fst q)"
    proof (rule keep(2))
      show "fst q \<noteq> e" using q dist(1) unfolding LL(1) by force
    qed
    fix c assume c: "c \<in> row_blocks q"
    have "(e, k, Some (b, bs)) \<in> set L" by (simp add: LL(1))
    then have "row_ok s (e, k, Some (b, bs))" by (rule ok)
    then have "b \<noteq> fst q" using val_blocks_heap [of s "(e, k, Some (b, bs))" b bs q] ok [of q] q LL(1) by auto
    moreover have "b \<notin> set (val_blocks A) \<union> set (val_blocks B)"
      using dist(3) unfolding LL(1) by (auto simp: val_blocks_Cons)
    ultimately have "c \<noteq> b" using c q by (auto simp: row_blocks_def val_blocks_in split: option.splits)
    moreover have "c < nextb (memory s)" by (rule less [OF _ c]) (use q LL(1) in auto)
    ultimately show "blocks (memory s') c = blocks (memory s) c" using keep(1) by blast
  qed
  have "c \<notin> set (val_blocks A) \<union> set (val_blocks B)" if "v = Some (c, cs)" for c cs
  proof -
    have "c \<notin> set (val_blocks L)" using less fresh [OF that] by (fastforce simp: val_blocks_in row_blocks_def)
    then show ?thesis by (simp add: LL(1) val_blocks_Cons)
  qed
  moreover have "length (A @ (e, k, v) # B) = length L" by (simp add: LL(1))
  moreover have "map (\<lambda>r. Some (fst r)) (A @ (e, k, v) # B) = map (\<lambda>r. Some (fst r)) L"
    by (simp add: LL(1))
  ultimately show ?thesis
    using L(1) rows new keep(3) dist unfolding LL(2) layout_def sl
    by (auto simp: LL(1) val_blocks_Cons split: option.splits)
qed

text \<open>
  A value to be set: none, or a C string outside of the strings that the map owns.
\<close>

definition value_arg :: "'z mapstate_scheme \<Rightarrow> row list \<Rightarrow> ptr \<Rightarrow> byte list option \<Rightarrow> bool" where
  "value_arg s L p v \<longleftrightarrow> (case v of
     None \<Rightarrow> p = Null
   | Some bs \<Rightarrow> has_bytes (memory s) p (bs @ [0]) \<and> 0 \<notin> set bs \<and> length bs < PTRDIFF_MAX \<and>
       ptr_blocks p \<inter> set (val_blocks L) = {})"

text \<open>What setting leaves alone: everything but the map's own strings and the new blocks.\<close>

definition map_frame :: "'z mapstate_scheme \<Rightarrow> row list \<Rightarrow> 'z mapstate_scheme \<Rightarrow> row list \<Rightarrow> bool" where
  "map_frame s L s' L' \<longleftrightarrow> trace s' = trace s \<and> errno s' = errno s \<and> mapstate.more s' = mapstate.more s \<and>
     nextb (memory s) \<le> nextb (memory s') \<and>
     (\<forall>b \<in> set (val_blocks L'). b \<in> set (val_blocks L) \<or> nextb (memory s) \<le> b) \<and>
     (\<forall>b < nextb (memory s). b \<notin> set (val_blocks L) \<longrightarrow> blocks (memory s') b = blocks (memory s) b)"

lemma val_blocks_update: "b \<in> set (val_blocks (L[i := r])) \<Longrightarrow> b \<in> set (val_blocks L) \<or> b \<in> set (val_blocks [r])"
  unfolding val_blocks_in using set_update_subset_insert [of L i r] by auto

lemma val_blocks_one: "val_blocks [(e, k, v)] = (case v of None \<Rightarrow> [] | Some (b, bs) \<Rightarrow> [b])"
  by (simp add: val_blocks_def)

lemma abs_update:
  assumes "i < length L" and "L ! i = (e, k, w)" and "distinct (map fst (abs_rows L))"
  shows "abs_rows (L[i := (e, k, v)]) = AList.update k (map_option snd v) (abs_rows L)"
  using assms
proof (induction L arbitrary: i)
  case (Cons r L)
  show ?case
  proof (cases i)
    case (Suc j)
    obtain e' k' v' where r: "r = (e', k', v')" by (cases r) auto
    have "k \<in> fst ` set (abs_rows L)"
    proof -
      have "(e, k, w) \<in> set L" using Cons.prems Suc nth_mem [of j L] by simp
      then show ?thesis by (force simp: abs_rows_def)
    qed
    moreover have "map fst (abs_rows (r # L)) = k' # map fst (abs_rows L)" by (simp add: r abs_rows_def)
    ultimately have "k' \<noteq> k" using Cons.prems(3) by auto
    then show ?thesis using Cons Suc r by (simp add: abs_rows_def)
  qed (use Cons.prems in \<open>simp add: abs_rows_def\<close>)
qed simp

lemma abs_keys: "map fst (abs_rows L) = map (fst \<circ> snd) L"
  by (auto simp: abs_rows_def)

lemma set_new:
  assumes L: "layout s L" "length L < MAP_SIZE" and k: "map_of (abs_rows L) k = None"
    and arg: "value_arg s L p v"
  shows "\<exists>s' L'. map_set plenty k p s = Inr s' \<and> layout s' L' \<and>
    abs_rows L' = abs_rows L @ [(k, v)] \<and> map_frame s L s' L'"
proof -
  let ?e = "nextb (memory s)" and ?m = "snd (new_block Struct (memory s))" and ?i = "length L"
  have pos: "pos k L = ?i" using k pos_none by simp
  have sc: "scan (entries s) k (slots s) 0 = Inr ?i" using layout_scan [OF L(1)] pos by simp
  have slot: "slots s ! ?i = None" using layout_slot [OF L(1,2)] by simp
  have cal: "calloc_struct plenty SIZEOF_MAP_ENTRY (memory s) = (Some ?e, ?m)"
    by (simp add: calloc_struct_def plenty_def SIZEOF_MAP_ENTRY_def PTRDIFF_MAX_def new_block_def)
  have wf: "wf_mem (memory s)" using L(1) by (simp add: layout_def)
  show ?thesis
  proof (cases v)
    case None
    let ?s = "set_entry ?e \<lparr>key = k, val = Null\<rparr> (s\<lparr>memory := ?m, slots := (slots s)[?i := Some ?e]\<rparr>)"
    have "map_set plenty k p s = Inr ?s"
      using arg None sc slot cal L(2) by (simp add: map_set_def value_arg_def)
    moreover have "layout ?s (L @ [(?e, k, None)])"
      by (rule layout_append [OF L k]) (use wf wf_mem_new in \<open>auto simp: set_entry_def new_block_def wf_mem_def\<close>)
    ultimately show ?thesis
      using None by (intro exI [of _ ?s] exI [of _ "L @ [(?e, k, None)]"])
        (auto simp: abs_rows_def map_frame_def set_entry_def new_block_def val_blocks_one)
  next
    case (Some bs)
    have a: "has_bytes (memory s) p (bs @ [0])" "0 \<notin> set bs" "length bs < PTRDIFF_MAX"
      using arg Some by (simp_all add: value_arg_def)
    have p: "p \<noteq> Null" using a(1) by auto
    have "has_bytes ?m p (bs @ [0])" by (rule has_bytes_ext [OF wf mem_ext_new a(1)])
    note dup = strdup_ok [OF wf_mem_new [OF wf] this a(2,3)]
    let ?b = "nextb ?m" and ?m2 = "snd (new_block (Heap (map Some (bs @ [0]))) ?m)"
    let ?s = "set_entry ?e \<lparr>key = k, val = Ptr ?b 0\<rparr> (s\<lparr>slots := (slots s)[?i := Some ?e], memory := ?m2\<rparr>)"
    have "map_set plenty k p s = Inr ?s"
      using p dup sc slot cal L(2) by (simp add: map_set_def)
    moreover have "layout ?s (L @ [(?e, k, Some (?b, bs))])"
      by (rule layout_append [OF L k]) (use wf a(2) in \<open>auto simp: set_entry_def new_block_def wf_mem_def\<close>)
    ultimately show ?thesis
      using Some by (intro exI [of _ ?s] exI [of _ "L @ [(?e, k, Some (?b, bs))]"])
        (auto simp: abs_rows_def map_frame_def set_entry_def new_block_def val_blocks_one)
  qed
qed

lemma set_old:
  assumes L: "layout s L" and k: "map_of (abs_rows L) k = Some (Some old)" and arg: "value_arg s L p v"
  shows "\<exists>s' L'. map_set plenty k p s = Inr s' \<and> layout s' L' \<and>
    abs_rows L' = AList.update k v (abs_rows L) \<and> map_frame s L s' L'"
proof -
  let ?i = "pos k L"
  have i: "?i < length L" using k pos_none [of k L] pos_le [of k L] by (cases "?i = length L") auto
  have "map_option snd (snd (snd (L ! ?i))) = Some old" using pos_some [OF i] k by simp
  then obtain e b where r: "L ! ?i = (e, k, Some (b, old))"
    using pos_less [OF i] by (cases "L ! ?i") auto
  have mem: "(e, k, Some (b, old)) \<in> set L" using nth_mem [OF i] r by simp
  then have ok: "row_ok s (e, k, Some (b, old))" using L by (simp only: layout_def)
  have b: "b \<in> set (val_blocks L)" using mem unfolding val_blocks_in by force
  have len: "length L \<le> MAP_SIZE" and wf: "wf_mem (memory s)" and ks: "distinct (map fst (abs_rows L))"
    using L by (simp_all add: layout_def abs_keys)
  have sc: "scan (entries s) k (slots s) 0 = Inr ?i" using layout_scan [OF L] by simp
  have slot: "slots s ! ?i = Some e" using layout_slot [OF L, of ?i] i len r by simp
  have ge: "get_entry (entries s) e = Inr \<lparr>key = k, val = Ptr b 0\<rparr>" using ok by (simp add: get_entry_def)
  show ?thesis
  proof (cases v)
    case None
    let ?s = "set_entry e \<lparr>key = k, val = Null\<rparr> s"
    have "map_set plenty k p s = Inr ?s"
      using arg None sc slot ge i len by (simp add: map_set_def value_arg_def)
    moreover have "layout ?s (L[?i := (e, k, None)])"
      by (rule layout_update [OF L i r]) (use wf ok in \<open>auto simp: set_entry_def\<close>)
    ultimately show ?thesis
      using None abs_update [OF i r ks, of None] by (intro exI [of _ ?s] exI [of _ "L[?i := (e, k, None)]"])
        (auto simp: map_frame_def set_entry_def val_blocks_one dest: val_blocks_update)
  next
    case (Some bs)
    let ?m = "drop_block b (memory s)"
    have a: "has_bytes (memory s) p (bs @ [0])" "0 \<notin> set bs" "length bs < PTRDIFF_MAX"
      "b \<notin> ptr_blocks p" using arg Some b by (auto simp: value_arg_def)
    have p: "p \<noteq> Null" using a(1) by auto
    have hb: "has_bytes ?m p (bs @ [0])"
      using a(1,4) by (cases p) (simp_all add: bytes_at_def drop_block_def ptr_blocks_def)
    note dup = strdup_ok [OF wf_mem_drop [OF wf] hb a(2,3)]
    have fr: "free (Ptr b 0) (memory s) = Inr ?m" using ok by simp
    let ?b = "nextb ?m" and ?m2 = "snd (new_block (Heap (map Some (bs @ [0]))) ?m)"
    let ?s = "set_entry e \<lparr>key = k, val = Ptr ?b 0\<rparr> (s\<lparr>memory := ?m2\<rparr>)"
    have "e < nextb (memory s)" "b < nextb (memory s)" "e \<noteq> b" using ok wf by (auto intro: wf_mem_less)
    then have "layout ?s (L[?i := (e, k, Some (?b, bs))])"
      by (intro layout_update [OF L i r]) (use wf a(2) ok in \<open>auto simp: set_entry_def new_block_def wf_mem_def drop_block_def\<close>)
    moreover have "map_set plenty k p s = Inr ?s"
      using p dup fr sc slot ge i len by (simp add: map_set_def)
    ultimately show ?thesis
      using Some abs_update [OF i r ks, of "Some (?b, bs)"] b
      by (intro exI [of _ ?s] exI [of _ "L[?i := (e, k, Some (?b, bs))]"])
        (auto simp: map_frame_def set_entry_def new_block_def drop_block_def val_blocks_one dest: val_blocks_update)
  qed
qed

lemma set_ignored:
  assumes L: "layout s L"
    and no: "map_of (abs_rows L) k = Some None \<or> map_of (abs_rows L) k = None \<and> length L = MAP_SIZE"
  shows "map_set mal k p s = Inr s"
proof (cases "pos k L < length L")
  case True
  then have "map_of (abs_rows L) k = Some (map_option snd (snd (snd (L ! pos k L))))" by (rule pos_some)
  then have "snd (snd (L ! pos k L)) = None" using no by (cases "snd (snd (L ! pos k L))") auto
  then obtain e where r: "L ! pos k L = (e, k, None)" using pos_less [OF True] by (cases "L ! pos k L") auto
  then have "(e, k, None) \<in> set L" using nth_mem [OF True] by simp
  then have "row_ok s (e, k, None)" "length L \<le> MAP_SIZE" using L by (simp_all only: layout_def)
  then show ?thesis
    using layout_scan [OF L, of k] layout_slot [OF L, of "pos k L"] True r by (simp add: map_set_def get_entry_def)
next
  case False
  then have "pos k L = length L" using pos_le [of k L] by simp
  then have "length L = MAP_SIZE" "pos k L = MAP_SIZE" using no pos_none [of k L] by auto
  then show ?thesis using layout_scan [OF L, of k] by (simp add: map_set_def)
qed

section \<open>Freeing the map\<close>

lemma free_rows:
  assumes "\<forall>r \<in> set L. row_ok s r" and "distinct (map fst L)" and "distinct (val_blocks L)"
  shows "\<exists>s'. free_slots (map (\<lambda>r. Some (fst r)) L @ replicate n None) s = Inr s' \<and>
    (\<forall>b. blocks (memory s') b = (if \<exists>r \<in> set L. b \<in> row_blocks r then None else blocks (memory s) b))"
  using assms
proof (induction L arbitrary: s)
  case Nil
  have "free_slots (replicate n None) s = Inr s" by (induction n) simp_all
  then show ?case by simp
next
  case (Cons r L)
  obtain e k v where r: "r = (e, k, v)" by (cases r) auto
  have ok: "row_ok s (e, k, v)" using Cons.prems(1) r by simp
  define m where "m = drop_block e (case v of None \<Rightarrow> memory s | Some (b, bs) \<Rightarrow> drop_block b (memory s))"
  let ?s = "s\<lparr>memory := m, entries := (entries s)(e := None)\<rparr>"
  have bl: "blocks m b = (if b \<in> row_blocks r then None else blocks (memory s) b)" for b
    by (auto simp: m_def r row_blocks_def drop_block_def split: option.splits)
  have step: "free_slots (Some e # ps) s = free_slots ps ?s" for ps
  proof (cases v)
    case (Some w)
    then show ?thesis using ok
      by (cases w) (auto simp: m_def get_entry_def free_struct_def drop_block_def)
  qed (use ok in \<open>auto simp: m_def get_entry_def free_struct_def\<close>)
  have "row_ok ?s q" if q: "q \<in> set L" for q
  proof (rule row_ok_frame)
    show okq: "row_ok s q" using Cons.prems(1) q by simp
    have ne: "fst q \<noteq> e" using Cons.prems(2) q r by force
    then show "entries ?s (fst q) = entries s (fst q)" by simp
    fix b assume b: "b \<in> row_blocks q"
    have "b \<notin> row_blocks r"
    proof
      assume br: "b \<in> row_blocks r"
      have "snd (snd q) \<noteq> Some (b, bs)" if "v = Some (b, cs)" for bs cs
        using Cons.prems(3) q val_blocks_in [of b L] that r by (auto simp: val_blocks_Cons)
      then show False
        using br b ne ok okq r by (cases q) (auto simp: row_blocks_def split: option.splits)
    qed
    then show "blocks (memory ?s) b = blocks (memory s) b" using bl by simp
  qed
  moreover have "distinct (val_blocks L)" using Cons.prems(3) by (simp add: val_blocks_Cons)
  ultimately obtain s' where s': "free_slots (map (\<lambda>r. Some (fst r)) L @ replicate n None) ?s = Inr s'"
    "\<forall>b. blocks (memory s') b = (if \<exists>r \<in> set L. b \<in> row_blocks r then None else blocks m b)"
    using Cons.IH [of ?s] Cons.prems(2) by auto
  then have "free_slots (map (\<lambda>r. Some (fst r)) (r # L) @ replicate n None) s = Inr s'"
    using step r by simp
  then show ?case using s'(2) bl by auto
qed

section \<open>Getting and setting\<close>

lemma map_set_ok:
  assumes "layout s L" and "value_arg s L p v"
  shows "\<exists>s' L'. map_set plenty k p s = Inr s' \<and> layout s' L' \<and>
    abs_rows L' = aset k v (abs_rows L) \<and> map_frame s L s' L'"
proof (cases "map_of (abs_rows L) k")
  case None
  show ?thesis
  proof (cases "length L < MAP_SIZE")
    case True
    then show ?thesis using set_new [OF assms(1) True None assms(2)] None by (simp add: aset_def abs_rows_def)
  next
    case False
    then have full: "length L = MAP_SIZE" using assms(1) by (simp add: layout_def)
    then have "aset k v (abs_rows L) = abs_rows L" using None by (simp add: aset_def abs_rows_def)
    then show ?thesis using set_ignored [OF assms(1)] None full assms(1)
      by (intro exI [of _ s] exI [of _ L]) (simp add: map_frame_def)
  qed
next
  case (Some w)
  show ?thesis
  proof (cases w)
    case None
    then show ?thesis using set_ignored [OF assms(1)] Some assms(1)
      by (intro exI [of _ s] exI [of _ L]) (simp add: map_frame_def aset_def)
  next
    case (Some old)
    then show ?thesis using set_old [OF assms(1) _ assms(2)] \<open>map_of (abs_rows L) k = Some w\<close>
      by (simp add: aset_def)
  qed
qed

lemma map_get_ok:
  assumes "layout s L"
  shows "\<exists>p. map_get k s = Inr p \<and> (case map_of (abs_rows L) k of
      Some (Some bs) \<Rightarrow> p \<noteq> Null \<and> has_bytes (memory s) p (bs @ [0]) | _ \<Rightarrow> p = Null)"
proof (cases "pos k L < length L")
  case True
  obtain e v where r: "L ! pos k L = (e, k, v)" using pos_less [OF True] by (cases "L ! pos k L") auto
  then have "(e, k, v) \<in> set L" using nth_mem [OF True] by simp
  then have ok: "row_ok s (e, k, v)" "length L \<le> MAP_SIZE" using assms by (simp_all only: layout_def)
  then have "map_get k s = Inr (row_ptr v)"
    using layout_scan [OF assms, of k] layout_slot [OF assms, of "pos k L"] True r
    by (simp add: map_get_def get_entry_def)
  then show ?thesis using pos_some [OF True] r ok(1)
    by (auto simp: bytes_at_def window_def split: option.splits)
next
  case False
  then have "pos k L = length L" using pos_le [of k L] by simp
  moreover have "map_get k s = Inr Null"
    using layout_scan [OF assms, of k] layout_slot [OF assms, of "length L"] calculation
    by (auto simp: map_get_def) (use assms in \<open>simp add: layout_def\<close>)
  ultimately show ?thesis using pos_none [of k L] by simp
qed

section \<open>The contract of the map\<close>

text \<open>
  What the interposer relies on: setting follows the abstract update, getting gives the
  string of a key, and both leave a map behind.
\<close>

locale string_map =
  fixes represents :: "'s \<Rightarrow> 'r \<Rightarrow> bool"
    and contents :: "'r \<Rightarrow> amap"
    and value_ok :: "'s \<Rightarrow> 'r \<Rightarrow> 'p \<Rightarrow> byte list option \<Rightarrow> bool"
    and reads_as :: "'s \<Rightarrow> 'p \<Rightarrow> byte list option \<Rightarrow> bool"
    and set_key :: "int \<Rightarrow> 'p \<Rightarrow> 's \<Rightarrow> fault + 's"
    and get_key :: "int \<Rightarrow> 's \<Rightarrow> fault + 'p"
  assumes set_ok: "represents s R \<Longrightarrow> value_ok s R p v \<Longrightarrow>
      \<exists>s' R'. set_key k p s = Inr s' \<and> represents s' R' \<and> contents R' = aset k v (contents R)"
    and get_ok: "represents s R \<Longrightarrow>
      \<exists>p. get_key k s = Inr p \<and> reads_as s p (Option.bind (map_of (contents R) k) id)"
begin

text \<open>A string that was set is found, if the key is new and there is room, or had a string.\<close>

lemma set_get:
  assumes "represents s R" and "value_ok s R p (Some d)"
    and "case map_of (contents R) k of None \<Rightarrow> length (contents R) < MAP_SIZE | Some v \<Rightarrow> v \<noteq> None"
  shows "\<exists>s' R' q. set_key k p s = Inr s' \<and> represents s' R' \<and> get_key k s' = Inr q \<and> reads_as s' q (Some d)"
proof -
  obtain s' R' where s': "set_key k p s = Inr s'" "represents s' R'" "contents R' = aset k (Some d) (contents R)"
    using set_ok [OF assms(1,2)] by blast
  have "map_of (aset k (Some d) (contents R)) k = Some (Some d)"
    using assms(3) by (auto simp: aset_def update_conv' map_add_def split: option.splits)
  then show ?thesis using s' get_ok [OF s'(2), of k] by auto
qed

text \<open>The other keys keep their strings.\<close>

lemma set_other:
  assumes "represents s R" and "value_ok s R p v" and "k' \<noteq> k"
  shows "\<exists>s' R' q. set_key k p s = Inr s' \<and> represents s' R' \<and> get_key k' s' = Inr q \<and>
    reads_as s' q (Option.bind (map_of (contents R) k') id)"
proof -
  obtain s' R' where s': "set_key k p s = Inr s'" "represents s' R'" "contents R' = aset k v (contents R)"
    using set_ok [OF assms(1,2)] by blast
  have "map_of (aset k v (contents R)) k' = map_of (contents R) k'"
    using assms(3) by (auto simp: aset_def update_conv' map_add_def split: option.splits)
  then show ?thesis using s' get_ok [OF s'(2), of k'] by auto
qed

end

text \<open>A pointer that \<open>map_get\<close> hands out.\<close>

definition string_at :: "'z mapstate_scheme \<Rightarrow> ptr \<Rightarrow> byte list option \<Rightarrow> bool" where
  "string_at s p v \<longleftrightarrow> (case v of None \<Rightarrow> p = Null | Some bs \<Rightarrow> p \<noteq> Null \<and> has_bytes (memory s) p (bs @ [0]))"

interpretation maps: string_map layout abs_rows value_arg string_at "map_set plenty" map_get
proof
  fix s :: "'a mapstate_scheme" and L p v k
  assume L: "layout s L"
  show "\<exists>s' L'. map_set plenty k p s = Inr s' \<and> layout s' L' \<and> abs_rows L' = aset k v (abs_rows L)"
    if "value_arg s L p v"
    using map_set_ok [OF L that] by blast
  obtain q where "map_get k s = Inr q" and q: "case map_of (abs_rows L) k of
      Some (Some bs) \<Rightarrow> q \<noteq> Null \<and> has_bytes (memory s) q (bs @ [0]) | _ \<Rightarrow> q = Null"
    using map_get_ok [OF L] by blast
  then show "\<exists>q. map_get k s = Inr q \<and> string_at s q (Option.bind (map_of (abs_rows L) k) id)"
    by (auto simp: string_at_def split: option.splits)
qed

section \<open>Properties\<close>

text \<open>
  C30. When memory suffices and the value is null or a string that is not one of the map's own,
  setting a key refines the abstract update: an unknown key is appended while there is room and
  ignored otherwise, a key with a string gets the new value, and a key whose value is null keeps
  it, other than the comment in \<open>map.h\<close> says. Memory outside of the map's own strings stays as it
  was. (With a string of the map the code reads freed memory, see \<open>map_set_own_string\<close>.)
\<close>

theorem map_set_refines:
  assumes "layout s L" and "value_arg s L p v"
  shows "\<exists>s' L'. map_set plenty k p s = Inr s' \<and> layout s' L' \<and>
    abs_rows L' = aset k v (abs_rows L) \<and> map_frame s L s' L'"
  using assms by (rule map_set_ok)

definition empty_map :: mapstate where
  "empty_map = \<lparr>memory = mem_of [104, 105, 0], trace = [], errno = 0,
     slots = replicate MAP_SIZE None, entries = Map.empty\<rparr>"

lemma layout_empty: "layout empty_map []"
  by (simp add: layout_def empty_map_def val_blocks_def)

lemma value_hi: "value_arg empty_map [] (Ptr 0 0) (Some [104, 105])"
  by (simp add: value_arg_def empty_map_def PTRDIFF_MAX_def val_blocks_def window_def)

lemma map_set_refines_witness:
  "\<exists>s' L'. map_set plenty 7 (Ptr 0 0) empty_map = Inr s' \<and> layout s' L' \<and> abs_rows L' = [(7, Some [104, 105])]"
proof -
  have "aset 7 (Some [104, 105]) (abs_rows []) = [(7, Some [104, 105])]"
    by (simp add: abs_rows_def aset_def MAP_SIZE_def)
  then show ?thesis using map_set_refines [OF layout_empty value_hi, of 7] by auto
qed

text \<open>
  Looking up a key gives a pointer to its string, and null for a key without one.
\<close>

theorem map_get_finds:
  assumes "layout s L"
  shows "\<exists>p. map_get k s = Inr p \<and> (case map_of (abs_rows L) k of
      Some (Some bs) \<Rightarrow> p \<noteq> Null \<and> has_bytes (memory s) p (bs @ [0]) | _ \<Rightarrow> p = Null)"
  using assms by (rule map_get_ok)

lemma map_get_finds_witness: "map_get 7 empty_map = Inr Null"
  using map_get_finds [OF layout_empty, of 7] by (simp add: abs_rows_def)

text \<open>
  Giving a key the string it already has, by the pointer that the map handed out, reads
  freed memory: the old string is freed before the new one is copied.
\<close>

theorem map_set_own_string:
  assumes "layout s L" and "map_of (abs_rows L) k = Some (Some old)" and "map_get k s = Inr p"
  shows "map_set mal k p s = Inl DeadBlock"
proof -
  let ?i = "pos k L"
  have i: "?i < length L" using assms(2) pos_none [of k L] pos_le [of k L] by (cases "?i = length L") auto
  have "map_option snd (snd (snd (L ! ?i))) = Some old" using pos_some [OF i] assms(2) by simp
  then obtain e b where r: "L ! ?i = (e, k, Some (b, old))"
    using pos_less [OF i] by (cases "L ! ?i") auto
  then have "(e, k, Some (b, old)) \<in> set L" using nth_mem [OF i] by simp
  then have ok: "row_ok s (e, k, Some (b, old))" "length L \<le> MAP_SIZE" using assms(1) by (simp_all only: layout_def)
  have at: "scan (entries s) k (slots s) 0 = Inr ?i" "slots s ! ?i = Some e" "?i \<noteq> MAP_SIZE"
    using layout_scan [OF assms(1)] layout_slot [OF assms(1), of ?i] i r ok(2) by simp_all
  then have "p = Ptr b 0" using assms(3) ok(1) by (simp add: map_get_def get_entry_def)
  then show ?thesis
    using at ok(1) by (simp add: map_set_def get_entry_def strdup_def bytes_at_def drop_block_def)
qed

lemma map_set_own_string_witness:
  "\<exists>s p. map_set plenty 7 (Ptr 0 0) empty_map = Inr s \<and> map_get 7 s = Inr p \<and> map_set plenty 7 p s = Inl DeadBlock"
proof -
  obtain s L where s: "map_set plenty 7 (Ptr 0 0) empty_map = Inr s" "layout s L"
    "abs_rows L = aset 7 (Some [104, 105]) (abs_rows [])"
    using map_set_ok [OF layout_empty value_hi, of 7] by blast
  have k: "map_of (abs_rows L) 7 = Some (Some [104, 105])"
    unfolding s(3) by (simp add: aset_def abs_rows_def MAP_SIZE_def)
  obtain p where "map_get 7 s = Inr p" using map_get_ok [OF s(2), of 7] by blast
  then show ?thesis using map_set_own_string [OF s(2) k] s(1) by blast
qed

end
