(* ===== verification/LibSock.thy ===== *)
theory LibSock
  imports DeprecatedMap CText
begin

text \<open>
  The first interposer, \<open>deprecated/lib_sock.c\<close>: it keeps the descriptors of MPTCP sockets in
  the map and, on \<open>connect\<close>, sends the destination as text to a fixed converter. The
  application's \<open>struct sockaddr\<close> is memory of its own, which the library reads and writes.
\<close>

section \<open>The intercepted calls\<close>

definition INET_ADDRSTRLEN :: nat where
  "INET_ADDRSTRLEN = 16"

definition MSG_FASTOPEN :: int where
  "MSG_FASTOPEN = 0x20000000"

text \<open>\<open>192.168.56.107\<close> in network byte order, and the port 8080.\<close>

definition TC_ADDR :: "byte list" where
  "TC_ADDR = [192, 168, 56, 107]"

definition TC_PORT :: u16 where
  "TC_PORT = 8080"

text \<open>\<open>empty_lit\<close> is the address of the literal \<open>""\<close>.\<close>

definition lib_socket ::
  "alloc \<Rightarrow> kern \<Rightarrow> ptr \<Rightarrow> int \<Rightarrow> int \<Rightarrow> int \<Rightarrow> 'z mapstate_scheme \<Rightarrow> fault + int \<times> 'z mapstate_scheme"
where
  "lib_socket mal kern empty_lit domain type protocol s =
     (if protocol = IPPROTO_MPTCP
      then let (f, s) = syscall kern (Socket domain type protocol) s in
        bindE (map_set mal f empty_lit s) (\<lambda>s. Inr (f, s))
      else Inr (syscall kern (Socket domain type protocol) s))"

definition lib_connect ::
  "alloc \<Rightarrow> kern \<Rightarrow> int \<Rightarrow> ptr \<Rightarrow> nat \<Rightarrow> 'z mapstate_scheme \<Rightarrow> fault + int \<times> 'z mapstate_scheme"
where
  "lib_connect mal kern sockfd addr addrlen s =
     bindE (map_get sockfd s) (\<lambda>known.
     if known \<noteq> Null
     then
       let (ip, m) = malloc mal INET_ADDRSTRLEN (memory s) in
       bindE (load_bytes m (padd addr 4) 4) (\<lambda>a.
       bindE (store_bytes m ip (dotted a @ [0])) (\<lambda>m.
       bindE (map_set mal sockfd ip (s\<lparr>memory := m\<rparr>)) (\<lambda>s.
       bindE (strlen (memory s) ip) (\<lambda>data_len.
       bindE (store_bytes (memory s) (padd addr 4) TC_ADDR) (\<lambda>m.
       bindE (store_bytes m (padd addr 2) (le16 (htons TC_PORT))) (\<lambda>m.
       bindE (load_bytes m ip data_len) (\<lambda>bs.
       let (rc, s) = syscall kern (Sendto sockfd bs MSG_FASTOPEN addr addrlen) (s\<lparr>memory := m\<rparr>) in
       Inr (if rc < 0 then -1 else 0, s))))))))
     else Inr (syscall kern (Connect_at sockfd addr addrlen) s))"

definition lib_init :: "'z mapstate_scheme \<Rightarrow> 'z mapstate_scheme" where
  "lib_init s = map_init s"

definition lib_fini :: "'z mapstate_scheme \<Rightarrow> fault + 'z mapstate_scheme" where
  "lib_fini s = map_free s"

section \<open>Memory outside of the map\<close>

lemma layout_memory:
  assumes "layout s L" and "wf_mem m" and "\<And>r b. r \<in> set L \<Longrightarrow> b \<in> row_blocks r \<Longrightarrow> blocks m b = blocks (memory s) b"
  shows "layout (s\<lparr>memory := m\<rparr>) L"
proof -
  have "row_ok (s\<lparr>memory := m\<rparr>) r" if "r \<in> set L" for r
  proof (rule row_ok_frame)
    show "row_ok s r" using assms(1) that by (simp add: layout_def)
  qed (use assms(3) that in simp_all)
  then show ?thesis using assms(1,2) by (simp add: layout_def)
qed

lemma layout_less: "layout s L \<Longrightarrow> r \<in> set L \<Longrightarrow> b \<in> row_blocks r \<Longrightarrow> b < nextb (memory s)"
  using row_blocks_less [of s r b] by (simp add: layout_def)

text \<open>A block with cells that is none of the map's strings is not one of the map at all.\<close>

lemma layout_foreign:
  assumes "layout s L" and "bytes_at (memory s) c = Some cs" and "c \<notin> set (val_blocks L)" and "r \<in> set L"
  shows "c \<notin> row_blocks r"
proof -
  have "row_ok s r" using assms(1,4) by (simp add: layout_def)
  then show ?thesis using assms(2-4)
    by (cases r) (auto simp: row_blocks_def val_blocks_in bytes_at_def split: option.splits)
qed

lemma zero_not_in_dec: "0 \<notin> set (dec n)"
  using dec_digits [of n] by (auto simp: list_all_iff isdigit_def)

lemma zero_not_in_dotted: "0 \<notin> set (dotted bs)"
  by (induction bs rule: dotted.induct) (auto simp: zero_not_in_dec)

lemma dotted_nonempty: "bs \<noteq> [] \<Longrightarrow> dotted bs \<noteq> []"
  by (cases bs rule: dotted.cases) (auto simp: dec_nonempty)

text \<open>Overwriting the address and the port of a \<open>struct sockaddr_in\<close>.\<close>

lemma write_sockaddr:
  assumes h: "has_bytes m p (fam @ port @ ip @ rest)" and l: "length fam = 2" "length port = 2" "length ip = 4" "length ip' = 4" "length port' = 2"
  shows "\<exists>m1 m2. store_bytes m (padd p 4) ip' = Inr m1 \<and> store_bytes m1 (padd p 2) port' = Inr m2 \<and>
    has_bytes m2 p (fam @ port' @ ip' @ rest) \<and> (\<forall>b. b \<notin> ptr_blocks p \<longrightarrow> blocks m2 b = blocks m b) \<and>
    nextb m2 = nextb m \<and> (wf_mem m \<longrightarrow> wf_mem m2)"
proof (cases p)
  case Null
  then show ?thesis using h l by auto
next
  case (Ptr b i)
  then obtain cs where cs: "bytes_at m b = Some cs" "i + length (fam @ port @ ip @ rest) \<le> length cs"
    "window i (length (fam @ port @ ip @ rest)) cs = map Some (fam @ port @ ip @ rest)"
    using h by (auto split: option.splits)
  define u v where "u = take i cs" and "v = drop (i + length (fam @ port @ ip @ rest)) cs"
  have i: "length u = i" using cs(2) by (simp add: u_def)
  have "cs = u @ window i (length (fam @ port @ ip @ rest)) cs @ v"
    unfolding u_def v_def window_def by (metis append_take_drop_id drop_drop add.commute)
  then have c: "cs = u @ map Some (fam @ port @ ip @ rest) @ v" using cs(3) by simp
  let ?c1 = "u @ map Some (fam @ port @ ip' @ rest) @ v" and ?c2 = "u @ map Some (fam @ port' @ ip' @ rest) @ v"
  have o1: "overwrite (i + 4) (map Some ip') cs = ?c1" and o2: "overwrite (i + 2) (map Some port') ?c1 = ?c2"
    using l i by (simp_all add: c overwrite_def)
  have m: "put_cells m b cs = m" by (rule put_cells_same [OF cs(1)])
  have "store_bytes m (Ptr b (i + 4)) ip' = Inr (put_cells m b ?c1)"
    using write_cells_put [OF cs(1), of "i + 4" "map Some ip'" cs] cs(2) l by (simp only: m o1 store_bytes_def) simp
  moreover have "store_bytes (put_cells m b ?c1) (Ptr b (i + 2)) port' = Inr (put_cells m b ?c2)"
    using write_cells_put [OF cs(1), of "i + 2" "map Some port'" ?c1] l i by (simp only: o2 store_bytes_def) simp
  moreover have "has_bytes (put_cells m b ?c2) p (fam @ port' @ ip' @ rest)"
    using cs(1) i by (simp add: Ptr bytes_at_put_cells window_def)
  moreover have "nextb (put_cells m b ?c2) = nextb m" by (simp add: put_cells_def)
  ultimately show ?thesis
    by (intro exI [of _ "put_cells m b ?c1"] exI [of _ "put_cells m b ?c2"])
      (simp add: Ptr ptr_blocks_def blocks_put_cells_other)
qed

text \<open>The destination printed into a block of its own.\<close>

lemma print_address:
  assumes wf: "wf_mem m" and h: "has_bytes m addr (fam @ port @ ip @ rest)"
    and len: "length fam = 2" "length port = 2" "length ip = 4"
  shows "\<exists>m1 m2. malloc plenty INET_ADDRSTRLEN m = (Ptr (nextb m) 0, m1) \<and> load_bytes m1 (padd addr 4) 4 = Inr ip \<and>
    store_bytes m1 (Ptr (nextb m) 0) (dotted ip @ [0]) = Inr m2 \<and>
    has_bytes m2 (Ptr (nextb m) 0) (dotted ip @ [0]) \<and> (\<forall>x < nextb m. blocks m2 x = blocks m x) \<and>
    wf_mem m2 \<and> nextb m2 = Suc (nextb m)"
proof -
  let ?d = "dotted ip" and ?b = "nextb m"
  define m1 where "m1 = snd (new_block (Heap (replicate 16 None)) m)"
  define m2 where "m2 = put_cells m1 ?b (overwrite 0 (map Some (?d @ [0])) (replicate 16 None))"
  have mal: "malloc plenty INET_ADDRSTRLEN m = (Ptr ?b 0, m1)"
    by (simp add: m1_def malloc_def plenty_def INET_ADDRSTRLEN_def PTRDIFF_MAX_def new_block_def)
  have "has_bytes m1 addr (fam @ port @ ip @ rest)"
    unfolding m1_def by (rule has_bytes_ext [OF wf mem_ext_new h])
  then have ld: "load_bytes m1 (padd addr 4) 4 = Inr ip"
    using load_bytes_has [of m1 addr _ 4 4] len by (simp add: window_def)
  have b1: "bytes_at m1 ?b = Some (replicate 16 None)" by (simp add: m1_def bytes_at_def new_block_def)
  have dl: "length (?d @ [0]) \<le> 16" using length_dotted [OF len(3)] by simp
  have st: "store_bytes m1 (Ptr ?b 0) (?d @ [0]) = Inr m2"
    using write_cells_put [OF b1, of 0 "map Some (?d @ [0])" "replicate 16 None"] dl put_cells_same [OF b1]
    by (simp add: store_bytes_def m2_def del: write_cells.simps)
  have "has_bytes m2 (Ptr ?b 0) (?d @ [0])"
    using has_bytes_put_overwrite [OF b1, of 0 "?d @ [0]" "[]" "replicate 16 None"] dl
    by (simp add: m2_def del: has_bytes.simps)
  moreover have "blocks m2 x = blocks m x" if "x < ?b" for x
    using that by (simp add: m2_def m1_def blocks_put_cells_other new_block_def)
  moreover have "wf_mem m2" "nextb m2 = Suc ?b"
    using wf wf_mem_new by (simp_all add: m2_def m1_def put_cells_def new_block_def wf_mem_def)
  ultimately show ?thesis using mal ld st by blast
qed

text \<open>The map does not notice that a foreign block is overwritten.\<close>

lemma layout_overwritten:
  assumes "layout s L" and "bytes_at (memory s) c = Some cs" and "c \<notin> set (val_blocks L)"
    and "wf_mem m" and "\<And>x. x \<noteq> c \<Longrightarrow> blocks m x = blocks (memory s) x"
  shows "layout (s\<lparr>memory := m\<rparr>) L"
proof (rule layout_memory [OF assms(1,4)])
  fix r b assume r: "r \<in> set L" "b \<in> row_blocks r"
  have "b \<noteq> c" using layout_foreign [OF assms(1-3) r(1)] r(2) by metis
  then show "blocks m b = blocks (memory s) b" by (rule assms(5))
qed

text \<open>A call to the kernel leaves the map alone.\<close>

lemma layout_syscall:
  assumes "layout s L"
  shows "layout (snd (syscall kern c s)) L"
proof -
  have e: "entries (snd (syscall kern c s)) = entries s" "slots (snd (syscall kern c s)) = slots s"
    by (simp_all add: syscall_def Let_def)
  have "row_ok (snd (syscall kern c s)) r" if r: "r \<in> set L" for r
  proof (rule row_ok_frame)
    show "row_ok s r" using assms r by (simp add: layout_def)
  qed (simp_all add: e)
  then show ?thesis using assms by (simp add: layout_def e)
qed

text \<open>The new value of the descriptor, when the map does not own the string.\<close>

lemma set_address:
  assumes L: "layout s L" and k: "map_of (abs_rows L) f = Some (Some old)"
    and m: "wf_mem m" "nextb m = Suc (nextb (memory s))" "\<forall>x < nextb (memory s). blocks m x = blocks (memory s) x"
    and h: "has_bytes m (Ptr (nextb (memory s)) 0) (d @ [0])" "0 \<notin> set d" "length d < PTRDIFF_MAX"
  shows "\<exists>s' L'. map_set plenty f (Ptr (nextb (memory s)) 0) (s\<lparr>memory := m\<rparr>) = Inr s' \<and> layout s' L' \<and>
    abs_rows L' = AList.update f (Some d) (abs_rows L) \<and> map_frame (s\<lparr>memory := m\<rparr>) L s' L' \<and>
    nextb (memory s) \<notin> set (val_blocks L)"
proof -
  have "layout (s\<lparr>memory := m\<rparr>) L"
    by (rule layout_memory [OF L m(1)]) (use m(3) layout_less [OF L] in blast)
  moreover have b: "nextb (memory s) \<notin> set (val_blocks L)"
    using layout_less [OF L] by (fastforce simp: val_blocks_in row_blocks_def)
  moreover have "value_arg (s\<lparr>memory := m\<rparr>) L (Ptr (nextb (memory s)) 0) (Some d)"
    using h b by (simp add: value_arg_def ptr_blocks_def del: has_bytes.simps)
  moreover have "aset f (Some d) (abs_rows L) = AList.update f (Some d) (abs_rows L)" using k by (simp add: aset_def)
  ultimately show ?thesis using map_set_ok by metis
qed

section \<open>What the interposer relies on\<close>

text \<open>A new MPTCP socket is tracked, with the empty string, if the map has room for it.\<close>

lemma lib_socket_tracks:
  assumes L: "layout s L" and new: "map_of (abs_rows L) f = None" "length L < MAP_SIZE"
    and k: "ret (kern (trace s) (Socket d t IPPROTO_MPTCP)) = f"
    and e: "has_bytes (memory s) e [0]" "ptr_blocks e \<inter> set (val_blocks L) = {}"
  shows "\<exists>s' L' q. lib_socket plenty kern e d t IPPROTO_MPTCP s = Inr (f, s') \<and> layout s' L' \<and>
    map_get f s' = Inr q \<and> string_at s' q (Some [])"
proof -
  define st where "st = snd (syscall kern (Socket d t IPPROTO_MPTCP) s)"
  have "layout st L" unfolding st_def by (rule layout_syscall [OF L])
  moreover have "value_arg st L e (Some [])" using e by (simp add: st_def value_arg_def PTRDIFF_MAX_def)
  moreover have "case map_of (abs_rows L) f of None \<Rightarrow> length (abs_rows L) < MAP_SIZE | Some v \<Rightarrow> v \<noteq> None"
    using new by (simp add: abs_rows_def)
  ultimately obtain s' L' q where "map_set plenty f e st = Inr s'" "layout s' L'" "map_get f s' = Inr q" "string_at s' q (Some [])"
    using maps.set_get by blast
  moreover have "syscall kern (Socket d t IPPROTO_MPTCP) s = (f, st)"
    using k by (simp add: st_def syscall_def answer_def Let_def)
  ultimately show ?thesis by (auto simp: lib_socket_def)
qed

section \<open>Properties\<close>

text \<open>
  C31. On a tracked descriptor \<open>connect\<close> sends the text of the destination's IPv4 address to
  the converter with one \<open>sendto\<close>, stores it in the map, and overwrites the application's own
  \<open>struct sockaddr\<close>, which is declared constant, with the converter's address and port.
\<close>

theorem lib_connect_redirects:
  assumes L: "layout s L" and k: "map_of (abs_rows L) f = Some (Some old)"
    and a: "has_bytes (memory s) addr (fam @ port @ ip @ rest)" "ptr_blocks addr \<inter> set (val_blocks L) = {}"
    and len: "length fam = 2" "length port = 2" "length ip = 4"
  shows "\<exists>s' L'. lib_connect plenty kern f addr n s =
      Inr (if ret (kern (trace s) (Sendto f (dotted ip) MSG_FASTOPEN addr n)) < 0 then -1 else 0, s') \<and>
    trace s' = Sendto f (dotted ip) MSG_FASTOPEN addr n # trace s \<and>
    has_bytes (memory s') addr (fam @ le16 (htons TC_PORT) @ TC_ADDR @ rest) \<and>
    layout s' L' \<and> abs_rows L' = AList.update f (Some (dotted ip)) (abs_rows L)"
proof -
  let ?d = "dotted ip" and ?b = "nextb (memory s)"
  have wf: "wf_mem (memory s)" using L by (simp add: layout_def)
  obtain c i cs where addr: "addr = Ptr c i" and cs: "bytes_at (memory s) c = Some cs"
    using a(1) len by (cases addr) (auto split: option.splits)
  have c: "c < ?b" using cs wf by (auto simp: bytes_at_def bind_eq_Some_conv intro: wf_mem_less)
  obtain p where p: "map_get f s = Inr p" "p \<noteq> Null" using map_get_ok [OF L, of f] k by auto
  obtain m1 m2 where m: "malloc plenty INET_ADDRSTRLEN (memory s) = (Ptr ?b 0, m1)" "load_bytes m1 (padd addr 4) 4 = Inr ip"
    "store_bytes m1 (Ptr ?b 0) (?d @ [0]) = Inr m2" and h2: "has_bytes m2 (Ptr ?b 0) (?d @ [0])"
    and m2: "\<forall>x < ?b. blocks m2 x = blocks (memory s) x" "wf_mem m2" "nextb m2 = Suc ?b"
    using print_address [OF wf a(1) len] by blast
  have "length ?d < PTRDIFF_MAX" using length_dotted [OF len(3)] by (simp add: PTRDIFF_MAX_def)
  then obtain s3 L3 where s3: "map_set plenty f (Ptr ?b 0) (s\<lparr>memory := m2\<rparr>) = Inr s3" "layout s3 L3"
    "abs_rows L3 = AList.update f (Some ?d) (abs_rows L)" "map_frame (s\<lparr>memory := m2\<rparr>) L s3 L3" "?b \<notin> set (val_blocks L)"
    using set_address [OF L k m2(2,3,1) h2 zero_not_in_dotted] by blast
  have keep: "blocks (memory s3) ?b = blocks m2 ?b" "blocks (memory s3) c = blocks (memory s) c"
    and cL: "c \<notin> set (val_blocks L3)"
    using s3(4,5) m2 a(2) c addr by (auto simp: map_frame_def ptr_blocks_def)
  have h3: "has_bytes (memory s3) (Ptr ?b 0) (?d @ [0])" using h2 keep by (simp add: bytes_at_def)
  have a3: "has_bytes (memory s3) addr (fam @ port @ ip @ rest)" using a(1) keep by (simp add: addr bytes_at_def)
  obtain m4 m5 where w: "store_bytes (memory s3) (padd addr 4) TC_ADDR = Inr m4"
    "store_bytes m4 (padd addr 2) (le16 (htons TC_PORT)) = Inr m5"
    "has_bytes m5 addr (fam @ le16 (htons TC_PORT) @ TC_ADDR @ rest)"
    "\<And>x. x \<noteq> c \<Longrightarrow> blocks m5 x = blocks (memory s3) x" "wf_mem m5"
    using write_sockaddr [OF a3 len, of TC_ADDR "le16 (htons TC_PORT)"] s3(2) addr
    by (auto simp: TC_ADDR_def ptr_blocks_def layout_def)
  have "has_bytes m5 (Ptr ?b 0) (?d @ [0])" using h3 w(4) c by (simp add: bytes_at_def)
  then have l5: "load_bytes m5 (Ptr ?b 0) (length ?d) = Inr ?d"
    using load_bytes_has [of m5 "Ptr ?b 0" _ 0 "length ?d"] by (simp add: window_def)
  have L5: "layout (s3\<lparr>memory := m5\<rparr>) L3"
    using layout_overwritten [OF s3(2) _ cL w(5,4)] cs keep by (simp add: bytes_at_def)
  let ?c = "Sendto f ?d MSG_FASTOPEN addr n"
  define s' where "s' = snd (syscall kern ?c (s3\<lparr>memory := m5\<rparr>))"
  have tr: "trace s3 = trace s" using s3(4) by (simp add: map_frame_def)
  then have "syscall kern ?c (s3\<lparr>memory := m5\<rparr>) = (ret (kern (trace s) ?c), s')"
    by (simp add: s'_def syscall_def answer_def Let_def)
  then have "lib_connect plenty kern f addr n s = Inr (if ret (kern (trace s) ?c) < 0 then -1 else 0, s')"
    using p m s3(1) strlen_has [OF h3 zero_not_in_dotted] w(1,2) l5
    by (simp add: lib_connect_def del: strlen.simps)
  moreover have "layout s' L3" unfolding s'_def by (rule layout_syscall [OF L5])
  moreover have "trace s' = ?c # trace s" "memory s' = m5" using tr by (simp_all add: s'_def)
  ultimately show ?thesis using s3(3) w(3) by (intro exI [of _ s'] exI [of _ L3]) simp
qed

text \<open>
  A process whose memory holds the literal and, behind it, the address 10.0.0.2:80 of an
  application.
\<close>

definition sample_process :: mapstate where
  "sample_process = empty_map\<lparr>memory := mem_of [0, 2, 0, 0, 80, 10, 0, 0, 2]\<rparr>"

lemma sample_socket:
  "\<exists>(s :: mapstate) L. lib_socket plenty (\<lambda>h c. \<lparr>ret = 3, data = [], err = 0\<rparr>) (Ptr 0 0) AF_INET SOCK_STREAM IPPROTO_MPTCP sample_process = Inr (3, s) \<and>
     layout s L \<and> abs_rows L = [(3, Some [])] \<and> blocks (memory s) 0 = blocks (memory sample_process) 0 \<and> 0 \<notin> set (val_blocks L)"
proof -
  let ?s = "sample_process\<lparr>trace := [Socket AF_INET SOCK_STREAM IPPROTO_MPTCP]\<rparr>"
  have L: "layout ?s []" using layout_empty by (simp add: layout_def sample_process_def)
  have v: "value_arg ?s [] (Ptr 0 0) (Some [])"
    by (simp add: value_arg_def sample_process_def PTRDIFF_MAX_def val_blocks_def window_def)
  obtain s L' where s: "map_set plenty 3 (Ptr 0 0) ?s = Inr s" "layout s L'" "abs_rows L' = aset 3 (Some []) (abs_rows [])"
    "map_frame ?s [] s L'"
    using map_set_ok [OF L v] by blast
  have "aset 3 (Some []) (abs_rows []) = [(3, Some [])]" by (simp add: aset_def abs_rows_def MAP_SIZE_def)
  moreover have "blocks (memory s) 0 = blocks (memory sample_process) 0" "0 \<notin> set (val_blocks L')"
    using s(4) by (auto simp: map_frame_def val_blocks_def [of "[]"] sample_process_def mem_of_def)
  moreover have "errno sample_process = 0" by (simp add: sample_process_def empty_map_def)
  then have "syscall (\<lambda>h c. \<lparr>ret = 3, data = [], err = 0\<rparr>) (Socket AF_INET SOCK_STREAM IPPROTO_MPTCP) sample_process = (3, ?s)"
    by (simp add: syscall_def answer_def sample_process_def empty_map_def)
  ultimately show ?thesis using s by (auto simp: lib_socket_def)
qed

lemma lib_connect_redirects_witness:
  "\<exists>(s :: mapstate) s'. lib_connect plenty (\<lambda>h c. \<lparr>ret = 3, data = [], err = 0\<rparr>) 3 (Ptr 0 1) 8 s = Inr (0, s') \<and>
     trace s' = Sendto 3 (lit ''10.0.0.2'') MSG_FASTOPEN (Ptr 0 1) 8 # trace s \<and>
     has_bytes (memory s') (Ptr 0 1) [2, 0, 31, 144, 192, 168, 56, 107]"
proof -
  obtain s :: mapstate and L where s: "layout s L" "abs_rows L = [(3, Some [])]" "blocks (memory s) 0 = blocks (memory sample_process) 0"
    "0 \<notin> set (val_blocks L)" using sample_socket by blast
  have h: "has_bytes (memory s) (Ptr 0 1) ([2, 0] @ [0, 80] @ [10, 0, 0, 2] @ [])"
    using s(3) by (simp add: bytes_at_def sample_process_def mem_of_def window_def)
  have k: "map_of (abs_rows L) 3 = Some (Some [])" using s(2) by simp
  have d: "dotted [10, 0, 0, 2] = lit ''10.0.0.2''"
    by (simp add: lit_def dec.simps)
  have p: "le16 (htons TC_PORT) = [31, 144]" by (simp add: TC_PORT_def le16_def htons_def)
  obtain s' where "lib_connect plenty (\<lambda>h c. \<lparr>ret = 3, data = [], err = 0\<rparr>) 3 (Ptr 0 1) 8 s = Inr (0, s')"
    "trace s' = Sendto 3 (lit ''10.0.0.2'') MSG_FASTOPEN (Ptr 0 1) 8 # trace s"
    "has_bytes (memory s') (Ptr 0 1) [2, 0, 31, 144, 192, 168, 56, 107]"
    using lib_connect_redirects [OF s(1) k h, of "\<lambda>h c. \<lparr>ret = 3, data = [], err = 0\<rparr>" 8] s(4) p
    unfolding d by (auto simp: ptr_blocks_def TC_ADDR_def simp del: has_bytes.simps dotted.simps)
  then show ?thesis by blast
qed

end
