(* ===== verification/MptcpClient.thy ===== *)
theory MptcpClient
  imports Kernel CText
begin

text \<open>
  The measuring client \<open>5GTC/evaluation/mptcp_client.c\<close>: its command line, the connection and
  the three messages at its start, and the loop that reads or writes until the requested
  number of bytes was moved. The loop may run forever, so its result is an option. What is
  printed is modelled where it is built in a buffer of its own, of 100 bytes.
\<close>

section \<open>Settings and state\<close>

definition BUFFER_SIZE :: int where "BUFFER_SIZE = 100000"

definition UPLINK_CLIENT :: int where "UPLINK_CLIENT = 0"

definition DOWNLINK_CLIENT :: int where "DOWNLINK_CLIENT = 1"

definition ECHO_CLIENT :: int where "ECHO_CLIENT = 2"

definition MAGIC_NUMBER :: int where "MAGIC_NUMBER = 0x7F"

record settings =
  CLIENT_TYPE :: int
  DOWNLOAD_SIZE :: int
  UPLOAD_SIZE :: int
  buffer_size :: int

definition default_settings :: settings where
  "default_settings = \<lparr>CLIENT_TYPE = ECHO_CLIENT, DOWNLOAD_SIZE = -1, UPLOAD_SIZE = -1, buffer_size = BUFFER_SIZE\<rparr>"

record mclient = sys +
  LOOP :: bool
  BYTES_READ :: int
  BYTES_WRITTEN :: int

text \<open>
  What is outside of the program: the kernel, the allocator, \<open>inet_addr\<close>, the text that
  \<open>%f\<close> makes of the elapsed time, the values of \<open>rand\<close>, and whether an interrupt has been
  delivered since the last test of \<open>LOOP\<close>, the last three by the calls made so far.
\<close>

record world =
  kernel :: kern
  mallocs :: alloc
  inet_addr :: "byte list \<Rightarrow> u32"
  elapsed :: "call list \<Rightarrow> byte list"
  rand :: "call list \<Rightarrow> nat \<Rightarrow> int"
  sigint :: "call list \<Rightarrow> bool"

definition is_reader :: "settings \<Rightarrow> bool" where
  "is_reader c \<longleftrightarrow> CLIENT_TYPE c = DOWNLINK_CLIENT \<or> CLIENT_TYPE c = ECHO_CLIENT"

definition is_writer :: "settings \<Rightarrow> bool" where
  "is_writer c \<longleftrightarrow> CLIENT_TYPE c = UPLINK_CLIENT \<or> CLIENT_TYPE c = ECHO_CLIENT"

section \<open>The command line\<close>

text \<open>\<open>atoi\<close> is \<open>strtol\<close> with its result cut to an \<open>int\<close>; a word of \<open>argv\<close> ends with a zero.\<close>

definition atoi :: "byte list \<Rightarrow> fault + int" where
  "atoi a = bindE (strtol (map Some a @ [Some 0])) (\<lambda>(v, _). Inr (to_int v))"

text \<open>The loop over \<open>argv\<close> from the fifth word on; behind the last word there is a null pointer.\<close>

fun parse_options :: "byte list list \<Rightarrow> settings \<Rightarrow> fault + settings" where
  "parse_options [] c = Inr c"
| "parse_options (a # as) c =
     (if a = lit ''--uplink'' then parse_options as (c\<lparr>CLIENT_TYPE := UPLINK_CLIENT\<rparr>)
      else if a = lit ''--downlink'' then parse_options as (c\<lparr>CLIENT_TYPE := DOWNLINK_CLIENT\<rparr>)
      else if a = lit ''--download-size'' then
        (case as of [] \<Rightarrow> Inl NullDeref
         | v # as \<Rightarrow> bindE (atoi v) (\<lambda>n. parse_options as (c\<lparr>DOWNLOAD_SIZE := n\<rparr>)))
      else if a = lit ''--upload-size'' then
        (case as of [] \<Rightarrow> Inl NullDeref
         | v # as \<Rightarrow> bindE (atoi v) (\<lambda>n. parse_options as (c\<lparr>UPLOAD_SIZE := n\<rparr>)))
      else bindE (atoi a) (\<lambda>n. parse_options as (c\<lparr>buffer_size := n\<rparr>)))"

section \<open>Messages\<close>

text \<open>The 20 bytes that \<open>log_color\<close> allocates are lost when the pointer is set to a literal.\<close>

definition log_color :: "world \<Rightarrow> 'z sys_scheme \<Rightarrow> 'z sys_scheme" where
  "log_color w s = s\<lparr>memory := snd (malloc (mallocs w) 20 (memory s))\<rparr>"

definition sprintf_msg :: "world \<Rightarrow> byte list \<Rightarrow> 'z sys_scheme \<Rightarrow> fault + ptr \<times> 'z sys_scheme" where
  "sprintf_msg w text s =
     (let (msg, m) = malloc (mallocs w) 100 (memory s) in
      bindE (store_bytes m msg (text @ [0])) (\<lambda>m. Inr (msg, s\<lparr>memory := m\<rparr>)))"

definition free_ptr :: "ptr \<Rightarrow> 'z sys_scheme \<Rightarrow> fault + 'z sys_scheme" where
  "free_ptr p s = bindE (free p (memory s)) (\<lambda>m. Inr (s\<lparr>memory := m\<rparr>))"

definition message :: "world \<Rightarrow> byte list \<Rightarrow> 'z sys_scheme \<Rightarrow> fault + 'z sys_scheme" where
  "message w text s = bindE (sprintf_msg w text s) (\<lambda>(msg, s). free_ptr msg (log_color w s))"

definition sigint_handler :: "world \<Rightarrow> int \<Rightarrow> 'z mclient_scheme \<Rightarrow> fault + 'z mclient_scheme" where
  "sigint_handler w sig s =
     bindE (message w (lit ''Keyboard interrupt signal '' @ dec_int sig @ lit '' received, exiting...'') s) (\<lambda>s.
     Inr (s\<lparr>LOOP := False\<rparr>))"

section \<open>The connection\<close>

text \<open>A step of \<open>main\<close> that may end the program: \<open>Done\<close> with its status.\<close>

datatype 'a outcome = Done int | Go 'a

definition names_text :: "settings \<Rightarrow> byte list \<Rightarrow> byte list \<Rightarrow> int \<Rightarrow> byte list" where
  "names_text c local_ip server_ip server_port =
     lit ''Local IP: '' @ local_ip @ lit '', Server IP: '' @ server_ip @ lit '', Server Port: '' @
     dec_int server_port @ lit '', Buffer Size: '' @ dec_int (buffer_size c)"

definition sizes_text :: "settings \<Rightarrow> byte list" where
  "sizes_text c = lit ''Client type: '' @ dec_int (CLIENT_TYPE c) @ lit '', Download size: '' @
     dec_int (DOWNLOAD_SIZE c) @ lit '', Upload size: '' @ dec_int (UPLOAD_SIZE c)"

definition connected_text :: "byte list \<Rightarrow> int \<Rightarrow> byte list" where
  "connected_text server_ip server_port = lit ''Connected to server '' @ server_ip @ lit '':'' @ dec_int server_port"

definition connect_server ::
  "world \<Rightarrow> settings \<Rightarrow> byte list \<Rightarrow> byte list \<Rightarrow> int \<Rightarrow> 'z sys_scheme \<Rightarrow> fault + int outcome \<times> 'z sys_scheme"
where
  "connect_server w c local_ip server_ip server_port s =
     bindE (message w (names_text c local_ip server_ip server_port) (log_color w s)) (\<lambda>s.
     bindE (sprintf_msg w (sizes_text c) s) (\<lambda>(msg2, s).
     bindE (free_ptr msg2 s) (\<lambda>s.
     let (sockfd, s) = syscall (kernel w) (Socket AF_INET SOCK_STREAM IPPROTO_MPTCP) (log_color w s) in
     if sockfd < 0 then Inr (Done (-1), log_color w s)
     else let (rc, s) = syscall (kernel w) (Bind sockfd (Sockaddr_in 0 (inet_addr w local_ip))) s in
       if rc < 0 then Inr (Done 1, log_color w s)
       else let (rc, s) = syscall (kernel w)
              (Connect sockfd (Sockaddr_in (htons (word_of_int server_port)) (inet_addr w server_ip))) s in
         if rc < 0 then Inr (Done (-1), log_color w s)
         else bindE (message w (connected_text server_ip server_port) s)
           (\<lambda>s. Inr (Go sockfd, s)))))"

text \<open>One value, copied to a block of its size, sent, and the block freed.\<close>

definition send_value :: "world \<Rightarrow> int \<Rightarrow> byte list \<Rightarrow> 'z sys_scheme \<Rightarrow> fault + unit outcome \<times> 'z sys_scheme" where
  "send_value w sockfd bs s =
     (let n = length bs; (p, m) = malloc (mallocs w) n (memory s) in
      bindE (memset m p 0 n) (\<lambda>m.
      bindE (store_bytes m p bs) (\<lambda>m.
      bindE (load_bytes m p n) (\<lambda>out.
      let (rc, s) = syscall (kernel w) (Write sockfd out) (s\<lparr>memory := m\<rparr>) in
      if rc < 0 then Inr (Done (-1), log_color w s)
      else bindE (free_ptr p s) (\<lambda>s. Inr (Go (), s))))))"

fun send_values :: "world \<Rightarrow> int \<Rightarrow> byte list list \<Rightarrow> 'z sys_scheme \<Rightarrow> fault + unit outcome \<times> 'z sys_scheme" where
  "send_values w sockfd [] s = Inr (Go (), s)"
| "send_values w sockfd (bs # bss) s =
     bindE (send_value w sockfd bs s) (\<lambda>(r, s).
     case r of Done rc \<Rightarrow> Inr (Done rc, s) | Go _ \<Rightarrow> send_values w sockfd bss s)"

definition greeting :: "settings \<Rightarrow> byte list list" where
  "greeting c = [[word_of_int MAGIC_NUMBER], [word_of_int (CLIENT_TYPE c)], le32 (word_of_int (buffer_size c))]"

section \<open>The transfer\<close>

text \<open>An \<open>int\<close> converted to \<open>size_t\<close>.\<close>

definition int_size :: "int \<Rightarrow> size_t" where
  "int_size v = word_of_int v"

definition add_int :: "int \<Rightarrow> int \<Rightarrow> fault + int" where
  "add_int a b = (if - (2 ^ 31) \<le> a + b \<and> a + b < 2 ^ 31 then Inr (a + b) else Inl SignedOverflow)"

text \<open>How a part of the loop body ends: \<open>continue\<close>, \<open>break\<close>, \<open>return\<close>, or with what follows it.\<close>

datatype jump = Continue | Break | Return int | Fall_through

definition clear_buffer :: "settings \<Rightarrow> ptr \<Rightarrow> 'z sys_scheme \<Rightarrow> fault + 'z sys_scheme" where
  "clear_buffer c buffer s =
     bindE (memset (memory s) buffer 0 (unat (int_size (buffer_size c)))) (\<lambda>m. Inr (s\<lparr>memory := m\<rparr>))"

text \<open>A text like \<open>Time to download 5 bytes: 0.1\<close>, after a line without numbers.\<close>

definition report_time :: "world \<Rightarrow> byte list \<Rightarrow> 'z sys_scheme \<Rightarrow> fault + 'z sys_scheme" where
  "report_time w what s = (let s = log_color w s in message w (what @ lit '': '' @ elapsed w (trace s)) s)"

definition read_part ::
  "world \<Rightarrow> settings \<Rightarrow> int \<Rightarrow> ptr \<Rightarrow> 'z mclient_scheme \<Rightarrow> fault + jump \<times> 'z mclient_scheme"
where
  "read_part w c sockfd buffer s =
     bindE (sys_read (kernel w) sockfd buffer (int_size (buffer_size c)) s) (\<lambda>(rc, s).
     let bytes_read = to_int rc in
     if bytes_read < 0 then Inr (Return (-1), log_color w s)
     else bindE (load8 (memory s) buffer) (\<lambda>first.
       if sint first = MAGIC_NUMBER
       then bindE (report_time w (lit ''Time to receive magic number'') s) (\<lambda>s.
         bindE (clear_buffer c buffer s) (\<lambda>s. Inr (Continue, s)))
       else bindE (add_int (BYTES_READ s) bytes_read) (\<lambda>n.
         let s = s\<lparr>BYTES_READ := n\<rparr> in
         if DOWNLOAD_SIZE c \<noteq> -1 \<and> DOWNLOAD_SIZE c \<le> n
         then bindE (report_time w (lit ''Time to download '' @ dec_int n @ lit '' bytes'') s) (\<lambda>s. Inr (Break, s))
         else if CLIENT_TYPE c = DOWNLINK_CLIENT
         then bindE (clear_buffer c buffer s) (\<lambda>s. Inr (Continue, s))
         else Inr (Fall_through, s))))"

text \<open>\<open>buffer[i] = rand() % 256\<close> for the next \<open>n\<close> indexes from \<open>i\<close> on; the remainder has the sign of \<open>rand\<close>, which is not negative.\<close>

fun fill_random :: "(nat \<Rightarrow> int) \<Rightarrow> ptr \<Rightarrow> nat \<Rightarrow> nat \<Rightarrow> mem \<Rightarrow> fault + mem" where
  "fill_random rnd buffer i 0 m = Inr m"
| "fill_random rnd buffer i (Suc n) m =
     bindE (store_bytes m (padd buffer i) [word_of_int (rnd i mod 256)]) (fill_random rnd buffer (Suc i) n)"

definition write_part ::
  "world \<Rightarrow> settings \<Rightarrow> int \<Rightarrow> ptr \<Rightarrow> 'z mclient_scheme \<Rightarrow> fault + jump \<times> 'z mclient_scheme"
where
  "write_part w c sockfd buffer s =
     bindE (if CLIENT_TYPE c \<noteq> ECHO_CLIENT
            then fill_random (rand w (trace s)) buffer 0 (nat (buffer_size c)) (memory s)
            else Inr (memory s)) (\<lambda>m.
     bindE (load_bytes m buffer (unat (int_size (buffer_size c)))) (\<lambda>out.
     let (rc, s) = syscall (kernel w) (Write sockfd out) (s\<lparr>memory := m\<rparr>);
         bytes_written = to_int rc in
     if bytes_written < 0 then Inr (Return (-1), log_color w s)
     else bindE (add_int (BYTES_WRITTEN s) bytes_written) (\<lambda>n.
       let s = s\<lparr>BYTES_WRITTEN := n\<rparr> in
       if UPLOAD_SIZE c \<noteq> -1 \<and> UPLOAD_SIZE c \<le> n
       then bindE (report_time w (lit ''Time to upload '' @ dec_int n @ lit '' bytes'') s) (\<lambda>s. Inr (Break, s))
       else bindE (clear_buffer c buffer s) (\<lambda>s. Inr (Fall_through, s)))))"

definition transfer_step ::
  "world \<Rightarrow> settings \<Rightarrow> int \<Rightarrow> ptr \<Rightarrow> 'z mclient_scheme \<Rightarrow> fault + jump \<times> 'z mclient_scheme"
where
  "transfer_step w c sockfd buffer s =
     bindE (clear_buffer c buffer s) (\<lambda>s.
     bindE (if is_reader c then read_part w c sockfd buffer s else Inr (Fall_through, s)) (\<lambda>(j, s).
     if j = Fall_through \<and> is_writer c then write_part w c sockfd buffer s else Inr (j, s)))"

text \<open>An interrupt takes effect at the next test of \<open>LOOP\<close>.\<close>

definition deliver :: "world \<Rightarrow> 'z mclient_scheme \<Rightarrow> fault + 'z mclient_scheme" where
  "deliver w s = (if sigint w (trace s) then sigint_handler w 2 s else Inr s)"

text \<open>The result is the status if the loop is left by \<open>return\<close>.\<close>

partial_function (option) transfer ::
  "world \<Rightarrow> settings \<Rightarrow> int \<Rightarrow> ptr \<Rightarrow> 'z mclient_scheme \<Rightarrow> (fault + int option \<times> 'z mclient_scheme) option"
where
  "transfer w c sockfd buffer s =
     (case deliver w s of
        Inl f \<Rightarrow> Some (Inl f)
      | Inr s \<Rightarrow>
          if \<not> LOOP s then Some (Inr (None, s))
          else case transfer_step w c sockfd buffer s of
            Inl f \<Rightarrow> Some (Inl f)
          | Inr (j, s) \<Rightarrow> (case j of
              Break \<Rightarrow> Some (Inr (None, s))
            | Return rc \<Rightarrow> Some (Inr (Some rc, s))
            | _ \<Rightarrow> transfer w c sockfd buffer s))"

section \<open>The reports\<close>

text \<open>
  The thread \<open>log_metrics\<close> reads each counter twice in a round, for the report and for the
  value that it remembers; the other thread may run in between. A sample holds what it sees.
\<close>

record sample =
  read_shown :: int
  read_kept :: int
  written_shown :: int
  written_kept :: int

text \<open>One report into the block \<open>msg\<close>.\<close>

definition report :: "world \<Rightarrow> ptr \<Rightarrow> byte list \<Rightarrow> 'z sys_scheme \<Rightarrow> fault + 'z sys_scheme" where
  "report w msg text s =
     bindE (memset (memory s) msg 0 100) (\<lambda>m.
     bindE (store_bytes m msg (text @ [0])) (\<lambda>m. Inr (log_color w (s\<lparr>memory := m\<rparr>))))"

definition metrics_round ::
  "world \<Rightarrow> settings \<Rightarrow> sample \<Rightarrow> (byte list list \<times> int \<times> int) \<times> 'z sys_scheme \<Rightarrow>
   fault + (byte list list \<times> int \<times> int) \<times> 'z sys_scheme"
where
  "metrics_round w c x = (\<lambda>((texts, last_read, last_written), s).
     let (msg, m) = malloc (mallocs w) 100 (memory s); s = s\<lparr>memory := m\<rparr> in
     bindE (if is_reader c
            then (let text = lit ''Read '' @ dec_int (read_shown x - last_read) @ lit '' bytes from server in last 1 seconds'' in
              bindE (report w msg text s) (\<lambda>s. Inr (texts @ [text], read_kept x, s)))
            else Inr (texts, last_read, s)) (\<lambda>(texts, last_read, s).
     bindE (if is_writer c
            then (let text = lit ''Wrote '' @ dec_int (written_shown x - last_written) @ lit '' bytes to server in last 1 seconds'' in
              bindE (report w msg text s) (\<lambda>s. Inr (texts @ [text], written_kept x, s)))
            else Inr (texts, last_written, s)) (\<lambda>(texts, last_written, s).
     bindE (free_ptr msg s) (\<lambda>s. Inr ((texts, last_read, last_written), s)))))"

text \<open>One sample for each round in which \<open>LOOP\<close> was still set.\<close>

fun log_metrics ::
  "world \<Rightarrow> settings \<Rightarrow> sample list \<Rightarrow> (byte list list \<times> int \<times> int) \<times> 'z sys_scheme \<Rightarrow>
   fault + (byte list list \<times> int \<times> int) \<times> 'z sys_scheme"
where
  "log_metrics w c [] st = Inr st"
| "log_metrics w c (x # xs) st = bindE (metrics_round w c x st) (log_metrics w c xs)"

section \<open>The program\<close>

definition run_transfer :: "world \<Rightarrow> settings \<Rightarrow> int \<Rightarrow> 'z mclient_scheme \<Rightarrow> (int \<times> 'z mclient_scheme) run" where
  "run_transfer w c sockfd s =
     (let (buffer, m) = malloc (mallocs w) (unat (int_size (buffer_size c))) (memory s) in
      bindR (transfer w c sockfd buffer (s\<lparr>memory := m\<rparr>)) (\<lambda>(r, s).
      case r of
        Some rc \<Rightarrow> return (rc, s)
      | None \<Rightarrow>
          bindR (Some (free_ptr buffer s)) (\<lambda>s.
          let (_, s) = syscall (kernel w) (Close sockfd) ((log_color w s)\<lparr>LOOP := False\<rparr>) in
          return (0, s))))"

definition client_main :: "world \<Rightarrow> byte list list \<Rightarrow> 'z mclient_scheme \<Rightarrow> (int \<times> 'z mclient_scheme) run" where
  "client_main w argv s =
     (if length argv < 4 then return (-1, s)
      else bindR (Some (atoi (argv ! 3))) (\<lambda>server_port.
        bindR (Some (parse_options (drop 4 argv) default_settings)) (\<lambda>c.
        bindR (Some (connect_server w c (argv ! 1) (argv ! 2) server_port s)) (\<lambda>(r, s).
        case r of
          Done rc \<Rightarrow> return (rc, s)
        | Go sockfd \<Rightarrow>
            bindR (Some (send_values w sockfd (greeting c) s)) (\<lambda>(r, s).
            case r of Done rc \<Rightarrow> return (rc, s) | Go _ \<Rightarrow> run_transfer w c sockfd s)))))"

section \<open>Numbers on the command line\<close>

lemma skip_space_total: "\<exists>i \<le> length a. skip_space (map Some a @ [Some 0]) = Inr i"
proof (induction a)
  case Nil
  show ?case by (simp add: isspace_def)
next
  case (Cons b a)
  then show ?case by (auto intro: exI [of _ "Suc _"])
qed

lemma digits_total: "\<exists>w n. digits v (map Some a @ [Some 0]) = Inr (w, n)"
proof (induction a arbitrary: v)
  case Nil
  show ?case by (simp add: isdigit_def)
next
  case (Cons b a)
  show ?case using Cons.IH [of "10 * v + int (unat b - 48)"] by auto
qed

lemma strtol_total: "\<exists>v k. strtol (map Some a @ [Some 0]) = Inr (v, k)"
proof -
  obtain i where i: "i \<le> length a" "skip_space (map Some a @ [Some 0]) = Inr i" using skip_space_total by blast
  have d: "drop j (map Some a @ [Some 0]) = map Some (drop j a) @ [Some 0]" if "j \<le> length a" for j
    using that by (simp add: drop_map)
  show ?thesis
  proof (cases "drop i a")
    case Nil
    then show ?thesis using i(2) d [OF i(1)] by (auto simp: strtol_def isdigit_def)
  next
    case (Cons b r)
    define j :: nat where "j = (if b = 43 \<or> b = 45 then 1 else 0)"
    have "i < length a" using Cons by (cases "i < length a") auto
    then have "i + j \<le> length a" by (simp add: j_def)
    then obtain v k where "digits 0 (drop (i + j) (map Some a @ [Some 0])) = Inr (v, k)"
      using d [of "i + j"] digits_total [of 0 "drop (i + j) a"] by auto
    then show ?thesis using i(2) d [OF i(1)] Cons
      by (auto simp: strtol_def j_def Let_def split: if_splits)
  qed
qed

definition number :: "byte list \<Rightarrow> int" where
  "number a = (case atoi a of Inr v \<Rightarrow> v | Inl f \<Rightarrow> 0)"

lemma atoi_number: "atoi a = Inr (number a)"
  using strtol_total [of a] by (auto simp: atoi_def number_def)

lemma number_range: "- (2 ^ 31) \<le> number a" "number a < 2 ^ 31"
  using strtol_total [of a] to_int_range by (auto simp: atoi_def number_def)

section \<open>Options\<close>

datatype opt =
    Uplink | Downlink
  | Download_size "byte list" | Upload_size "byte list" | Buffer_size "byte list"

fun opt_words :: "opt \<Rightarrow> byte list list" where
  "opt_words Uplink = [lit ''--uplink'']"
| "opt_words Downlink = [lit ''--downlink'']"
| "opt_words (Download_size v) = [lit ''--download-size'', v]"
| "opt_words (Upload_size v) = [lit ''--upload-size'', v]"
| "opt_words (Buffer_size v) = [v]"

definition flag_words :: "byte list set" where
  "flag_words = {lit ''--uplink'', lit ''--downlink'', lit ''--download-size'', lit ''--upload-size''}"

fun opt_ok :: "opt \<Rightarrow> bool" where
  "opt_ok (Buffer_size v) \<longleftrightarrow> v \<notin> flag_words"
| "opt_ok x \<longleftrightarrow> True"

fun apply_opt :: "opt \<Rightarrow> settings \<Rightarrow> settings" where
  "apply_opt Uplink c = c\<lparr>CLIENT_TYPE := UPLINK_CLIENT\<rparr>"
| "apply_opt Downlink c = c\<lparr>CLIENT_TYPE := DOWNLINK_CLIENT\<rparr>"
| "apply_opt (Download_size v) c = c\<lparr>DOWNLOAD_SIZE := number v\<rparr>"
| "apply_opt (Upload_size v) c = c\<lparr>UPLOAD_SIZE := number v\<rparr>"
| "apply_opt (Buffer_size v) c = c\<lparr>buffer_size := number v\<rparr>"

lemma flags_differ:
  "lit ''--downlink'' \<noteq> lit ''--uplink''" "lit ''--download-size'' \<noteq> lit ''--uplink''"
  "lit ''--download-size'' \<noteq> lit ''--downlink''" "lit ''--upload-size'' \<noteq> lit ''--uplink''"
  "lit ''--upload-size'' \<noteq> lit ''--downlink''" "lit ''--upload-size'' \<noteq> lit ''--download-size''"
  by (simp_all add: lit_def)

lemma parse_opt:
  "opt_ok x \<Longrightarrow> parse_options (opt_words x @ as) c = parse_options as (apply_opt x c)"
  using flags_differ by (cases x) (simp_all add: atoi_number flag_words_def)

lemma parse_opts:
  "list_all opt_ok xs \<Longrightarrow>
   parse_options (concat (map opt_words xs) @ as) c = parse_options as (fold apply_opt xs c)"
  by (induction xs arbitrary: c) (simp_all add: parse_opt)

lemma parse_dangling:
  "a = lit ''--download-size'' \<or> a = lit ''--upload-size'' \<Longrightarrow> parse_options [a] c = Inl NullDeref"
  using flags_differ by auto

text \<open>Every command line is a list of options, or one with a size missing at its end.\<close>

lemma words_split:
  "\<exists>xs. list_all opt_ok xs \<and> (ws = concat (map opt_words xs) \<or>
     (\<exists>a. (a = lit ''--download-size'' \<or> a = lit ''--upload-size'') \<and> ws = concat (map opt_words xs) @ [a]))"
proof (induction ws rule: length_induct)
  case (1 ws)
  have ext: ?case if x: "opt_ok x" "ws = opt_words x @ as" "length as < length ws" for x as
  proof -
    obtain xs where "list_all opt_ok xs" "as = concat (map opt_words xs) \<or>
       (\<exists>a. (a = lit ''--download-size'' \<or> a = lit ''--upload-size'') \<and> as = concat (map opt_words xs) @ [a])"
      using 1 x(3) by blast
    then show ?thesis using x(1,2) by (intro exI [of _ "x # xs"]) auto
  qed
  show ?case
  proof (cases ws)
    case Nil
    then show ?thesis by (intro exI [of _ "[]"]) simp
  next
    case (Cons a as)
    consider "a = lit ''--uplink''" | "a = lit ''--downlink''" | "a = lit ''--download-size''"
      | "a = lit ''--upload-size''" | "a \<notin> flag_words" by (auto simp: flag_words_def)
    then show ?thesis
    proof cases
      case 1 then show ?thesis using ext [of Uplink as] Cons by simp
    next
      case 2 then show ?thesis using ext [of Downlink as] Cons by simp
    next
      case 3
      then show ?thesis using ext [of "Download_size (hd as)" "tl as"] Cons
        by (cases as) (auto intro: exI [of _ "[]"])
    next
      case 4
      then show ?thesis using ext [of "Upload_size (hd as)" "tl as"] Cons
        by (cases as) (auto intro: exI [of _ "[]"])
    next
      case 5 then show ?thesis using ext [of "Buffer_size a" as] Cons by simp
    qed
  qed
qed

text \<open>How the command line is read.\<close>

lemma parse_split:
  "\<exists>xs. list_all opt_ok xs \<and>
     (ws = concat (map opt_words xs) \<and> parse_options ws c = Inr (fold apply_opt xs c) \<or>
      (\<exists>a. (a = lit ''--download-size'' \<or> a = lit ''--upload-size'') \<and>
         ws = concat (map opt_words xs) @ [a] \<and> parse_options ws c = Inl NullDeref))"
proof -
  obtain xs where xs: "list_all opt_ok xs" and ws: "ws = concat (map opt_words xs) \<or>
     (\<exists>a. (a = lit ''--download-size'' \<or> a = lit ''--upload-size'') \<and> ws = concat (map opt_words xs) @ [a])"
    using words_split by blast
  show ?thesis
  proof (intro exI [of _ xs] conjI xs)
    show "ws = concat (map opt_words xs) \<and> parse_options ws c = Inr (fold apply_opt xs c) \<or>
      (\<exists>a. (a = lit ''--download-size'' \<or> a = lit ''--upload-size'') \<and>
         ws = concat (map opt_words xs) @ [a] \<and> parse_options ws c = Inl NullDeref)"
      using ws parse_opts [OF xs, of "[]" c] parse_opts [OF xs, of "[_]" c] parse_dangling by auto
  qed
qed

text \<open>What \<open>main\<close> keeps in variables of type \<open>int\<close>.\<close>

definition settings_ok :: "settings \<Rightarrow> bool" where
  "settings_ok c \<longleftrightarrow> CLIENT_TYPE c \<in> {UPLINK_CLIENT, DOWNLINK_CLIENT, ECHO_CLIENT} \<and>
     (\<forall>v \<in> {DOWNLOAD_SIZE c, UPLOAD_SIZE c, buffer_size c}. - (2 ^ 31) \<le> v \<and> v < 2 ^ 31)"

lemma settings_ok_apply: "settings_ok c \<Longrightarrow> settings_ok (apply_opt x c)"
  using number_range by (cases x) (auto simp: settings_ok_def)

lemma settings_ok_parse:
  assumes "settings_ok c" and "parse_options ws c = Inr c'"
  shows "settings_ok c'"
proof -
  obtain xs where "c' = fold apply_opt xs c" using parse_split [of ws c] assms(2) by auto
  moreover have "settings_ok (fold apply_opt xs c)" for xs
    using assms(1) by (induction xs arbitrary: c) (simp_all add: settings_ok_apply)
  ultimately show ?thesis by simp
qed

lemma settings_ok_default: "settings_ok default_settings"
  by (simp add: settings_ok_def default_settings_def BUFFER_SIZE_def)


text \<open>A client type other than the one at the start was asked for.\<close>

lemma type_asked:
  "CLIENT_TYPE (fold apply_opt xs c) = CLIENT_TYPE c \<or>
   CLIENT_TYPE (fold apply_opt xs c) = 0 \<and> Uplink \<in> set xs \<or> CLIENT_TYPE (fold apply_opt xs c) = 1 \<and> Downlink \<in> set xs"
proof (induction xs arbitrary: c)
  case (Cons x xs)
  show ?case using Cons.IH [of "apply_opt x c"] by (cases x) (auto simp: UPLINK_CLIENT_def DOWNLINK_CLIENT_def)
qed simp

lemma type_words:
  assumes "parse_options ws default_settings = Inr c"
  shows "CLIENT_TYPE c = 0 \<and> lit ''--uplink'' \<in> set ws \<or> CLIENT_TYPE c = 1 \<and> lit ''--downlink'' \<in> set ws \<or> CLIENT_TYPE c = 2"
proof -
  obtain xs where xs: "ws = concat (map opt_words xs)" "c = fold apply_opt xs default_settings"
    using parse_split [of ws default_settings] assms by auto
  have "lit ''--uplink'' \<in> set ws" if "Uplink \<in> set xs"
    using that xs(1) by (auto intro!: bexI [of _ Uplink])
  moreover have "lit ''--downlink'' \<in> set ws" if "Downlink \<in> set xs"
    using that xs(1) by (auto intro!: bexI [of _ Downlink])
  ultimately show ?thesis
    using type_asked [of xs default_settings] xs(2) by (auto simp: default_settings_def ECHO_CLIENT_def)
qed

section \<open>Properties of the command line\<close>

text \<open>
  C38. Every command line is read as a list of options, each of which overrides the ones in
  front of it, unless it ends with \<open>--download-size\<close> or \<open>--upload-size\<close>: then the null pointer
  behind the last word is read as a number.
\<close>

theorem options_parsed:
  "\<exists>xs. list_all opt_ok xs \<and>
     (ws = concat (map opt_words xs) \<and> parse_options ws c = Inr (fold apply_opt xs c) \<or>
      (\<exists>a. (a = lit ''--download-size'' \<or> a = lit ''--upload-size'') \<and>
         ws = concat (map opt_words xs) @ [a] \<and> parse_options ws c = Inl NullDeref))"
  by (rule parse_split)

text \<open>
  C39. Whatever the command line, the four settings are values of an \<open>int\<close>; the client is an uplink
  client only if \<open>--uplink\<close> is among the words, a downlink client only if \<open>--downlink\<close> is, and an echo
  client otherwise; and the six bytes of the greeting give its type and its buffer size back, the
  latter as a signed number. The two sizes of the transfer are not sent.
\<close>

theorem options_typed:
  assumes "parse_options ws default_settings = Inr c"
  shows "(\<forall>v \<in> {DOWNLOAD_SIZE c, UPLOAD_SIZE c, buffer_size c}. - (2 ^ 31) \<le> v \<and> v < 2 ^ 31) \<and>
    (CLIENT_TYPE c = 0 \<and> lit ''--uplink'' \<in> set ws \<or> CLIENT_TYPE c = 1 \<and> lit ''--downlink'' \<in> set ws \<or> CLIENT_TYPE c = 2) \<and>
    (\<exists>ty n. concat (greeting c) = [127, ty] @ le32 n \<and> uint ty = CLIENT_TYPE c \<and> sint n = buffer_size c)"
proof -
  have ok: "settings_ok c" by (rule settings_ok_parse [OF settings_ok_default assms])
  then have "sint (word_of_int (buffer_size c) :: u32) = buffer_size c"
    by (simp add: settings_ok_def int_word_sint signed_take_bit_int_eq_self)
  moreover have "uint (word_of_int (CLIENT_TYPE c) :: byte) = CLIENT_TYPE c"
    using ok by (auto simp: settings_ok_def UPLINK_CLIENT_def DOWNLINK_CLIENT_def ECHO_CLIENT_def)
  moreover have "concat (greeting c) = [127, word_of_int (CLIENT_TYPE c)] @ le32 (word_of_int (buffer_size c))"
    by (simp add: greeting_def MAGIC_NUMBER_def)
  moreover have "\<forall>v \<in> {DOWNLOAD_SIZE c, UPLOAD_SIZE c, buffer_size c}. - (2 ^ 31) \<le> v \<and> v < 2 ^ 31"
    using ok by (simp add: settings_ok_def)
  ultimately show ?thesis using type_words [OF assms] by blast
qed

lemma options_typed_witness:
  "parse_options [lit ''--uplink'', lit ''65536''] default_settings = Inr (default_settings\<lparr>CLIENT_TYPE := 0, buffer_size := 65536\<rparr>) \<and>
   (\<exists>ty n. concat (greeting (default_settings\<lparr>CLIENT_TYPE := 0, buffer_size := 65536\<rparr>)) = [127, ty] @ le32 n \<and>
     uint ty = 0 \<and> sint n = 65536)"
proof -
  have "parse_options [lit ''--uplink'', lit ''65536''] default_settings = Inr (default_settings\<lparr>CLIENT_TYPE := 0, buffer_size := 65536\<rparr>)"
    by code_simp
  then show ?thesis using options_typed by fastforce
qed

section \<open>Messages\<close>

lemma malloc_plenty:
  "n \<le> PTRDIFF_MAX \<Longrightarrow> malloc plenty n m = (Ptr (nextb m) 0, snd (new_block (Heap (replicate n None)) m))"
  by (simp add: malloc_def plenty_def new_block_def)

text \<open>Memory that only grew: what the blocks of a message leave of the memory before.\<close>

definition enlarged :: "'z sys_scheme \<Rightarrow> 'z sys_scheme \<Rightarrow> bool" where
  "enlarged s s' \<longleftrightarrow> (\<exists>m. s' = s\<lparr>memory := m\<rparr> \<and> mem_ext (memory s) m \<and> (wf_mem (memory s) \<longrightarrow> wf_mem m))"

lemma enlargedI: "mem_ext (memory s) m \<Longrightarrow> (wf_mem (memory s) \<Longrightarrow> wf_mem m) \<Longrightarrow> enlarged s (s\<lparr>memory := m\<rparr>)"
  by (auto simp: enlarged_def)

lemma enlargedE:
  assumes "enlarged s s'"
  obtains m where "s' = s\<lparr>memory := m\<rparr>" "mem_ext (memory s) m" "wf_mem (memory s) \<longrightarrow> wf_mem m"
  using assms unfolding enlarged_def by blast

lemma enlarged_trans:
  assumes "enlarged s s'" and "enlarged s' s''"
  shows "enlarged s s''"
proof -
  obtain m where m: "s' = s\<lparr>memory := m\<rparr>" "mem_ext (memory s) m" "wf_mem (memory s) \<longrightarrow> wf_mem m"
    using assms(1) by (rule enlargedE)
  obtain m' where m': "s'' = s'\<lparr>memory := m'\<rparr>" "mem_ext (memory s') m'" "wf_mem (memory s') \<longrightarrow> wf_mem m'"
    using assms(2) by (rule enlargedE)
  have "enlarged s (s\<lparr>memory := m'\<rparr>)"
    by (rule enlargedI) (use m m' in \<open>auto intro: mem_ext_trans\<close>)
  then show ?thesis using m(1) m'(1) by simp
qed

lemma enlarged_log: "enlarged s (log_color w s)"
  unfolding log_color_def
  by (rule enlargedI) (auto intro: mem_ext_malloc wf_mem_malloc simp: prod_eq_iff)

lemma write_fresh:
  assumes "length ys \<le> n"
  shows "write_cells (snd (new_block (Heap (replicate n None)) m)) (Ptr (nextb m) 0) ys =
    Inr (snd (new_block (Heap (overwrite 0 ys (replicate n None))) m))"
  using assms by (simp add: new_block_def)

lemma sprintf_msg_ok:
  assumes "mallocs w = plenty" and "length text < 100"
  shows "\<exists>cs. sprintf_msg w text s =
    Inr (Ptr (nextb (memory s)) 0, s\<lparr>memory := snd (new_block (Heap cs) (memory s))\<rparr>)"
  using assms write_fresh [of "map Some (text @ [0])" 100 "memory s"]
  by (auto simp: sprintf_msg_def malloc_plenty PTRDIFF_MAX_def store_bytes_def simp del: write_cells.simps)

lemma sprintf_msg_overflow:
  assumes "mallocs w = plenty" and "100 \<le> length text"
  shows "sprintf_msg w text s = Inl OutOfBounds"
  using assms by (simp add: sprintf_msg_def malloc_plenty PTRDIFF_MAX_def store_bytes_def new_block_def)

lemma message_ok:
  assumes w: "mallocs w = plenty" and n: "length text < 100"
  shows "\<exists>s'. message w text s = Inr s' \<and> enlarged s s'"
proof -
  obtain cs where cs: "sprintf_msg w text s = Inr (Ptr (nextb (memory s)) 0, s\<lparr>memory := snd (new_block (Heap cs) (memory s))\<rparr>)"
    using sprintf_msg_ok [OF assms] by blast
  show ?thesis
    using w by (auto simp: message_def cs free_ptr_def log_color_def malloc_plenty PTRDIFF_MAX_def new_block_def
      enlarged_def drop_block_def mem_ext_def wf_mem_def)
qed

lemma message_overflow:
  "mallocs w = plenty \<Longrightarrow> 100 \<le> length text \<Longrightarrow> message w text s = Inl OutOfBounds"
  by (simp add: message_def sprintf_msg_overflow)

lemma enlarged_mclient:
  assumes "enlarged s s'"
  shows "trace s' = trace s \<and> LOOP s' = LOOP s \<and> BYTES_READ s' = BYTES_READ s \<and> BYTES_WRITTEN s' = BYTES_WRITTEN s"
  using assms by (auto simp: enlarged_def)

lemma report_time_ok:
  assumes "mallocs w = plenty" and "length what + length (elapsed w (trace s)) < 98"
  shows "\<exists>s'. report_time w what s = Inr s' \<and> enlarged s s'"
proof -
  have "trace (log_color w s) = trace s" by (simp add: log_color_def)
  then obtain s' where "report_time w what s = Inr s'" "enlarged (log_color w s) s'"
    using message_ok [OF assms(1), of "what @ lit '': '' @ elapsed w (trace s)" "log_color w s"] assms(2)
    by (auto simp: report_time_def Let_def)
  then show ?thesis using enlarged_trans [OF enlarged_log] by blast
qed

section \<open>Rounds of the transfer\<close>

text \<open>The buffer is a block of \<open>n\<close> bytes.\<close>

definition buffer_at :: "'z sys_scheme \<Rightarrow> nat \<Rightarrow> nat \<Rightarrow> bool" where
  "buffer_at s b n \<longleftrightarrow> wf_mem (memory s) \<and> (\<exists>cs. blocks (memory s) b = Some (Heap cs) \<and> length cs = n)"

lemma buffer_enlarged:
  assumes "buffer_at s b n" and "enlarged s s'"
  shows "buffer_at s' b n"
  using assms by (auto simp: buffer_at_def mem_ext_def elim!: enlargedE dest: wf_mem_less)

lemma buffer_write:
  assumes "buffer_at s b n" and "length ys \<le> n"
  shows "\<exists>cs. write_cells (memory s) (Ptr b 0) ys = Inr (put_cells (memory s) b (overwrite 0 ys cs)) \<and>
    length cs = n \<and> buffer_at (s\<lparr>memory := put_cells (memory s) b (overwrite 0 ys cs)\<rparr>) b n"
proof -
  obtain cs where cs: "blocks (memory s) b = Some (Heap cs)" "length cs = n" "wf_mem (memory s)"
    using assms(1) by (auto simp: buffer_at_def)
  then have at: "bytes_at (memory s) b = Some cs" by (simp add: bytes_at_def)
  have "write_cells (memory s) (Ptr b 0) ys = Inr (put_cells (memory s) b (overwrite 0 ys cs))"
    using write_cells_put [OF at, of 0 ys cs] put_cells_same [OF at] cs(2) assms(2) by simp
  moreover have "blocks (put_cells (memory s) b (overwrite 0 ys cs)) b = Some (Heap (overwrite 0 ys cs))"
    using cs(1) by (simp add: put_cells_def)
  ultimately show ?thesis using cs assms(2) by (intro exI [of _ cs]) (simp add: buffer_at_def)
qed

lemma int_size_nat:
  assumes "0 \<le> v" and "v < 2 ^ 31"
  shows "unat (int_size v) = nat v"
proof -
  have "nat v < 2 ^ 64" using assms by (simp add: nat_less_iff)
  then show ?thesis
    unfolding int_size_def word_of_int_nat [OF assms(1)] unat_of_nat by (simp add: take_bit_nat_eq_self)
qed

lemma clear_buffer_ok:
  assumes "buffer_at s b n" and "unat (int_size (buffer_size c)) = n"
  shows "\<exists>m. clear_buffer c (Ptr b 0) s = Inr (s\<lparr>memory := m\<rparr>) \<and> buffer_at (s\<lparr>memory := m\<rparr>) b n \<and>
    blocks m b = Some (Heap (replicate n (Some 0)))"
proof -
  obtain cs where cs: "write_cells (memory s) (Ptr b 0) (replicate n (Some 0)) =
      Inr (put_cells (memory s) b (overwrite 0 (replicate n (Some 0)) cs))" "length cs = n"
    "buffer_at (s\<lparr>memory := put_cells (memory s) b (overwrite 0 (replicate n (Some 0)) cs)\<rparr>) b n"
    using buffer_write [OF assms(1), of "replicate n (Some 0)"] by auto
  moreover have "blocks (put_cells (memory s) b (replicate n (Some 0))) b = Some (Heap (replicate n (Some 0)))"
    using assms(1) by (auto simp: buffer_at_def put_cells_def)
  ultimately show ?thesis using assms(2)
    by (intro exI [of _ "put_cells (memory s) b (replicate n (Some 0))"])
      (simp add: clear_buffer_def memset_def del: write_cells.simps)
qed

text \<open>A read that succeeds, into a buffer full of zeros: the rest of the buffer stays zero.\<close>

definition padded :: "nat \<Rightarrow> byte list \<Rightarrow> byte list" where
  "padded n d = d @ replicate (n - length d) 0"

lemma length_padded: "length d \<le> n \<Longrightarrow> length (padded n d) = n"
  by (simp add: padded_def)

lemma sys_read_ok:
  assumes b: "buffer_at s b n" "blocks (memory s) b = Some (Heap (replicate n (Some 0)))" and n: "0 < n"
    and r: "r = kern (trace s) (Read f len)" "ret r = int (length (data r))" "length (data r) \<le> n"
  shows "\<exists>m. sys_read kern f (Ptr b 0) len s = Inr (ret r, s\<lparr>trace := Read f len # trace s, memory := m\<rparr>) \<and>
    buffer_at (s\<lparr>trace := Read f len # trace s, memory := m\<rparr>) b n \<and>
    load8 m (Ptr b 0) = Inr (if data r = [] then 0 else hd (data r)) \<and>
    has_bytes m (Ptr b 0) (padded n (data r))"
proof -
  let ?m = "put_cells (memory s) b (overwrite 0 (map Some (data r)) (replicate n (Some 0)))"
  have at: "bytes_at (memory s) b = Some (replicate n (Some 0))" using b(2) by (simp add: bytes_at_def)
  have w: "store_bytes (memory s) (Ptr b 0) (data r) = Inr ?m"
    using write_cells_put [OF at, of 0 "map Some (data r)" "replicate n (Some 0)"] put_cells_same [OF at] r(3)
    by (simp add: store_bytes_def)
  have o: "overwrite 0 (map Some (data r)) (replicate n (Some 0)) = map Some (padded n (data r))"
    using r(3) by (simp add: overwrite_def padded_def)
  have h: "has_bytes ?m (Ptr b 0) (padded n (data r))"
    using at length_padded [OF r(3)] unfolding o by (simp add: bytes_at_put_cells window_def)
  have "padded n (data r) ! 0 = (if data r = [] then 0 else hd (data r))"
    using n by (cases "data r") (simp_all add: padded_def)
  then have "load8 ?m (Ptr b 0) = Inr (if data r = [] then 0 else hd (data r))"
    using load8_has [OF h, of 0] n length_padded [OF r(3)] by (simp only: padd_0)
  moreover have "buffer_at (s\<lparr>memory := ?m\<rparr>) b n"
    using b r(3) by (simp add: buffer_at_def) (simp add: put_cells_def)
  ultimately show ?thesis
    using w h r(1,2) by (intro exI [of _ ?m]) (simp add: sys_read_def syscall_def answer_def Let_def buffer_at_def)
qed

text \<open>A host on which nothing but the server matters: memory suffices and nobody interrupts.\<close>

definition calm :: "world \<Rightarrow> bool" where
  "calm w \<longleftrightarrow> mallocs w = plenty \<and> (\<forall>h. \<not> sigint w h) \<and> (\<forall>h. length (elapsed w h) \<le> 40)"

definition wants_more :: "settings \<Rightarrow> int \<Rightarrow> bool" where
  "wants_more c k \<longleftrightarrow> DOWNLOAD_SIZE c = -1 \<or> k < DOWNLOAD_SIZE c"

text \<open>
  The reading part of a round, with its buffer cleared: it is over, or the client goes on, and
  what it read is in the buffer if it is going to be sent back.
\<close>

lemma read_part_ok:
  assumes w: "calm w" and c: "unat (int_size (buffer_size c)) = n" "0 < n"
    and b: "buffer_at s b n" "blocks (memory s) b = Some (Heap (replicate n (Some 0)))"
    and r: "r = kernel w (trace s) (Read f (int_size (buffer_size c)))" "ret r = int (length (data r))"
      "length (data r) \<le> n" "data r = [] \<or> sint (hd (data r)) \<noteq> MAGIC_NUMBER"
    and k: "0 \<le> BYTES_READ s" "BYTES_READ s + ret r < 2 ^ 31"
  shows "\<exists>s'. read_part w c f (Ptr b 0) s = Inr (if \<not> wants_more c (BYTES_READ s + ret r) then Break
      else if CLIENT_TYPE c = DOWNLINK_CLIENT then Continue else Fall_through, s') \<and>
    trace s' = Read f (int_size (buffer_size c)) # trace s \<and> BYTES_READ s' = BYTES_READ s + ret r \<and>
    BYTES_WRITTEN s' = BYTES_WRITTEN s \<and> LOOP s' = LOOP s \<and> buffer_at s' b n \<and>
    (wants_more c (BYTES_READ s + ret r) \<and> CLIENT_TYPE c \<noteq> DOWNLINK_CLIENT \<longrightarrow>
      has_bytes (memory s') (Ptr b 0) (padded n (data r)))"
proof -
  let ?k = "BYTES_READ s + ret r" and ?c = "Read f (int_size (buffer_size c))"
  obtain m1 where m1: "sys_read (kernel w) f (Ptr b 0) (int_size (buffer_size c)) s =
      Inr (ret r, s\<lparr>trace := ?c # trace s, memory := m1\<rparr>)"
    "buffer_at (s\<lparr>trace := ?c # trace s, memory := m1\<rparr>) b n"
    "load8 m1 (Ptr b 0) = Inr (if data r = [] then 0 else hd (data r))" "has_bytes m1 (Ptr b 0) (padded n (data r))"
    using sys_read_ok [OF b c(2), where kern = "kernel w", OF r(1-3)] by blast
  define s1 where "s1 = s\<lparr>trace := ?c # trace s, memory := m1, BYTES_READ := ?k\<rparr>"
  have ri: "to_int (ret r) = ret r" using k r(2) by (intro to_int_id) simp_all
  have nm: "sint (if data r = [] then 0 else hd (data r)) \<noteq> MAGIC_NUMBER" using r(4) by (auto simp: MAGIC_NUMBER_def)
  have add: "add_int (BYTES_READ s) (ret r) = Inr ?k" using k r(2) by (simp add: add_int_def)
  have b1: "buffer_at s1 b n" using m1(2) by (simp add: s1_def buffer_at_def)
  have part: "read_part w c f (Ptr b 0) s =
      (if \<not> wants_more c ?k
       then bindE (report_time w (lit ''Time to download '' @ dec_int ?k @ lit '' bytes'') s1) (\<lambda>s. Inr (Break, s))
       else if CLIENT_TYPE c = DOWNLINK_CLIENT then bindE (clear_buffer c (Ptr b 0) s1) (\<lambda>s. Inr (Continue, s))
       else Inr (Fall_through, s1))"
    using m1(1,3) ri nm add r(2) by (simp add: read_part_def Let_def s1_def wants_more_def not_le)
  show ?thesis
  proof (cases "wants_more c ?k")
    case True
    obtain m2 where m2: "clear_buffer c (Ptr b 0) s1 = Inr (s1\<lparr>memory := m2\<rparr>)" "buffer_at (s1\<lparr>memory := m2\<rparr>) b n"
      using clear_buffer_ok [OF b1 c(1)] by blast
    then show ?thesis using True part b1 m1(4) by (cases "CLIENT_TYPE c = DOWNLINK_CLIENT") (simp_all add: s1_def)
  next
    case False
    have "length (dec_int ?k) \<le> 11" using k r(2) by (intro length_dec_int) simp_all
    moreover have "length (elapsed w (trace s1)) \<le> 40" using w by (simp add: calm_def)
    ultimately obtain s2 where s2: "report_time w (lit ''Time to download '' @ dec_int ?k @ lit '' bytes'') s1 = Inr s2" "enlarged s1 s2"
      using report_time_ok [of w "lit ''Time to download '' @ dec_int ?k @ lit '' bytes''" s1] w by (auto simp: calm_def)
    then show ?thesis
      using False part enlarged_mclient [OF s2(2)] buffer_enlarged [OF b1 s2(2)] by (simp add: s1_def)
  qed
qed

text \<open>A block that starts with the magic number is dropped.\<close>

lemma read_part_magic:
  assumes w: "calm w" and c: "unat (int_size (buffer_size c)) = n" "0 < n"
    and b: "buffer_at s b n" "blocks (memory s) b = Some (Heap (replicate n (Some 0)))"
    and r: "r = kernel w (trace s) (Read f (int_size (buffer_size c)))" "ret r = int (length (data r))"
      "length (data r) \<le> n" "data r \<noteq> []" "sint (hd (data r)) = MAGIC_NUMBER" and k: "ret r < 2 ^ 31"
  shows "\<exists>s'. read_part w c f (Ptr b 0) s = Inr (Continue, s') \<and>
    trace s' = Read f (int_size (buffer_size c)) # trace s \<and> BYTES_READ s' = BYTES_READ s \<and> LOOP s' = LOOP s \<and>
    buffer_at s' b n"
proof -
  let ?c = "Read f (int_size (buffer_size c))"
  obtain m1 where m1: "sys_read (kernel w) f (Ptr b 0) (int_size (buffer_size c)) s =
      Inr (ret r, s\<lparr>trace := ?c # trace s, memory := m1\<rparr>)"
    "buffer_at (s\<lparr>trace := ?c # trace s, memory := m1\<rparr>) b n"
    "load8 m1 (Ptr b 0) = Inr (if data r = [] then 0 else hd (data r))"
    using sys_read_ok [OF b c(2), where kern = "kernel w", OF r(1-3)] by blast
  define s1 where "s1 = s\<lparr>trace := ?c # trace s, memory := m1\<rparr>"
  have ri: "to_int (ret r) = ret r" using k r(2) by (intro to_int_id) simp_all
  have "length (elapsed w (trace s1)) \<le> 40" using w by (simp add: calm_def)
  then obtain s2 where s2: "report_time w (lit ''Time to receive magic number'') s1 = Inr s2" "enlarged s1 s2"
    using report_time_ok [of w "lit ''Time to receive magic number''" s1] w by (auto simp: calm_def)
  have b2: "buffer_at s2 b n" using buffer_enlarged [OF _ s2(2)] m1(2) by (simp add: s1_def)
  obtain m3 where m3: "clear_buffer c (Ptr b 0) s2 = Inr (s2\<lparr>memory := m3\<rparr>)" "buffer_at (s2\<lparr>memory := m3\<rparr>) b n"
    using clear_buffer_ok [OF b2 c(1)] by blast
  have "read_part w c f (Ptr b 0) s = Inr (Continue, s2\<lparr>memory := m3\<rparr>)"
    using m1(1,3) ri r(2,4,5) s2(1) m3(1) by (simp add: read_part_def Let_def s1_def)
  then show ?thesis using m3(2) enlarged_mclient [OF s2(2)] by (simp add: s1_def)
qed

lemma download_round:
  assumes w: "calm w" and c: "CLIENT_TYPE c = DOWNLINK_CLIENT" "unat (int_size (buffer_size c)) = n" "0 < n"
    and b: "buffer_at s b n"
    and r: "r = kernel w (trace s) (Read f (int_size (buffer_size c)))" "ret r = int (length (data r))"
      "length (data r) \<le> n" "data r = [] \<or> sint (hd (data r)) \<noteq> MAGIC_NUMBER"
    and k: "0 \<le> BYTES_READ s" "BYTES_READ s + ret r < 2 ^ 31"
  shows "\<exists>s'. transfer_step w c f (Ptr b 0) s = Inr (if wants_more c (BYTES_READ s + ret r) then Continue else Break, s') \<and>
    trace s' = Read f (int_size (buffer_size c)) # trace s \<and> BYTES_READ s' = BYTES_READ s + ret r \<and>
    LOOP s' = LOOP s \<and> buffer_at s' b n"
proof -
  obtain m where m: "clear_buffer c (Ptr b 0) s = Inr (s\<lparr>memory := m\<rparr>)" "buffer_at (s\<lparr>memory := m\<rparr>) b n"
    "blocks m b = Some (Heap (replicate n (Some 0)))" using clear_buffer_ok [OF b c(2)] by blast
  have kind: "is_reader c" "\<not> is_writer c"
    using c(1) by (simp_all add: is_reader_def is_writer_def DOWNLINK_CLIENT_def UPLINK_CLIENT_def ECHO_CLIENT_def)
  show ?thesis
    using read_part_ok [OF w c(2,3) m(2), of r f] m(1,3) r k c(1) kind
    by (auto simp: transfer_step_def)
qed

section \<open>Whole transfers\<close>

text \<open>
  A server that sends at least one byte for every read, and never a block that starts with
  the magic number; and one that sends at most \<open>k\<close> bytes in all, in any blocks, and then has
  closed the connection, so that every later read gives nothing.
\<close>

definition serves :: "world \<Rightarrow> int \<Rightarrow> size_t \<Rightarrow> bool" where
  "serves w f len \<longleftrightarrow> (\<forall>h. let r = kernel w h (Read f len) in
     ret r = int (length (data r)) \<and> 0 < length (data r) \<and> length (data r) \<le> unat len \<and>
     sint (hd (data r)) \<noteq> MAGIC_NUMBER)"

fun brought :: "world \<Rightarrow> int \<Rightarrow> call list \<Rightarrow> int" where
  "brought w f [] = 0"
| "brought w f (Read g n # h) = brought w f h + (if g = f then ret (kernel w h (Read g n)) else 0)"
| "brought w f (c # h) = brought w f h"

definition runs_dry :: "world \<Rightarrow> int \<Rightarrow> size_t \<Rightarrow> int \<Rightarrow> bool" where
  "runs_dry w f len k \<longleftrightarrow> (\<forall>h. let r = kernel w h (Read f len) in
     ret r = int (length (data r)) \<and> length (data r) \<le> unat len \<and> brought w f h + ret r \<le> k)"

text \<open>The loop of a client that reads, with its buffer in place.\<close>

definition reading :: "world \<Rightarrow> settings \<Rightarrow> nat \<Rightarrow> 'z mclient_scheme \<Rightarrow> bool" where
  "reading w c b s \<longleftrightarrow> calm w \<and> CLIENT_TYPE c = DOWNLINK_CLIENT \<and> 0 < buffer_size c \<and> buffer_size c < 2 ^ 31 \<and>
     buffer_at s b (nat (buffer_size c)) \<and> LOOP s \<and> 0 \<le> BYTES_READ s \<and> BYTES_READ s < 2 ^ 31"

lemma reading_step:
  assumes "reading w c b s" and r: "r = kernel w (trace s) (Read f (int_size (buffer_size c)))"
    and "ret r = int (length (data r))" and "length (data r) \<le> nat (buffer_size c)"
    and "data r = [] \<or> sint (hd (data r)) \<noteq> MAGIC_NUMBER" and k: "BYTES_READ s + ret r < 2 ^ 31"
  shows "deliver w s = Inr s \<and> LOOP s \<and>
    (\<exists>s'. reading w c b s' \<and> BYTES_READ s' = BYTES_READ s + ret r \<and>
      transfer_step w c f (Ptr b 0) s = Inr (if wants_more c (BYTES_READ s + ret r) then Continue else Break, s'))"
proof -
  have s: "calm w" "CLIENT_TYPE c = DOWNLINK_CLIENT" "0 < buffer_size c" "buffer_size c < 2 ^ 31"
    "buffer_at s b (nat (buffer_size c))" "LOOP s" "0 \<le> BYTES_READ s" using assms(1) by (simp_all add: reading_def)
  have n: "unat (int_size (buffer_size c)) = nat (buffer_size c)" "0 < nat (buffer_size c)"
    using s(3,4) int_size_nat by simp_all
  obtain s' where s': "transfer_step w c f (Ptr b 0) s =
      Inr (if wants_more c (BYTES_READ s + ret r) then Continue else Break, s')"
    "BYTES_READ s' = BYTES_READ s + ret r" "LOOP s' = LOOP s" "buffer_at s' b (nat (buffer_size c))"
    using download_round [OF s(1,2) n s(5) r assms(3-5) s(7) k] by blast
  have "deliver w s = Inr s" using s(1) by (simp add: deliver_def calm_def)
  moreover have "reading w c b s'" using s s' assms(3) k by (simp add: reading_def)
  ultimately show ?thesis using s(6) s'(1,2) by blast
qed

lemma reading_round:
  assumes "deliver w s = Inr s" and "LOOP s" and "transfer_step w c f buffer s = Inr (if again then Continue else Break, s')"
  shows "transfer w c f buffer s = (if again then transfer w c f buffer s' else return (None, s'))"
  using assms by (subst transfer.simps) simp

lemma transfer_completes:
  assumes "reading w c b s" and "serves w f (int_size (buffer_size c))"
    and "DOWNLOAD_SIZE c \<noteq> -1" and "BYTES_READ s \<le> DOWNLOAD_SIZE c" and "DOWNLOAD_SIZE c + buffer_size c < 2 ^ 31"
  shows "\<exists>s'. transfer w c f (Ptr b 0) s = return (None, s') \<and> reading w c b s' \<and>
    DOWNLOAD_SIZE c \<le> BYTES_READ s' \<and> BYTES_READ s' \<le> DOWNLOAD_SIZE c + buffer_size c"
  using assms(1,4)
proof (induction "nat (DOWNLOAD_SIZE c - BYTES_READ s)" arbitrary: s rule: less_induct)
  case less
  define r where "r = kernel w (trace s) (Read f (int_size (buffer_size c)))"
  have bs: "0 < buffer_size c" "buffer_size c < 2 ^ 31" using less.prems(1) by (simp_all add: reading_def)
  then have r: "ret r = int (length (data r))" "0 < length (data r)" "length (data r) \<le> nat (buffer_size c)"
    "sint (hd (data r)) \<noteq> MAGIC_NUMBER"
    using assms(2) int_size_nat [of "buffer_size c"] by (simp_all add: serves_def r_def Let_def)
  have k: "BYTES_READ s + ret r < 2 ^ 31" using r(1,3) bs less.prems(2) assms(5) by linarith
  obtain s' where s': "reading w c b s'" "BYTES_READ s' = BYTES_READ s + ret r"
    "transfer w c f (Ptr b 0) s =
      (if wants_more c (BYTES_READ s + ret r) then transfer w c f (Ptr b 0) s' else return (None, s'))"
    using reading_step [OF less.prems(1) r_def r(1,3) _ k] r(4) reading_round by blast
  show ?case
  proof (cases "wants_more c (BYTES_READ s + ret r)")
    case True
    then have "BYTES_READ s' < DOWNLOAD_SIZE c" using s'(2) assms(3) by (simp add: wants_more_def)
    moreover have "BYTES_READ s < BYTES_READ s'" using s'(2) r(1,2) by simp
    ultimately show ?thesis using less.hyps [of s'] s' True by simp
  next
    case False
    then have "BYTES_READ s' \<le> DOWNLOAD_SIZE c + buffer_size c" "DOWNLOAD_SIZE c \<le> BYTES_READ s'"
      using s'(2) r(1,3) less.prems(2) bs by (auto simp: wants_more_def)
    then show ?thesis using s' False by simp
  qed
qed

text \<open>The counter never gets ahead of what came, and the loop has no exit before the wanted number.\<close>

lemma dry_round:
  assumes "reading w c b s" and "runs_dry w f (int_size (buffer_size c)) k" and "k < 2 ^ 31" and "wants_more c k"
    and "BYTES_READ s \<le> brought w f (trace s)"
  shows "deliver w s = Inr s \<and> LOOP s \<and> (\<exists>s'. transfer_step w c f (Ptr b 0) s = Inr (Continue, s') \<and>
    reading w c b s' \<and> BYTES_READ s' \<le> brought w f (trace s'))"
proof -
  let ?n = "nat (buffer_size c)" and ?c = "Read f (int_size (buffer_size c))"
  define r where "r = kernel w (trace s) ?c"
  have s: "calm w" "CLIENT_TYPE c = DOWNLINK_CLIENT" "0 < buffer_size c" "buffer_size c < 2 ^ 31"
    "buffer_at s b ?n" "LOOP s" "0 \<le> BYTES_READ s" "BYTES_READ s < 2 ^ 31" using assms(1) by (simp_all add: reading_def)
  have n: "unat (int_size (buffer_size c)) = ?n" "0 < ?n" using s(3,4) int_size_nat by simp_all
  have r: "ret r = int (length (data r))" "length (data r) \<le> ?n" "brought w f (trace s) + ret r \<le> k"
    using assms(2) [unfolded runs_dry_def Let_def, rule_format, of "trace s"] n(1) by (simp_all add: r_def)
  have k: "BYTES_READ s + ret r < 2 ^ 31" "ret r < 2 ^ 31" "wants_more c (BYTES_READ s + ret r)"
    using r(1,3) assms(3-5) s(7) by (auto simp: wants_more_def)
  have kind: "is_reader c" "\<not> is_writer c"
    using s(2) by (simp_all add: is_reader_def is_writer_def DOWNLINK_CLIENT_def UPLINK_CLIENT_def ECHO_CLIENT_def)
  have "\<exists>s'. transfer_step w c f (Ptr b 0) s = Inr (Continue, s') \<and> trace s' = ?c # trace s \<and>
      (BYTES_READ s' = BYTES_READ s \<or> BYTES_READ s' = BYTES_READ s + ret r) \<and> LOOP s' = LOOP s \<and> buffer_at s' b ?n"
  proof (cases "data r = [] \<or> sint (hd (data r)) \<noteq> MAGIC_NUMBER")
    case True
    then show ?thesis using download_round [OF s(1,2) n s(5) r_def r(1,2) True s(7) k(1)] k(3) by auto
  next
    case False
    obtain m where m: "clear_buffer c (Ptr b 0) s = Inr (s\<lparr>memory := m\<rparr>)" "buffer_at (s\<lparr>memory := m\<rparr>) b ?n"
      "blocks m b = Some (Heap (replicate ?n (Some 0)))" using clear_buffer_ok [OF s(5) n(1)] by blast
    then show ?thesis
      using read_part_magic [OF s(1) n m(2), of r f] r_def r(1,2) False k(2) kind by (auto simp: transfer_step_def)
  qed
  then obtain s' where s': "transfer_step w c f (Ptr b 0) s = Inr (Continue, s')" "trace s' = ?c # trace s"
    "BYTES_READ s' = BYTES_READ s \<or> BYTES_READ s' = BYTES_READ s + ret r" "LOOP s' = LOOP s" "buffer_at s' b ?n" by blast
  have "reading w c b s'" using s s' k(1) r(1) by (auto simp: reading_def)
  moreover have "brought w f (trace s') = brought w f (trace s) + ret r" using s'(2) by (simp add: r_def)
  then have "BYTES_READ s' \<le> brought w f (trace s')" using s'(3) assms(5) r(1) by auto
  moreover have "deliver w s = Inr s" using s(1) by (simp add: deliver_def calm_def)
  ultimately show ?thesis using s(6) s'(1) by blast
qed

lemma transfer_spins:
  assumes "reading w c b s" and "runs_dry w f (int_size (buffer_size c)) k" and "k < 2 ^ 31" and "wants_more c k"
    and "BYTES_READ s \<le> brought w f (trace s)"
  shows "transfer w c f (Ptr b 0) s = None"
proof (rule ccontr)
  assume "transfer w c f (Ptr b 0) s \<noteq> None"
  then obtain y where y: "transfer w c f (Ptr b 0) s = Some y" by blast
  let ?P = "\<lambda>w c f p s. p = Ptr b 0 \<and> reading w c b s \<and> runs_dry w f (int_size (buffer_size c)) k \<and>
    wants_more c k \<and> BYTES_READ s \<le> brought w f (trace s)"
  have "\<not> ?P w c f p s" if ret: "transfer w c f p s = Some y" for w c f p and s :: "'a mclient_scheme" and y
  proof (rule transfer.raw_induct [where P = "\<lambda>w c f p s y. \<not> ?P w c f p s", OF _ ret], goal_cases)
    case (1 rec w c f p s y)
    show ?case
    proof
      assume *: "?P w c f p s"
      then have a: "reading w c b s" "runs_dry w f (int_size (buffer_size c)) k" "wants_more c k"
        "BYTES_READ s \<le> brought w f (trace s)" by simp_all
      obtain s' where s': "deliver w s = Inr s" "LOOP s" "reading w c b s'" "BYTES_READ s' \<le> brought w f (trace s')"
        "transfer_step w c f p s = Inr (Continue, s')"
        using dry_round [OF a(1,2) assms(3) a(3,4)] * by blast
      then have "rec w c f p s' = Some y" using 1(2) by simp
      from 1(1) [OF this] show False using s'(3,4) * by simp
    qed
  qed
  then show False using y assms by blast
qed

section \<open>The whole program\<close>

text \<open>A kernel that gives out the socket \<open>f\<close>, binds and connects it, and takes what is written.\<close>

definition accepting :: "world \<Rightarrow> int \<Rightarrow> bool" where
  "accepting w f \<longleftrightarrow> 0 \<le> f \<and> (\<forall>h. ret (kernel w h (Socket AF_INET SOCK_STREAM IPPROTO_MPTCP)) = f \<and>
     (\<forall>a. 0 \<le> ret (kernel w h (Bind f a)) \<and> 0 \<le> ret (kernel w h (Connect f a))) \<and>
     (\<forall>bs. 0 \<le> ret (kernel w h (Write f bs))))"

text \<open>The names and numbers of the first message, of which 46 bytes fit behind its fixed text.\<close>

definition names_length :: "byte list \<Rightarrow> byte list \<Rightarrow> byte list \<Rightarrow> settings \<Rightarrow> nat" where
  "names_length local_ip server_ip port c =
     length local_ip + length server_ip + length (dec_int (number port)) + length (dec_int (buffer_size c))"

text \<open>The calls of the start, newest first.\<close>

definition start_calls :: "world \<Rightarrow> settings \<Rightarrow> int \<Rightarrow> byte list \<Rightarrow> byte list \<Rightarrow> byte list \<Rightarrow> call list" where
  "start_calls w c f local_ip server_ip port =
     [Write f (le32 (word_of_int (buffer_size c))), Write f [word_of_int (CLIENT_TYPE c)], Write f [127],
      Connect f (Sockaddr_in (htons (word_of_int (number port))) (inet_addr w server_ip)),
      Bind f (Sockaddr_in 0 (inet_addr w local_ip)), Socket AF_INET SOCK_STREAM IPPROTO_MPTCP]"

text \<open>A call that succeeds.\<close>

lemma syscall_ok: "0 \<le> ret (kern (trace s) c) \<Longrightarrow> syscall kern c s = (ret (kern (trace s) c), s\<lparr>trace := c # trace s\<rparr>)"
  by (simp add: syscall_def answer_def Let_def)

text \<open>From \<open>s\<close> to \<open>s'\<close> the calls \<open>cs\<close> were made, and otherwise only memory changed.\<close>

definition leads :: "'z mclient_scheme \<Rightarrow> call list \<Rightarrow> 'z mclient_scheme \<Rightarrow> bool" where
  "leads s cs s' \<longleftrightarrow> trace s' = cs @ trace s \<and> LOOP s' = LOOP s \<and> BYTES_READ s' = BYTES_READ s \<and>
     BYTES_WRITTEN s' = BYTES_WRITTEN s \<and> (wf_mem (memory s) \<longrightarrow> wf_mem (memory s'))"

lemma leads_enlarged: "enlarged s s' \<Longrightarrow> leads s [] s'"
  by (auto simp: leads_def elim!: enlargedE)

lemma leads_call: "leads s [c] (s\<lparr>trace := c # trace s\<rparr>)"
  by (simp add: leads_def)

lemma leads_trans: "leads s cs s' \<Longrightarrow> leads s' ds s'' \<Longrightarrow> leads s (ds @ cs) s''"
  by (simp add: leads_def)

lemma sprintf_free_ok:
  assumes w: "mallocs w = plenty" and n: "length text < 100"
  shows "\<exists>p s' s''. sprintf_msg w text s = Inr (p, s') \<and> free_ptr p s' = Inr s'' \<and> enlarged s s''"
proof -
  obtain cs where "sprintf_msg w text s = Inr (Ptr (nextb (memory s)) 0, s\<lparr>memory := snd (new_block (Heap cs) (memory s))\<rparr>)"
    using sprintf_msg_ok [OF assms] by blast
  moreover have "free_ptr (Ptr (nextb (memory s)) 0) (s\<lparr>memory := snd (new_block (Heap cs) (memory s))\<rparr>) =
      Inr (s\<lparr>memory := drop_block (nextb (memory s)) (snd (new_block (Heap cs) (memory s)))\<rparr>)"
    by (simp add: free_ptr_def new_block_def)
  moreover have "enlarged s (s\<lparr>memory := drop_block (nextb (memory s)) (snd (new_block (Heap cs) (memory s)))\<rparr>)"
    by (rule enlargedI) (auto intro: mem_ext_drop mem_ext_new)
  ultimately show ?thesis by blast
qed

lemma length_names_text: "length (names_text c lip sip (number port)) = 53 + names_length lip sip port c"
  by (simp add: names_text_def names_length_def)

lemma length_number_text: "length (dec_int (number a)) \<le> 11"
  using number_range by (rule length_dec_int)

lemma length_sizes_text:
  assumes "settings_ok c"
  shows "length (sizes_text c) < 100"
proof -
  have "length (dec_int (CLIENT_TYPE c)) \<le> 11" "length (dec_int (DOWNLOAD_SIZE c)) \<le> 11" "length (dec_int (UPLOAD_SIZE c)) \<le> 11"
    using assms by (auto simp: settings_ok_def UPLINK_CLIENT_def DOWNLINK_CLIENT_def ECHO_CLIENT_def intro!: length_dec_int)
  then show ?thesis by (simp add: sizes_text_def)
qed

lemma length_connected_text: "names_length lip sip port c \<le> 46 \<Longrightarrow> length (connected_text sip (number port)) < 100"
  using length_number_text [of port] by (simp add: connected_text_def names_length_def)

lemma connect_server_ok:
  fixes s :: "'z mclient_scheme"
  assumes w: "mallocs w = plenty" "accepting w f" and c: "settings_ok c" and l: "names_length lip sip port c \<le> 46"
  shows "\<exists>s'. connect_server w c lip sip (number port) s = Inr (Go f, s') \<and>
    leads s (drop 3 (start_calls w c f lip sip port)) s'"
proof -
  let ?sock = "Socket AF_INET SOCK_STREAM IPPROTO_MPTCP" and ?bind = "Bind f (Sockaddr_in 0 (inet_addr w lip))"
    and ?conn = "Connect f (Sockaddr_in (htons (word_of_int (number port))) (inet_addr w sip))"
  obtain s1 where s1: "message w (names_text c lip sip (number port)) (log_color w s) = Inr s1" "enlarged (log_color w s) s1"
    using message_ok [OF w(1), of "names_text c lip sip (number port)"] l by (auto simp: length_names_text)
  obtain p s2 s3 where s2: "sprintf_msg w (sizes_text c) s1 = Inr (p, s2)" "free_ptr p s2 = Inr s3" "enlarged s1 s3"
    using sprintf_free_ok [OF w(1) length_sizes_text [OF c]] by blast
  define s4 where "s4 = log_color w s3"
  have "enlarged s s4"
    unfolding s4_def using enlarged_trans [OF enlarged_trans [OF enlarged_trans [OF enlarged_log s1(2)] s2(3)] enlarged_log] .
  then have l4: "leads s [] s4" by (rule leads_enlarged)
  have f: "0 \<le> f" "ret (kernel w h ?sock) = f" "0 \<le> ret (kernel w h ?bind)" "0 \<le> ret (kernel w h ?conn)" for h
    using w(2) by (simp_all add: accepting_def)
  define s5 where "s5 = s4\<lparr>trace := ?sock # trace s4\<rparr>"
  define s6 where "s6 = s5\<lparr>trace := ?bind # trace s5\<rparr>"
  define s7 where "s7 = s6\<lparr>trace := ?conn # trace s6\<rparr>"
  have calls: "syscall (kernel w) ?sock s4 = (f, s5)" "syscall (kernel w) ?bind s5 = (ret (kernel w (trace s5) ?bind), s6)"
    "syscall (kernel w) ?conn s6 = (ret (kernel w (trace s6) ?conn), s7)"
    using syscall_ok [of "kernel w" s4 ?sock] syscall_ok [of "kernel w" s5 ?bind] syscall_ok [of "kernel w" s6 ?conn] f
    by (simp_all add: s5_def s6_def s7_def)
  obtain s8 where s8: "message w (connected_text sip (number port)) s7 = Inr s8" "enlarged s7 s8"
    using message_ok [OF w(1) length_connected_text [OF l]] by blast
  have "leads s [?conn, ?bind, ?sock] s8"
    using leads_trans [OF leads_trans [OF leads_trans [OF leads_trans [OF l4 leads_call [of s4 ?sock, folded s5_def]]
      leads_call [of s5 ?bind, folded s6_def]] leads_call [of s6 ?conn, folded s7_def]] leads_enlarged [OF s8(2)]] by simp
  moreover have "connect_server w c lip sip (number port) s = Inr (Go f, s8)"
    using s1(1) s2(1,2) s8(1) f(1,3,4) calls
    by (simp add: connect_server_def s4_def [symmetric] not_less [symmetric])
  ultimately show ?thesis by (simp add: start_calls_def)
qed

lemma write_new:
  "length ys \<le> length cs \<Longrightarrow>
   write_cells (snd (new_block (Heap cs) m)) (Ptr (nextb m) 0) ys = Inr (snd (new_block (Heap (overwrite 0 ys cs)) m))"
  by (simp add: new_block_def)

lemma send_value_ok:
  fixes s :: "'z mclient_scheme"
  assumes w: "mallocs w = plenty" "accepting w f" and n: "length bs \<le> 4"
  shows "\<exists>s'. send_value w f bs s = Inr (Go (), s') \<and> leads s [Write f bs] s'"
proof -
  let ?b = "nextb (memory s)" and ?n = "length bs"
  let ?m = "snd (new_block (Heap (map Some bs)) (memory s))"
  define s1 where "s1 = s\<lparr>memory := ?m, trace := Write f bs # trace s\<rparr>"
  have mal: "malloc plenty ?n (memory s) = (Ptr ?b 0, snd (new_block (Heap (replicate ?n None)) (memory s)))"
    using n by (intro malloc_plenty) (simp add: PTRDIFF_MAX_def)
  have st: "memset (snd (new_block (Heap (replicate ?n None)) (memory s))) (Ptr ?b 0) 0 ?n =
      Inr (snd (new_block (Heap (replicate ?n (Some 0))) (memory s)))"
    "store_bytes (snd (new_block (Heap (replicate ?n (Some 0))) (memory s))) (Ptr ?b 0) bs = Inr ?m"
    using write_new [of "replicate ?n (Some 0)" "replicate ?n None" "memory s"]
      write_new [of "map Some bs" "replicate ?n (Some 0)" "memory s"]
    by (simp_all add: memset_def store_bytes_def del: write_cells.simps)
  have "has_bytes ?m (Ptr ?b 0) bs" by (simp add: new_block_def bytes_at_def window_def)
  then have ld: "load_bytes ?m (Ptr ?b 0) ?n = Inr bs"
    using load_bytes_has [of ?m "Ptr ?b 0" bs 0 ?n] by simp
  have call: "syscall (kernel w) (Write f bs) (s\<lparr>memory := ?m\<rparr>) = (ret (kernel w (trace s) (Write f bs)), s1)"
    "0 \<le> ret (kernel w (trace s) (Write f bs))"
    using w(2) syscall_ok [of "kernel w" "s\<lparr>memory := ?m\<rparr>" "Write f bs"] by (simp_all add: accepting_def s1_def)
  have "free_ptr (Ptr ?b 0) s1 = Inr (s1\<lparr>memory := drop_block ?b ?m\<rparr>)" by (simp add: free_ptr_def s1_def new_block_def)
  moreover have "leads s [Write f bs] (s1\<lparr>memory := drop_block ?b ?m\<rparr>)" by (simp add: leads_def s1_def)
  ultimately show ?thesis
    using w(1) mal st ld call by (simp add: send_value_def Let_def not_less [symmetric])
qed

lemma send_values_ok:
  fixes s :: "'z mclient_scheme"
  assumes w: "mallocs w = plenty" "accepting w f" and n: "\<forall>bs \<in> set bss. length bs \<le> 4"
  shows "\<exists>s'. send_values w f bss s = Inr (Go (), s') \<and> leads s (rev (map (Write f) bss)) s'"
  using n
proof (induction bss arbitrary: s)
  case Nil
  show ?case by (simp add: leads_def)
next
  case (Cons bs bss)
  obtain s1 where s1: "send_value w f bs s = Inr (Go (), s1)" "leads s [Write f bs] s1"
    using send_value_ok [OF w] Cons.prems by fastforce
  obtain s2 where "send_values w f bss s1 = Inr (Go (), s2)" "leads s1 (rev (map (Write f) bss)) s2"
    using Cons.IH [of s1] Cons.prems by auto
  then show ?case using s1 leads_trans [OF s1(2)] by auto
qed

lemma client_start:
  fixes s :: "'z mclient_scheme"
  assumes w: "mallocs w = plenty" "accepting w f" and c: "parse_options opts default_settings = Inr c"
    and l: "names_length lip sip port c \<le> 46"
  shows "\<exists>s1. client_main w (prog # lip # sip # port # opts) s = run_transfer w c f s1 \<and>
    leads s (start_calls w c f lip sip port) s1"
proof -
  have ok: "settings_ok c" by (rule settings_ok_parse [OF settings_ok_default c])
  obtain s1 where s1: "connect_server w c lip sip (number port) s = Inr (Go f, s1)"
    "leads s (drop 3 (start_calls w c f lip sip port)) s1" using connect_server_ok [OF w ok l] by blast
  obtain s2 where s2: "send_values w f (greeting c) s1 = Inr (Go (), s2)" "leads s1 (rev (map (Write f) (greeting c))) s2"
    using send_values_ok [OF w, of "greeting c"] by (auto simp: greeting_def)
  have "rev (map (Write f) (greeting c)) @ drop 3 (start_calls w c f lip sip port) = start_calls w c f lip sip port"
    by (simp add: greeting_def start_calls_def MAGIC_NUMBER_def)
  then have "leads s (start_calls w c f lip sip port) s2" using leads_trans [OF s1(2) s2(2)] by simp
  then show ?thesis using c s1(1) s2(1) by (auto simp: client_main_def atoi_number)
qed

lemma client_overflow:
  assumes w: "mallocs w = plenty" and c: "parse_options opts default_settings = Inr c"
    and l: "46 < names_length lip sip port c"
  shows "client_main w (prog # lip # sip # port # opts) s = fail OutOfBounds"
  using assms message_overflow [OF w, of "names_text c lip sip (number port)" "log_color w s"]
  by (simp add: client_main_def atoi_number connect_server_def length_names_text)

text \<open>The buffer of the transfer, fresh from \<open>malloc\<close>.\<close>

lemma reading_start:
  fixes s :: "'z mclient_scheme"
  assumes "calm w" and "CLIENT_TYPE c = DOWNLINK_CLIENT" and "0 < buffer_size c" and "buffer_size c < 2 ^ 31"
    and "LOOP s" and "BYTES_READ s = 0" and "wf_mem (memory s)"
  shows "\<exists>b m. malloc plenty (unat (int_size (buffer_size c))) (memory s) = (Ptr b 0, m) \<and> reading w c b (s\<lparr>memory := m\<rparr>)"
proof -
  have "nat (buffer_size c) \<le> PTRDIFF_MAX" using assms(4) by (simp add: PTRDIFF_MAX_def nat_le_iff)
  then show ?thesis
    using assms int_size_nat [of "buffer_size c"] wf_mem_new [OF assms(7)]
    by (simp add: malloc_plenty reading_def buffer_at_def) (simp add: new_block_def)
qed

lemma run_transfer_ends:
  assumes "mallocs w = plenty" and "malloc plenty (unat (int_size (buffer_size c))) (memory s) = (p, m)"
  shows "transfer w c f p (s\<lparr>memory := m\<rparr>) = None \<Longrightarrow> run_transfer w c f s = None"
    and "transfer w c f p (s\<lparr>memory := m\<rparr>) = return (None, s2) \<Longrightarrow> free_ptr p s2 = Inr s3 \<Longrightarrow>
      run_transfer w c f s = return (0, snd (syscall (kernel w) (Close f) ((log_color w s3)\<lparr>LOOP := False\<rparr>)))"
  using assms by (simp_all add: run_transfer_def case_prod_beta Let_def)

section \<open>Reports\<close>

text \<open>
  What the reports about reading add up to: the counter at the end, less the bytes that were
  counted between the two accesses of a round, which no report mentions.
\<close>

definition read_text :: "int \<Rightarrow> byte list" where
  "read_text d = lit ''Read '' @ dec_int d @ lit '' bytes from server in last 1 seconds''"

lemma report_ok:
  assumes w: "mallocs w = plenty" and b: "buffer_at s b 100" and n: "length text < 100"
  shows "\<exists>s'. report w (Ptr b 0) text s = Inr s' \<and> buffer_at s' b 100"
proof -
  obtain m1 where m1: "memset (memory s) (Ptr b 0) 0 100 = Inr m1" "buffer_at (s\<lparr>memory := m1\<rparr>) b 100"
    using buffer_write [OF b, of "replicate 100 (Some 0)"] by (auto simp: memset_def simp del: write_cells.simps)
  obtain m2 where m2: "store_bytes m1 (Ptr b 0) (text @ [0]) = Inr m2" "buffer_at (s\<lparr>memory := m2\<rparr>) b 100"
    using buffer_write [OF m1(2), of "map Some (text @ [0])"] n by (auto simp: store_bytes_def simp del: write_cells.simps)
  have "buffer_at (log_color w (s\<lparr>memory := m2\<rparr>)) b 100" by (rule buffer_enlarged [OF m2(2) enlarged_log])
  then show ?thesis using m1(1) m2(1) by (simp add: report_def)
qed

lemma metrics_round_reads:
  assumes w: "mallocs w = plenty" and c: "CLIENT_TYPE c = DOWNLINK_CLIENT" and wf: "wf_mem (memory s)"
    and x: "- (2 ^ 31) \<le> read_shown x - lr" "read_shown x - lr < 2 ^ 31"
  shows "\<exists>s'. metrics_round w c x ((texts, lr, lw), s) =
    Inr ((texts @ [read_text (read_shown x - lr)], read_kept x, lw), s') \<and> wf_mem (memory s')"
proof -
  let ?s = "s\<lparr>memory := snd (new_block (Heap (replicate 100 None)) (memory s))\<rparr>" and ?b = "nextb (memory s)"
  have b: "buffer_at ?s ?b 100" using wf by (simp add: buffer_at_def) (simp add: new_block_def)
  have "length (dec_int (read_shown x - lr)) \<le> 11" using x by (rule length_dec_int)
  then have "length (read_text (read_shown x - lr)) < 100" by (simp add: read_text_def)
  then obtain s1 where s1: "report w (Ptr ?b 0) (read_text (read_shown x - lr)) ?s = Inr s1" "buffer_at s1 ?b 100"
    using report_ok [OF w b] by blast
  obtain m2 where "free_ptr (Ptr ?b 0) s1 = Inr (s1\<lparr>memory := m2\<rparr>)" "wf_mem m2"
    using s1(2) by (auto simp: buffer_at_def free_ptr_def)
  moreover have "is_reader c" "\<not> is_writer c"
    using c by (simp_all add: is_reader_def is_writer_def DOWNLINK_CLIENT_def UPLINK_CLIENT_def ECHO_CLIENT_def)
  ultimately show ?thesis using w s1(1)
    by (simp add: metrics_round_def malloc_plenty PTRDIFF_MAX_def read_text_def)
qed

lemma reports_total:
  assumes w: "mallocs w = plenty" and c: "CLIENT_TYPE c = DOWNLINK_CLIENT"
    and "wf_mem (memory s)" and "0 \<le> lr" and "lr < 2 ^ 31"
    and "\<forall>x \<in> set xs. 0 \<le> read_shown x \<and> read_shown x < 2 ^ 31 \<and> 0 \<le> read_kept x \<and> read_kept x < 2 ^ 31"
  shows "\<exists>ds lr' s'. log_metrics w c xs ((texts, lr, lw), s) = Inr ((texts @ map read_text ds, lr', lw), s') \<and>
    sum_list ds = lr' - lr - sum_list (map (\<lambda>x. read_kept x - read_shown x) xs)"
  using assms(3-6)
proof (induction xs arbitrary: texts lr s)
  case Nil
  show ?case by (intro exI [of _ "[]"] exI [of _ lr] exI [of _ s]) simp
next
  case (Cons x xs)
  obtain s1 where s1: "metrics_round w c x ((texts, lr, lw), s) =
      Inr ((texts @ [read_text (read_shown x - lr)], read_kept x, lw), s1)" "wf_mem (memory s1)"
    using metrics_round_reads [OF w c Cons.prems(1), of x lr texts lw] Cons.prems by fastforce
  obtain ds lr' s' where "log_metrics w c xs ((texts @ [read_text (read_shown x - lr)], read_kept x, lw), s1) =
      Inr ((texts @ [read_text (read_shown x - lr)] @ map read_text ds, lr', lw), s')"
    "sum_list ds = lr' - read_kept x - sum_list (map (\<lambda>x. read_kept x - read_shown x) xs)"
    using Cons.IH [OF s1(2), of "read_kept x" "texts @ [read_text (read_shown x - lr)]"] Cons.prems by auto
  then show ?case using s1(1)
    by (intro exI [of _ "(read_shown x - lr) # ds"] exI [of _ lr'] exI [of _ s']) simp
qed

section \<open>Properties of the program\<close>

text \<open>A host whose server answers every read with \<open>d\<close>, and a command line of a downlink client.\<close>

definition sample_world :: "byte list \<Rightarrow> world" where
  "sample_world d = \<lparr>kernel = (\<lambda>h c. case c of
       Socket a b p \<Rightarrow> \<lparr>ret = 3, data = [], err = 0\<rparr>
     | Read f n \<Rightarrow> \<lparr>ret = int (length d), data = d, err = 0\<rparr>
     | _ \<Rightarrow> \<lparr>ret = 0, data = [], err = 0\<rparr>),
     mallocs = plenty, inet_addr = (\<lambda>a. 0), elapsed = (\<lambda>h. []), rand = (\<lambda>h i. 0), sigint = (\<lambda>h. False)\<rparr>"

definition sample_options :: "byte list list" where
  "sample_options = [lit ''--downlink'', lit ''--download-size'', lit ''5'', lit ''4'']"

definition sample_settings :: settings where
  "sample_settings = \<lparr>CLIENT_TYPE = 1, DOWNLOAD_SIZE = 5, UPLOAD_SIZE = -1, buffer_size = 4\<rparr>"

definition sample_client :: mclient where
  "sample_client = \<lparr>memory = mem_of [], trace = [], errno = 0, LOOP = True, BYTES_READ = 0, BYTES_WRITTEN = 0\<rparr>"

lemma sample_facts:
  "calm (sample_world d)" "mallocs (sample_world d) = plenty" "accepting (sample_world d) 3"
  "parse_options sample_options default_settings = Inr sample_settings"
  "names_length (lit ''10.0.0.1'') (lit ''10.0.0.2'') (lit ''80'') sample_settings \<le> 46"
  "LOOP sample_client" "BYTES_READ sample_client = 0" "wf_mem (memory sample_client)"
  "CLIENT_TYPE sample_settings = DOWNLINK_CLIENT" "unat (int_size (buffer_size sample_settings)) = 4"
proof -
  show "calm (sample_world d)" "mallocs (sample_world d) = plenty" "accepting (sample_world d) 3"
    by (simp_all add: calm_def accepting_def sample_world_def)
  show "parse_options sample_options default_settings = Inr sample_settings" by code_simp
  show "names_length (lit ''10.0.0.1'') (lit ''10.0.0.2'') (lit ''80'') sample_settings \<le> 46"
    using length_number_text [of "lit ''80''"] length_dec_int [of 4]
    by (simp add: names_length_def sample_settings_def)
  show "LOOP sample_client" "BYTES_READ sample_client = 0" "wf_mem (memory sample_client)"
    "CLIENT_TYPE sample_settings = DOWNLINK_CLIENT" "unat (int_size (buffer_size sample_settings)) = 4"
    by (simp_all add: sample_client_def sample_settings_def DOWNLINK_CLIENT_def int_size_def)
qed

text \<open>
  C37. With a socket, memory and a server that accepts, the client binds, connects and sends
  the magic number, its type and its buffer size, in this order, before it transfers; if the
  two addresses and the two numbers have more than 46 characters, the first message overflows
  its buffer instead.
\<close>

theorem client_greets:
  fixes s :: "'z mclient_scheme"
  assumes "mallocs w = plenty" and "accepting w f" and "parse_options opts default_settings = Inr c"
  shows "if names_length lip sip port c \<le> 46
    then \<exists>s1. client_main w (prog # lip # sip # port # opts) s = run_transfer w c f s1 \<and>
      leads s (start_calls w c f lip sip port) s1
    else client_main w (prog # lip # sip # port # opts) s = fail OutOfBounds"
proof (cases "names_length lip sip port c \<le> 46")
  case True
  then show ?thesis using client_start [OF assms True] by simp
next
  case False
  then have "46 < names_length lip sip port c" by linarith
  from client_overflow [OF assms(1,3) this] show ?thesis using False by simp
qed

lemma client_greets_witness:
  "\<exists>s1. client_main (sample_world [1]) (lit ''mptcp_client'' # lit ''10.0.0.1'' # lit ''10.0.0.2'' # lit ''80'' # sample_options) sample_client =
      run_transfer (sample_world [1]) sample_settings 3 s1 \<and>
    take 3 (trace s1) = [Write 3 (le32 4), Write 3 [1], Write 3 [127]]"
proof -
  obtain s1 where s1: "client_main (sample_world [1]) (lit ''mptcp_client'' # lit ''10.0.0.1'' # lit ''10.0.0.2'' # lit ''80'' # sample_options) sample_client =
      run_transfer (sample_world [1]) sample_settings 3 s1"
    "leads sample_client (start_calls (sample_world [1]) sample_settings 3 (lit ''10.0.0.1'') (lit ''10.0.0.2'') (lit ''80'')) s1"
    using client_greets [OF sample_facts(2,3,4), where lip = "lit ''10.0.0.1''" and sip = "lit ''10.0.0.2''"
        and port = "lit ''80''" and prog = "lit ''mptcp_client''" and s = sample_client]
    unfolding if_P [OF sample_facts(5)] by blast
  then show ?thesis by (auto simp: leads_def start_calls_def sample_settings_def)
qed

text \<open>
  C33. A downlink client with a download size gets done, and closes its socket, when its names and
  numbers have at most 46 characters, so that they fit its first message, when size and buffer
  together are less than \<open>2 ^ 31\<close>, so that its counter cannot overflow, when nothing interrupts it,
  and when the server sends at least a byte for every read and no block of it starts with the magic
  number: it then has read at least that size, and at most a buffer more.
\<close>

theorem download_completes:
  fixes s :: "'z mclient_scheme"
  assumes w: "calm w" "accepting w f" "serves w f (int_size (buffer_size c))"
    and c: "parse_options opts default_settings = Inr c" "CLIENT_TYPE c = DOWNLINK_CLIENT" "0 < buffer_size c"
      "0 \<le> DOWNLOAD_SIZE c" "DOWNLOAD_SIZE c + buffer_size c < 2 ^ 31"
    and l: "names_length lip sip port c \<le> 46" and s: "LOOP s" "BYTES_READ s = 0" "wf_mem (memory s)"
  shows "\<exists>s'. client_main w (prog # lip # sip # port # opts) s = return (0, s') \<and> hd (trace s') = Close f \<and>
    DOWNLOAD_SIZE c \<le> BYTES_READ s' \<and> BYTES_READ s' \<le> DOWNLOAD_SIZE c + buffer_size c"
proof -
  have p: "mallocs w = plenty" using w(1) by (simp add: calm_def)
  obtain s1 where s1: "client_main w (prog # lip # sip # port # opts) s = run_transfer w c f s1"
    "leads s (start_calls w c f lip sip port) s1" using client_start [OF p w(2) c(1) l] by blast
  then have "LOOP s1" "BYTES_READ s1 = 0" "wf_mem (memory s1)" using s by (simp_all add: leads_def)
  then obtain b m where m: "malloc plenty (unat (int_size (buffer_size c))) (memory s1) = (Ptr b 0, m)"
    "reading w c b (s1\<lparr>memory := m\<rparr>)" using reading_start [OF w(1) c(2,3)] c(4,5) by fastforce
  obtain s2 where s2: "transfer w c f (Ptr b 0) (s1\<lparr>memory := m\<rparr>) = return (None, s2)" "reading w c b s2"
    "DOWNLOAD_SIZE c \<le> BYTES_READ s2" "BYTES_READ s2 \<le> DOWNLOAD_SIZE c + buffer_size c"
    using transfer_completes [OF m(2) w(3)] c(4,5) \<open>BYTES_READ s1 = 0\<close> by auto
  obtain m2 where "free_ptr (Ptr b 0) s2 = Inr (s2\<lparr>memory := m2\<rparr>)"
    using s2(2) by (auto simp: reading_def buffer_at_def free_ptr_def)
  then show ?thesis using run_transfer_ends(2) [OF p m(1) s2(1)] s1(1) s2(3,4)
    by (auto simp: syscall_def Let_def log_color_def)
qed

lemma download_completes_witness:
  "\<exists>s'. client_main (sample_world [1]) (lit ''mptcp_client'' # lit ''10.0.0.1'' # lit ''10.0.0.2'' # lit ''80'' # sample_options) sample_client = return (0, s') \<and> 5 \<le> BYTES_READ s' \<and> BYTES_READ s' \<le> 9"
proof -
  have "serves (sample_world [1]) 3 (int_size (buffer_size sample_settings))"
    using sample_facts(10) by (simp add: serves_def sample_world_def MAGIC_NUMBER_def)
  then show ?thesis
    using download_completes [OF sample_facts(1,3) _ sample_facts(4,9) _ _ _ sample_facts(5-8), of "[1]"]
    by (force simp: sample_settings_def)
qed

text \<open>
  C36. When the server sends fewer bytes than wanted, in whatever blocks, and then has closed the
  connection, or when no number was given and it sends less than \<open>2 ^ 31\<close> bytes, a downlink client
  that was not interrupted, and whose names fit its first message, reads the end of the stream
  over and over: it never returns.
\<close>

theorem eof_spins:
  fixes s :: "'z mclient_scheme"
  assumes w: "calm w" "accepting w f" "runs_dry w f (int_size (buffer_size c)) k" "k < 2 ^ 31"
    and c: "parse_options opts default_settings = Inr c" "CLIENT_TYPE c = DOWNLINK_CLIENT" "0 < buffer_size c"
      "DOWNLOAD_SIZE c = -1 \<or> k < DOWNLOAD_SIZE c"
    and l: "names_length lip sip port c \<le> 46"
    and s: "LOOP s" "BYTES_READ s = 0" "wf_mem (memory s)" "brought w f (trace s) = 0"
  shows "client_main w (prog # lip # sip # port # opts) s = None"
proof -
  have p: "mallocs w = plenty" using w(1) by (simp add: calm_def)
  have "buffer_size c < 2 ^ 31" using settings_ok_parse [OF settings_ok_default c(1)] by (simp add: settings_ok_def)
  moreover obtain s1 where s1: "client_main w (prog # lip # sip # port # opts) s = run_transfer w c f s1"
    "leads s (start_calls w c f lip sip port) s1" using client_start [OF p w(2) c(1) l] by blast
  moreover have s0: "LOOP s1" "BYTES_READ s1 = 0" "wf_mem (memory s1)" using s s1 by (simp_all add: leads_def)
  ultimately obtain b m where m: "malloc plenty (unat (int_size (buffer_size c))) (memory s1) = (Ptr b 0, m)"
    "reading w c b (s1\<lparr>memory := m\<rparr>)" using reading_start [OF w(1) c(2,3)] by fastforce
  have "brought w f (trace s1) = 0" using s1(2) s(4) by (simp add: leads_def start_calls_def)
  then have "transfer w c f (Ptr b 0) (s1\<lparr>memory := m\<rparr>) = None"
    using transfer_spins [OF m(2) w(3,4)] c(4) s0(2) by (simp add: wants_more_def)
  then show ?thesis using run_transfer_ends(1) [OF p m(1)] s1(1) by simp
qed

text \<open>A server that sends the bytes \<open>bs\<close> and closes.\<close>

fun read_bytes :: "call list \<Rightarrow> nat" where
  "read_bytes [] = 0"
| "read_bytes (Read f n # h) = unat n + read_bytes h"
| "read_bytes (c # h) = read_bytes h"

definition closing_world :: "byte list \<Rightarrow> world" where
  "closing_world bs = (sample_world [])\<lparr>kernel := (\<lambda>h c. case c of
     Read f n \<Rightarrow> (let d = take (unat n) (drop (read_bytes h) bs) in \<lparr>ret = int (length d), data = d, err = 0\<rparr>)
   | _ \<Rightarrow> kernel (sample_world []) h c)\<rparr>"

lemma closing_brought: "brought (closing_world bs) f h \<le> int (min (read_bytes h) (length bs))"
  by (induction h rule: read_bytes.induct) (auto simp: closing_world_def Let_def)

lemma closing_runs_dry: "runs_dry (closing_world bs) f len (int (length bs))"
  unfolding runs_dry_def
proof
  fix h
  show "let r = kernel (closing_world bs) h (Read f len) in ret r = int (length (data r)) \<and>
      length (data r) \<le> unat len \<and> brought (closing_world bs) f h + ret r \<le> int (length bs)"
    using closing_brought [of bs f h] by (auto simp: closing_world_def Let_def)
qed

lemma eof_spins_witness:
  "client_main (closing_world [1, 2, 3]) (lit ''mptcp_client'' # lit ''10.0.0.1'' # lit ''10.0.0.2'' # lit ''80'' # sample_options) sample_client = None"
proof -
  have w: "calm (closing_world [1, 2, 3])" "accepting (closing_world [1, 2, 3]) 3"
    by (simp_all add: calm_def accepting_def closing_world_def sample_world_def)
  have "brought (closing_world [1, 2, 3]) 3 (trace sample_client) = 0" by (simp add: sample_client_def)
  then show ?thesis
    using eof_spins [OF w closing_runs_dry _ sample_facts(4,9) _ _ sample_facts(5-8)]
    by (simp add: sample_settings_def)
qed

end
