(* ===== verification/MptcpTransfer.thy ===== *)
theory MptcpTransfer
  imports MptcpClient
begin

text \<open>
  The transfers of \<open>evaluation/mptcp_client.c\<close> that write: an uplink client sends blocks of random
  bytes until its upload size is reached, an echo client sends back what it reads. The model of
  the program is in \<open>MptcpClient\<close>; here are the calls that such clients make, in their order.
\<close>

section \<open>Writing\<close>

definition wants_upload :: "settings \<Rightarrow> int \<Rightarrow> bool" where
  "wants_upload c k \<longleftrightarrow> UPLOAD_SIZE c = -1 \<or> k < UPLOAD_SIZE c"

definition random_block :: "world \<Rightarrow> settings \<Rightarrow> call list \<Rightarrow> byte list" where
  "random_block w c h = map (\<lambda>i. word_of_int (rand w h i mod 256)) [0 ..< nat (buffer_size c)]"

lemma length_random_block: "length (random_block w c h) = nat (buffer_size c)"
  by (simp add: random_block_def)

lemma fill_random_ok:
  assumes "bytes_at m b = Some cs" and "i + k = length cs"
  shows "fill_random rnd (Ptr b 0) i k m =
    Inr (put_cells m b (take i cs @ map (\<lambda>j. Some (word_of_int (rnd j mod 256))) [i ..< i + k]))"
  using assms
proof (induction k arbitrary: i m cs)
  case 0
  then show ?case using put_cells_same [OF 0(1)] by simp
next
  case (Suc k)
  let ?x = "Some (word_of_int (rnd i mod 256)) :: cell"
  let ?m = "put_cells m b (overwrite i [?x] cs)"
  have st: "store_bytes m (padd (Ptr b 0) i) [word_of_int (rnd i mod 256)] = Inr ?m"
    using write_cells_put [OF Suc.prems(1), of i "[?x]" cs] put_cells_same [OF Suc.prems(1)] Suc.prems(2)
    by (simp add: store_bytes_def)
  have o: "overwrite i [?x] cs = take i cs @ ?x # drop (Suc i) cs" by (simp add: overwrite_def)
  have "fill_random rnd (Ptr b 0) (Suc i) k ?m =
      Inr (put_cells ?m b (take (Suc i) (overwrite i [?x] cs) @
        map (\<lambda>j. Some (word_of_int (rnd j mod 256))) [Suc i ..< Suc i + k]))"
    by (rule Suc.IH) (use Suc.prems bytes_at_put_cells [OF Suc.prems(1)] in \<open>simp_all add: o\<close>)
  moreover have "take (Suc i) (overwrite i [?x] cs) = take i cs @ [?x]"
    using Suc.prems(2) by (simp add: o min_def)
  moreover have "[i ..< i + Suc k] = i # [Suc i ..< Suc i + k]" by (simp add: upt_rec)
  ultimately show ?case using st by (simp del: write_cells.simps upt_Suc)
qed

text \<open>The block that a round writes: what is in the buffer, or random bytes.\<close>

lemma block_to_write:
  assumes b: "buffer_at s b n" "n = nat (buffer_size c)" "unat (int_size (buffer_size c)) = n"
    and out: "if CLIENT_TYPE c = ECHO_CLIENT then has_bytes (memory s) (Ptr b 0) out \<and> length out = n
      else out = random_block w c (trace s)"
  shows "\<exists>m. (if CLIENT_TYPE c \<noteq> ECHO_CLIENT
      then fill_random (rand w (trace s)) (Ptr b 0) 0 (nat (buffer_size c)) (memory s) else Inr (memory s)) = Inr m \<and>
    load_bytes m (Ptr b 0) (unat (int_size (buffer_size c))) = Inr out \<and> buffer_at (s\<lparr>memory := m\<rparr>) b n"
proof (cases "CLIENT_TYPE c = ECHO_CLIENT")
  case True
  then have "load_bytes (memory s) (Ptr b 0) n = Inr (window 0 n out)" "length out = n"
    using load_bytes_has [of "memory s" "Ptr b 0" out 0 n] out by simp_all
  then show ?thesis using True b by (intro exI [of _ "memory s"]) (simp add: buffer_at_def window_def)
next
  case False
  obtain cs where cs: "blocks (memory s) b = Some (Heap cs)" "length cs = n" "wf_mem (memory s)"
    using b(1) by (auto simp: buffer_at_def)
  then have at: "bytes_at (memory s) b = Some cs" by (simp add: bytes_at_def)
  let ?m = "put_cells (memory s) b (map Some out)"
  have o: "out = random_block w c (trace s)" "length out = n" using out False b(2) by (simp_all add: length_random_block)
  have fill: "fill_random (rand w (trace s)) (Ptr b 0) 0 (nat (buffer_size c)) (memory s) = Inr ?m"
    using fill_random_ok [OF at, of 0 "nat (buffer_size c)"] cs(2) b(2) o(1) by (simp add: random_block_def comp_def)
  have "has_bytes ?m (Ptr b 0) out" using bytes_at_put_cells [OF at] by (simp add: window_def)
  then have "load_bytes ?m (Ptr b 0) n = Inr out"
    using load_bytes_has [of ?m "Ptr b 0" out 0 n] o(2) by (simp add: window_def)
  moreover have "buffer_at (s\<lparr>memory := ?m\<rparr>) b n" using cs o(2) by (simp add: buffer_at_def) (simp add: put_cells_def)
  ultimately show ?thesis using False fill b(3) by (intro exI [of _ ?m]) simp
qed

lemma write_part_ok:
  assumes w: "calm w" and b: "buffer_at s b n" "n = nat (buffer_size c)" "unat (int_size (buffer_size c)) = n"
    and out: "if CLIENT_TYPE c = ECHO_CLIENT then has_bytes (memory s) (Ptr b 0) out \<and> length out = n
      else out = random_block w c (trace s)"
    and v: "v = ret (kernel w (trace s) (Write f out))" "0 \<le> v" "0 \<le> BYTES_WRITTEN s" "v < 2 ^ 31"
  shows "if BYTES_WRITTEN s + v < 2 ^ 31
    then \<exists>s'. write_part w c f (Ptr b 0) s = Inr (if wants_upload c (BYTES_WRITTEN s + v) then Fall_through else Break, s') \<and>
      trace s' = Write f out # trace s \<and> BYTES_WRITTEN s' = BYTES_WRITTEN s + v \<and>
      BYTES_READ s' = BYTES_READ s \<and> LOOP s' = LOOP s \<and> buffer_at s' b n
    else write_part w c f (Ptr b 0) s = Inl SignedOverflow"
proof -
  let ?k = "BYTES_WRITTEN s + v"
  obtain m where m: "(if CLIENT_TYPE c \<noteq> ECHO_CLIENT
      then fill_random (rand w (trace s)) (Ptr b 0) 0 (nat (buffer_size c)) (memory s) else Inr (memory s)) = Inr m"
    "load_bytes m (Ptr b 0) (unat (int_size (buffer_size c))) = Inr out" "buffer_at (s\<lparr>memory := m\<rparr>) b n"
    using block_to_write [OF b out] by blast
  have vi: "to_int v = v" using v(2,4) by (intro to_int_id) simp_all
  have call: "syscall (kernel w) (Write f out) (s\<lparr>memory := m\<rparr>) = (v, s\<lparr>memory := m, trace := Write f out # trace s\<rparr>)"
    using syscall_ok [of "kernel w" "s\<lparr>memory := m\<rparr>" "Write f out"] v(1,2) by simp
  define s1 where "s1 = s\<lparr>memory := m, trace := Write f out # trace s, BYTES_WRITTEN := ?k\<rparr>"
  have b1: "buffer_at s1 b n" using m(3) by (simp add: s1_def buffer_at_def)
  have part: "write_part w c f (Ptr b 0) s =
    (if ?k < 2 ^ 31
     then if wants_upload c ?k then bindE (clear_buffer c (Ptr b 0) s1) (\<lambda>s. Inr (Fall_through, s))
       else bindE (report_time w (lit ''Time to upload '' @ dec_int ?k @ lit '' bytes'') s1) (\<lambda>s. Inr (Break, s))
     else Inl SignedOverflow)"
    unfolding write_part_def m(1) bindE.simps m(2) call
    using v(2,3) by (simp add: Let_def vi add_int_def s1_def wants_upload_def not_le)
  show ?thesis
  proof (cases "?k < 2 ^ 31")
    case k: True
    show ?thesis
    proof (cases "wants_upload c ?k")
      case True
      obtain m2 where "clear_buffer c (Ptr b 0) s1 = Inr (s1\<lparr>memory := m2\<rparr>)" "buffer_at (s1\<lparr>memory := m2\<rparr>) b n"
        using clear_buffer_ok [OF b1 b(3)] by blast
      then show ?thesis using True k part by (simp add: s1_def)
    next
      case False
      have "length (dec_int ?k) \<le> 11" using k v(2,3) by (intro length_dec_int) simp_all
      moreover have "length (elapsed w (trace s1)) \<le> 40" using w by (simp add: calm_def)
      ultimately obtain s2 where s2: "report_time w (lit ''Time to upload '' @ dec_int ?k @ lit '' bytes'') s1 = Inr s2" "enlarged s1 s2"
        using report_time_ok [of w "lit ''Time to upload '' @ dec_int ?k @ lit '' bytes''" s1] w by (auto simp: calm_def)
      then show ?thesis
        using False k part enlarged_mclient [OF s2(2)] buffer_enlarged [OF b1 s2(2)] by (simp add: s1_def)
    qed
  qed (simp add: part)
qed

section \<open>The state of a transfer\<close>

text \<open>What every round finds: the buffer in place, \<open>LOOP\<close> set, and counters in range.\<close>

definition in_transfer :: "world \<Rightarrow> settings \<Rightarrow> nat \<Rightarrow> 'z mclient_scheme \<Rightarrow> bool" where
  "in_transfer w c b s \<longleftrightarrow> calm w \<and> 0 < buffer_size c \<and> buffer_size c < 2 ^ 31 \<and>
     buffer_at s b (nat (buffer_size c)) \<and> LOOP s \<and>
     0 \<le> BYTES_READ s \<and> BYTES_READ s < 2 ^ 31 \<and> 0 \<le> BYTES_WRITTEN s \<and> BYTES_WRITTEN s < 2 ^ 31"

lemma in_transfer_buffer:
  assumes "in_transfer w c b s"
  shows "calm w" "buffer_at s b (nat (buffer_size c))" "unat (int_size (buffer_size c)) = nat (buffer_size c)"
    "0 < nat (buffer_size c)" "nat (buffer_size c) < 2 ^ 31"
  using assms int_size_nat [of "buffer_size c"] by (simp_all add: in_transfer_def nat_less_iff)

lemma in_transfer_deliver: "in_transfer w c b s \<Longrightarrow> deliver w s = Inr s \<and> LOOP s"
  by (simp add: in_transfer_def deliver_def calm_def)

text \<open>One round of the loop, once it is known how its body ends.\<close>

lemma transfer_round:
  assumes "in_transfer w c b s"
  shows "transfer_step w c f p s = Inl e \<Longrightarrow> transfer w c f p s = fail e"
    and "transfer_step w c f p s = Inr (Break, s') \<Longrightarrow> transfer w c f p s = return (None, s')"
    and "transfer_step w c f p s = Inr (Continue, s') \<Longrightarrow> transfer w c f p s = transfer w c f p s'"
    and "transfer_step w c f p s = Inr (Fall_through, s') \<Longrightarrow> transfer w c f p s = transfer w c f p s'"
  using in_transfer_deliver [OF assms] by (simp_all add: transfer.simps [of w c f p s])

text \<open>A server that takes at least a byte of every block of \<open>n\<close> bytes.\<close>

definition takes :: "world \<Rightarrow> int \<Rightarrow> nat \<Rightarrow> bool" where
  "takes w f n \<longleftrightarrow> (\<forall>h bs. length bs = n \<longrightarrow>
     (let v = ret (kernel w h (Write f bs)) in 0 < v \<and> v \<le> int n))"

section \<open>Uplink\<close>

lemma upload_round:
  assumes t: "in_transfer w c b s" and c: "CLIENT_TYPE c = UPLINK_CLIENT" and k: "takes w f (nat (buffer_size c))"
    and v: "v = ret (kernel w (trace s) (Write f (random_block w c (trace s))))"
  shows "0 < v \<and> v \<le> buffer_size c \<and>
    (if BYTES_WRITTEN s + v < 2 ^ 31
     then \<exists>s'. transfer_step w c f (Ptr b 0) s = Inr (if wants_upload c (BYTES_WRITTEN s + v) then Fall_through else Break, s') \<and>
       trace s' = Write f (random_block w c (trace s)) # trace s \<and> BYTES_WRITTEN s' = BYTES_WRITTEN s + v \<and>
       in_transfer w c b s'
     else transfer_step w c f (Ptr b 0) s = Inl SignedOverflow)"
proof -
  note b = in_transfer_buffer [OF t]
  obtain m where m: "clear_buffer c (Ptr b 0) s = Inr (s\<lparr>memory := m\<rparr>)" "buffer_at (s\<lparr>memory := m\<rparr>) b (nat (buffer_size c))"
    using clear_buffer_ok [OF b(2,3)] by blast
  have kind: "\<not> is_reader c" "is_writer c" "CLIENT_TYPE c \<noteq> ECHO_CLIENT"
    using c by (simp_all add: is_reader_def is_writer_def DOWNLINK_CLIENT_def UPLINK_CLIENT_def ECHO_CLIENT_def)
  have range: "0 < v" "v \<le> int (nat (buffer_size c))"
    using k v length_random_block [of w c "trace s"] by (simp_all add: takes_def Let_def)
  then have v31: "v < 2 ^ 31" using t by (simp add: in_transfer_def)
  have step: "transfer_step w c f (Ptr b 0) s = write_part w c f (Ptr b 0) (s\<lparr>memory := m\<rparr>)"
    using m(1) kind by (simp add: transfer_step_def)
  have out: "if CLIENT_TYPE c = ECHO_CLIENT then has_bytes (memory (s\<lparr>memory := m\<rparr>)) (Ptr b 0) (random_block w c (trace s)) \<and>
      length (random_block w c (trace s)) = nat (buffer_size c)
    else random_block w c (trace s) = random_block w c (trace (s\<lparr>memory := m\<rparr>))"
    using kind(3) by simp
  show ?thesis
    using write_part_ok [OF b(1) m(2) refl b(3) out, of v f] v range v31 t
    by (auto simp: step in_transfer_def split: if_splits)
qed

text \<open>The calls of \<open>k\<close> rounds: every block is drawn after the calls before it.\<close>

fun uploads :: "world \<Rightarrow> settings \<Rightarrow> int \<Rightarrow> nat \<Rightarrow> call list \<Rightarrow> call list" where
  "uploads w c f 0 h = h"
| "uploads w c f (Suc k) h = uploads w c f k (Write f (random_block w c h) # h)"

lemma transfer_uploads:
  assumes "in_transfer w c b s" and c: "CLIENT_TYPE c = UPLINK_CLIENT" and k: "takes w f (nat (buffer_size c))"
    and u: "UPLOAD_SIZE c \<noteq> -1" "UPLOAD_SIZE c + buffer_size c < 2 ^ 31" and "BYTES_WRITTEN s \<le> UPLOAD_SIZE c"
  shows "\<exists>s' k. transfer w c f (Ptr b 0) s = return (None, s') \<and> in_transfer w c b s' \<and>
    trace s' = uploads w c f k (trace s) \<and>
    UPLOAD_SIZE c \<le> BYTES_WRITTEN s' \<and> BYTES_WRITTEN s' \<le> UPLOAD_SIZE c + buffer_size c"
  using assms(1,6)
proof (induction "nat (UPLOAD_SIZE c - BYTES_WRITTEN s)" arbitrary: s rule: less_induct)
  case less
  define v where "v = ret (kernel w (trace s) (Write f (random_block w c (trace s))))"
  have v: "0 < v" "v \<le> buffer_size c" using upload_round [OF less.prems(1) c k v_def] by simp_all
  then have "BYTES_WRITTEN s + v < 2 ^ 31" using less.prems(2) u(2) by linarith
  then obtain s' where s': "transfer_step w c f (Ptr b 0) s = Inr (if wants_upload c (BYTES_WRITTEN s + v) then Fall_through else Break, s')"
    "trace s' = uploads w c f 1 (trace s)" "BYTES_WRITTEN s' = BYTES_WRITTEN s + v" "in_transfer w c b s'"
    using upload_round [OF less.prems(1) c k v_def] by (auto simp del: uploads.simps(2) simp: uploads.simps(2) [of _ _ _ 0])
  show ?case
  proof (cases "wants_upload c (BYTES_WRITTEN s + v)")
    case True
    then have "BYTES_WRITTEN s' \<le> UPLOAD_SIZE c" "nat (UPLOAD_SIZE c - BYTES_WRITTEN s') < nat (UPLOAD_SIZE c - BYTES_WRITTEN s)"
      using s'(3) u(1) v(1) by (auto simp: wants_upload_def)
    from less.hyps [OF this(2) s'(4) this(1)] obtain s2 k where
      "transfer w c f (Ptr b 0) s' = return (None, s2)" "in_transfer w c b s2" "trace s2 = uploads w c f (Suc k) (trace s)"
      "UPLOAD_SIZE c \<le> BYTES_WRITTEN s2" "BYTES_WRITTEN s2 \<le> UPLOAD_SIZE c + buffer_size c"
      using s'(2) by auto
    then show ?thesis using transfer_round(4) [OF less.prems(1)] s'(1) True by (intro exI [of _ s2] exI [of _ "Suc k"]) simp
  next
    case False
    then have "UPLOAD_SIZE c \<le> BYTES_WRITTEN s'" "BYTES_WRITTEN s' \<le> UPLOAD_SIZE c + buffer_size c"
      using s'(3) v(2) less.prems(2) by (auto simp: wants_upload_def)
    then show ?thesis
      using transfer_round(2) [OF less.prems(1)] s' False by (intro exI [of _ s'] exI [of _ 1]) simp
  qed
qed

text \<open>Without an upload size only the overflow of the counter ends the loop.\<close>

lemma transfer_overflows:
  assumes "in_transfer w c b s" and c: "CLIENT_TYPE c = UPLINK_CLIENT" and k: "takes w f (nat (buffer_size c))"
    and u: "UPLOAD_SIZE c = -1"
  shows "transfer w c f (Ptr b 0) s = fail SignedOverflow"
  using assms(1)
proof (induction "nat (2 ^ 31 - BYTES_WRITTEN s)" arbitrary: s rule: less_induct)
  case less
  define v where "v = ret (kernel w (trace s) (Write f (random_block w c (trace s))))"
  note round = upload_round [OF less.prems c k v_def]
  show ?case
  proof (cases "BYTES_WRITTEN s + v < 2 ^ 31")
    case True
    then obtain s' where s': "transfer_step w c f (Ptr b 0) s = Inr (Fall_through, s')"
      "BYTES_WRITTEN s' = BYTES_WRITTEN s + v" "in_transfer w c b s'"
      using round u by (auto simp: wants_upload_def)
    then have "nat (2 ^ 31 - BYTES_WRITTEN s') < nat (2 ^ 31 - BYTES_WRITTEN s)" using round True by simp
    from less.hyps [OF this s'(3)] show ?thesis using transfer_round(4) [OF less.prems s'(1)] by simp
  next
    case False
    then show ?thesis using transfer_round(1) [OF less.prems] round by simp
  qed
qed

section \<open>Echo\<close>

text \<open>What an echo client sends back: what it read, with zeros up to the size of its buffer.\<close>

definition echo_block :: "world \<Rightarrow> settings \<Rightarrow> int \<Rightarrow> call list \<Rightarrow> byte list" where
  "echo_block w c f h = padded (nat (buffer_size c)) (data (kernel w h (Read f (int_size (buffer_size c)))))"

fun echoes :: "world \<Rightarrow> settings \<Rightarrow> int \<Rightarrow> nat \<Rightarrow> call list \<Rightarrow> call list" where
  "echoes w c f 0 h = h"
| "echoes w c f (Suc k) h =
     echoes w c f k (Write f (echo_block w c f h) # Read f (int_size (buffer_size c)) # h)"

lemma served:
  assumes "in_transfer w c b s" and "serves w f (int_size (buffer_size c))"
    and "r = kernel w (trace s) (Read f (int_size (buffer_size c)))"
  shows "ret r = int (length (data r))" "0 < ret r" "length (data r) \<le> nat (buffer_size c)"
    "ret r \<le> buffer_size c" "data r = [] \<or> sint (hd (data r)) \<noteq> MAGIC_NUMBER"
proof -
  have bs: "0 < buffer_size c" using assms(1) by (simp add: in_transfer_def)
  have r: "ret r = int (length (data r)) \<and> 0 < length (data r) \<and> length (data r) \<le> nat (buffer_size c) \<and>
      sint (hd (data r)) \<noteq> MAGIC_NUMBER"
    using assms(2,3) in_transfer_buffer(3) [OF assms(1)] by (simp add: serves_def Let_def)
  then show "ret r = int (length (data r))" "0 < ret r" "length (data r) \<le> nat (buffer_size c)"
    "data r = [] \<or> sint (hd (data r)) \<noteq> MAGIC_NUMBER" by auto
  show "ret r \<le> buffer_size c" using r bs by (simp add: le_nat_iff)
qed

lemma echo_turn:
  assumes t: "in_transfer w c b s" and c: "CLIENT_TYPE c = ECHO_CLIENT" "UPLOAD_SIZE c = -1"
    and srv: "serves w f (int_size (buffer_size c))" "takes w f (nat (buffer_size c))"
    and r: "r = kernel w (trace s) (Read f (int_size (buffer_size c)))"
    and k: "BYTES_READ s + ret r < 2 ^ 31" "BYTES_WRITTEN s + buffer_size c < 2 ^ 31"
  shows "\<exists>s'. transfer_step w c f (Ptr b 0) s =
      Inr (if wants_more c (BYTES_READ s + ret r) then Fall_through else Break, s') \<and>
    in_transfer w c b s' \<and> BYTES_READ s' = BYTES_READ s + ret r \<and>
    BYTES_WRITTEN s' \<le> BYTES_WRITTEN s + buffer_size c \<and>
    trace s' = (if wants_more c (BYTES_READ s + ret r) then echoes w c f 1 (trace s)
      else Read f (int_size (buffer_size c)) # trace s)"
proof -
  note b = in_transfer_buffer [OF t] and got = served [OF t srv(1) r]
  let ?n = "nat (buffer_size c)" and ?read = "Read f (int_size (buffer_size c))"
  obtain m where m: "clear_buffer c (Ptr b 0) s = Inr (s\<lparr>memory := m\<rparr>)" "buffer_at (s\<lparr>memory := m\<rparr>) b ?n"
    "blocks m b = Some (Heap (replicate ?n (Some 0)))" using clear_buffer_ok [OF b(2,3)] by blast
  have kind: "is_reader c" "is_writer c" "CLIENT_TYPE c \<noteq> DOWNLINK_CLIENT"
    using c by (simp_all add: is_reader_def is_writer_def DOWNLINK_CLIENT_def UPLINK_CLIENT_def ECHO_CLIENT_def)
  have "0 \<le> BYTES_READ (s\<lparr>memory := m\<rparr>)" using t by (simp add: in_transfer_def)
  then obtain s1 where s1: "read_part w c f (Ptr b 0) (s\<lparr>memory := m\<rparr>) =
      Inr (if wants_more c (BYTES_READ s + ret r) then Fall_through else Break, s1)"
    "trace s1 = ?read # trace s" "BYTES_READ s1 = BYTES_READ s + ret r" "BYTES_WRITTEN s1 = BYTES_WRITTEN s"
    "LOOP s1 = LOOP s" "buffer_at s1 b ?n"
    "wants_more c (BYTES_READ s + ret r) \<Longrightarrow> has_bytes (memory s1) (Ptr b 0) (padded ?n (data r))"
    using read_part_ok [OF b(1,3,4) m(2), of r f] m(3) r got k(1) kind(3) by auto
  have in1: "in_transfer w c b s1" using t s1(3-6) got(2) k(1) by (simp add: in_transfer_def)
  show ?thesis
  proof (cases "wants_more c (BYTES_READ s + ret r)")
    case False
    then show ?thesis using m(1) s1 kind in1 t by (simp add: transfer_step_def in_transfer_def)
  next
    case True
    define v where "v = ret (kernel w (trace s1) (Write f (padded ?n (data r))))"
    have out: "if CLIENT_TYPE c = ECHO_CLIENT
      then has_bytes (memory s1) (Ptr b 0) (padded ?n (data r)) \<and> length (padded ?n (data r)) = ?n
      else padded ?n (data r) = random_block w c (trace s1)"
      using s1(7) [OF True] c(1) length_padded [OF got(3)] by simp
    have v: "0 < v" "v \<le> buffer_size c"
      using srv(2) length_padded [OF got(3)] t by (simp_all add: takes_def v_def Let_def in_transfer_def)
    have w31: "v < 2 ^ 31" "BYTES_WRITTEN s1 + v < 2 ^ 31" "0 \<le> v" "0 \<le> BYTES_WRITTEN s1"
      using v k(2) t s1(4) by (simp_all add: in_transfer_def)
    obtain s2 where s2: "write_part w c f (Ptr b 0) s1 = Inr (Fall_through, s2)"
      "trace s2 = Write f (padded ?n (data r)) # trace s1" "BYTES_WRITTEN s2 = BYTES_WRITTEN s1 + v"
      "BYTES_READ s2 = BYTES_READ s1" "LOOP s2 = LOOP s1" "buffer_at s2 b ?n"
      using write_part_ok [OF b(1) s1(6) refl b(3) out v_def w31(3,4,1)] w31(2) c(2) by (auto simp: wants_upload_def)
    have "in_transfer w c b s2" using in1 s2 w31 by (simp add: in_transfer_def)
    moreover have "transfer_step w c f (Ptr b 0) s = Inr (Fall_through, s2)"
      using m(1) s1(1) s2(1) kind True by (simp add: transfer_step_def)
    ultimately show ?thesis using True s1(2-4) s2(2-4) v(2) r by (simp add: echo_block_def)
  qed
qed

lemma transfer_echoes:
  assumes "in_transfer w c b s" and c: "CLIENT_TYPE c = ECHO_CLIENT" "UPLOAD_SIZE c = -1" "DOWNLOAD_SIZE c \<noteq> -1"
    and srv: "serves w f (int_size (buffer_size c))" "takes w f (nat (buffer_size c))"
    and d: "BYTES_READ s \<le> DOWNLOAD_SIZE c" "DOWNLOAD_SIZE c + buffer_size c < 2 ^ 31"
      "BYTES_WRITTEN s + (DOWNLOAD_SIZE c - BYTES_READ s + 1) * buffer_size c < 2 ^ 31"
  shows "\<exists>s' k. transfer w c f (Ptr b 0) s = return (None, s') \<and> in_transfer w c b s' \<and>
    trace s' = Read f (int_size (buffer_size c)) # echoes w c f k (trace s) \<and>
    DOWNLOAD_SIZE c \<le> BYTES_READ s' \<and> BYTES_READ s' \<le> DOWNLOAD_SIZE c + buffer_size c"
  using assms(1) d(1,3)
proof (induction "nat (DOWNLOAD_SIZE c - BYTES_READ s)" arbitrary: s rule: less_induct)
  case less
  define r where "r = kernel w (trace s) (Read f (int_size (buffer_size c)))"
  note got = served [OF less.prems(1) srv(1) r_def]
  have bs: "0 < buffer_size c" using less.prems(1) by (simp add: in_transfer_def)
  have k: "BYTES_READ s + ret r < 2 ^ 31" using got(4) less.prems(2) d(2) by linarith
  have "(1 :: int) * buffer_size c \<le> (DOWNLOAD_SIZE c - BYTES_READ s + 1) * buffer_size c"
    using less.prems(2) bs by (intro mult_right_mono) simp_all
  then have k2: "BYTES_WRITTEN s + buffer_size c < 2 ^ 31" using less.prems(3) by linarith
  obtain s' where s': "transfer_step w c f (Ptr b 0) s =
      Inr (if wants_more c (BYTES_READ s + ret r) then Fall_through else Break, s')"
    "in_transfer w c b s'" "BYTES_READ s' = BYTES_READ s + ret r" "BYTES_WRITTEN s' \<le> BYTES_WRITTEN s + buffer_size c"
    "trace s' = (if wants_more c (BYTES_READ s + ret r) then echoes w c f 1 (trace s)
      else Read f (int_size (buffer_size c)) # trace s)"
    using echo_turn [OF less.prems(1) c(1,2) srv r_def k k2] by blast
  show ?case
  proof (cases "wants_more c (BYTES_READ s + ret r)")
    case True
    then have le: "BYTES_READ s' \<le> DOWNLOAD_SIZE c" "nat (DOWNLOAD_SIZE c - BYTES_READ s') < nat (DOWNLOAD_SIZE c - BYTES_READ s)"
      using s'(3) c(3) got(2) by (auto simp: wants_more_def)
    have "(DOWNLOAD_SIZE c - BYTES_READ s' + 1) * buffer_size c \<le> (DOWNLOAD_SIZE c - BYTES_READ s) * buffer_size c"
      using s'(3) got(2) bs by (intro mult_right_mono) simp_all
    then have "BYTES_WRITTEN s' + (DOWNLOAD_SIZE c - BYTES_READ s' + 1) * buffer_size c < 2 ^ 31"
      using s'(4) less.prems(3) by (simp add: algebra_simps)
    from less.hyps [OF le(2) s'(2) le(1) this] obtain s2 k where
      "transfer w c f (Ptr b 0) s' = return (None, s2)" "in_transfer w c b s2"
      "trace s2 = Read f (int_size (buffer_size c)) # echoes w c f (Suc k) (trace s)"
      "DOWNLOAD_SIZE c \<le> BYTES_READ s2" "BYTES_READ s2 \<le> DOWNLOAD_SIZE c + buffer_size c"
      using s'(5) True by auto
    then show ?thesis using transfer_round(4) [OF less.prems(1)] s'(1) True by (intro exI [of _ s2] exI [of _ "Suc k"]) simp
  next
    case False
    then have "DOWNLOAD_SIZE c \<le> BYTES_READ s'" "BYTES_READ s' \<le> DOWNLOAD_SIZE c + buffer_size c"
      using s'(3) got(4) less.prems(2) by (auto simp: wants_more_def)
    then show ?thesis
      using transfer_round(2) [OF less.prems(1)] s' False by (intro exI [of _ s'] exI [of _ 0]) simp
  qed
qed

section \<open>The whole program\<close>

text \<open>The program up to its loop, and from the end of its loop.\<close>

lemma client_runs:
  fixes s :: "'z mclient_scheme"
  assumes w: "calm w" "accepting w f" and c: "parse_options opts default_settings = Inr c" "0 < buffer_size c"
    and l: "names_length lip sip port c \<le> 46"
    and s: "LOOP s" "BYTES_READ s = 0" "BYTES_WRITTEN s = 0" "wf_mem (memory s)"
  shows "\<exists>b (s1 :: 'z mclient_scheme). in_transfer w c b s1 \<and> trace s1 = start_calls w c f lip sip port @ trace s \<and>
    BYTES_READ s1 = 0 \<and> BYTES_WRITTEN s1 = 0 \<and>
    (\<forall>e. transfer w c f (Ptr b 0) s1 = fail e \<longrightarrow> client_main w (prog # lip # sip # port # opts) s = fail e) \<and>
    (\<forall>s2. transfer w c f (Ptr b 0) s1 = return (None, s2) \<and> in_transfer w c b s2 \<longrightarrow>
      (\<exists>s'. client_main w (prog # lip # sip # port # opts) s = return (0, s') \<and> trace s' = Close f # trace s2 \<and>
        BYTES_READ s' = BYTES_READ s2 \<and> BYTES_WRITTEN s' = BYTES_WRITTEN s2))"
proof -
  have p: "mallocs w = plenty" using w(1) by (simp add: calm_def)
  have bs: "buffer_size c < 2 ^ 31" using settings_ok_parse [OF settings_ok_default c(1)] by (simp add: settings_ok_def)
  obtain s0 where s0: "client_main w (prog # lip # sip # port # opts) s = run_transfer w c f s0"
    "leads s (start_calls w c f lip sip port) s0" using client_start [OF p w(2) c(1) l] by blast
  then have facts: "LOOP s0" "BYTES_READ s0 = 0" "BYTES_WRITTEN s0 = 0" "wf_mem (memory s0)"
    "trace s0 = start_calls w c f lip sip port @ trace s" using s by (simp_all add: leads_def)
  let ?n = "nat (buffer_size c)" and ?b = "nextb (memory s0)"
  let ?m = "snd (new_block (Heap (replicate ?n None)) (memory s0))"
  have n: "unat (int_size (buffer_size c)) = ?n" using int_size_nat [of "buffer_size c"] c(2) bs by simp
  have "?n \<le> PTRDIFF_MAX" using bs by (simp add: PTRDIFF_MAX_def nat_le_iff)
  then have m: "malloc plenty (unat (int_size (buffer_size c))) (memory s0) = (Ptr ?b 0, ?m)"
    by (simp add: n malloc_plenty)
  have "buffer_at (s0\<lparr>memory := ?m\<rparr>) ?b ?n"
    using wf_mem_new [OF facts(4)] by (simp add: buffer_at_def) (simp add: new_block_def)
  then have t: "in_transfer w c ?b (s0\<lparr>memory := ?m\<rparr>)" using w(1) c(2) bs facts(1-3) by (simp add: in_transfer_def)
  have fails: "client_main w (prog # lip # sip # port # opts) s = fail e"
    if "transfer w c f (Ptr ?b 0) (s0\<lparr>memory := ?m\<rparr>) = fail e" for e
    using that s0(1) p m by (simp add: run_transfer_def)
  have ends: "\<exists>s'. client_main w (prog # lip # sip # port # opts) s = return (0, s') \<and> trace s' = Close f # trace s2 \<and>
      BYTES_READ s' = BYTES_READ s2 \<and> BYTES_WRITTEN s' = BYTES_WRITTEN s2"
    if run: "transfer w c f (Ptr ?b 0) (s0\<lparr>memory := ?m\<rparr>) = return (None, s2)" "in_transfer w c ?b s2" for s2
  proof -
    obtain m2 where "free_ptr (Ptr ?b 0) s2 = Inr (s2\<lparr>memory := m2\<rparr>)"
      using in_transfer_buffer(2) [OF run(2)] by (auto simp: buffer_at_def free_ptr_def)
    from run_transfer_ends(2) [OF p m run(1) this] show ?thesis
      using s0(1) by (simp add: syscall_def Let_def log_color_def answer_def)
  qed
  show ?thesis
  proof (rule exI, rule exI, intro conjI allI impI)
    show "in_transfer w c ?b (s0\<lparr>memory := ?m\<rparr>)" by (rule t)
  qed (use facts fails ends in \<open>simp_all\<close>)
qed

section \<open>Properties\<close>

text \<open>A host that takes every block, serves two bytes per read and has \<open>rand\<close> count; three command lines.\<close>

definition busy_world :: world where
  "busy_world = \<lparr>kernel = (\<lambda>h c. case c of
       Socket a b p \<Rightarrow> \<lparr>ret = 3, data = [], err = 0\<rparr>
     | Read f n \<Rightarrow> \<lparr>ret = 2, data = [5, 6], err = 0\<rparr>
     | Write f bs \<Rightarrow> \<lparr>ret = int (length bs), data = [], err = 0\<rparr>
     | _ \<Rightarrow> \<lparr>ret = 0, data = [], err = 0\<rparr>),
     mallocs = plenty, inet_addr = (\<lambda>a. 0), elapsed = (\<lambda>h. []), rand = (\<lambda>h i. int i), sigint = (\<lambda>h. False)\<rparr>"

definition client_settings :: "int \<Rightarrow> int \<Rightarrow> int \<Rightarrow> settings" where
  "client_settings t d u = \<lparr>CLIENT_TYPE = t, DOWNLOAD_SIZE = d, UPLOAD_SIZE = u, buffer_size = 4\<rparr>"

lemma busy_facts:
  "calm busy_world" "accepting busy_world 3" "takes busy_world 3 4"
  "serves busy_world 3 (int_size 4)" "nat (buffer_size (client_settings t d u)) = 4"
proof -
  show "calm busy_world" "accepting busy_world 3" "takes busy_world 3 4"
    by (simp_all add: calm_def accepting_def takes_def busy_world_def)
  show "serves busy_world 3 (int_size 4)"
    by (simp add: serves_def busy_world_def int_size_def MAGIC_NUMBER_def)
qed (simp add: client_settings_def)

lemma busy_options:
  "parse_options [lit ''--uplink'', lit ''--upload-size'', lit ''9'', lit ''4''] default_settings = Inr (client_settings 0 (-1) 9)"
  "parse_options [lit ''--uplink'', lit ''4''] default_settings = Inr (client_settings 0 (-1) (-1))"
  "parse_options [lit ''--download-size'', lit ''3'', lit ''4''] default_settings = Inr (client_settings 2 3 (-1))"
  by code_simp+

lemma busy_names:
  "names_length (lit ''10.0.0.1'') (lit ''10.0.0.2'') (lit ''80'') (client_settings t d u) \<le> 46"
  using length_number_text [of "lit ''80''"] length_dec_int [of 4]
  by (simp add: names_length_def client_settings_def)

text \<open>
  C34. An uplink client with an upload size ends with status 0 and a closed socket when its names and
  numbers have at most 46 characters, when size and buffer together are less than \<open>2 ^ 31\<close>, when
  nothing interrupts it and the server takes at least a byte of every block: after the greeting it
  has made nothing but writes, each of a whole buffer of fresh random bytes, and the count of what
  was taken has reached the upload size and is at most a buffer more.
\<close>

theorem upload_completes:
  fixes s :: "'z mclient_scheme"
  assumes w: "calm w" "accepting w f" "takes w f (nat (buffer_size c))"
    and c: "parse_options opts default_settings = Inr c" "CLIENT_TYPE c = UPLINK_CLIENT" "0 < buffer_size c"
      "0 \<le> UPLOAD_SIZE c" "UPLOAD_SIZE c + buffer_size c < 2 ^ 31"
    and l: "names_length lip sip port c \<le> 46"
    and s: "LOOP s" "BYTES_READ s = 0" "BYTES_WRITTEN s = 0" "wf_mem (memory s)"
  shows "\<exists>s' k. client_main w (prog # lip # sip # port # opts) s = return (0, s') \<and>
    trace s' = Close f # uploads w c f k (start_calls w c f lip sip port @ trace s) \<and>
    UPLOAD_SIZE c \<le> BYTES_WRITTEN s' \<and> BYTES_WRITTEN s' \<le> UPLOAD_SIZE c + buffer_size c"
proof -
  obtain b and s1 :: "'z mclient_scheme" where s1: "in_transfer w c b s1"
    "trace s1 = start_calls w c f lip sip port @ trace s" "BYTES_WRITTEN s1 = 0"
    "\<And>s2. transfer w c f (Ptr b 0) s1 = return (None, s2) \<Longrightarrow> in_transfer w c b s2 \<Longrightarrow>
      \<exists>s'. client_main w (prog # lip # sip # port # opts) s = return (0, s') \<and> trace s' = Close f # trace s2 \<and>
        BYTES_READ s' = BYTES_READ s2 \<and> BYTES_WRITTEN s' = BYTES_WRITTEN s2"
    using client_runs [OF w(1,2) c(1,3) l s, of prog] by blast
  have u: "UPLOAD_SIZE c \<noteq> -1" "BYTES_WRITTEN s1 \<le> UPLOAD_SIZE c" using c(4) s1(3) by simp_all
  obtain s2 k where "transfer w c f (Ptr b 0) s1 = return (None, s2)" "in_transfer w c b s2"
    "trace s2 = uploads w c f k (trace s1)"
    "UPLOAD_SIZE c \<le> BYTES_WRITTEN s2" "BYTES_WRITTEN s2 \<le> UPLOAD_SIZE c + buffer_size c"
    using transfer_uploads [OF s1(1) c(2) w(3) u(1) c(5) u(2)] by blast
  then show ?thesis using s1(2,4) by fastforce
qed

lemma upload_completes_witness:
  "\<exists>s'. client_main busy_world (lit ''mptcp_client'' # lit ''10.0.0.1'' # lit ''10.0.0.2'' # lit ''80'' #
      [lit ''--uplink'', lit ''--upload-size'', lit ''9'', lit ''4'']) sample_client = return (0, s') \<and>
    9 \<le> BYTES_WRITTEN s' \<and> BYTES_WRITTEN s' \<le> 13"
  using upload_completes [OF busy_facts(1,2), unfolded busy_facts(5), OF _ busy_options(1) _ _ _ _ busy_names
      sample_facts(6,7) _ sample_facts(8), of "lit ''mptcp_client''"] busy_facts(3,5)
  by (fastforce simp: client_settings_def UPLINK_CLIENT_def sample_client_def)

text \<open>
  C35. Without an upload size an uplink client does not go on for ever: if its names and numbers have
  at most 46 characters, nothing interrupts it and the server goes on to take at least a byte of
  every block, the bytes are counted in an \<open>int\<close>, and the client ends with the overflow of this
  counter.
\<close>

theorem unlimited_upload_overflows:
  fixes s :: "'z mclient_scheme"
  assumes w: "calm w" "accepting w f" "takes w f (nat (buffer_size c))"
    and c: "parse_options opts default_settings = Inr c" "CLIENT_TYPE c = UPLINK_CLIENT" "0 < buffer_size c"
      "UPLOAD_SIZE c = -1"
    and l: "names_length lip sip port c \<le> 46"
    and s: "LOOP s" "BYTES_READ s = 0" "BYTES_WRITTEN s = 0" "wf_mem (memory s)"
  shows "client_main w (prog # lip # sip # port # opts) s = fail SignedOverflow"
proof -
  obtain b and s1 :: "'z mclient_scheme" where "in_transfer w c b s1"
    "\<And>e. transfer w c f (Ptr b 0) s1 = fail e \<Longrightarrow> client_main w (prog # lip # sip # port # opts) s = fail e"
    using client_runs [OF w(1,2) c(1,3) l s, of prog] by blast
  then show ?thesis using transfer_overflows [OF _ c(2) w(3) c(4)] by blast
qed

lemma unlimited_upload_overflows_witness:
  "client_main busy_world (lit ''mptcp_client'' # lit ''10.0.0.1'' # lit ''10.0.0.2'' # lit ''80'' #
      [lit ''--uplink'', lit ''4'']) sample_client = fail SignedOverflow"
  using unlimited_upload_overflows [OF busy_facts(1,2) _ busy_options(2) _ _ _ busy_names
      sample_facts(6,7) _ sample_facts(8), of "lit ''mptcp_client''"] busy_facts(3)
  by (simp add: client_settings_def UPLINK_CLIENT_def sample_client_def)

text \<open>
  An echo client with a download size reads a block and writes one, in turns, until it has read
  that size; it then closes its socket. What it writes is not what it read but its whole
  buffer: the bytes read, and zeros up to the buffer size.
\<close>

theorem echo_pads_blocks:
  fixes s :: "'z mclient_scheme"
  assumes w: "calm w" "accepting w f" "serves w f (int_size (buffer_size c))" "takes w f (nat (buffer_size c))"
    and c: "parse_options opts default_settings = Inr c" "CLIENT_TYPE c = ECHO_CLIENT" "0 < buffer_size c"
      "0 \<le> DOWNLOAD_SIZE c" "UPLOAD_SIZE c = -1" "DOWNLOAD_SIZE c + buffer_size c < 2 ^ 31"
      "(DOWNLOAD_SIZE c + 1) * buffer_size c < 2 ^ 31"
    and l: "names_length lip sip port c \<le> 46"
    and s: "LOOP s" "BYTES_READ s = 0" "BYTES_WRITTEN s = 0" "wf_mem (memory s)"
  shows "\<exists>s' k. client_main w (prog # lip # sip # port # opts) s = return (0, s') \<and>
    trace s' = Close f # Read f (int_size (buffer_size c)) # echoes w c f k (start_calls w c f lip sip port @ trace s) \<and>
    DOWNLOAD_SIZE c \<le> BYTES_READ s' \<and> BYTES_READ s' \<le> DOWNLOAD_SIZE c + buffer_size c"
proof -
  obtain b and s1 :: "'z mclient_scheme" where s1: "in_transfer w c b s1"
    "trace s1 = start_calls w c f lip sip port @ trace s" "BYTES_READ s1 = 0" "BYTES_WRITTEN s1 = 0"
    "\<And>s2. transfer w c f (Ptr b 0) s1 = return (None, s2) \<Longrightarrow> in_transfer w c b s2 \<Longrightarrow>
      \<exists>s'. client_main w (prog # lip # sip # port # opts) s = return (0, s') \<and> trace s' = Close f # trace s2 \<and>
        BYTES_READ s' = BYTES_READ s2 \<and> BYTES_WRITTEN s' = BYTES_WRITTEN s2"
    using client_runs [OF w(1,2) c(1,3) l s, of prog] by blast
  have d: "DOWNLOAD_SIZE c \<noteq> -1" "BYTES_READ s1 \<le> DOWNLOAD_SIZE c"
    "BYTES_WRITTEN s1 + (DOWNLOAD_SIZE c - BYTES_READ s1 + 1) * buffer_size c < 2 ^ 31"
    using c(4,7) s1(3,4) by simp_all
  obtain s2 k where "transfer w c f (Ptr b 0) s1 = return (None, s2)" "in_transfer w c b s2"
    "trace s2 = Read f (int_size (buffer_size c)) # echoes w c f k (trace s1)"
    "DOWNLOAD_SIZE c \<le> BYTES_READ s2" "BYTES_READ s2 \<le> DOWNLOAD_SIZE c + buffer_size c"
    using transfer_echoes [OF s1(1) c(2,5) d(1) w(3,4) d(2) c(6) d(3)] by blast
  then show ?thesis using s1(2,5) by fastforce
qed

lemma echo_pads_blocks_witness:
  "\<exists>s'. client_main busy_world (lit ''mptcp_client'' # lit ''10.0.0.1'' # lit ''10.0.0.2'' # lit ''80'' #
      [lit ''--download-size'', lit ''3'', lit ''4'']) sample_client = return (0, s') \<and>
    hd (trace s') = Close 3 \<and> 3 \<le> BYTES_READ s'"
proof -
  have "serves busy_world 3 (int_size (buffer_size (client_settings 2 3 (-1))))"
    "takes busy_world 3 (nat (buffer_size (client_settings 2 3 (-1))))"
    using busy_facts(3,4) by (simp_all add: client_settings_def)
  from echo_pads_blocks [OF busy_facts(1,2) this busy_options(3) _ _ _ _ _ _ busy_names
      sample_facts(6,7) _ sample_facts(8), of "lit ''mptcp_client''"]
  show ?thesis by (fastforce simp: client_settings_def ECHO_CLIENT_def sample_client_def)
qed

end
