(* ===== verification/EchoPrograms.thy ===== *)
theory EchoPrograms
  imports Kernel CText
begin

text \<open>
  The two sample programs of \<open>deprecated/\<close>: the client of \<open>mptcp_echo_client.c\<close>, which sends
  back whatever it reads, and the server of \<open>mptcp_server.c\<close>, which sends a megabyte to
  everyone who connects. Both have loops without a bound; the client's ends with the stream,
  the server's never does.
\<close>

section \<open>The echo client\<close>

definition ECHO_BUFFER_SIZE :: nat where "ECHO_BUFFER_SIZE = 100000"

text \<open>\<open>inet_addr\<close> of a dotted literal: its four bytes in the order of memory.\<close>

definition ip4 :: "byte \<Rightarrow> byte \<Rightarrow> byte \<Rightarrow> byte \<Rightarrow> u32" where
  "ip4 a b c d = ucast a OR push_bit 8 (ucast b) OR push_bit 16 (ucast c) OR push_bit 24 (ucast d)"

text \<open>The local array of the loop body lives for one round; \<open>False\<close> is \<open>break\<close>.\<close>

definition echo_round :: "kern \<Rightarrow> int \<Rightarrow> 'z sys_scheme \<Rightarrow> fault + bool \<times> 'z sys_scheme" where
  "echo_round kern sockfd s =
     (let (buffer, s) = auto_array ECHO_BUFFER_SIZE s in
      bindE (sys_read kern sockfd (Ptr buffer 0) (of_nat ECHO_BUFFER_SIZE) s) (\<lambda>(rc, s).
      let n = to_int rc in
      if n \<le> 0 then Inr (False, leave_array buffer s)
      else bindE (load_bytes (memory s) (Ptr buffer 0) (nat n)) (\<lambda>bs.
        let (rc, s) = syscall kern (Send sockfd bs 0) s in
        Inr (0 \<le> to_int rc, leave_array buffer s))))"

partial_function (option) echo_loop :: "kern \<Rightarrow> int \<Rightarrow> 'z sys_scheme \<Rightarrow> (fault + 'z sys_scheme) option" where
  "echo_loop kern sockfd s =
     (case echo_round kern sockfd s of
        Inl f \<Rightarrow> Some (Inl f)
      | Inr (again, s) \<Rightarrow> if again then echo_loop kern sockfd s else Some (Inr s))"

definition echo_main :: "kern \<Rightarrow> 'z sys_scheme \<Rightarrow> (int \<times> 'z sys_scheme) run" where
  "echo_main kern s =
     (let (sockfd, s) = syscall kern (Socket AF_INET SOCK_STREAM IPPROTO_MPTCP) s in
      if sockfd < 0 then return (-1, s)
      else let (rc, s) = syscall kern (Bind sockfd (Sockaddr_in 0 (ip4 10 45 0 3))) s in
        if rc < 0 then return (1, s)
        else let (rc, s) = syscall kern (Connect sockfd (Sockaddr_in (htons 6000) (ip4 54 86 73 121))) s in
          if rc < 0 then return (-1, s)
          else let (_, s) = syscall kern (Getsockname sockfd) s; (_, s) = syscall kern (Getpeername sockfd) s in
            bindR (echo_loop kern sockfd s) (\<lambda>s. return (0, snd (syscall kern (Close sockfd) s))))"

section \<open>The sample server\<close>

definition SEND_SIZE :: nat where "SEND_SIZE = 1000000"

text \<open>The block that is sent is not freed.\<close>

definition server_round :: "alloc \<Rightarrow> kern \<Rightarrow> int \<Rightarrow> 'z sys_scheme \<Rightarrow> fault + 'z sys_scheme" where
  "server_round mal kern sockfd s =
     (let (newsockfd, s) = syscall kern (Accept sockfd) s;
          (_, s) = syscall kern (Getpeername newsockfd) s;
          (buffer, m) = malloc mal SEND_SIZE (memory s) in
      bindE (memset m buffer 97 SEND_SIZE) (\<lambda>m.
      bindE (load_bytes m buffer SEND_SIZE) (\<lambda>bs.
      let (_, s) = syscall kern (Send newsockfd bs 0) (s\<lparr>memory := m\<rparr>);
          (_, s) = syscall kern (Close newsockfd) s in
      Inr s)))"

partial_function (option) server_loop :: "alloc \<Rightarrow> kern \<Rightarrow> int \<Rightarrow> 'z sys_scheme \<Rightarrow> (fault + 'z sys_scheme) option" where
  "server_loop mal kern sockfd s =
     (case server_round mal kern sockfd s of
        Inl f \<Rightarrow> Some (Inl f)
      | Inr s \<Rightarrow> server_loop mal kern sockfd s)"

text \<open>What stands behind the loop is never reached.\<close>

definition server_main :: "alloc \<Rightarrow> kern \<Rightarrow> 'z sys_scheme \<Rightarrow> (int \<times> 'z sys_scheme) run" where
  "server_main mal kern s =
     (let (sockfd, s) = syscall kern (Socket AF_INET SOCK_STREAM IPPROTO_MPTCP) s;
          (_, s) = syscall kern (Bind sockfd (Sockaddr_in (htons 8888) 0)) s;
          (_, s) = syscall kern (Listen sockfd 10) s in
      bindR (server_loop mal kern sockfd s) (\<lambda>s. return (0, snd (syscall kern (Close sockfd) s))))"

section \<open>Rounds of the echo client\<close>

text \<open>A read that fails or ends the stream, and one that brings bytes which are then sent.\<close>

lemma echo_round_ok:
  assumes wf: "wf_mem (memory s)"
    and r: "r = kern (trace s) (Read f (of_nat ECHO_BUFFER_SIZE))" "ret r = int (length (data r))" "length (data r) \<le> ECHO_BUFFER_SIZE"
    and q: "q = kern (Read f (of_nat ECHO_BUFFER_SIZE) # trace s) (Send f (data r) 0)" "0 \<le> ret q" "ret q < 2 ^ 31"
  shows "\<exists>s'. echo_round kern f s = Inr (data r \<noteq> [], s') \<and> wf_mem (memory s') \<and>
    trace s' = (if data r = [] then [] else [Send f (data r) 0]) @ Read f (of_nat ECHO_BUFFER_SIZE) # trace s"
proof -
  let ?b = "nextb (memory s)" and ?rd = "Read f (of_nat ECHO_BUFFER_SIZE)"
  define m0 where "m0 = snd (new_block (Auto (replicate ECHO_BUFFER_SIZE None)) (memory s))"
  define m1 where "m1 = put_cells m0 ?b (overwrite 0 (map Some (data r)) (replicate ECHO_BUFFER_SIZE None))"
  define s1 where "s1 = s\<lparr>trace := ?rd # trace s, memory := m1\<rparr>"
  have arr: "auto_array ECHO_BUFFER_SIZE s = (?b, s\<lparr>memory := m0\<rparr>)" by (simp add: auto_array_def m0_def new_block_def)
  have at: "bytes_at m0 ?b = Some (replicate ECHO_BUFFER_SIZE None)" by (simp add: m0_def new_block_def bytes_at_def)
  have st: "store_bytes m0 (Ptr ?b 0) (data r) = Inr m1"
    using write_cells_put [OF at, of 0 "map Some (data r)" "replicate ECHO_BUFFER_SIZE None"] put_cells_same [OF at] r(3)
    by (simp add: store_bytes_def m1_def)
  have wf1: "wf_mem m1" using wf by (simp add: m1_def m0_def)
  have rd: "sys_read kern f (Ptr ?b 0) (of_nat ECHO_BUFFER_SIZE) (s\<lparr>memory := m0\<rparr>) = Inr (ret r, s1)"
    using st r(1,2) by (simp add: sys_read_def syscall_def answer_def Let_def s1_def)
  have "has_bytes m1 (Ptr ?b 0) (data r)"
    using has_bytes_put_overwrite [OF at, of 0 "data r" "[]" "replicate ECHO_BUFFER_SIZE None"] r(3) by (simp add: m1_def)
  then have ld: "load_bytes m1 (Ptr ?b 0) (length (data r)) = Inr (data r)"
    using load_bytes_has [of m1 "Ptr ?b 0" "data r" 0 "length (data r)"] by simp
  have n: "to_int (ret r) = int (length (data r))" "0 \<le> to_int (ret q)"
    using r(2,3) q(2,3) to_int_id [of "ret r"] to_int_id [of "ret q"] by (simp_all add: ECHO_BUFFER_SIZE_def)
  have call: "syscall kern (Send f (data r) 0) s1 = (ret q, s1\<lparr>trace := Send f (data r) 0 # trace s1\<rparr>)"
    using q(1,2) by (simp add: syscall_def answer_def Let_def s1_def)
  have "echo_round kern f s = Inr (data r \<noteq> [], leave_array ?b
      (if data r = [] then s1 else s1\<lparr>trace := Send f (data r) 0 # trace s1\<rparr>))"
    using rd n ld call by (simp add: echo_round_def arr s1_def)
  then show ?thesis using wf1 by (simp add: leave_array_def s1_def)
qed

text \<open>A server that sends the blocks \<open>ds\<close>, one for each read, and then closes; it takes what it is sent.\<close>

definition reads :: "int \<Rightarrow> call list \<Rightarrow> nat" where
  "reads f h = length (filter (\<lambda>c. \<exists>n. c = Read f n) h)"

definition feeds :: "kern \<Rightarrow> int \<Rightarrow> byte list list \<Rightarrow> bool" where
  "feeds kern f ds \<longleftrightarrow> (\<forall>d \<in> set ds. d \<noteq> [] \<and> length d \<le> ECHO_BUFFER_SIZE) \<and>
     (\<forall>h n. let r = kern h (Read f n) in
        data r = (if reads f h < length ds then ds ! reads f h else []) \<and> ret r = int (length (data r))) \<and>
     (\<forall>h bs. 0 \<le> ret (kern h (Send f bs 0)) \<and> ret (kern h (Send f bs 0)) < 2 ^ 31)"

text \<open>The calls for the blocks, newest first: every block is read and sent back.\<close>

definition echoed :: "int \<Rightarrow> byte list list \<Rightarrow> call list" where
  "echoed f ds = concat (rev (map (\<lambda>d. [Send f d 0, Read f (of_nat ECHO_BUFFER_SIZE)]) ds))"

lemma echo_loop_ok:
  assumes k: "feeds kern f ds"
  shows "wf_mem (memory s) \<Longrightarrow> reads f (trace s) \<le> length ds \<Longrightarrow>
    \<exists>s'. echo_loop kern f s = Some (Inr s') \<and>
      trace s' = Read f (of_nat ECHO_BUFFER_SIZE) # echoed f (drop (reads f (trace s)) ds) @ trace s"
proof (induction "length ds - reads f (trace s)" arbitrary: s)
  case 0
  define r where "r = kern (trace s) (Read f (of_nat ECHO_BUFFER_SIZE))"
  define q where "q = kern (Read f (of_nat ECHO_BUFFER_SIZE) # trace s) (Send f (data r) 0)"
  have r: "data r = []" "ret r = 0" using k 0 by (simp_all add: feeds_def r_def Let_def)
  have q: "0 \<le> ret q" "ret q < 2 ^ 31" using k by (simp_all add: feeds_def q_def)
  obtain s' where "echo_round kern f s = Inr (False, s')" "trace s' = Read f (of_nat ECHO_BUFFER_SIZE) # trace s"
    using echo_round_ok [OF 0(2) r_def _ _ q_def q] r by auto
  then show ?case using 0 by (subst echo_loop.simps) (simp add: echoed_def)
next
  case (Suc n)
  let ?i = "reads f (trace s)"
  define r where "r = kern (trace s) (Read f (of_nat ECHO_BUFFER_SIZE))"
  define q where "q = kern (Read f (of_nat ECHO_BUFFER_SIZE) # trace s) (Send f (data r) 0)"
  have i: "?i < length ds" using Suc.hyps(2) by simp
  then have r: "data r = ds ! ?i" "ret r = int (length (data r))" "ds ! ?i \<noteq> []" "length (data r) \<le> ECHO_BUFFER_SIZE"
    using k by (simp_all add: feeds_def r_def Let_def)
  have q: "0 \<le> ret q" "ret q < 2 ^ 31" using k by (simp_all add: feeds_def q_def)
  obtain s' where s': "echo_round kern f s = Inr (True, s')" "wf_mem (memory s')"
    "trace s' = Send f (ds ! ?i) 0 # Read f (of_nat ECHO_BUFFER_SIZE) # trace s"
    using echo_round_ok [OF Suc.prems(1) r_def r(2,4) q_def q] r(1,3) by auto
  have j: "reads f (trace s') = Suc ?i" by (simp add: s'(3) reads_def)
  have "n = length ds - reads f (trace s')" using Suc.hyps(2) j by simp
  then obtain s'' where s'': "echo_loop kern f s' = Some (Inr s'')"
    "trace s'' = Read f (of_nat ECHO_BUFFER_SIZE) # echoed f (drop (Suc ?i) ds) @ trace s'"
    using Suc.hyps(1) [OF _ s'(2)] i unfolding j by auto
  have "echo_loop kern f s = Some (Inr s'')" using s'(1) s''(1) by (subst echo_loop.simps) simp
  then show ?case using s''(2) s'(3) Cons_nth_drop_Suc [OF i, symmetric] by (simp add: echoed_def)
qed

section \<open>Rounds of the server\<close>

lemma server_round_ok:
  "if mal (nextb (memory s)) SEND_SIZE
   then \<exists>s'. server_round mal kern f s = Inr s' \<and> nextb (memory s') = Suc (nextb (memory s)) \<and>
     blocks (memory s') (nextb (memory s)) = Some (Heap (replicate SEND_SIZE (Some 97)))
   else server_round mal kern f s = Inl NullDeref"
proof (cases "mal (nextb (memory s)) SEND_SIZE")
  case True
  let ?b = "nextb (memory s)"
  define m0 where "m0 = snd (new_block (Heap (replicate SEND_SIZE None)) (memory s))"
  define m1 where "m1 = snd (new_block (Heap (replicate SEND_SIZE (Some 97))) (memory s))"
  have mal: "malloc mal SEND_SIZE (memory s) = (Ptr ?b 0, m0)" using True by (simp add: malloc_def m0_def new_block_def)
  have ms: "memset m0 (Ptr ?b 0) 97 SEND_SIZE = Inr m1"
    by (simp add: memset_def m0_def m1_def new_block_def)
  have "has_bytes m1 (Ptr ?b 0) (replicate SEND_SIZE 97)"
    by (simp add: m1_def new_block_def bytes_at_def window_def)
  then have ld: "load_bytes m1 (Ptr ?b 0) SEND_SIZE = Inr (replicate SEND_SIZE 97)"
    using load_bytes_has [of m1 "Ptr ?b 0" "replicate SEND_SIZE 97" 0 SEND_SIZE] by (simp add: window_def)
  have "nextb m1 = Suc ?b" "blocks m1 ?b = Some (Heap (replicate SEND_SIZE (Some 97)))"
    by (simp_all add: m1_def new_block_def)
  then show ?thesis using True mal ms ld by (simp add: server_round_def case_prod_unfold Let_def)
next
  case False
  then have "malloc mal SEND_SIZE (memory s) = (Null, memory s)" by (simp add: malloc_def)
  then show ?thesis using False
    by (simp add: server_round_def case_prod_unfold Let_def memset_def) (simp add: SEND_SIZE_def)
qed

lemma server_loop_exhausts:
  assumes "\<forall>k \<ge> n. \<not> mal k SEND_SIZE"
  shows "server_loop mal kern f s = fail NullDeref"
proof (induction "n - nextb (memory s)" arbitrary: s rule: less_induct)
  case less
  show ?case
  proof (cases "mal (nextb (memory s)) SEND_SIZE")
    case True
    obtain s' where s': "server_round mal kern f s = Inr s'" "nextb (memory s') = Suc (nextb (memory s))"
      using server_round_ok [of mal s kern f] True by auto
    have "nextb (memory s) < n" using assms True by (meson not_less)
    then have "server_loop mal kern f s' = fail NullDeref" using less s'(2) by simp
    then show ?thesis using s'(1) by (subst server_loop.simps) simp
  next
    case False
    then show ?thesis using server_round_ok [of mal s kern f] by (subst server_loop.simps) simp
  qed
qed

section \<open>Properties\<close>

text \<open>
  When the server sends some blocks and then closes, the echo client sends every block
  back, in order and before it reads the next one, closes its socket and ends with status 0.
\<close>

theorem echo_mirrors:
  assumes "wf_mem (memory s)" and "reads f (trace s) = 0" and "feeds kern f ds" and "0 \<le> f"
    and "\<forall>h. ret (kern h (Socket AF_INET SOCK_STREAM IPPROTO_MPTCP)) = f \<and>
      (\<forall>a. 0 \<le> ret (kern h (Bind f a)) \<and> 0 \<le> ret (kern h (Connect f a)))"
  shows "\<exists>s' h. echo_main kern s = return (0, s') \<and>
    trace s' = Close f # Read f (of_nat ECHO_BUFFER_SIZE) # echoed f ds @ h @ trace s"
proof -
  let ?cs = "[Getpeername f, Getsockname f, Connect f (Sockaddr_in (htons 6000) (ip4 54 86 73 121)),
    Bind f (Sockaddr_in 0 (ip4 10 45 0 3)), Socket AF_INET SOCK_STREAM IPPROTO_MPTCP]"
  define call where "call = (\<lambda>c (s :: 'a sys_scheme). snd (syscall kern c s))"
  define s1 where "s1 = call (Getpeername f) (call (Getsockname f) (call (Connect f (Sockaddr_in (htons 6000) (ip4 54 86 73 121)))
    (call (Bind f (Sockaddr_in 0 (ip4 10 45 0 3))) (call (Socket AF_INET SOCK_STREAM IPPROTO_MPTCP) s))))"
  have s1: "trace s1 = ?cs @ trace s" "memory s1 = memory s" by (simp_all add: s1_def call_def)
  have step: "syscall kern c s = (ret (kern (trace s) c), call c s)" for c s
    by (simp add: call_def syscall_def answer_def Let_def)
  have main: "echo_main kern s = bindR (echo_loop kern f s1) (\<lambda>s. return (0, call (Close f) s))"
    using assms(4,5) unfolding echo_main_def step Let_def prod.case by (simp add: s1_def not_less [symmetric])
  have "reads f (trace s1) = 0" using assms(2) by (simp add: s1 reads_def)
  then obtain s2 where "echo_loop kern f s1 = Some (Inr s2)"
    "trace s2 = Read f (of_nat ECHO_BUFFER_SIZE) # echoed f ds @ trace s1"
    using echo_loop_ok [OF assms(3), of s1] assms(1) s1(2) by auto
  then show ?thesis using main s1(1) by (auto simp: call_def intro!: exI [of _ ?cs])
qed

definition feeding_kern :: "byte list list \<Rightarrow> kern" where
  "feeding_kern ds h c = (case c of
       Read f n \<Rightarrow> (let d = (if reads f h < length ds then ds ! reads f h else []) in \<lparr>ret = int (length d), data = d, err = 0\<rparr>)
     | Socket a b p \<Rightarrow> \<lparr>ret = 3, data = [], err = 0\<rparr>
     | _ \<Rightarrow> \<lparr>ret = 0, data = [], err = 0\<rparr>)"

lemma echo_mirrors_witness:
  "\<exists>s' h. echo_main (feeding_kern [[1, 2], [3]]) start = return (0, s') \<and>
     trace s' = [Close 3, Read 3 100000, Send 3 [3] 0, Read 3 100000, Send 3 [1, 2] 0, Read 3 100000] @ h"
proof -
  have "feeds (feeding_kern [[1, 2], [3]]) 3 [[1, 2], [3]]"
    by (simp add: feeds_def feeding_kern_def ECHO_BUFFER_SIZE_def Let_def)
  then show ?thesis
    using echo_mirrors [of start 3 "feeding_kern [[1, 2], [3]]" "[[1, 2], [3]]"]
    by (auto simp: feeding_kern_def reads_def echoed_def ECHO_BUFFER_SIZE_def)
qed

text \<open>
  The server loses the megabyte of every connection: with any allocator that at some
  point has no more memory it ends in a write through a null pointer, whatever its clients do.
\<close>

theorem server_exhausts:
  assumes "\<forall>k \<ge> n. \<not> mal k SEND_SIZE"
  shows "server_main mal kern s = fail NullDeref"
  by (simp add: server_main_def case_prod_unfold Let_def server_loop_exhausts [of n mal, OF assms])

lemma server_exhausts_witness: "server_main (\<lambda>k n. k < 3) (feeding_kern []) start = fail NullDeref"
  using server_exhausts [of 3 "\<lambda>k n. k < 3"] by simp

end
