(* ===== verification/PySockets.thy ===== *)
theory PySockets
  imports Prelude
begin

text \<open>
  What the Python programs of \<open>5GTC\<close> use of their language: exceptions as values next to a state
  that keeps what was done before they were raised, socket objects with their descriptors, and
  the calls on them. What the system answers is a parameter, a function of the history and of
  the call.
\<close>

section \<open>Exceptions\<close>

datatype py_exn = Key_error | Value_error | Type_error | Os_error | Struct_error | Attribute_error

text \<open>A statement may also not return at all (\<open>None\<close>).\<close>

type_synonym ('s, 'a) py = "'s \<Rightarrow> ((py_exn + 'a) \<times> 's) option"

definition py_return :: "'a \<Rightarrow> ('s, 'a) py" where
  "py_return x s = Some (Inr x, s)"

definition py_raise :: "py_exn \<Rightarrow> ('s, 'a) py" where
  "py_raise e s = Some (Inl e, s)"

definition py_bind :: "('s, 'a) py \<Rightarrow> ('a \<Rightarrow> ('s, 'b) py) \<Rightarrow> ('s, 'b) py" where
  "py_bind c f s = (case c s of
       None \<Rightarrow> None
     | Some (Inl e, s) \<Rightarrow> Some (Inl e, s)
     | Some (Inr x, s) \<Rightarrow> f x s)"

text \<open>\<open>try: c; except Exception as e: h\<close>, with \<open>f\<close> for what follows when nothing was raised.\<close>

definition py_try :: "('s, 'a) py \<Rightarrow> (py_exn \<Rightarrow> ('s, 'b) py) \<Rightarrow> ('a \<Rightarrow> ('s, 'b) py) \<Rightarrow> ('s, 'b) py" where
  "py_try c h f s = (case c s of
       None \<Rightarrow> None
     | Some (Inl e, s) \<Rightarrow> h e s
     | Some (Inr x, s) \<Rightarrow> f x s)"

definition py_get :: "('s \<Rightarrow> 'a) \<Rightarrow> ('s, 'a) py" where
  "py_get g s = Some (Inr (g s), s)"

definition py_set :: "('s \<Rightarrow> 's) \<Rightarrow> ('s, unit) py" where
  "py_set g s = Some (Inr (), g s)"

text \<open>A value or an exception, and \<open>d[k]\<close> of a dictionary.\<close>

fun py_lift :: "py_exn + 'a \<Rightarrow> ('s, 'a) py" where
  "py_lift (Inl e) = py_raise e"
| "py_lift (Inr x) = py_return x"

definition py_item :: "('k \<Rightarrow> 'v option) \<Rightarrow> 'k \<Rightarrow> ('s, 'v) py" where
  "py_item d k = (case d k of None \<Rightarrow> py_raise Key_error | Some v \<Rightarrow> py_return v)"

named_theorems py_simps \<comment> \<open>running statements\<close>

lemmas py_basic [py_simps] = py_return_def py_raise_def py_get_def py_set_def py_item_def

lemma py_bind_simps [py_simps]:
  "c s = None \<Longrightarrow> py_bind c f s = None"
  "c s = Some (Inl e, s1) \<Longrightarrow> py_bind c f s = Some (Inl e, s1)"
  "c s = Some (Inr x, s1) \<Longrightarrow> py_bind c f s = f x s1"
  by (simp_all add: py_bind_def)

lemma py_try_simps [py_simps]:
  "c s = None \<Longrightarrow> py_try c h f s = None"
  "c s = Some (Inl e, s1) \<Longrightarrow> py_try c h f s = h e s1"
  "c s = Some (Inr x, s1) \<Longrightarrow> py_try c h f s = f x s1"
  by (simp_all add: py_try_def)

lemma py_bind_assoc: "py_bind (py_bind c f) g = py_bind c (\<lambda>x. py_bind (f x) g)"
  by (rule ext) (auto simp: py_bind_def split: option.splits sum.splits)

section \<open>Sockets\<close>

text \<open>Socket objects are numbers; the loggers and threads of a server are started
  and stopped by calls of their own.\<close>

datatype pcall =
    Py_accept nat
  | Py_socket
  | Py_connect nat string nat
  | Py_recv nat nat
  | Py_send nat "byte list"
  | Py_sendall nat "byte list"
  | Py_urandom nat
  | Py_close nat
  | Py_select "nat list"
  | Logger_create nat
  | Logger_run nat
  | Logger_stop nat
  | Thread_start nat int int
  | Thread_join nat

record py_answer =
  raised :: "py_exn option"
  fd_number :: int
  bytes :: "byte list"
  ready :: "nat list"
  taken :: nat

type_synonym py_world = "pcall list \<Rightarrow> pcall \<Rightarrow> py_answer"

text \<open>The value of \<open>fileno()\<close> of every socket object, -1 when it is closed.\<close>

record psys =
  filenos :: "int list"
  history :: "pcall list"   \<comment> \<open>newest first\<close>

definition fd_at :: "int list \<Rightarrow> nat \<Rightarrow> int" where
  "fd_at fs k = (if k < length fs then fs ! k else -1)"

abbreviation fileno :: "'z psys_scheme \<Rightarrow> nat \<Rightarrow> int" where
  "fileno s k \<equiv> fd_at (filenos s) k"

definition py_call :: "py_world \<Rightarrow> pcall \<Rightarrow> ('z psys_scheme, py_answer) py" where
  "py_call w c s =
     (let a = w (history s) c; s = s\<lparr>history := c # history s\<rparr> in
      case raised a of None \<Rightarrow> py_return a s | Some e \<Rightarrow> py_raise e s)"

text \<open>A method of a socket object; on a closed one it raises \<open>OSError\<close>.\<close>

definition sock_call :: "py_world \<Rightarrow> nat \<Rightarrow> pcall \<Rightarrow> ('z psys_scheme, py_answer) py" where
  "sock_call w k c s = (if fileno s k = -1 then py_raise Os_error s else py_call w c s)"

definition sock_recv :: "py_world \<Rightarrow> nat \<Rightarrow> nat \<Rightarrow> ('z psys_scheme, byte list) py" where
  "sock_recv w k n = py_bind (sock_call w k (Py_recv k n)) (\<lambda>a. py_return (bytes a))"

text \<open>\<open>send\<close> returns how many bytes, from the front, the system took; that may be fewer than were offered.\<close>

definition sock_send :: "py_world \<Rightarrow> nat \<Rightarrow> byte list \<Rightarrow> ('z psys_scheme, nat) py" where
  "sock_send w k bs = py_bind (sock_call w k (Py_send k bs)) (\<lambda>a. py_return (taken a))"

definition sock_connect :: "py_world \<Rightarrow> nat \<Rightarrow> string \<Rightarrow> nat \<Rightarrow> ('z psys_scheme, unit) py" where
  "sock_connect w k host port = py_bind (sock_call w k (Py_connect k host port)) (\<lambda>_. py_return ())"

definition sock_sendall :: "py_world \<Rightarrow> nat \<Rightarrow> byte list \<Rightarrow> ('z psys_scheme, unit) py" where
  "sock_sendall w k bs = py_bind (sock_call w k (Py_sendall k bs)) (\<lambda>_. py_return ())"

text \<open>A new object for a descriptor of the kernel.\<close>

definition new_object :: "int \<Rightarrow> ('z psys_scheme, nat) py" where
  "new_object f = py_bind (py_get (\<lambda>s. length (filenos s))) (\<lambda>k.
     py_bind (py_set (filenos_update (\<lambda>fs. fs @ [f]))) (\<lambda>_. py_return k))"

definition sock_accept :: "py_world \<Rightarrow> nat \<Rightarrow> ('z psys_scheme, nat) py" where
  "sock_accept w k = py_bind (sock_call w k (Py_accept k)) (\<lambda>a. new_object (fd_number a))"

definition sock_create :: "py_world \<Rightarrow> ('z psys_scheme, nat) py" where
  "sock_create w = py_bind (py_call w Py_socket) (\<lambda>a. new_object (fd_number a))"

text \<open>Closing a closed socket does nothing; the object is closed even if the system reports an error.\<close>

definition sock_close :: "py_world \<Rightarrow> nat \<Rightarrow> ('z psys_scheme, unit) py" where
  "sock_close w k s =
     (if fileno s k = -1 then py_return () s
      else py_bind (py_call w (Py_close k)) (\<lambda>_. py_return ())
        (s\<lparr>filenos := (filenos s)[k := -1]\<rparr>))"

text \<open>\<open>select\<close> for reading; a closed socket among the objects is a \<open>ValueError\<close>.\<close>

definition py_select :: "py_world \<Rightarrow> nat list \<Rightarrow> ('z psys_scheme, nat list) py" where
  "py_select w ks s =
     (if list_ex (\<lambda>k. fileno s k < 0) ks then py_raise Value_error s
      else py_bind (py_call w (Py_select ks)) (\<lambda>a. py_return (ready a)) s)"

section \<open>Facts\<close>

lemma py_call_eq:
  "py_call w c s = Some (case raised (w (history s) c) of None \<Rightarrow> Inr (w (history s) c) | Some e \<Rightarrow> Inl e,
     s\<lparr>history := c # history s\<rparr>)"
  by (simp add: py_call_def Let_def py_return_def py_raise_def split: option.split)

lemma sock_recv_eq:
  "fileno s k \<noteq> -1 \<Longrightarrow> sock_recv w k n s =
     Some (case raised (w (history s) (Py_recv k n)) of None \<Rightarrow> Inr (bytes (w (history s) (Py_recv k n))) | Some e \<Rightarrow> Inl e,
       s\<lparr>history := Py_recv k n # history s\<rparr>)"
  by (simp add: sock_recv_def sock_call_def py_call_eq py_bind_def py_return_def split: option.split)

lemma sock_send_eq:
  "fileno s k \<noteq> -1 \<Longrightarrow> sock_send w k bs s =
     Some (case raised (w (history s) (Py_send k bs)) of None \<Rightarrow> Inr (taken (w (history s) (Py_send k bs))) | Some e \<Rightarrow> Inl e,
       s\<lparr>history := Py_send k bs # history s\<rparr>)"
  by (simp add: sock_send_def sock_call_def py_call_eq py_bind_def py_return_def split: option.split)

lemma sock_sendall_eq:
  "fileno s k \<noteq> -1 \<Longrightarrow> sock_sendall w k bs s =
     Some (case raised (w (history s) (Py_sendall k bs)) of None \<Rightarrow> Inr () | Some e \<Rightarrow> Inl e,
       s\<lparr>history := Py_sendall k bs # history s\<rparr>)"
  by (simp add: sock_sendall_def sock_call_def py_call_eq py_bind_def py_return_def split: option.split)

lemma sock_connect_eq:
  "fileno s k \<noteq> -1 \<Longrightarrow> sock_connect w k h p s =
     Some (case raised (w (history s) (Py_connect k h p)) of None \<Rightarrow> Inr () | Some e \<Rightarrow> Inl e,
       s\<lparr>history := Py_connect k h p # history s\<rparr>)"
  by (simp add: sock_connect_def sock_call_def py_call_eq py_bind_def py_return_def split: option.split)

lemma sock_close_eq:
  "fileno s k \<noteq> -1 \<Longrightarrow> sock_close w k s =
     Some (case raised (w (history s) (Py_close k)) of None \<Rightarrow> Inr () | Some e \<Rightarrow> Inl e,
       s\<lparr>filenos := (filenos s)[k := -1], history := Py_close k # history s\<rparr>)"
  by (simp add: sock_close_def py_call_eq py_bind_def py_return_def split: option.split)

lemma sock_closed [simp]:
  assumes "fileno s k = -1"
  shows "sock_recv w k n s = Some (Inl Os_error, s)" "sock_send w k bs s = Some (Inl Os_error, s)"
    "sock_connect w k h p s = Some (Inl Os_error, s)" "sock_close w k s = Some (Inr (), s)"
  using assms by (simp_all add: sock_recv_def sock_send_def sock_connect_def sock_close_def sock_call_def
      py_bind_def py_raise_def py_return_def)

lemma sock_create_eq:
  "sock_create w s = (let a = w (history s) Py_socket; s = s\<lparr>history := Py_socket # history s\<rparr> in
     case raised a of
       None \<Rightarrow> Some (Inr (length (filenos s)), s\<lparr>filenos := filenos s @ [fd_number a]\<rparr>)
     | Some e \<Rightarrow> Some (Inl e, s))"
  by (simp add: sock_create_def new_object_def py_call_eq py_bind_def py_return_def py_get_def py_set_def Let_def
      split: option.split)

lemma sock_accept_eq:
  "fileno s k \<noteq> -1 \<Longrightarrow> sock_accept w k s =
     (let a = w (history s) (Py_accept k); s = s\<lparr>history := Py_accept k # history s\<rparr> in
      case raised a of
        None \<Rightarrow> Some (Inr (length (filenos s)), s\<lparr>filenos := filenos s @ [fd_number a]\<rparr>)
      | Some e \<Rightarrow> Some (Inl e, s))"
  by (simp add: sock_accept_def sock_call_def new_object_def py_call_eq py_bind_def py_return_def py_get_def
      py_set_def Let_def split: option.split)

lemma fd_at_append [simp]: "fd_at (fs @ [f]) k = (if k = length fs then f else fd_at fs k)"
  by (auto simp: fd_at_def nth_append)

lemma fd_at_closed [simp]: "fd_at (fs[k := -1]) j = (if j = k then -1 else fd_at fs j)"
  by (auto simp: fd_at_def)

lemma fd_at_less: "fd_at fs k \<noteq> -1 \<Longrightarrow> k < length fs"
  by (auto simp: fd_at_def split: if_splits)

lemma fd_at_in: "fd_at fs k \<noteq> -1 \<Longrightarrow> fd_at fs k \<in> set fs"
  by (auto simp: fd_at_def split: if_splits)

section \<open>A peer that brings given bytes\<close>

text \<open>
  The system when the socket \<open>c\<close> brings the bytes \<open>req\<close>: \<open>recv\<close> reads on in them and gives less than
  asked for at their end.
\<close>

fun asked :: "nat \<Rightarrow> pcall list \<Rightarrow> nat" where
  "asked c [] = 0"
| "asked c (Py_recv k n # h) = (if k = c then n else 0) + asked c h"
| "asked c (x # h) = asked c h"

definition fed :: "py_world \<Rightarrow> nat \<Rightarrow> byte list \<Rightarrow> py_world" where
  "fed w c req h x = (case x of
     Py_recv k n \<Rightarrow>
       if k = c then \<lparr>raised = None, fd_number = 0, bytes = take n (drop (asked c h) req), ready = [], taken = 0\<rparr> else w h x
   | _ \<Rightarrow> w h x)"

lemma fed_simps [simp]:
  "fed w c req h (Py_recv c n) = \<lparr>raised = None, fd_number = 0, bytes = take n (drop (asked c h) req), ready = [], taken = 0\<rparr>"
  "fed w c req h Py_socket = w h Py_socket" "fed w c req h (Py_connect k host p) = w h (Py_connect k host p)"
  "fed w c req h (Py_send k bs) = w h (Py_send k bs)"
  by (simp_all add: fed_def)

end
