(* ===== verification/ProxyConvert.thy ===== *)
theory ProxyConvert
  imports PySockets TlvSpec CText
begin

text \<open>
  \<open>5GTC/pkg/convert.py\<close>: the packet classes of the Convert protocol on the side of the proxy, and
  the reading of a message. The packet library scapy is not part of the repository; the classes
  declare the fields, and what the library makes of fields is a parameter with the laws
  \<open>scapy_ok\<close>.
\<close>

section \<open>Packet classes\<close>

text \<open>The fields with their names and defaults; \<open>FieldLenField\<close> has one byte and an adjustment.\<close>

datatype field =
    ByteEnumField string nat
  | ByteField string nat
  | ShortField string "nat option"
  | IP6Field string
  | FieldLenField string "nat \<Rightarrow> nat"
  | PacketListField string

fun field_name :: "field \<Rightarrow> string" where
  "field_name (ByteEnumField n d) = n"
| "field_name (ByteField n d) = n"
| "field_name (ShortField n d) = n"
| "field_name (IP6Field n) = n"
| "field_name (FieldLenField n adj) = n"
| "field_name (PacketListField n) = n"

text \<open>\<open>CONVERT_TLVS\<close>, the names of the types, and the length of a header.\<close>

definition CONVERT_TLVS :: "nat \<Rightarrow> string option" where
  "CONVERT_TLVS = [0x1 \<mapsto> ''info'', 0xa \<mapsto> ''connect'', 0x14 \<mapsto> ''extended'', 0x15 \<mapsto> ''supported'',
     0x16 \<mapsto> ''cookie'', 0x1e \<mapsto> ''error'']"

definition CONVERT_HEADER_LENGTH :: nat where
  "CONVERT_HEADER_LENGTH = 4"

datatype tlv_class = ConvertTLV | ConvertTLV_Info | ConvertTLV_Error | ConvertTLV_Connect

definition ConvertTLV_HDR :: "field list" where
  "ConvertTLV_HDR = [ByteEnumField ''type'' 0, ByteField ''length'' 1]"

text \<open>Assigning to the name of a field in a class body sets its default.\<close>

fun set_default :: "string \<Rightarrow> nat \<Rightarrow> field \<Rightarrow> field" where
  "set_default n d (ByteEnumField m d') = ByteEnumField m (if m = n then d else d')"
| "set_default n d (ByteField m d') = ByteField m (if m = n then d else d')"
| "set_default n d f = f"

fun fields_desc :: "tlv_class \<Rightarrow> field list" where
  "fields_desc ConvertTLV = ConvertTLV_HDR @ [ShortField ''padding'' (Some 0)]"
| "fields_desc ConvertTLV_Info = map (set_default ''type'' 0x1) (ConvertTLV_HDR @ [ShortField ''padding'' (Some 0)])"
| "fields_desc ConvertTLV_Error =
     map (set_default ''type'' 0x1e) (ConvertTLV_HDR @ [ByteField ''error_code'' 0, ByteField ''value'' 0])"
| "fields_desc ConvertTLV_Connect =
     map (set_default ''type'' 0xa \<circ> set_default ''length'' 5)
       (ConvertTLV_HDR @ [ShortField ''remote_port'' None, IP6Field ''remote_addr''])"

definition Convert_fields :: "field list" where
  "Convert_fields = [ByteField ''version'' 1, FieldLenField ''total_length'' (\<lambda>l. 1 + l div 4),
     ShortField ''magic_no'' (Some 8803), PacketListField ''tlvs'']"

section \<open>The packet library\<close>

datatype pyval = PyNone | Num nat | Text string | Empty_list

type_synonym attrs = "string \<Rightarrow> pyval"

text \<open>
  \<open>dissect\<close> makes a packet of a byte string, or raises; \<open>assemble\<close> is \<open>bytes(p)\<close> of a packet made
  that way, \<open>build\<close> the bytes of a packet with its defaults; \<open>ip6_text\<close> is the text of an address.
\<close>

record scapy =
  dissect :: "field list \<Rightarrow> byte list \<Rightarrow> py_exn + attrs"
  assemble :: "field list \<Rightarrow> byte list \<Rightarrow> byte list"
  build :: "field list \<Rightarrow> byte list"
  ip6_text :: "byte list \<Rightarrow> string"

fun field_size :: "field \<Rightarrow> nat" where
  "field_size (ByteEnumField n d) = 1"
| "field_size (ByteField n d) = 1"
| "field_size (ShortField n d) = 2"
| "field_size (IP6Field n) = 16"
| "field_size (FieldLenField n adj) = 1"
| "field_size (PacketListField n) = 0"

definition big_endian :: "byte list \<Rightarrow> nat" where
  "big_endian bs = foldl (\<lambda>v b. 256 * v + unat b) 0 bs"

fun field_value :: "scapy \<Rightarrow> field \<Rightarrow> byte list \<Rightarrow> pyval" where
  "field_value sc (IP6Field n) bs = Text (ip6_text sc bs)"
| "field_value sc (PacketListField n) bs = Empty_list"
| "field_value sc f bs = Num (big_endian bs)"

fun field_values :: "scapy \<Rightarrow> field list \<Rightarrow> byte list \<Rightarrow> attrs" where
  "field_values sc [] bs = (\<lambda>n. PyNone)"
| "field_values sc (f # fs) bs =
     (field_values sc fs (drop (field_size f) bs))(field_name f := field_value sc f (take (field_size f) bs))"

definition packet_size :: "field list \<Rightarrow> nat" where
  "packet_size fs = sum_list (map field_size fs)"

fun default_bytes :: "field \<Rightarrow> byte list option" where
  "default_bytes (ByteEnumField n d) = Some [of_nat d]"
| "default_bytes (ByteField n d) = Some [of_nat d]"
| "default_bytes (ShortField n (Some d)) = Some [of_nat (d div 256), of_nat d]"
| "default_bytes (FieldLenField n adj) = Some [of_nat (adj 0)]"
| "default_bytes (PacketListField n) = Some []"
| "default_bytes f = None"

text \<open>Bytes as characters.\<close>

definition ascii :: "byte list \<Rightarrow> string" where
  "ascii bs = map (\<lambda>b. char_of (unat b)) bs"

text \<open>
  What scapy and \<open>inet_ntop\<close> document: a packet is the values of its fields in their order, numbers
  in network byte order, as far as there are enough bytes (nothing is said otherwise); a packet
  that was not changed has the bytes it was made of; the defaults are put one behind the other,
  the length of an empty list being 0; an IPv4 address in an IPv6 address is written with dots.
\<close>

definition list_last :: "field list \<Rightarrow> byte list \<Rightarrow> bool" where
  "list_last fs bs \<longleftrightarrow> list_ex (\<lambda>f. case f of PacketListField n \<Rightarrow> True | _ \<Rightarrow> False) fs \<longrightarrow> length bs = packet_size fs"

definition scapy_ok :: "scapy \<Rightarrow> bool" where
  "scapy_ok sc \<longleftrightarrow>
     (\<forall>fs bs. packet_size fs \<le> length bs \<longrightarrow> list_last fs bs \<longrightarrow>
        dissect sc fs bs = Inr (field_values sc fs bs) \<and> assemble sc fs bs = bs) \<and>
     (\<forall>fs bss. map default_bytes fs = map Some bss \<longrightarrow> build sc fs = concat bss) \<and>
     (\<forall>a. length a = 4 \<longrightarrow> ip6_text sc (replicate 10 0 @ [255, 255] @ a) = ''::ffff:'' @ ascii (dotted a))"

section \<open>Reading a message\<close>

type_synonym packet = "tlv_class \<times> attrs"

definition new_tlv :: "scapy \<Rightarrow> tlv_class \<Rightarrow> byte list \<Rightarrow> py_exn + packet" where
  "new_tlv sc cls bs = bindE (dissect sc (fields_desc cls) bs) (\<lambda>a. Inr (cls, a))"

text \<open>The object for the TLV at the start of a byte string.\<close>

definition read_tlv :: "scapy \<Rightarrow> byte list \<Rightarrow> py_exn + packet" where
  "read_tlv sc bs =
     bindE (new_tlv sc ConvertTLV bs) (\<lambda>tlv.
     let raw = assemble sc (fields_desc ConvertTLV) bs in
     if snd tlv ''type'' = Num 0x1 then new_tlv sc ConvertTLV_Info raw
     else if snd tlv ''type'' = Num 0x1e then new_tlv sc ConvertTLV_Error raw
     else if snd tlv ''type'' = Num 0xa then new_tlv sc ConvertTLV_Connect raw
     else Inr tlv)"

partial_function (option) read_packets ::
  "scapy \<Rightarrow> byte list \<Rightarrow> nat \<Rightarrow> packet list \<Rightarrow> (py_exn + packet list) option"
where
  "read_packets sc data offset tlvs =
     (if offset < length data then
        (case read_tlv sc (drop offset data) of
           Inl e \<Rightarrow> Some (Inl e)
         | Inr tlv \<Rightarrow> (case snd tlv ''length'' of
               Num n \<Rightarrow> read_packets sc data (offset + n * 4) (tlvs @ [tlv])
             | _ \<Rightarrow> Some (Inl Type_error)))
      else Some (Inr tlvs))"

text \<open>The TLVs of the message; \<open>None\<close> inside when there is no whole header.\<close>

definition read_convert_header :: "scapy \<Rightarrow> py_world \<Rightarrow> nat \<Rightarrow> ('z psys_scheme, packet list option) py" where
  "read_convert_header sc w sock =
     py_bind (sock_recv w sock CONVERT_HEADER_LENGTH) (\<lambda>data.
     if length data \<noteq> CONVERT_HEADER_LENGTH then py_return None
     else py_bind (py_lift (dissect sc Convert_fields data)) (\<lambda>header.
       case header ''total_length'' of
         Num n \<Rightarrow>
           py_bind (sock_recv w sock (n * 4)) (\<lambda>data.
           case read_packets sc data 0 [] of
             None \<Rightarrow> (\<lambda>s. None)
           | Some r \<Rightarrow> py_bind (py_lift r) (\<lambda>tlvs. py_return (Some tlvs)))
       | _ \<Rightarrow> py_raise Type_error))"

text \<open>\<open>str\<close> of an attribute, and the part of a text behind its last colon.\<close>

fun py_str :: "pyval \<Rightarrow> string" where
  "py_str PyNone = ''None''"
| "py_str (Num n) = ascii (dec n)"
| "py_str (Text t) = t"
| "py_str Empty_list = ''[]''"

definition ipv6_to_ipv4 :: "pyval \<Rightarrow> string" where
  "ipv6_to_ipv4 v = rev (takeWhile (\<lambda>c. c \<noteq> CHR '':'') (rev (py_str v)))"

section \<open>Dissecting\<close>

lemma field_values_append:
  "packet_size fs \<le> length bs \<Longrightarrow> field_values sc fs (bs @ cs) = field_values sc fs bs"
  by (induction fs arbitrary: bs) (simp_all add: packet_size_def)

lemma dissect_enough:
  assumes "scapy_ok sc" and "packet_size fs \<le> length bs" and "list_last fs bs"
  shows "dissect sc fs bs = Inr (field_values sc fs bs)" "assemble sc fs bs = bs"
  using assms by (simp_all add: scapy_ok_def)

lemma packet_sizes [layout]:
  "packet_size (fields_desc ConvertTLV) = 4" "packet_size (fields_desc ConvertTLV_Info) = 4"
  "packet_size (fields_desc ConvertTLV_Error) = 4" "packet_size (fields_desc ConvertTLV_Connect) = 20"
  "packet_size Convert_fields = 4"
  by (simp_all add: packet_size_def ConvertTLV_HDR_def Convert_fields_def)

lemma list_last_tlv [simp]: "list_last (fields_desc cls) bs"
  by (cases cls) (simp_all add: list_last_def ConvertTLV_HDR_def)

lemma new_tlv_enough:
  "scapy_ok sc \<Longrightarrow> packet_size (fields_desc cls) \<le> length bs \<Longrightarrow>
   new_tlv sc cls bs = Inr (cls, field_values sc (fields_desc cls) bs)"
  by (simp add: new_tlv_def dissect_enough)

lemma big_endian_one [simp]: "big_endian [b] = unat b"
  by (simp add: big_endian_def)

lemma tlv_attrs:
  "field_values sc (fields_desc cls) (a # b # bs) ''type'' = Num (unat a)"
  "field_values sc (fields_desc cls) (a # b # bs) ''length'' = Num (unat b)"
  by (cases cls; simp add: ConvertTLV_HDR_def)+

text \<open>The class and the packet of a TLV.\<close>

definition class_of :: "nat \<Rightarrow> tlv_class" where
  "class_of ty = (if ty = 0x1 then ConvertTLV_Info else if ty = 0x1e then ConvertTLV_Error
     else if ty = 0xa then ConvertTLV_Connect else ConvertTLV)"

lemma read_tlv_enough:
  assumes "scapy_ok sc" and "4 \<le> length bs" and "bs ! 0 = 0xa \<Longrightarrow> 20 \<le> length bs"
  shows "read_tlv sc bs = Inr (let cls = class_of (unat (bs ! 0)) in (cls, field_values sc (fields_desc cls) bs))"
proof -
  obtain a b cs where bs: "bs = a # b # cs"
    using assms(2) by (cases bs; cases "tl bs") auto
  have a: "a = 0xa \<longleftrightarrow> unat a = 10" by (simp add: word_unat_eq_iff)
  show ?thesis
    using assms a unfolding read_tlv_def class_of_def bs
    by (auto simp: new_tlv_enough layout dissect_enough tlv_attrs Let_def simp del: fields_desc.simps)
qed

definition packet_of :: "scapy \<Rightarrow> tlv \<Rightarrow> packet" where
  "packet_of sc t = (let cls = class_of (unat (type_no (tlv_type t))) in
     (cls, field_values sc (fields_desc cls) (encode1 t)))"

lemma encode1_start: "encode1 t ! 0 = type_no (tlv_type t)" "4 \<le> length (encode1 t) \<or> \<not> wf_tlv t"
  by (cases t; simp)+

lemma encode1_length_byte: "wf_tlv t \<Longrightarrow> unat (encode1 t ! 1) * 4 = length (encode1 t)"
proof -
  assume t: "wf_tlv t"
  have "encode1 t ! 1 = units (length (encode1 t))" by (cases t) (use t in \<open>simp_all add: eval_nat_numeral\<close>)
  moreover have "length (encode1 t) \<le> 1020" using t by (cases t) simp_all
  ultimately show ?thesis using unat_units [of "length (encode1 t)"] length_encode1_dvd [OF t] by (simp add: mult.commute)
qed

lemma packet_of_attrs:
  assumes "wf_tlv t"
  shows "snd (packet_of sc t) ''type'' = Num (unat (type_no (tlv_type t)))"
    "snd (packet_of sc t) ''length'' = Num (unat (encode1 t ! 1))"
proof -
  obtain a b cs where e: "encode1 t = a # b # cs"
    using encode1_start(2) [of t] assms by (cases "encode1 t"; cases "tl (encode1 t)") auto
  then show "snd (packet_of sc t) ''type'' = Num (unat (type_no (tlv_type t)))"
    "snd (packet_of sc t) ''length'' = Num (unat (encode1 t ! 1))"
    using encode1_start(1) [of t] by (simp_all add: packet_of_def Let_def tlv_attrs del: fields_desc.simps encode1.simps)
qed

lemma class_size: "wf_tlv t \<Longrightarrow> packet_size (fields_desc (class_of (unat (type_no (tlv_type t))))) \<le> length (encode1 t)"
  by (cases t) (auto simp: class_of_def layout simp del: fields_desc.simps)

lemma read_tlv_encoded:
  assumes "scapy_ok sc" and "wf_tlv t"
  shows "read_tlv sc (encode1 t @ rest) = Inr (packet_of sc t)"
proof -
  have len: "4 \<le> length (encode1 t)" using encode1_start(2) assms(2) by blast
  have hd: "(encode1 t @ rest) ! 0 = type_no (tlv_type t)"
    using encode1_start(1) [of t] by (simp add: nth_append)
  have "20 \<le> length (encode1 t @ rest)" if "(encode1 t @ rest) ! 0 = 0xa"
    using that hd assms(2) by (cases t) simp_all
  from read_tlv_enough [OF assms(1) _ this] len hd
  show ?thesis using class_size [OF assms(2)]
    by (simp add: packet_of_def Let_def field_values_append del: fields_desc.simps)
qed

lemma read_packets_prefix:
  assumes "scapy_ok sc" and "list_all wf_tlv ts"
  shows "read_packets sc (pre @ encode ts @ rest) (length pre) acc =
    read_packets sc (pre @ encode ts @ rest) (length (pre @ encode ts)) (acc @ map (packet_of sc) ts)"
  using assms(2)
proof (induction ts arbitrary: pre acc)
  case (Cons t ts)
  then have t: "wf_tlv t" by simp
  have "read_packets sc (pre @ encode (t # ts) @ rest) (length pre) acc =
    read_packets sc ((pre @ encode1 t) @ encode ts @ rest) (length (pre @ encode1 t)) (acc @ [packet_of sc t])"
    using read_tlv_encoded [OF assms(1) t, of "encode ts @ rest"] packet_of_attrs [OF t] encode1_length_byte [OF t]
    by (subst read_packets.simps) simp
  also have "\<dots> = read_packets sc ((pre @ encode1 t) @ encode ts @ rest) (length ((pre @ encode1 t) @ encode ts))
      ((acc @ [packet_of sc t]) @ map (packet_of sc) ts)"
    using Cons.IH [of "pre @ encode1 t" "acc @ [packet_of sc t]"] Cons.prems by simp
  finally show ?case by simp
qed simp

lemma read_packets_encoded:
  assumes "scapy_ok sc" and "list_all wf_tlv ts"
  shows "read_packets sc (pre @ encode ts) (length pre) acc = Some (Inr (acc @ map (packet_of sc) ts))"
  using read_packets_prefix [OF assms, of pre "[]" acc] by (simp add: read_packets.simps)

text \<open>A TLV of length 0 does not move the loop forward.\<close>

lemma read_packets_stuck:
  assumes "scapy_ok sc" and "offset + 4 \<le> length data" and "data ! (offset + 1) = 0"
    and "data ! offset = 0xa \<Longrightarrow> offset + 20 \<le> length data"
  shows "read_packets sc data offset tlvs = None"
proof (rule ccontr)
  let ?bs = "drop offset data"
  obtain tlv where tlv: "read_tlv sc ?bs = Inr tlv" "snd tlv ''length'' = Num 0"
  proof -
    obtain a b cs where bs: "?bs = a # b # cs"
      using assms(2) by (cases ?bs; cases "tl ?bs") (auto dest: arg_cong [of _ _ length])
    have "?bs ! 0 = data ! offset" "?bs ! 1 = data ! (offset + 1)" using assms(2) by simp_all
    then have b: "b = 0" and a: "a = data ! offset" using bs assms(3) by simp_all
    have "length ?bs = length data - offset" by simp
    then have "4 \<le> length (a # b # cs)" "a = 0xa \<Longrightarrow> 20 \<le> length (a # b # cs)"
      using bs assms(2,4) a by simp_all
    from read_tlv_enough [OF assms(1) this(1)] this(2)
    have "read_tlv sc ?bs = Inr (let cls = class_of (unat a) in (cls, field_values sc (fields_desc cls) ?bs))"
      unfolding bs by simp
    then show ?thesis
      by (intro that [of "let cls = class_of (unat a) in (cls, field_values sc (fields_desc cls) ?bs)"])
       (simp_all add: Let_def bs b tlv_attrs del: fields_desc.simps)
  qed
  assume "read_packets sc data offset tlvs \<noteq> None"
  then obtain r where "read_packets sc data offset tlvs = Some r" by blast
  moreover have "\<not> (sc' = sc \<and> d = data \<and> k = offset)" if "read_packets sc' d k acc = Some r" for sc' d k acc r
    using that
  proof (rule read_packets.raw_induct [where P = "\<lambda>sc' d k acc r. \<not> (sc' = sc \<and> d = data \<and> k = offset)", rotated])
    fix rt sc' d k acc r
    assume IH: "\<And>sc' d k acc r. rt sc' d k acc = Some r \<Longrightarrow> \<not> (sc' = sc \<and> d = data \<and> k = offset)"
      and run: "(if k < length d then case read_tlv sc' (drop k d) of Inl e \<Rightarrow> Some (Inl e)
        | Inr tlv \<Rightarrow> (case snd tlv ''length'' of Num n \<Rightarrow> rt sc' d (k + n * 4) (acc @ [tlv]) | _ \<Rightarrow> Some (Inl Type_error))
        else Some (Inr acc)) = Some r"
    show "\<not> (sc' = sc \<and> d = data \<and> k = offset)"
    proof
      assume here: "sc' = sc \<and> d = data \<and> k = offset"
      then have "rt sc data offset (acc @ [tlv]) = Some r" using run tlv assms(2) by auto
      then show False using IH by blast
    qed
  qed
  ultimately show False by blast
qed
lemma header_dissected:
  assumes "scapy_ok sc" and "length hd4 = 4"
  obtains h where "dissect sc Convert_fields hd4 = Inr h" "h ''total_length'' = Num (unat (hd4 ! 1))"
proof -
  obtain a b c d where hd4: "hd4 = [a, b, c, d]"
    using assms(2) by (auto simp: length_Suc_conv eval_nat_numeral)
  have "dissect sc Convert_fields hd4 = Inr (field_values sc Convert_fields hd4)"
    using assms by (intro dissect_enough) (simp_all add: layout list_last_def)
  moreover have "field_values sc Convert_fields hd4 ''total_length'' = Num (unat (hd4 ! 1))"
    by (simp add: hd4 Convert_fields_def)
  ultimately show thesis by (rule that)
qed

lemma unat_ntohs: "unat (ntohs w) = big_endian (le16 w)"
proof -
  have "push_bit 8 w OR drop_bit 8 w = push_bit 8 w + drop_bit 8 w"
    by (rule disjunctive_add [symmetric]) (auto simp: bit_simps dest: bit_imp_le_length)
  moreover have "unat (push_bit 8 w) = 256 * (unat w mod 256)"
    using mod_mult_mult1 [of 256 "unat w" 256] by (simp add: push_bit_eq_mult unat_word_ariths mult.commute)
  moreover have "unat (drop_bit 8 w) = unat w div 256"
    by (simp add: drop_bit_eq_div unat_div)
  moreover have "unat w < 65536" using unsigned_less [of w] by simp
  moreover have "unat (ucast w :: byte) = unat w mod 256"
    by (simp add: unsigned_ucast_eq take_bit_eq_mod)
  moreover have "unat (ucast (drop_bit 8 w) :: byte) = unat w div 256"
    using \<open>unat w < 65536\<close> by (simp add: unsigned_ucast_eq take_bit_eq_mod drop_bit_eq_div unat_div)
  ultimately show ?thesis
    unfolding ntohs_def by (simp add: big_endian_def le16_def unat_word_ariths)
qed

lemma connect_attrs:
  assumes "length addr = 16"
  shows "snd (packet_of sc (Tlv_connect port addr)) ''remote_port'' = Num (unat (ntohs port))"
    "snd (packet_of sc (Tlv_connect port addr)) ''remote_addr'' = Text (ip6_text sc addr)"
  using assms by (simp_all add: packet_of_def class_of_def ConvertTLV_HDR_def unat_ntohs)

lemma unat_isdigit: "isdigit b \<Longrightarrow> 48 \<le> unat b \<and> unat b \<le> 57"
  by (auto simp: isdigit_def word_le_nat_alt)

lemma colon_dotted: "CHR '':'' \<notin> set (ascii (dotted a))"
proof
  assume "CHR '':'' \<in> set (ascii (dotted a))"
  then obtain d where d: "d \<in> set (dotted a)" "char_of (unat d) = CHR '':''" by (auto simp: ascii_def)
  have "unat d = of_char (char_of (unat d) :: char)" by simp
  also have "\<dots> = 58" unfolding d(2) by simp
  finally have "unat d = 58" .
  moreover have "isdigit d \<or> d = 46"
    using d(1) dec_digits by (induction a rule: dotted.induct) (auto simp: list_all_iff)
  ultimately show False using unat_isdigit [of d] by auto
qed

lemma behind_colon:
  assumes "CHR '':'' \<notin> set u"
  shows "ipv6_to_ipv4 (Text (t @ CHR '':'' # u)) = u"
proof -
  have "takeWhile (\<lambda>c. c \<noteq> CHR '':'') (rev u @ CHR '':'' # rev t) = rev u"
    using assms by (subst takeWhile_append2) auto
  then show ?thesis by (simp add: ipv6_to_ipv4_def)
qed

end
