(* ===== verification/ProxyServer.thy ===== *)
theory ProxyServer
  imports ProxyConvert
begin

text \<open>
  \<open>TCServer\<close> of \<open>5GTC/main.py\<close>, the converter: it takes connections, reads the message of the
  client, connects to the destination the message names, and then copies what comes from either
  side to the other one. The performance loggers are objects of their own threads; the server
  makes, runs and stops them, and what these calls do is a parameter like the system.
\<close>

section \<open>The server\<close>

text \<open>
  The sockets that \<open>select\<close> waits for, and dictionaries from descriptors to the socket on the
  other side, to the side the descriptor is on, and to the socket a logger was made for. Socket
  0 is the listening one.
\<close>

record server = psys +
  inputs :: "nat list"
  forward_map :: "int \<Rightarrow> nat option"
  track_client_sockets :: "int \<Rightarrow> bool option"
  perf_loggers :: "int \<Rightarrow> nat option"

text \<open>\<open>l.remove(x)\<close> of a list: the first occurrence, or \<open>ValueError\<close>.\<close>

definition inputs_remove :: "nat \<Rightarrow> (server, unit) py" where
  "inputs_remove k s =
     (if k \<in> set (inputs s) then py_return () (s\<lparr>inputs := remove1 k (inputs s)\<rparr>) else py_raise Value_error s)"

definition forward_delete :: "nat \<Rightarrow> (server, unit) py" where
  "forward_delete k s =
     (case forward_map s (fileno s k) of
        None \<Rightarrow> py_raise Key_error s
      | Some _ \<Rightarrow> py_return () (s\<lparr>forward_map := (forward_map s)(fileno s k := None)\<rparr>))"

definition stop_logger :: "py_world \<Rightarrow> nat option \<Rightarrow> (server, unit) py" where
  "stop_logger w lg = (case lg of
       None \<Rightarrow> py_return ()
     | Some k \<Rightarrow> py_bind (py_call w (Logger_stop k)) (\<lambda>_. py_return ()))"

definition cleanup_socket_pair :: "py_world \<Rightarrow> nat \<Rightarrow> nat \<Rightarrow> (server, unit) py" where
  "cleanup_socket_pair w cfd sfd =
     py_bind (inputs_remove cfd) (\<lambda>_.
     py_bind (forward_delete cfd) (\<lambda>_.
     py_bind (forward_delete sfd) (\<lambda>_.
     py_bind (inputs_remove sfd) (\<lambda>_.
     py_bind (py_get (\<lambda>s. case perf_loggers s (fileno s cfd) of
         Some k \<Rightarrow> Some k | None \<Rightarrow> perf_loggers s (fileno s sfd))) (\<lambda>perf_logger.
     py_bind (stop_logger w perf_logger) (\<lambda>_.
     py_bind (sock_close w cfd) (\<lambda>_.
     sock_close w sfd)))))))"

text \<open>One read of a socket; \<open>bufsize\<close> is \<open>read_buffer_size\<close>.\<close>

definition read_and_forward :: "py_world \<Rightarrow> nat \<Rightarrow> nat \<Rightarrow> (server, unit) py" where
  "read_and_forward w bufsize sock =
     py_bind (py_get (\<lambda>s. (fileno s sock, forward_map s))) (\<lambda>(f, fm).
     py_bind (py_item fm f) (\<lambda>sfd.
     py_bind (py_get (\<lambda>s. fileno s sfd = -1 \<or> fileno s sock = -1)) (\<lambda>closed.
     py_bind (if closed then cleanup_socket_pair w sock sfd else py_return ()) (\<lambda>_.
     py_try (sock_recv w sock bufsize)
       (\<lambda>e. cleanup_socket_pair w sock sfd)
       (\<lambda>data.
          if data \<noteq> []
          then py_bind (py_get (\<lambda>s. (fileno s sock, forward_map s))) (\<lambda>(f, fm).
               py_bind (py_item fm f) (\<lambda>other.
               py_bind (sock_send w other data) (\<lambda>_. py_return ())))
          else cleanup_socket_pair w sock sfd)))))"

section \<open>A new connection\<close>

text \<open>The two sockets become each other's other side, and a logger is made for the client.\<close>

definition register_pair :: "py_world \<Rightarrow> nat \<Rightarrow> nat \<Rightarrow> (server, unit) py" where
  "register_pair w client_sock server_sock =
     py_bind (py_set (\<lambda>s. s\<lparr>
       inputs := inputs s @ [server_sock, client_sock],
       track_client_sockets := (track_client_sockets s)
         (fileno s client_sock := Some True, fileno s server_sock := Some False),
       forward_map := (forward_map s)
         (fileno s client_sock := Some server_sock, fileno s server_sock := Some client_sock)\<rparr>)) (\<lambda>_.
     py_bind (py_call w (Logger_create client_sock)) (\<lambda>_.
     py_bind (py_set (\<lambda>s. s\<lparr>perf_loggers := (perf_loggers s)(fileno s client_sock := Some client_sock)\<rparr>)) (\<lambda>_.
     py_bind (py_call w (Logger_run client_sock)) (\<lambda>_. py_return ()))))"

definition handle_tlv_connect :: "scapy \<Rightarrow> py_world \<Rightarrow> packet \<Rightarrow> nat \<Rightarrow> (server, unit) py" where
  "handle_tlv_connect sc w tlv client_sock =
     (let ipv4 = ipv6_to_ipv4 (snd tlv ''remote_addr'') in
      py_bind (sock_create w) (\<lambda>server_sock.
      py_try (case snd tlv ''remote_port'' of
          Num port \<Rightarrow> sock_connect w server_sock ipv4 port
        | _ \<Rightarrow> py_raise Type_error)
        (\<lambda>e. sock_close w client_sock)
        (\<lambda>_. py_bind (sock_send w client_sock (build sc Convert_fields)) (\<lambda>_.
             register_pair w client_sock server_sock))))"

text \<open>\<open>CONVERT_TLVS[tlv.type]\<close> is a \<open>KeyError\<close> for a type that is not there.\<close>

fun handle_tlvs :: "scapy \<Rightarrow> py_world \<Rightarrow> nat \<Rightarrow> packet list \<Rightarrow> (server, unit) py" where
  "handle_tlvs sc w client_sock [] = py_return ()"
| "handle_tlvs sc w client_sock (tlv # tlvs) =
     py_bind (py_item (\<lambda>v. case v of Num n \<Rightarrow> CONVERT_TLVS n | _ \<Rightarrow> None) (snd tlv ''type'')) (\<lambda>name.
     py_bind (if name = ''connect'' then handle_tlv_connect sc w tlv client_sock else py_return ()) (\<lambda>_.
     handle_tlvs sc w client_sock tlvs))"

text \<open>Whether the connection is kept; \<open>None\<close> counts as \<open>False\<close>.\<close>

definition handle_connection :: "scapy \<Rightarrow> py_world \<Rightarrow> nat \<Rightarrow> (server, bool) py" where
  "handle_connection sc w client_sock =
     py_try
       (py_bind (read_convert_header sc w client_sock) (\<lambda>convert.
        case convert of
          None \<Rightarrow> py_return False
        | Some tlvs \<Rightarrow> py_bind (handle_tlvs sc w client_sock tlvs) (\<lambda>_. py_return True)))
       (\<lambda>e. py_return False)
       py_return"

section \<open>The loop\<close>

text \<open>What is done for one socket that is ready, for all of them, and \<open>n\<close> rounds of the loop.\<close>

definition serve_socket :: "scapy \<Rightarrow> py_world \<Rightarrow> nat \<Rightarrow> nat \<Rightarrow> (server, unit) py" where
  "serve_socket sc w bufsize k =
     (if k = 0
      then py_bind (sock_accept w 0) (\<lambda>client_sock.
           py_bind (handle_connection sc w client_sock) (\<lambda>success.
           if \<not> success then sock_close w client_sock else py_return ()))
      else read_and_forward w bufsize k)"

fun serve_ready :: "scapy \<Rightarrow> py_world \<Rightarrow> nat \<Rightarrow> nat list \<Rightarrow> (server, unit) py" where
  "serve_ready sc w bufsize [] = py_return ()"
| "serve_ready sc w bufsize (k # ks) = py_bind (serve_socket sc w bufsize k) (\<lambda>_. serve_ready sc w bufsize ks)"

definition serve_round :: "scapy \<Rightarrow> py_world \<Rightarrow> nat \<Rightarrow> (server, unit) py" where
  "serve_round sc w bufsize =
     py_bind (py_get inputs) (\<lambda>ks.
     py_bind (py_select w ks) (\<lambda>readable. serve_ready sc w bufsize readable))"

fun run_nonblocking :: "scapy \<Rightarrow> py_world \<Rightarrow> nat \<Rightarrow> nat \<Rightarrow> (server, unit) py" where
  "run_nonblocking sc w bufsize 0 = py_return ()"
| "run_nonblocking sc w bufsize (Suc n) = py_bind (serve_round sc w bufsize) (\<lambda>_. run_nonblocking sc w bufsize n)"

text \<open>The server after its start, listening on descriptor \<open>f\<close>.\<close>

definition started :: "int \<Rightarrow> server" where
  "started f = \<lparr>filenos = [f], history = [], inputs = [0], forward_map = Map.empty,
     track_client_sockets = Map.empty, perf_loggers = Map.empty\<rparr>"

section \<open>What the steps do\<close>

text \<open>The message of a client as a function of the history, with the history after it was read.\<close>

definition message_read ::
  "scapy \<Rightarrow> py_world \<Rightarrow> nat \<Rightarrow> pcall list \<Rightarrow> ((py_exn + packet list option) \<times> pcall list) option"
where
  "message_read sc w k h =
     (let c = Py_recv k CONVERT_HEADER_LENGTH; a = w h c; h = c # h in
      case raised a of
        Some e \<Rightarrow> Some (Inl e, h)
      | None \<Rightarrow>
          if length (bytes a) \<noteq> CONVERT_HEADER_LENGTH then Some (Inr None, h)
          else case dissect sc Convert_fields (bytes a) of
            Inl e \<Rightarrow> Some (Inl e, h)
          | Inr header \<Rightarrow> (case header ''total_length'' of
                Num n \<Rightarrow>
                  (let c = Py_recv k (n * 4); a = w h c; h = c # h in
                   case raised a of
                     Some e \<Rightarrow> Some (Inl e, h)
                   | None \<Rightarrow> map_option (\<lambda>r. (map_sum id Some r, h)) (read_packets sc (bytes a) 0 []))
              | _ \<Rightarrow> Some (Inl Type_error, h)))"

lemma read_convert_header_eq:
  assumes "fileno s k \<noteq> -1"
  shows "read_convert_header sc w k s =
    map_option (\<lambda>(r, h). (r, s\<lparr>history := h\<rparr>)) (message_read sc w k (history s))"
proof -
  have lift: "py_lift r s = Some (r, s)" for r :: "py_exn + 'x" and s :: "'y"
    by (cases r) (simp_all add: py_simps)
  show ?thesis
    using assms
    by (auto simp: read_convert_header_def message_read_def Let_def py_bind_def sock_recv_eq lift
        py_return_def py_raise_def split: option.split sum.split pyval.split)
qed

text \<open>Two registered sockets that are each other's other side.\<close>

definition registered :: "server \<Rightarrow> nat set" where
  "registered s = set (inputs s) - {0}"

definition connected :: "server \<Rightarrow> nat \<Rightarrow> nat \<Rightarrow> bool" where
  "connected s k j \<longleftrightarrow> k \<in> registered s \<and> j \<in> registered s \<and> k \<noteq> j \<and>
     forward_map s (fileno s k) = Some j \<and> forward_map s (fileno s j) = Some k"

definition proxying :: "server \<Rightarrow> bool" where
  "proxying s \<longleftrightarrow> distinct (inputs s) \<and> 0 \<in> set (inputs s) \<and>
     (\<forall>k \<in> set (inputs s). 0 \<le> fileno s k) \<and> inj_on (fileno s) (set (inputs s)) \<and>
     (\<forall>k \<in> registered s. \<exists>j. connected s k j) \<and>
     dom (forward_map s) = fileno s ` registered s"

text \<open>Loggers that start and stop, and sockets that close, without an exception.\<close>

definition dependable :: "py_world \<Rightarrow> bool" where
  "dependable w \<longleftrightarrow> (\<forall>h k. raised (w h (Py_close k)) = None \<and> raised (w h (Logger_create k)) = None \<and>
     raised (w h (Logger_run k)) = None \<and> raised (w h (Logger_stop k)) = None)"

definition logger_of :: "server \<Rightarrow> nat \<Rightarrow> nat \<Rightarrow> pcall list" where
  "logger_of s k j = (case perf_loggers s (fileno s k) of
      Some l \<Rightarrow> [Logger_stop l]
    | None \<Rightarrow> (case perf_loggers s (fileno s j) of Some l \<Rightarrow> [Logger_stop l] | None \<Rightarrow> []))"

definition unregister :: "nat \<Rightarrow> nat \<Rightarrow> server \<Rightarrow> server" where
  "unregister k j s = s\<lparr>filenos := (filenos s)[k := -1, j := -1],
     history := [Py_close j, Py_close k] @ logger_of s k j @ history s,
     inputs := remove1 j (remove1 k (inputs s)),
     forward_map := (forward_map s)(fileno s k := None, fileno s j := None)\<rparr>"

lemma connectedD:
  assumes "proxying s" and "connected s k j"
  shows "0 \<le> fileno s k" "0 \<le> fileno s j" "fileno s k \<noteq> fileno s j" "k \<noteq> j"
    "k \<in> set (inputs s)" "j \<in> set (inputs s)" "k \<noteq> 0" "j \<noteq> 0"
  using assms by (auto simp: proxying_def connected_def registered_def dest: inj_onD)

lemma cleanup_eq:
  assumes "dependable w" and "proxying s" and "connected s k j"
  shows "cleanup_socket_pair w k j s = Some (Inr (), unregister k j s)"
proof -
  note c = connectedD [OF assms(2,3)]
  have fm: "forward_map s (fileno s k) = Some j" "forward_map s (fileno s j) = Some k"
    using assms(3) by (simp_all add: connected_def)
  have ne: "fileno s k \<noteq> -1" "fileno s j \<noteq> -1" using c(1,2) by auto
  have dependable: "raised (w h (Py_close x)) = None" "raised (w h (Logger_stop x)) = None" for h x
    using assms(1) by (simp_all add: dependable_def)
  show ?thesis
    using c fm ne
    by (simp add: cleanup_socket_pair_def inputs_remove_def forward_delete_def stop_logger_def py_simps py_bind_def
        py_call_eq sock_close_eq dependable unregister_def logger_of_def split: option.split)
qed

lemma connected_sym: "connected s k j \<longleftrightarrow> connected s j k"
  by (auto simp: connected_def)

lemma connected_unique: "connected s k j \<Longrightarrow> connected s k j' \<Longrightarrow> j' = j"
  by (auto simp: connected_def)

lemma registered_fileno:
  assumes "proxying s" and "x \<in> registered s" and "y \<in> registered s"
  shows "fileno s x = fileno s y \<longleftrightarrow> x = y"
  using assms by (auto simp: proxying_def registered_def dest: inj_onD)

lemma registered_unregister:
  "proxying s \<Longrightarrow> registered (unregister k j s) = registered s - {k, j}"
  by (auto simp: registered_def unregister_def proxying_def)

lemma connected_unregister:
  assumes inv: "proxying s" and c: "connected s k j"
  shows "connected (unregister k j s) x y \<longleftrightarrow> connected s x y \<and> x \<notin> {k, j}"
proof -
  have kj: "k \<in> registered s" "j \<in> registered s" using c by (auto simp: connected_def)
  have y: "y \<notin> {k, j}" if "connected s x y" "x \<notin> {k, j}"
    using that c connected_unique [of s k j x] connected_unique [of s j k x] connected_sym by blast
  have "forward_map (unregister k j s) (fileno (unregister k j s) x) = forward_map s (fileno s x)"
    if "x \<in> registered s" "x \<notin> {k, j}" for x
    using registered_fileno [OF inv that(1) kj(1)] registered_fileno [OF inv that(1) kj(2)] that
    by (simp add: unregister_def)
  note fm = this
  show ?thesis
  proof
    assume "connected (unregister k j s) x y"
    then have xy: "x \<in> registered s" "x \<notin> {k, j}" "y \<in> registered s" "y \<notin> {k, j}"
      and rest: "x \<noteq> y" "forward_map (unregister k j s) (fileno (unregister k j s) x) = Some y"
      "forward_map (unregister k j s) (fileno (unregister k j s) y) = Some x"
      unfolding connected_def registered_unregister [OF inv] by blast+
    then show "connected s x y \<and> x \<notin> {k, j}" using fm by (simp add: connected_def)
  next
    assume xy: "connected s x y \<and> x \<notin> {k, j}"
    then have "y \<notin> {k, j}" using y by blast
    then show "connected (unregister k j s) x y"
      using xy fm unfolding connected_def registered_unregister [OF inv] by simp
  qed
qed

lemma proxying_unregister:
  assumes inv: "proxying s" and c: "connected s k j"
  shows "proxying (unregister k j s)"
proof -
  let ?s = "unregister k j s"
  have kj: "k \<in> registered s" "j \<in> registered s" using c by (auto simp: connected_def)
  note reg = registered_unregister [OF inv, of k j] and con = connected_unregister [OF inv c]
  have ins: "set (inputs ?s) = set (inputs s) - {k, j}" "distinct (inputs ?s)"
    using inv by (auto simp: unregister_def proxying_def)
  have fd: "fileno ?s x = fileno s x" if "x \<notin> {k, j}" for x using that by (simp add: unregister_def)
  have "\<exists>y. connected ?s x y" if "x \<in> registered ?s" for x
    using that inv unfolding con reg by (simp add: proxying_def)
  moreover have "dom (forward_map ?s) = fileno ?s ` registered ?s"
  proof -
    have "dom (forward_map ?s) = fileno s ` registered s - {fileno s k, fileno s j}"
      using inv by (auto simp: unregister_def proxying_def)
    also have "\<dots> = fileno s ` (registered s - {k, j})"
      using inj_on_image_set_diff [of "fileno s" "registered s" "registered s" "{k, j}"] kj
        registered_fileno [OF inv] by (simp add: inj_on_def)
    also have "\<dots> = fileno ?s ` registered ?s"
      unfolding reg by (rule image_cong) (simp_all add: fd)
    finally show ?thesis .
  qed
  moreover have "inj_on (fileno ?s) (set (inputs ?s))"
    using inv fd ins(1) by (auto simp: proxying_def inj_on_def)
  moreover have "0 \<notin> {k, j}" using kj by (auto simp: registered_def)
  ultimately show ?thesis
    using inv ins fd by (auto simp: proxying_def)
qed
text \<open>The descriptors of the socket objects, from the history.\<close>

fun replay :: "py_world \<Rightarrow> int \<Rightarrow> pcall list \<Rightarrow> int list" where
  "replay w f [] = [f]"
| "replay w f (c # h) =
     (let fs = replay w f h in
      case c of
        Py_accept k \<Rightarrow> if raised (w h c) = None then fs @ [fd_number (w h c)] else fs
      | Py_socket \<Rightarrow> if raised (w h c) = None then fs @ [fd_number (w h c)] else fs
      | Py_close k \<Rightarrow> fs[k := -1]
      | _ \<Rightarrow> fs)"

definition sound :: "py_world \<Rightarrow> int \<Rightarrow> server \<Rightarrow> bool" where
  "sound w f s \<longleftrightarrow> filenos s = replay w f (history s)"

lemma sound_unregister: "sound w f s \<Longrightarrow> sound w f (unregister k j s)"
  by (simp add: sound_def unregister_def logger_of_def split: option.split)

section \<open>A new pair\<close>

definition enroll :: "nat \<Rightarrow> nat \<Rightarrow> server \<Rightarrow> server" where
  "enroll c v s = s\<lparr>history := [Logger_run c, Logger_create c] @ history s,
     inputs := inputs s @ [v, c],
     forward_map := (forward_map s)(fileno s c := Some v, fileno s v := Some c),
     track_client_sockets := (track_client_sockets s)(fileno s c := Some True, fileno s v := Some False),
     perf_loggers := (perf_loggers s)(fileno s c := Some c)\<rparr>"

lemma register_pair_eq: "dependable w \<Longrightarrow> register_pair w c v s = Some (Inr (), enroll c v s)"
  by (simp add: register_pair_def py_bind_def py_simps py_call_eq dependable_def enroll_def)

text \<open>The descriptors that the system gives are not in use.\<close>

definition kernel_fds :: "py_world \<Rightarrow> int \<Rightarrow> bool" where
  "kernel_fds w f \<longleftrightarrow> (\<forall>h c. (c = Py_socket \<or> (\<exists>k. c = Py_accept k)) \<longrightarrow> raised (w h c) = None \<longrightarrow>
     0 \<le> fd_number (w h c) \<and> fd_number (w h c) \<notin> set (replay w f h))"

text \<open>The sockets on which a call moves data.\<close>

fun moves :: "pcall \<Rightarrow> nat set" where
  "moves (Py_recv k n) = {k}"
| "moves (Py_send k bs) = {k}"
| "moves c = {}"

text \<open>Nothing happened to the registered sockets.\<close>

definition untouched :: "server \<Rightarrow> server \<Rightarrow> bool" where
  "untouched s s' \<longleftrightarrow> inputs s' = inputs s \<and> forward_map s' = forward_map s \<and>
     (\<forall>k \<in> set (inputs s). fileno s' k = fileno s k) \<and>
     (\<exists>d. history s' = d @ history s \<and> (\<forall>c \<in> set d. moves c \<inter> registered s = {}))"

lemma untouched_refl [simp]: "untouched s s"
  by (simp add: untouched_def)

lemma untouched_registered: "untouched s s' \<Longrightarrow> registered s' = registered s"
  by (simp add: untouched_def registered_def)

lemma untouched_trans [trans]:
  assumes "untouched s s'" and "untouched s' s''"
  shows "untouched s s''"
proof -
  obtain d d' where "history s' = d @ history s" "\<forall>c \<in> set d. moves c \<inter> registered s = {}"
    "history s'' = d' @ history s'" "\<forall>c \<in> set d'. moves c \<inter> registered s = {}"
    using assms untouched_registered [OF assms(1)] unfolding untouched_def by blast
  then have "history s'' = (d' @ d) @ history s \<and> (\<forall>c \<in> set (d' @ d). moves c \<inter> registered s = {})"
    by auto
  then show ?thesis using assms by (auto simp: untouched_def)
qed

lemma untouched_connected: "untouched s s' \<Longrightarrow> connected s' x y \<longleftrightarrow> connected s x y"
  by (auto simp: untouched_def connected_def registered_def)

lemma untouched_proxying:
  assumes "proxying s" and "untouched s s'"
  shows "proxying s'"
proof -
  have "inj_on (fileno s') (set (inputs s))" "fileno s' ` registered s = fileno s ` registered s"
    using assms(1,2) by (auto simp: proxying_def untouched_def inj_on_def registered_def image_def)
  then show ?thesis
    using assms untouched_registered [OF assms(2)] untouched_connected [OF assms(2)]
    by (simp add: proxying_def untouched_def)
qed

lemma untouched_call:
  "moves c \<inter> registered s = {} \<Longrightarrow> untouched s (s\<lparr>history := c # history s\<rparr>)"
  by (auto simp: untouched_def intro!: exI [of _ "[c]"])

lemma untouched_new:
  assumes "\<forall>k \<in> set (inputs s). 0 \<le> fileno s k" and "moves c = {}"
  shows "untouched s (s\<lparr>history := c # history s, filenos := filenos s @ [n]\<rparr>)"
proof -
  have "k \<noteq> length (filenos s)" if "k \<in> set (inputs s)" for k
    using assms(1) that fd_at_less [of "filenos s" k] by force
  then show ?thesis using assms(2) by (auto simp: untouched_def intro!: exI [of _ "[c]"])
qed

lemma untouched_close:
  "k \<notin> set (inputs s) \<Longrightarrow> untouched s (s\<lparr>filenos := (filenos s)[k := -1], history := Py_close k # history s\<rparr>)"
  by (auto simp: untouched_def intro!: exI [of _ "[Py_close k]"])

lemma sound_call: "sound w f s \<Longrightarrow> (\<And>k. c \<noteq> Py_accept k \<and> c \<noteq> Py_close k) \<Longrightarrow> c \<noteq> Py_socket \<Longrightarrow>
    sound w f (s\<lparr>history := c # history s\<rparr>)"
  by (cases c) (auto simp: sound_def)

lemma sound_raised:
  "sound w f s \<Longrightarrow> raised (w (history s) c) \<noteq> None \<Longrightarrow> (\<And>k. c \<noteq> Py_close k) \<Longrightarrow> sound w f (s\<lparr>history := c # history s\<rparr>)"
  by (cases c) (auto simp: sound_def)

lemma sound_new:
  "sound w f s \<Longrightarrow> raised (w (history s) c) = None \<Longrightarrow> c = Py_socket \<or> (\<exists>k. c = Py_accept k) \<Longrightarrow>
   sound w f (s\<lparr>history := c # history s, filenos := filenos s @ [fd_number (w (history s) c)]\<rparr>)"
  by (auto simp: sound_def)

lemma sound_close: "sound w f s \<Longrightarrow> sound w f (s\<lparr>filenos := (filenos s)[k := -1], history := Py_close k # history s\<rparr>)"
  by (simp add: sound_def)

lemma sound_enroll: "sound w f s \<Longrightarrow> sound w f (enroll c v s)"
  by (simp add: sound_def enroll_def)

lemma registered_enroll: "c \<noteq> 0 \<Longrightarrow> v \<noteq> 0 \<Longrightarrow> registered (enroll c v s) = registered s \<union> {c, v}"
  by (auto simp: registered_def enroll_def)

text \<open>Two open sockets that can be registered.\<close>

definition new_pair :: "server \<Rightarrow> nat \<Rightarrow> nat \<Rightarrow> bool" where
  "new_pair s c v \<longleftrightarrow> c \<noteq> 0 \<and> v \<noteq> 0 \<and> c \<notin> set (inputs s) \<and> v \<notin> set (inputs s) \<and> c \<noteq> v \<and>
     0 \<le> fileno s c \<and> 0 \<le> fileno s v \<and> fileno s c \<noteq> fileno s v \<and>
     fileno s c \<notin> fileno s ` set (inputs s) \<and> fileno s v \<notin> fileno s ` set (inputs s)"

lemma connected_enroll:
  assumes "new_pair s c v"
  shows "connected (enroll c v s) x y \<longleftrightarrow> connected s x y \<or> (x, y) = (c, v) \<or> (x, y) = (v, c)"
proof -
  have cv: "c \<noteq> 0" "v \<noteq> 0" "c \<notin> registered s" "v \<notin> registered s" "c \<noteq> v" "fileno s c \<noteq> fileno s v"
    using assms by (auto simp: new_pair_def registered_def)
  have ne: "fileno s k \<noteq> fileno s c \<and> fileno s k \<noteq> fileno s v" if "k \<in> registered s" for k
    using assms that unfolding new_pair_def registered_def by (metis DiffD1 imageI)
  have fm: "forward_map (enroll c v s) (fileno (enroll c v s) k) =
      (if k = c then Some v else if k = v then Some c else forward_map s (fileno s k))" if "k \<in> registered s \<union> {c, v}" for k
    using that cv ne by (auto simp: enroll_def)
  show ?thesis
    unfolding connected_def registered_enroll [OF cv(1,2)] using cv(1-5)
    by (cases "x \<in> registered s \<union> {c, v}"; cases "y \<in> registered s \<union> {c, v}") (auto simp: fm split: if_splits)
qed

lemma proxying_enroll:
  assumes inv: "proxying s" and new: "new_pair s c v"
  shows "proxying (enroll c v s)"
proof -
  let ?s = "enroll c v s"
  have cv: "c \<noteq> 0" "v \<noteq> 0" using new by (simp_all add: new_pair_def)
  have fd: "fileno ?s = fileno s" "inputs ?s = inputs s @ [v, c]" by (simp_all add: enroll_def)
  have "\<exists>y. connected ?s x y" if "x \<in> registered ?s" for x
    using that inv unfolding connected_enroll [OF new] registered_enroll [OF cv] by (auto simp: proxying_def)
  moreover have "dom (forward_map ?s) = fileno ?s ` registered ?s"
    unfolding registered_enroll [OF cv] fd using inv by (auto simp: enroll_def proxying_def)
  moreover have "inj_on (fileno ?s) (set (inputs ?s))"
    using inv new unfolding fd by (auto simp: proxying_def new_pair_def)
  ultimately show ?thesis
    using inv new unfolding fd by (auto simp: proxying_def new_pair_def fd)
qed

text \<open>An open socket that is not registered yet.\<close>

definition waiting :: "server \<Rightarrow> nat \<Rightarrow> bool" where
  "waiting s c \<longleftrightarrow> c \<noteq> 0 \<and> c \<notin> set (inputs s) \<and> 0 \<le> fileno s c \<and> fileno s c \<notin> fileno s ` set (inputs s)"

text \<open>What the handling of a message of socket \<open>c\<close> comes to: nothing, or a new pair.\<close>

definition settled :: "py_world \<Rightarrow> int \<Rightarrow> server \<Rightarrow> nat \<Rightarrow> server \<Rightarrow> bool" where
  "settled w f s c s' \<longleftrightarrow> untouched s s' \<and> sound w f s' \<or>
     (\<exists>s1 v. untouched s s1 \<and> sound w f s1 \<and> new_pair s1 c v \<and> length (filenos s) \<le> v \<and> s' = enroll c v s1)"

lemma untouched_waiting:
  assumes "untouched s s'" and "waiting s c" and "fileno s' c = fileno s c"
  shows "waiting s' c"
  using assms by (auto simp: untouched_def waiting_def image_def)

lemma connect_cases:
  assumes w: "dependable w" "kernel_fds w f" and s: "proxying s" "sound w f s" "waiting s c"
  shows "\<exists>r s'. handle_tlv_connect sc w tlv c s = Some (r, s') \<and>
    (untouched s s' \<and> sound w f s' \<or>
     r = Inr () \<and> (\<exists>s1 v. untouched s s1 \<and> sound w f s1 \<and> new_pair s1 c v \<and> length (filenos s) \<le> v \<and> s' = enroll c v s1))"
proof -
  let ?a = "w (history s) Py_socket" and ?s0 = "s\<lparr>history := Py_socket # history s\<rparr>"
  let ?s1 = "?s0\<lparr>filenos := filenos s @ [fd_number ?a]\<rparr>" and ?v = "length (filenos s)"
  have c: "c \<noteq> 0" "c \<notin> set (inputs s)" "0 \<le> fileno s c" "fileno s c \<noteq> -1" "c < ?v"
    using s(3) fd_at_less [of "filenos s" c] by (auto simp: waiting_def)
  have old: "k < ?v" if "k \<in> set (inputs s)" for k
    using s(1) that fd_at_less [of "filenos s" k] by (force simp: proxying_def)
  have reg: "c \<notin> registered s" using c by (simp add: registered_def)
  show ?thesis
  proof (cases "raised ?a")
    case (Some e)
    have "untouched s ?s0" "sound w f ?s0"
      using Some s(2) untouched_call [of Py_socket s] sound_raised [of w f s Py_socket] by simp_all
    then show ?thesis using Some by (simp add: handle_tlv_connect_def py_bind_def sock_create_eq Let_def)
  next
    case None
    have create: "sock_create w s = Some (Inr ?v, ?s1)" using None by (simp add: sock_create_eq Let_def)
    have num: "0 \<le> fd_number ?a" "fd_number ?a \<notin> set (filenos s)"
      using w(2) None s(2) by (auto simp: kernel_fds_def sound_def)
    have s1: "untouched s ?s1" "sound w f ?s1"
      using untouched_new [of s Py_socket "fd_number ?a"] sound_new [OF s(2) None] s(1) by (auto simp: proxying_def)
    have vfd: "fileno ?s1 ?v = fd_number ?a" "fd_number ?a \<noteq> -1" using num by auto
    have cfd: "fileno ?s1 c = fileno s c" using c by simp
    let ?addr = "ipv6_to_ipv4 (snd tlv ''remote_addr'')"
    define attempt where "attempt = (case snd tlv ''remote_port'' of Num port \<Rightarrow> sock_connect w ?v ?addr port
       | _ \<Rightarrow> (py_raise Type_error :: (server, unit) py))"
    obtain r s2 where r: "attempt ?s1 = Some (r, s2)" and "s2 = ?s1 \<or> (\<exists>p. s2 = ?s1\<lparr>history := Py_connect ?v ?addr p # history ?s1\<rparr>)"
      using vfd by (cases "snd tlv ''remote_port''") (auto simp: attempt_def sock_connect_eq py_simps)
    then have "untouched ?s1 s2" "sound w f s2" "filenos s2 = filenos ?s1"
      using s1(2) untouched_call [of "Py_connect ?v ?addr p" ?s1 for p] sound_call [of w f ?s1 "Py_connect ?v ?addr p" for p]
      by auto
    then have s2: "untouched s s2" "sound w f s2" "fileno s2 c = fileno s c" "fileno s2 ?v = fd_number ?a"
      using untouched_trans [OF s1(1)] c by auto
    have ins: "inputs s2 = inputs s" "registered s2 = registered s"
      using s2(1) untouched_registered by (auto simp: untouched_def)
    have run: "handle_tlv_connect sc w tlv c s = (case r of
        Inl e \<Rightarrow> sock_close w c s2
      | Inr _ \<Rightarrow> py_bind (sock_send w c (build sc Convert_fields)) (\<lambda>_. register_pair w c ?v) s2)"
      using create r by (auto simp: handle_tlv_connect_def Let_def py_bind_def py_try_def attempt_def split: sum.split)
    show ?thesis
    proof (cases r)
      case (Inl e)
      let ?s3 = "s2\<lparr>filenos := (filenos s2)[c := -1], history := Py_close c # history s2\<rparr>"
      have "untouched s2 ?s3" "sound w f ?s3"
        using untouched_close [of c s2] sound_close [OF s2(2)] c ins by simp_all
      then have "untouched s ?s3" "sound w f ?s3" using untouched_trans [OF s2(1)] by simp_all
      moreover have "handle_tlv_connect sc w tlv c s = Some (Inr (), ?s3)"
        using run Inl s2(3) c(4) w(1) by (simp add: sock_close_eq dependable_def)
      ultimately show ?thesis by blast
    next
      case (Inr u)
      let ?bs = "build sc Convert_fields" let ?s3 = "s2\<lparr>history := Py_send c ?bs # history s2\<rparr>"
      have "untouched s2 ?s3" "sound w f ?s3"
        using untouched_call [of "Py_send c ?bs" s2] sound_call [OF s2(2)] reg ins by simp_all
      then have s3: "untouched s ?s3" "sound w f ?s3" using untouched_trans [OF s2(1)] by simp_all
      have send: "sock_send w c ?bs s2 =
          Some (case raised (w (history s2) (Py_send c ?bs)) of None \<Rightarrow> Inr (taken (w (history s2) (Py_send c ?bs))) | Some e \<Rightarrow> Inl e, ?s3)"
        using s2(3) c(4) by (simp add: sock_send_eq)
      show ?thesis
      proof (cases "raised (w (history s2) (Py_send c ?bs))")
        case (Some e)
        then show ?thesis using run Inr send s3 by (auto simp: py_bind_def)
      next
        case None
        have ne: "fileno ?s3 k \<noteq> fd_number ?a" if "k \<in> set (inputs s)" for k
        proof -
          have "fileno ?s3 k = fileno s k" using s3(1) that by (auto simp: untouched_def)
          moreover have "fileno s k \<in> set (filenos s)" using old [OF that] by (simp add: fd_at_def)
          ultimately show ?thesis using num(2) by auto
        qed
        have "fd_number ?a \<notin> fileno ?s3 ` set (inputs s)"
          by (rule notI, erule imageE, drule ne) simp
        moreover have "fileno s c \<noteq> fd_number ?a" using num(2) fd_at_in [OF c(4)] by metis
        moreover have "waiting ?s3 c" using untouched_waiting [OF s3(1) s(3)] s2(3) by simp
        ultimately have "new_pair ?s3 c ?v"
          using s2(3,4) num(1) c old ins by (auto simp: new_pair_def waiting_def)
        then show ?thesis
          using run Inr send None s3 register_pair_eq [OF w(1)] by (auto simp: py_bind_def)
      qed
    qed
  qed
qed

text \<open>
  A message that can be handled safely: no Connect TLV and no TLV of an unknown type follows a
  Connect TLV.
\<close>

definition kind :: "packet \<Rightarrow> string option" where
  "kind tlv = (case snd tlv ''type'' of Num n \<Rightarrow> CONVERT_TLVS n | _ \<Rightarrow> None)"

fun tame :: "packet list \<Rightarrow> bool" where
  "tame [] \<longleftrightarrow> True"
| "tame (t # ts) \<longleftrightarrow> (kind t = None \<or>
     (if kind t = Some ''connect'' then list_all (\<lambda>t. kind t \<noteq> None \<and> kind t \<noteq> Some ''connect'') ts else tame ts))"

lemma handle_tlvs_Cons:
  "handle_tlvs sc w c (t # ts) s = (case kind t of
     None \<Rightarrow> Some (Inl Key_error, s)
   | Some n \<Rightarrow> if n = ''connect''
       then py_bind (handle_tlv_connect sc w t c) (\<lambda>_. handle_tlvs sc w c ts) s
       else handle_tlvs sc w c ts s)"
  by (auto simp: kind_def py_bind_def py_simps split: option.split pyval.split)

declare handle_tlvs.simps(2) [simp del]

lemma handle_known:
  "list_all (\<lambda>t. kind t \<noteq> None \<and> kind t \<noteq> Some ''connect'') ts \<Longrightarrow> handle_tlvs sc w c ts s = Some (Inr (), s)"
  by (induction ts) (auto simp: handle_tlvs_Cons py_return_def)

lemma tlvs_cases:
  assumes w: "dependable w" "kernel_fds w f" and s: "proxying s" "sound w f s" "waiting s c" and "tame ts"
  shows "\<exists>r s'. handle_tlvs sc w c ts s = Some (r, s') \<and> settled w f s c s' \<and>
    (r \<noteq> Inr () \<longrightarrow> untouched s s' \<and> sound w f s')"
  using assms(6)
proof (induction ts)
  case Nil
  then show ?case using s(2) by (simp add: py_return_def settled_def)
next
  case (Cons t ts)
  consider "kind t = None" | "kind t = Some ''connect''" | n where "kind t = Some n" "n \<noteq> ''connect''" by blast
  then show ?case
  proof cases
    case 1
    then show ?thesis using s(2) by (simp add: handle_tlvs_Cons settled_def)
  next
    case 2
    then have known: "handle_tlvs sc w c ts s' = Some (Inr (), s')" for s'
      using Cons.prems handle_known by auto
    obtain r s' where "handle_tlv_connect sc w t c s = Some (r, s')" "settled w f s c s'"
      "r \<noteq> Inr () \<longrightarrow> untouched s s' \<and> sound w f s'"
      using connect_cases [OF w s, of sc t] unfolding settled_def by blast
    then show ?thesis using 2 known by (cases r) (simp_all add: handle_tlvs_Cons py_bind_def)
  next
    case 3
    then show ?thesis using Cons by (simp add: handle_tlvs_Cons)
  qed
qed

text \<open>The clients send messages that the proxy reads to their end and can handle.\<close>

definition clients_tame :: "scapy \<Rightarrow> py_world \<Rightarrow> bool" where
  "clients_tame sc w \<longleftrightarrow> (\<forall>k h. case message_read sc w k h of
       None \<Rightarrow> False
     | Some (Inr (Some tlvs), _) \<Rightarrow> tame tlvs
     | Some _ \<Rightarrow> True)"

lemma message_read_history:
  assumes "message_read sc w k h = Some (r, h')"
  shows "\<exists>n. h' = Py_recv k 4 # h \<or> h' = Py_recv k n # Py_recv k 4 # h"
  using assms
  by (auto simp: message_read_def Let_def CONVERT_HEADER_LENGTH_def split: option.splits sum.splits pyval.splits if_splits)

lemma settled_later:
  assumes "untouched s s1" and "filenos s1 = filenos s" and "settled w f s1 c s'"
  shows "settled w f s c s'"
  using assms(3) unfolding settled_def
proof (elim disjE exE conjE)
  assume "untouched s1 s'" "sound w f s'"
  then show "untouched s s' \<and> sound w f s' \<or> (\<exists>s1 v. untouched s s1 \<and> sound w f s1 \<and> new_pair s1 c v \<and>
      length (filenos s) \<le> v \<and> s' = enroll c v s1)"
    using untouched_trans [OF assms(1)] by simp
next
  fix s2 v
  assume "untouched s1 s2" "sound w f s2" "new_pair s2 c v" "length (filenos s1) \<le> v" "s' = enroll c v s2"
  then show "untouched s s' \<and> sound w f s' \<or> (\<exists>s1 v. untouched s s1 \<and> sound w f s1 \<and> new_pair s1 c v \<and>
      length (filenos s) \<le> v \<and> s' = enroll c v s1)"
    using untouched_trans [OF assms(1)] assms(2) by (intro disjI2 exI [of _ s2] exI [of _ v]) simp
qed

lemma connection_cases:
  assumes w: "dependable w" "kernel_fds w f" "clients_tame sc w" and s: "proxying s" "sound w f s" "waiting s c"
  shows "\<exists>ok s'. handle_connection sc w c s = Some (Inr ok, s') \<and> settled w f s c s' \<and>
    (\<not> ok \<longrightarrow> untouched s s' \<and> sound w f s')"
proof -
  have c: "fileno s c \<noteq> -1" "c \<notin> registered s" using s(3) by (auto simp: waiting_def registered_def)
  obtain r h where msg: "message_read sc w c (history s) = Some (r, h)"
    and tame: "\<And>tlvs. r = Inr (Some tlvs) \<Longrightarrow> tame tlvs"
    using w(3) unfolding clients_tame_def by (fastforce split: option.splits)
  let ?s = "s\<lparr>history := h\<rparr>"
  obtain n where "h = Py_recv c 4 # history s \<or> h = Py_recv c n # Py_recv c 4 # history s"
    using message_read_history [OF msg] by blast
  then have "untouched s ?s" "sound w f ?s"
    using c(2) s(2) by (auto simp: untouched_def sound_def intro: exI [of _ "[_]"] exI [of _ "[_, _]"])
  note s1 = this
  have s2: "proxying ?s" "waiting ?s c"
    using untouched_proxying [OF s(1) s1(1)] untouched_waiting [OF s1(1) s(3)] by simp_all
  note run = read_convert_header_eq [OF c(1), of sc w, unfolded msg]
  consider e where "r = Inl e" | "r = Inr None" | tlvs where "r = Inr (Some tlvs)"
    by (cases r; cases "projr r") auto
  then show ?thesis
  proof cases
    case 3
    obtain q s' where q: "handle_tlvs sc w c tlvs ?s = Some (q, s')" "settled w f ?s c s'"
      "q \<noteq> Inr () \<longrightarrow> untouched ?s s' \<and> sound w f s'"
      using tlvs_cases [OF w(1,2) s2(1) s1(2) s2(2) tame [OF 3], of sc] by blast
    have "settled w f s c s'" "untouched ?s s' \<Longrightarrow> untouched s s'"
      using settled_later [OF s1(1) _ q(2)] untouched_trans [OF s1(1)] by simp_all
    then show ?thesis
      using run 3 q by (cases q) (auto simp: handle_connection_def py_try_def py_bind_def py_return_def)
  qed (use run s1 in \<open>auto simp: handle_connection_def py_try_def py_bind_def py_return_def settled_def\<close>)
qed

section \<open>The message of the client library\<close>

lemma empty_message_built: "scapy_ok sc \<Longrightarrow> build sc Convert_fields = [1, 1, 34, 99]"
proof -
  assume "scapy_ok sc"
  then have "build sc Convert_fields = concat [[1], [1], [34, 99], []]"
    unfolding scapy_ok_def
    by (elim conjE allE [of _ Convert_fields] allE [of _ "[[1], [1], [34, 99], []]"]) (simp add: Convert_fields_def)
  then show ?thesis by simp
qed

lemma kind_packet: "wf_tlv t \<Longrightarrow> kind (packet_of sc t) = CONVERT_TLVS (unat (type_no (tlv_type t)))"
  by (simp add: kind_def packet_of_attrs)

lemma kind_connect: "length addr = 16 \<Longrightarrow> kind (packet_of sc (Tlv_connect port addr)) = Some ''connect''"
  by (simp add: kind_packet CONVERT_TLVS_def)

lemma kind_cookie: "wf_tlv (Tlv_cookie bs) \<Longrightarrow> kind (packet_of sc (Tlv_cookie bs)) = Some ''cookie''"
  by (subst kind_packet) (simp_all add: CONVERT_TLVS_def)

text \<open>A Connect TLV, and behind it nothing that disturbs.\<close>

definition request_packets :: "scapy \<Rightarrow> u16 \<Rightarrow> byte list \<Rightarrow> packet list \<Rightarrow> bool" where
  "request_packets sc port addr tlvs \<longleftrightarrow> (\<exists>rest. tlvs = packet_of sc (Tlv_connect port addr) # rest \<and>
     list_all (\<lambda>t. kind t \<noteq> None \<and> kind t \<noteq> Some ''connect'') rest)"

lemma connect_tlv:
  assumes "scapy_ok sc" and "dependable w" and "length addr = 16" and "fileno s c \<noteq> -1"
    and "raised (w h Py_socket) = None" and "f = fd_number (w h Py_socket)" and "f \<noteq> -1"
    and "v = length (filenos s)"
    and "dest = Py_connect v (ipv6_to_ipv4 (Text (ip6_text sc addr))) (unat (ntohs port))"
    and "raised (w (dest # Py_socket # h) (Py_send c [1, 1, 34, 99])) = None"
  shows "handle_tlv_connect sc w (packet_of sc (Tlv_connect port addr)) c (s\<lparr>history := h\<rparr>) = Some (Inr (),
    let s1 = s\<lparr>filenos := filenos s @ [f], history := dest # Py_socket # h\<rparr> in
    if raised (w (Py_socket # h) dest) = None
    then enroll c v (s1\<lparr>history := Py_send c [1, 1, 34, 99] # history s1\<rparr>)
    else s1\<lparr>filenos := (filenos s1)[c := -1], history := Py_close c # history s1\<rparr>)"
proof -
  have c: "c \<noteq> v" using fd_at_less [OF assms(4)] assms(8) by simp
  have create: "sock_create w (s\<lparr>history := h\<rparr>) =
      Some (Inr v, s\<lparr>history := Py_socket # h, filenos := filenos s @ [f]\<rparr>)"
    using assms(5,6,8) by (simp add: sock_create_eq)
  have dep: "raised (w h (Py_close x)) = None" for h x using assms(2) by (simp add: dependable_def)
  have send: "raised (w (Py_connect v (ipv6_to_ipv4 (Text (ip6_text sc addr))) (unat (ntohs port)) # Py_socket # h)
      (Py_send c [1, 1, 34, 99])) = None" using assms(9,10) by simp
  show ?thesis
    unfolding assms(9)
    using create c send assms(4,6-8) register_pair_eq [OF assms(2)] connect_attrs [OF assms(3)]
    by (simp add: py_try_def py_bind_def handle_tlv_connect_def Let_def sock_connect_eq sock_send_eq sock_close_eq dep
        empty_message_built [OF assms(1)] py_return_def split: option.split)
qed

lemma connect_request:
  assumes "scapy_ok sc" and "dependable w" and "length addr = 16"
    and "message_read sc w c (history s) = Some (Inr (Some tlvs), h)" and "request_packets sc port addr tlvs"
    and "fileno s c \<noteq> -1"
    and "raised (w h Py_socket) = None" and "f = fd_number (w h Py_socket)" and "f \<noteq> -1"
    and "v = length (filenos s)"
    and "dest = Py_connect v (ipv6_to_ipv4 (Text (ip6_text sc addr))) (unat (ntohs port))"
    and "raised (w (dest # Py_socket # h) (Py_send c [1, 1, 34, 99])) = None"
  shows "handle_connection sc w c s = Some (Inr True,
    let s1 = s\<lparr>filenos := filenos s @ [f], history := dest # Py_socket # h\<rparr> in
    if raised (w (Py_socket # h) dest) = None
    then enroll c v (s1\<lparr>history := Py_send c [1, 1, 34, 99] # history s1\<rparr>)
    else s1\<lparr>filenos := (filenos s1)[c := -1], history := Py_close c # history s1\<rparr>)"
proof -
  obtain rest where tlvs: "tlvs = packet_of sc (Tlv_connect port addr) # rest"
    "list_all (\<lambda>t. kind t \<noteq> None \<and> kind t \<noteq> Some ''connect'') rest"
    using assms(5) by (auto simp: request_packets_def)
  show ?thesis
    using connect_tlv [OF assms(1-3,6-12)] handle_known [OF tlvs(2)] kind_connect [OF assms(3)]
    by (simp add: handle_connection_def py_try_def py_bind_def read_convert_header_eq [OF assms(6)] assms(4) tlvs(1)
        handle_tlvs_Cons py_return_def)
qed

end
