(* ===== verification/ProxyRounds.thy ===== *)
theory ProxyRounds
  imports ProxyServer "HOL-Library.Sublist"
begin

text \<open>
  The rounds of the proxy when nothing unexpected happens: every round keeps the pairs of
  connected sockets in order, and what comes from one side of a connection is sent to the other
  one, in order and complete.
\<close>

section \<open>What is relayed\<close>

text \<open>The bytes that came from a socket, and those that the system took for it.\<close>

fun came_from :: "py_world \<Rightarrow> nat \<Rightarrow> pcall list \<Rightarrow> byte list" where
  "came_from w k [] = []"
| "came_from w k (Py_recv k' n # h) = came_from w k h @
     (if k' = k \<and> raised (w h (Py_recv k' n)) = None then bytes (w h (Py_recv k' n)) else [])"
| "came_from w k (c # h) = came_from w k h"

fun sent_to :: "py_world \<Rightarrow> nat \<Rightarrow> pcall list \<Rightarrow> byte list" where
  "sent_to w k [] = []"
| "sent_to w k (Py_send k' bs # h) = sent_to w k h @
     (if k' = k \<and> raised (w h (Py_send k' bs)) = None then take (taken (w h (Py_send k' bs))) bs else [])"
| "sent_to w k (c # h) = sent_to w k h"

text \<open>A system that always takes all that is offered.\<close>

definition whole_sends :: "py_world \<Rightarrow> bool" where
  "whole_sends w \<longleftrightarrow> (\<forall>h k bs. taken (w h (Py_send k bs)) = length bs)"

text \<open>
  From the history \<open>h\<close> to \<open>h'\<close>: what the system took for \<open>j\<close> is a part of what came from \<open>k\<close>, in the
  same order, and all of it if the system takes all that it is offered.
\<close>

definition passes :: "py_world \<Rightarrow> nat \<Rightarrow> nat \<Rightarrow> pcall list \<Rightarrow> pcall list \<Rightarrow> bool" where
  "passes w k j h h' \<longleftrightarrow> (\<exists>x y. came_from w k h' = came_from w k h @ x \<and> sent_to w j h' = sent_to w j h @ y \<and>
     subseq y x \<and> (whole_sends w \<longrightarrow> y = x))"

lemma passes_same:
  "came_from w k h' = came_from w k h \<Longrightarrow> sent_to w j h' = sent_to w j h \<Longrightarrow> passes w k j h h'"
  by (simp add: passes_def)

lemma passes_trans:
  assumes "passes w k j h h'" and "passes w k j h' h''"
  shows "passes w k j h h''"
proof -
  obtain x y x' y' where "came_from w k h' = came_from w k h @ x" "sent_to w j h' = sent_to w j h @ y"
    "came_from w k h'' = came_from w k h' @ x'" "sent_to w j h'' = sent_to w j h' @ y'"
    "subseq y x" "subseq y' x'" "whole_sends w \<longrightarrow> y = x \<and> y' = x'"
    using assms by (auto simp: passes_def)
  then show ?thesis unfolding passes_def
    by (intro exI [of _ "x @ x'"] exI [of _ "y @ y'"]) (simp add: list_emb_append_mono)
qed

lemma no_moves:
  "(\<forall>c \<in> set d. k \<notin> moves c) \<Longrightarrow> came_from w k (d @ h) = came_from w k h \<and> sent_to w k (d @ h) = sent_to w k h"
proof (induction d)
  case (Cons c d)
  then show ?case by (cases c) auto
qed simp

text \<open>
  A step of the server: between two sockets that stay connected everything that comes is sent
  on, and sockets become connected only when they are new.
\<close>

definition relays :: "py_world \<Rightarrow> server \<Rightarrow> server \<Rightarrow> bool" where
  "relays w s s' \<longleftrightarrow> length (filenos s) \<le> length (filenos s') \<and>
     (\<forall>k j. connected s' k j \<longrightarrow> connected s k j \<or> length (filenos s) \<le> k) \<and>
     (\<forall>k j. connected s k j \<longrightarrow> connected s' k j \<longrightarrow> passes w k j (history s) (history s'))"

lemma relays_refl [simp]: "relays w s s"
  by (simp add: relays_def passes_same)

lemma connected_less: "proxying s \<Longrightarrow> connected s k j \<Longrightarrow> k < length (filenos s)"
  using connectedD(1) [of s k j] fd_at_less [of "filenos s" k] by force

lemma relays_trans:
  assumes "proxying s" and "relays w s s'" and "relays w s' s''"
  shows "relays w s s''"
proof -
  have mid: "connected s' k j" if "connected s k j" "connected s'' k j" for k j
  proof -
    have "k < length (filenos s')" using connected_less [OF assms(1) that(1)] assms(2) by (simp add: relays_def)
    then show ?thesis using assms(3) that(2) unfolding relays_def by (meson leD)
  qed
  have "passes w k j (history s) (history s'')" if kj: "connected s k j" "connected s'' k j" for k j
    using assms(2,3) kj mid [OF kj] passes_trans unfolding relays_def by blast
  moreover have "connected s k j \<or> length (filenos s) \<le> k" if "connected s'' k j" for k j
    using that assms(2,3) unfolding relays_def by (meson le_trans)
  moreover have "length (filenos s) \<le> length (filenos s'')" using assms(2,3) by (simp add: relays_def)
  ultimately show ?thesis unfolding relays_def by blast
qed

lemma length_replay: "length (replay w f h) \<le> length (replay w f (d @ h))"
proof (induction d)
  case (Cons c d)
  then show ?case by (cases c) (auto simp: Let_def)
qed simp

lemma sound_length:
  "sound w f s \<Longrightarrow> sound w f s' \<Longrightarrow> history s' = d @ history s \<Longrightarrow> length (filenos s) \<le> length (filenos s')"
  using length_replay [of w f "history s" d] by (simp add: sound_def)

lemma untouched_moves:
  assumes "untouched s s'" and "k \<in> registered s"
  shows "came_from w k (history s') = came_from w k (history s)" "sent_to w k (history s') = sent_to w k (history s)"
proof -
  obtain d where "history s' = d @ history s" "\<forall>c \<in> set d. k \<notin> moves c"
    using assms unfolding untouched_def by blast
  then show "came_from w k (history s') = came_from w k (history s)" "sent_to w k (history s') = sent_to w k (history s)"
    using no_moves [of d k w "history s"] by simp_all
qed

lemma relays_untouched:
  assumes "untouched s s'" and "sound w f s" and "sound w f s'"
  shows "relays w s s'"
proof -
  have "length (filenos s) \<le> length (filenos s')"
    using assms(1) sound_length [OF assms(2,3)] by (auto simp: untouched_def)
  moreover have "came_from w k (history s') = came_from w k (history s)" "sent_to w j (history s') = sent_to w j (history s)"
    if "connected s k j" for k j
    using untouched_moves [OF assms(1)] that by (simp_all add: connected_def)
  ultimately show ?thesis using untouched_connected [OF assms(1)] unfolding relays_def by (auto intro: passes_same)
qed

lemma relays_enroll:
  assumes "new_pair s c v" and "length (filenos s0) \<le> c" and "length (filenos s0) \<le> v" and "relays w s0 s"
    and "proxying s0"
  shows "relays w s0 (enroll c v s)"
proof -
  have "came_from w k (history (enroll c v s)) = came_from w k (history s)"
    "sent_to w k (history (enroll c v s)) = sent_to w k (history s)" "filenos (enroll c v s) = filenos s" for k
    by (simp_all add: enroll_def)
  moreover have "\<not> connected s0 c v" "\<not> connected s0 v c"
    using connected_less [OF assms(5)] assms(2,3) by (meson leD)+
  ultimately show ?thesis
    using assms(2-4) unfolding relays_def passes_def connected_enroll [OF assms(1)] by auto
qed

text \<open>The system and the peers when nothing unexpected happens.\<close>

definition steady :: "scapy \<Rightarrow> py_world \<Rightarrow> int \<Rightarrow> bool" where
  "steady sc w f \<longleftrightarrow> dependable w \<and> kernel_fds w f \<and> clients_tame sc w \<and>
     (\<forall>h k ks bs. raised (w h (Py_accept k)) = None \<and> raised (w h (Py_send k bs)) = None \<and>
        raised (w h (Py_select ks)) = None \<and> set (ready (w h (Py_select ks))) \<subseteq> set ks \<and>
        distinct (ready (w h (Py_select ks))))"

text \<open>What a round leaves: the invariant, and of the registered sockets all but at most one pair.\<close>

definition round_done :: "py_world \<Rightarrow> int \<Rightarrow> nat \<Rightarrow> server \<Rightarrow> server \<Rightarrow> bool" where
  "round_done w f k s s' \<longleftrightarrow> proxying s' \<and> sound w f s' \<and> relays w s s' \<and>
     (\<forall>x \<in> set (inputs s). x \<in> set (inputs s') \<or> x = k \<or> connected s k x)"

lemma accept_served:
  assumes w: "steady sc w f" and s: "proxying s" "sound w f s"
  shows "\<exists>s'. serve_socket sc w n 0 s = Some (Inr (), s') \<and> round_done w f 0 s s'"
proof -
  let ?a = "w (history s) (Py_accept 0)" and ?c = "length (filenos s)"
  let ?s1 = "s\<lparr>history := Py_accept 0 # history s, filenos := filenos s @ [fd_number ?a]\<rparr>"
  have w': "dependable w" "kernel_fds w f" "clients_tame sc w" "raised ?a = None" using w by (simp_all add: steady_def)
  have zero: "fileno s 0 \<noteq> -1" "0 < ?c"
    using s(1) fd_at_less [of "filenos s" 0] by (auto simp: proxying_def)
  have num: "0 \<le> fd_number ?a" "fd_number ?a \<notin> set (filenos s)"
    using w'(2,4) s(2) by (auto simp: kernel_fds_def sound_def)
  have run: "sock_accept w 0 s = Some (Inr ?c, ?s1)" using zero w'(4) by (simp add: sock_accept_eq Let_def)
  have s1: "untouched s ?s1" "sound w f ?s1"
    using untouched_new [of s "Py_accept 0" "fd_number ?a"] sound_new [OF s(2) w'(4)] s(1) by (auto simp: proxying_def)
  note p1 = untouched_proxying [OF s(1) s1(1)] and r1 = relays_untouched [OF s1(1) s(2) s1(2)]
  have old: "k < ?c" "fileno s k \<in> set (filenos s)" if "k \<in> set (inputs s)" for k
    using s(1) that fd_at_less [of "filenos s" k] fd_at_in [of "filenos s" k] by (force simp: proxying_def)+
  have wait: "waiting ?s1 ?c"
    using num old zero by (auto simp: waiting_def)
  obtain ok s2 where s2: "handle_connection sc w ?c ?s1 = Some (Inr ok, s2)" "settled w f ?s1 ?c s2"
    "\<not> ok \<longrightarrow> untouched ?s1 s2 \<and> sound w f s2"
    using connection_cases [OF w'(1-3) p1 s1(2) wait] by blast
  have fin: "round_done w f 0 s s2"
    using s2(2) unfolding settled_def
  proof (elim disjE exE conjE)
    assume u: "untouched ?s1 s2" "sound w f s2"
    then show ?thesis
      using untouched_proxying [OF p1 u(1)] relays_trans [OF s(1) r1 relays_untouched [OF u(1) s1(2) u(2)]]
        s1(1) by (simp add: round_done_def untouched_def)
  next
    fix s3 v
    assume u: "untouched ?s1 s3" "sound w f s3" "new_pair s3 ?c v" "length (filenos ?s1) \<le> v" "s2 = enroll ?c v s3"
    have "relays w s s3" by (rule relays_trans [OF s(1) r1 relays_untouched [OF u(1) s1(2) u(2)]])
    then have "relays w s s2" unfolding u(5) using u(4) by (intro relays_enroll [OF u(3)] s(1)) simp_all
    moreover have "set (inputs s) \<subseteq> set (inputs s2)" using u(1,5) by (auto simp: untouched_def enroll_def)
    ultimately show ?thesis
      using proxying_enroll [OF untouched_proxying [OF p1 u(1)] u(3)] sound_enroll [OF u(2)] u(5)
      by (auto simp: round_done_def)
  qed
  show ?thesis
  proof (cases ok)
    case True
    then show ?thesis using fin run s2(1) by (auto simp: serve_socket_def py_bind_def py_return_def)
  next
    case False
    then have u: "untouched ?s1 s2" "sound w f s2" using s2(3) by blast+
    have ins: "inputs s2 = inputs s" using u(1) by (simp add: untouched_def)
    then have c: "?c \<notin> set (inputs s2)" using old(1) [of ?c] by auto
    obtain s3 where s3: "sock_close w ?c s2 = Some (Inr (), s3)" "untouched s2 s3" "sound w f s3"
    proof (cases "fileno s2 ?c = -1")
      case False
      then show ?thesis
        using that untouched_close [OF c] sound_close [OF u(2)] w'(1) by (simp add: sock_close_eq dependable_def)
    qed (use that u(2) in simp)
    have "untouched s s3" by (rule untouched_trans [OF untouched_trans [OF s1(1) u(1)] s3(2)])
    then have "round_done w f 0 s s3"
      using untouched_proxying [OF s(1)] relays_untouched [OF _ s(2) s3(3)] s3(3)
      by (simp add: round_done_def untouched_def)
    then show ?thesis using False run s2(1) s3(1) by (auto simp: serve_socket_def py_bind_def)
  qed
qed

lemma forward_eq:
  assumes w: "dependable w" and s: "proxying s" "connected s k j"
    and a: "a = w (history s) (Py_recv k n)" and s1: "s1 = s\<lparr>history := Py_recv k n # history s\<rparr>"
  shows "read_and_forward w n k s =
    (if raised a = None \<and> bytes a \<noteq> [] then py_bind (sock_send w j (bytes a)) (\<lambda>_. py_return ()) s1
     else Some (Inr (), unregister k j s1))"
proof -
  note c = connectedD [OF s]
  have fm: "forward_map s (fileno s k) = Some j" using s(2) by (simp add: connected_def)
  have s': "proxying s1" "connected s1 k j"
    using s by (simp_all add: s1 proxying_def connected_def registered_def)
  have ne: "fileno s k \<noteq> -1" "fileno s j \<noteq> -1" using c(1,2) by auto
  show ?thesis
    using fm ne cleanup_eq [OF w s'] unfolding read_and_forward_def
    by (auto simp: py_simps py_bind_def py_try_def sock_recv_eq a [symmetric] s1 split: option.split)
qed

lemma relays_unregister:
  assumes inv: "proxying s" and c: "connected s k j"
  shows "relays w s (unregister k j s)"
proof -
  have "came_from w x (history (unregister k j s)) = came_from w x (history s)"
    "sent_to w x (history (unregister k j s)) = sent_to w x (history s)" for x
    by (simp_all add: unregister_def logger_of_def split: option.split)
  moreover have "length (filenos (unregister k j s)) = length (filenos s)" by (simp add: unregister_def)
  ultimately show ?thesis unfolding relays_def connected_unregister [OF inv c] by (simp add: passes_same)
qed

lemma proxying_history: "proxying (s\<lparr>history := h\<rparr>) \<longleftrightarrow> proxying s"
  by (simp add: proxying_def connected_def registered_def)

lemma connected_history [simp]: "connected (s\<lparr>history := h\<rparr>) = connected s"
  by (simp add: connected_def registered_def fun_eq_iff)

lemma forward_served:
  assumes w: "steady sc w f" and s: "proxying s" "sound w f s" and k: "k \<in> registered s"
  shows "\<exists>s'. serve_socket sc w n k s = Some (Inr (), s') \<and> round_done w f k s s'"
proof -
  obtain j where kj: "connected s k j" using s(1) k by (auto simp: proxying_def)
  note c = connectedD [OF s(1) kj]
  let ?a = "w (history s) (Py_recv k n)" and ?s1 = "s\<lparr>history := Py_recv k n # history s\<rparr>"
  have w': "dependable w" "raised (w h (Py_send x bs)) = None" for h x bs using w by (simp_all add: steady_def)
  have run: "serve_socket sc w n k s =
    (if raised ?a = None \<and> bytes ?a \<noteq> [] then py_bind (sock_send w j (bytes ?a)) (\<lambda>_. py_return ()) ?s1 else Some (Inr (), unregister k j ?s1))"
    using forward_eq [OF w'(1) s(1) kj refl refl] c(7) by (simp add: serve_socket_def)
  have s1: "proxying ?s1" "sound w f ?s1" "connected ?s1 k j"
    using s(1) kj sound_call [OF s(2)] by (simp_all add: proxying_history)
  have others: "x = k" if "connected s x y" "y = j" for x y
    using that kj connected_unique [of s j x k] connected_sym by blast
  show ?thesis
  proof (cases "raised ?a = None \<and> bytes ?a \<noteq> []")
    case True
    let ?s2 = "?s1\<lparr>history := Py_send j (bytes ?a) # history ?s1\<rparr>"
    have "py_bind (sock_send w j (bytes ?a)) (\<lambda>_. py_return ()) ?s1 = Some (Inr (), ?s2)"
      using c(2) w'(2) sock_send_eq [of ?s1 j w "bytes ?a"] by (auto simp: py_bind_def py_return_def)
    moreover have "relays w s ?s2"
    proof -
      have "passes w u v (history s) (history ?s2)" if uv: "connected s u v" for u v
      proof (cases "u = k")
        case False
        then have "v \<noteq> j" using others [OF uv] by blast
        then show ?thesis using False by (intro passes_same) simp_all
      next
        case u: True
        then have "v = j" using connected_unique [OF kj] uv by simp
        then show ?thesis using True u w'(2) unfolding passes_def
          by (intro exI [of _ "bytes ?a"] exI [of _ "take (taken (w (history ?s1) (Py_send j (bytes ?a)))) (bytes ?a)"])
            (simp add: whole_sends_def prefix_imp_subseq take_is_prefix)
      qed
      then show ?thesis by (simp add: relays_def)
    qed
    moreover have "sound w f ?s2" using sound_call [OF s1(2)] by simp
    ultimately show ?thesis
      using run True s1(1) by (auto simp: round_done_def proxying_history)
  next
    case False
    have "relays w s ?s1"
    proof -
      have "came_from w u (history ?s1) = came_from w u (history s)" for u using False by auto
      then show ?thesis by (simp add: relays_def passes_same)
    qed
    then have "relays w s (unregister k j ?s1)"
      using relays_trans [OF s(1)] relays_unregister [OF s1(1,3)] by blast
    moreover have "\<forall>x \<in> set (inputs s). x \<in> set (inputs (unregister k j ?s1)) \<or> x = k \<or> connected s k x"
      using kj s(1) by (auto simp: unregister_def proxying_def)
    ultimately show ?thesis
      using False run proxying_unregister [OF s1(1,3)] sound_unregister [OF s1(2)] by (auto simp: round_done_def)
  qed
qed

text \<open>No two of the sockets that are ready are the two sides of a connection.\<close>

definition no_pair_ready :: "server \<Rightarrow> nat list \<Rightarrow> bool" where
  "no_pair_ready s ks \<longleftrightarrow> (\<forall>k \<in> set ks. \<forall>j \<in> set ks. \<not> connected s k j)"

lemma ready_served:
  assumes w: "steady sc w f" and s: "proxying s" "sound w f s"
    and ks: "distinct ks" "set ks \<subseteq> set (inputs s)" "no_pair_ready s ks"
  shows "\<exists>s'. serve_ready sc w n ks s = Some (Inr (), s') \<and> proxying s' \<and> sound w f s' \<and> relays w s s'"
  using s ks
proof (induction ks arbitrary: s)
  case Nil
  then show ?case by (simp add: py_return_def)
next
  case (Cons k ks)
  have "k = 0 \<or> k \<in> registered s" using Cons.prems(4) by (auto simp: registered_def)
  then obtain s1 where s1: "serve_socket sc w n k s = Some (Inr (), s1)" "round_done w f k s s1"
    using accept_served [OF w Cons.prems(1,2), of n] forward_served [OF w Cons.prems(1,2), of k n] by blast
  have no_pair_ready: "\<not> connected s x y" if "x \<in> set (k # ks)" "y \<in> set (k # ks)" for x y
    using Cons.prems(5) that by (auto simp: no_pair_ready_def)
  have "set ks \<subseteq> set (inputs s1)"
    using s1(2) Cons.prems(3,4) no_pair_ready [of k] unfolding round_done_def by fastforce
  moreover have "no_pair_ready s1 ks"
    unfolding no_pair_ready_def
  proof (intro ballI notI)
    fix x y assume xy: "x \<in> set ks" "y \<in> set ks" "connected s1 x y"
    have "x \<in> set (inputs s)" using xy(1) Cons.prems(4) by auto
    then have "x < length (filenos s)"
      using Cons.prems(1) fd_at_less [of "filenos s" x] by (force simp: proxying_def)
    then have "connected s x y" using s1(2) xy(3) unfolding round_done_def relays_def by (meson leD)
    then show False using no_pair_ready [of x y] xy(1,2) by simp
  qed
  ultimately obtain s2 where s2: "serve_ready sc w n ks s1 = Some (Inr (), s2)" "proxying s2" "sound w f s2" "relays w s1 s2"
    using Cons.IH [of s1] s1(2) Cons.prems(3) by (auto simp: round_done_def)
  then show ?case
    using s1 relays_trans [OF Cons.prems(1), of w s1 s2] by (auto simp: round_done_def py_bind_def)
qed

lemma round_served:
  assumes w: "steady sc w f" and s: "proxying s" "sound w f s"
    and no_pair_ready: "no_pair_ready s (ready (w (history s) (Py_select (inputs s))))"
  shows "\<exists>s'. serve_round sc w n s = Some (Inr (), s') \<and> proxying s' \<and> sound w f s' \<and> relays w s s'"
proof -
  let ?a = "w (history s) (Py_select (inputs s))" and ?s1 = "s\<lparr>history := Py_select (inputs s) # history s\<rparr>"
  have a: "raised ?a = None" "set (ready ?a) \<subseteq> set (inputs s)" "distinct (ready ?a)"
    using w by (simp_all add: steady_def)
  have "\<not> list_ex (\<lambda>k. fileno s k < 0) (inputs s)"
    using s(1) by (auto simp: list_ex_iff proxying_def)
  then have run: "serve_round sc w n s = serve_ready sc w n (ready ?a) ?s1"
    using a(1) by (simp add: serve_round_def py_select_def py_bind_def py_simps py_call_eq)
  have s1: "proxying ?s1" "sound w f ?s1" "relays w s ?s1" "no_pair_ready ?s1 (ready ?a)"
    using s sound_call [OF s(2)] no_pair_ready by (simp_all add: proxying_history relays_def passes_same no_pair_ready_def)
  obtain s2 where "serve_ready sc w n (ready ?a) ?s1 = Some (Inr (), s2)" "proxying s2" "sound w f s2" "relays w ?s1 s2"
    using ready_served [OF w s1(1,2) a(3) _ s1(4)] a(2) by auto
  then show ?thesis using run relays_trans [OF s(1) s1(3)] by auto
qed

lemma started_proxying: "0 \<le> f \<Longrightarrow> proxying (started f)" "sound w f (started f)"
  by (simp_all add: started_def proxying_def registered_def sound_def fd_at_def)

lemma rounds_served:
  assumes w: "steady sc w f" and s: "proxying s" "sound w f s"
    and "\<And>i s'. i < m \<Longrightarrow> run_nonblocking sc w n i s = Some (Inr (), s') \<Longrightarrow>
      no_pair_ready s' (ready (w (history s') (Py_select (inputs s'))))"
  shows "\<exists>s'. run_nonblocking sc w n m s = Some (Inr (), s') \<and> proxying s' \<and> sound w f s' \<and> relays w s s'"
  using s assms(4)
proof (induction m arbitrary: s)
  case 0
  then show ?case by (simp add: py_return_def)
next
  case (Suc m)
  have "no_pair_ready s (ready (w (history s) (Py_select (inputs s))))"
    using Suc.prems(3) [of 0 s] by (simp add: py_return_def)
  from round_served [OF w Suc.prems(1,2) this]
  obtain s1 where s1: "serve_round sc w n s = Some (Inr (), s1)" "proxying s1" "sound w f s1" "relays w s s1" by blast
  have "no_pair_ready s' (ready (w (history s') (Py_select (inputs s'))))"
    if "i < m" "run_nonblocking sc w n i s1 = Some (Inr (), s')" for i s'
    using Suc.prems(3) [of "Suc i" s'] that s1(1) by (simp add: py_bind_def)
  then obtain s2 where "run_nonblocking sc w n m s1 = Some (Inr (), s2)" "proxying s2" "sound w f s2" "relays w s1 s2"
    using Suc.IH [OF s1(2,3)] by blast
  then show ?case using s1 relays_trans [OF Suc.prems(1)] by (auto simp: py_bind_def)
qed

section \<open>A sample proxy\<close>

text \<open>
  A packet library, and a system where one client connects to a destination and sends one byte
  after the other: at first the listening socket is ready, then the socket that was registered
  first. The descriptors are always new.
\<close>

definition plain_scapy :: scapy where
  "plain_scapy = \<lparr>dissect = \<lambda>fs bs. Inl Struct_error, assemble = \<lambda>fs bs. bs,
     build = \<lambda>fs. concat (map (the \<circ> default_bytes) fs),
     ip6_text = \<lambda>bs. if take 12 bs = replicate 10 0 @ [255, 255] then ''::ffff:'' @ ascii (dotted (drop 12 bs)) else ''::1''\<rparr>"

definition sample_scapy :: scapy where
  "sample_scapy = plain_scapy\<lparr>dissect := \<lambda>fs bs. Inr (field_values plain_scapy fs bs)\<rparr>"

lemma sample_scapy_ok: "scapy_ok sample_scapy"
proof -
  have v: "field_value sample_scapy f bs = field_value plain_scapy f bs" for f bs
    by (cases f) (simp_all add: sample_scapy_def)
  have "field_values sample_scapy fs bs = field_values plain_scapy fs bs" for fs bs
    by (induction fs arbitrary: bs) (simp_all add: v)
  moreover have "map default_bytes fs = map Some bss \<Longrightarrow> map (the \<circ> default_bytes) fs = bss" for fs bss
  proof -
    assume "map default_bytes fs = map Some bss"
    then have "map the (map default_bytes fs) = map the (map Some bss)" by simp
    then show ?thesis by (simp add: comp_def)
  qed
  ultimately show ?thesis by (simp add: scapy_ok_def sample_scapy_def plain_scapy_def)
qed

definition sample_port :: u16 where "sample_port = 0x5000"

definition sample_addr :: "byte list" where
  "sample_addr = replicate 10 0 @ [255, 255, 10, 0, 0, 1]"

definition sample_peer :: py_world where
  "sample_peer h c =
     (let a = \<lparr>raised = None, fd_number = 10 + int (length h), bytes = [65], ready = [],
        taken = (case c of Py_send k bs \<Rightarrow> length bs | _ \<Rightarrow> 0)\<rparr> in
      case c of
        Py_recv k n \<Rightarrow>
          if n = 4 then a\<lparr>bytes := [1, 6, 34, 99]\<rparr>
          else if n = 24 then a\<lparr>bytes := encode [Tlv_connect sample_port sample_addr]\<rparr> else a
      | Py_select ks \<Rightarrow> a\<lparr>ready := take 1 (filter (\<lambda>k. k \<noteq> 0 \<or> h = []) ks)\<rparr>
      | _ \<Rightarrow> a)"

lemma replay_Cons: "set (replay w f (c # h)) \<subseteq> {-1, fd_number (w h c)} \<union> set (replay w f h)"
  using set_update_subset_insert [of "replay w f h" _ "-1"] by (cases c) (auto simp: Let_def)

lemma sample_fds: "set (replay sample_peer 3 h) \<subseteq> {-1..<10 + int (length h)}"
proof (induction h)
  case (Cons c h)
  have "fd_number (sample_peer h c) = 10 + int (length h)"
    by (cases c) (simp_all add: sample_peer_def Let_def)
  then show ?case using Cons replay_Cons [of sample_peer 3 c h] by fastforce
qed simp

lemma sample_message:
  "message_read sample_scapy sample_peer k h =
    Some (Inr (Some [packet_of sample_scapy (Tlv_connect sample_port sample_addr)]), Py_recv k 24 # Py_recv k 4 # h)"
proof -
  obtain hd where hd: "dissect sample_scapy Convert_fields [1, 6, 34, 99] = Inr hd" "hd ''total_length'' = Num 6"
    using header_dissected [OF sample_scapy_ok, of "[1, 6, 34, 99]"] by auto
  have "list_all wf_tlv [Tlv_connect sample_port sample_addr]" by (simp add: sample_addr_def)
  from read_packets_encoded [OF sample_scapy_ok this, of "[]" "[]"]
  show ?thesis
    using hd by (simp add: message_read_def Let_def sample_peer_def CONVERT_HEADER_LENGTH_def)
qed

lemma sample_steady: "steady sample_scapy sample_peer 3"
proof -
  have "dependable sample_peer" by (simp add: dependable_def sample_peer_def Let_def)
  moreover have "kernel_fds sample_peer 3"
    unfolding kernel_fds_def
  proof (intro allI impI)
    fix h c assume "c = Py_socket \<or> (\<exists>k. c = Py_accept k)"
    then have "fd_number (sample_peer h c) = 10 + int (length h)" by (auto simp: sample_peer_def Let_def)
    then show "0 \<le> fd_number (sample_peer h c) \<and> fd_number (sample_peer h c) \<notin> set (replay sample_peer 3 h)"
      using sample_fds [of h] by auto
  qed
  moreover have "clients_tame sample_scapy sample_peer"
    by (simp add: clients_tame_def sample_message)
  moreover have "set (take 1 (filter P ks)) \<subseteq> set ks \<and> distinct (take 1 (filter P ks))" for P and ks :: "nat list"
    using set_take_subset [of 1 "filter P ks"] filter_is_subset [of P ks] by (cases "filter P ks") auto
  ultimately show ?thesis by (simp add: steady_def sample_peer_def Let_def)
qed

lemma sample_no_pair: "no_pair_ready s (ready (sample_peer h (Py_select ks)))"
  by (cases "filter (\<lambda>k. k \<noteq> 0 \<or> h = []) ks")
    (auto simp: no_pair_ready_def sample_peer_def Let_def connected_def)


text \<open>The first two rounds of the sample system.\<close>

definition sample_state :: server where
  "sample_state = enroll 1 2 ((started 3)\<lparr>filenos := [3, 11, 14],
     history := [Py_send 1 [1, 1, 34, 99], Py_connect 2 ''10.0.0.1'' 80, Py_socket, Py_recv 1 24, Py_recv 1 4,
       Py_accept 0, Py_select [0]]\<rparr>)"

lemma sample_text: "ipv6_to_ipv4 (Text (ip6_text sample_scapy sample_addr)) = ''10.0.0.1''"
proof -
  have "ascii (dotted [10, 0, 0, 1]) = ''10.0.0.1''" by code_simp
  moreover have "ip6_text sample_scapy sample_addr = ''::ffff'' @ CHR '':'' # ascii (dotted [10, 0, 0, 1])"
    by (simp add: sample_scapy_def plain_scapy_def sample_addr_def)
  ultimately show ?thesis using behind_colon [OF colon_dotted] by metis
qed

lemma sample_connection:
  "handle_connection sample_scapy sample_peer 1
     ((started 3)\<lparr>filenos := [3, 11], history := [Py_accept 0, Py_select [0]]\<rparr>) = Some (Inr True, sample_state)"
proof -
  have w: "raised (sample_peer h c) = None" for h c by (cases c) (simp_all add: sample_peer_def Let_def)
  have d: "dependable sample_peer" "length sample_addr = 16" using sample_steady by (simp_all add: steady_def sample_addr_def)
  have p: "unat (ntohs sample_port) = 80" by (simp add: unat_ntohs le16_def sample_port_def big_endian_def)
  have "request_packets sample_scapy sample_port sample_addr [packet_of sample_scapy (Tlv_connect sample_port sample_addr)]"
    by (simp add: request_packets_def)
  from connect_request [OF sample_scapy_ok d sample_message this, of "(started 3)\<lparr>filenos := [3, 11], history := [Py_accept 0, Py_select [0]]\<rparr>" 1]
  show ?thesis
    by (simp add: w sample_text p fd_at_def sample_state_def Let_def) (simp add: sample_peer_def Let_def started_def numeral_2_eq_2)
qed

lemma sample_round: "serve_round sample_scapy sample_peer 4096 (started 3) = Some (Inr (), sample_state)"
proof -
  have w: "raised (sample_peer h c) = None" for h c by (cases c) (simp_all add: sample_peer_def Let_def)
  have r: "ready (sample_peer [] (Py_select [0])) = [0]" "fd_number (sample_peer [Py_select [0]] (Py_accept 0)) = 11"
    by (simp_all add: sample_peer_def Let_def)
  show ?thesis
    using sample_connection
    by (simp add: serve_round_def started_def py_simps py_bind_def py_select_def py_call_eq w r serve_socket_def sock_accept_eq
        fd_at_def Let_def)
qed

lemma sample_second:
  "connected sample_state 2 1 \<and> (\<exists>s. serve_round sample_scapy sample_peer 4096 sample_state = Some (Inr (), s) \<and> connected s 2 1)"
proof -
  have w: "raised (sample_peer h c) = None" for h c by (cases c) (simp_all add: sample_peer_def Let_def)
  have r: "ready (sample_peer (history sample_state) (Py_select [0, 2, 1])) = [2]"
    "bytes (sample_peer h (Py_recv 2 4096)) = [65]" for h
    by (simp_all add: sample_peer_def Let_def sample_state_def enroll_def)
  have c: "connected sample_state 2 1"
    by (simp add: sample_state_def started_def enroll_def connected_def registered_def fd_at_def)
  have i: "inputs sample_state = [0, 2, 1]" "filenos sample_state = [3, 11, 14]"
    "forward_map sample_state 14 = Some 1"
    by (simp_all add: sample_state_def started_def enroll_def fd_at_def)
  have "\<exists>h. serve_round sample_scapy sample_peer 4096 sample_state = Some (Inr (), sample_state\<lparr>history := h\<rparr>)"
    by (intro exI [of _ "Py_send 1 [65] # Py_recv 2 4096 # Py_select [0, 2, 1] # history sample_state"])
      (simp add: serve_round_def py_simps py_bind_def py_select_def py_call_eq w r i serve_socket_def read_and_forward_def
        fd_at_def py_try_def sock_recv_eq sock_send_eq del: One_nat_def)
  then show ?thesis using c by auto
qed

lemma sample_proxying: "proxying sample_state" "sound sample_peer 3 sample_state"
proof -
  have n: "no_pair_ready s (ready (sample_peer (history s) (Py_select (inputs s))))" for s by (rule sample_no_pair)
  show "proxying sample_state" "sound sample_peer 3 sample_state"
    using round_served [OF sample_steady started_proxying(1) [of 3, simplified] started_proxying(2) n, of 4096] sample_round by auto
qed

section \<open>Properties\<close>

text \<open>
  C15. The proxy serves, under conditions: the system gives new descriptors, and its sockets, its
  loggers, accepting, sending, \<open>select\<close> and closing raise nothing; every message of a client comes
  to an end and has no Connect TLV and no TLV of an unknown type behind a Connect TLV; and no two
  ends of a connection are ready in the same round. Then the loop runs on without an exception,
  and after every round the registered sockets are open and form pairs that are each other's
  other side.
\<close>

theorem proxy_serves:
  assumes "steady sc w f" and "0 \<le> f"
    and "\<And>i s. i < m \<Longrightarrow> run_nonblocking sc w n i (started f) = Some (Inr (), s) \<Longrightarrow>
      no_pair_ready s (ready (w (history s) (Py_select (inputs s))))"
  shows "\<exists>s. run_nonblocking sc w n m (started f) = Some (Inr (), s) \<and> proxying s"
proof -
  have "\<exists>s. run_nonblocking sc w n m (started f) = Some (Inr (), s) \<and> proxying s \<and> sound w f s \<and> relays w (started f) s"
    by (rule rounds_served [OF assms(1) started_proxying(1) [OF assms(2)] started_proxying(2)]) (rule assms(3))
  then show ?thesis by blast
qed

lemma proxy_serves_witness:
  "\<exists>s. run_nonblocking sample_scapy sample_peer 4096 5 (started 3) = Some (Inr (), s) \<and> proxying s"
  by (rule proxy_serves [OF sample_steady]) (simp_all add: sample_no_pair)

text \<open>
  C16. What comes from one side of a connection goes to the other one: under the conditions of the
  property before (nothing raises, the messages of new clients are harmless, and no two ends of any
  connection are ready in the same round), while two sockets stay connected, the bytes that
  the system takes for one of them are bytes that came from the other one, in the same order;
  and they are all of them if the system takes every block whole, which the proxy does not check.
\<close>

theorem proxy_relays:
  assumes "steady sc w f" and "proxying s" and "sound w f s"
    and "\<And>i s'. i < m \<Longrightarrow> run_nonblocking sc w n i s = Some (Inr (), s') \<Longrightarrow>
      no_pair_ready s' (ready (w (history s') (Py_select (inputs s'))))"
    and "run_nonblocking sc w n m s = Some (Inr (), s')"
    and "connected s k j" and "connected s' k j"
  shows "\<exists>x y. came_from w k (history s') = came_from w k (history s) @ x \<and>
    sent_to w j (history s') = sent_to w j (history s) @ y \<and>
    subseq y x \<and> (whole_sends w \<longrightarrow> y = x)"
proof -
  have "\<exists>s'. run_nonblocking sc w n m s = Some (Inr (), s') \<and> proxying s' \<and> sound w f s' \<and> relays w s s'"
    by (rule rounds_served [OF assms(1-3)]) (rule assms(4))
  then show ?thesis using assms(5-7) by (auto simp: relays_def passes_def)
qed

lemma proxy_relays_witness:
  "\<exists>s x. run_nonblocking sample_scapy sample_peer 4096 1 sample_state = Some (Inr (), s) \<and>
     came_from sample_peer 2 (history s) = came_from sample_peer 2 (history sample_state) @ x \<and>
     sent_to sample_peer 1 (history s) = sent_to sample_peer 1 (history sample_state) @ x"
proof -
  have n: "no_pair_ready s (ready (sample_peer (history s) (Py_select (inputs s))))" for s by (rule sample_no_pair)
  have whole: "whole_sends sample_peer" by (simp add: whole_sends_def sample_peer_def Let_def)
  obtain s' where s': "serve_round sample_scapy sample_peer 4096 sample_state = Some (Inr (), s')" "connected s' 2 1"
    using sample_second by blast
  then have "run_nonblocking sample_scapy sample_peer 4096 1 sample_state = Some (Inr (), s')"
    by (simp add: py_bind_def py_return_def)
  from proxy_relays [OF sample_steady sample_proxying n this _ s'(2)] sample_second this whole show ?thesis by blast
qed



end
