(* ===== verification/ProxyFaults.thy ===== *)
theory ProxyFaults
  imports ProxyRounds
begin

text \<open>
  What ends or damages the service of the proxy: the conditions of \<open>ProxyRounds\<close> are needed. A message
  with a TLV of length 0 keeps it in a loop, and exceptions that nothing catches leave the loop
  of \<open>run_nonblocking\<close> when both ends of a connection are ready and the first one is closed, when
  sending fails, and in the round after a client that is registered was closed. A send that takes
  only a part of a block loses the rest of it.
\<close>

section \<open>Exceptions that leave the loop\<close>

lemma ready_raises:
  "serve_socket sc w n k s = Some (Inl e, s') \<Longrightarrow> serve_ready sc w n (k # ks) s = Some (Inl e, s')"
  by (simp add: py_bind_def)

lemma ready_goes_on:
  "serve_socket sc w n k s = Some (Inr (), s') \<Longrightarrow> serve_ready sc w n (k # ks) s = serve_ready sc w n ks s'"
  by (simp add: py_bind_def)

lemma closed_not_forwarded:
  assumes "proxying s"
  shows "forward_map s (-1) = None"
proof -
  have "-1 \<notin> fileno s ` registered s"
  proof
    assume "-1 \<in> fileno s ` registered s"
    then obtain k where "k \<in> set (inputs s)" "fileno s k = -1" by (metis DiffD1 imageE registered_def)
    then show False using assms by (force simp: proxying_def)
  qed
  moreover have "dom (forward_map s) = fileno s ` registered s" using assms by (simp add: proxying_def)
  ultimately show ?thesis by blast
qed

lemma closed_socket_raises:
  assumes "proxying s" and "fileno s k = -1" and "k \<noteq> 0"
  shows "serve_socket sc w n k s = Some (Inl Key_error, s)"
  using closed_not_forwarded [OF assms(1)] assms(2,3)
  by (simp add: serve_socket_def read_and_forward_def py_simps py_bind_def)

lemma send_failure_raises:
  assumes "dependable w" and "proxying s" and "connected s k j"
    and "a = w (history s) (Py_recv k n)" and "raised a = None" and "bytes a \<noteq> []"
    and "raised (w (Py_recv k n # history s) (Py_send j (bytes a))) = Some e"
  shows "\<exists>s'. serve_socket sc w n k s = Some (Inl e, s')"
proof -
  note c = connectedD [OF assms(2,3)]
  have "fileno s j \<noteq> -1" using c(2) by auto
  then show ?thesis
    using forward_eq [OF assms(1-4) refl] assms(5-7) c(7) by (simp add: serve_socket_def sock_send_eq py_bind_def)
qed

lemma closed_input_raises:
  assumes "k \<in> set (inputs s)" and "fileno s k = -1"
  shows "serve_round sc w n s = Some (Inl Value_error, s)"
proof -
  have "list_ex (\<lambda>k. fileno s k < 0) (inputs s)" using assms by (auto simp: list_ex_iff intro!: bexI [of _ k])
  then show ?thesis by (simp add: serve_round_def py_simps py_bind_def py_select_def)
qed

section \<open>Properties\<close>

text \<open>
  C18. One message stops the proxy for everybody: when the first TLV of a message has the length
  0 (and as many bytes follow as its class has fields), the reader never gets past it, and the
  one thread that serves all connections does not return.
\<close>

theorem zero_length_hangs:
  assumes "scapy_ok sc" and "fileno s c \<noteq> -1"
    and "a = w (history s) (Py_recv c 4)" and "raised a = None" and "length (bytes a) = 4"
    and "b = w (Py_recv c 4 # history s) (Py_recv c (unat (bytes a ! 1) * 4))" and "raised b = None"
    and "4 \<le> length (bytes b)" and "bytes b ! 1 = 0" and "bytes b ! 0 = 0xa \<longrightarrow> 20 \<le> length (bytes b)"
  shows "handle_connection sc w c s = None"
proof -
  obtain hd where hd: "dissect sc Convert_fields (bytes a) = Inr hd" "hd ''total_length'' = Num (unat (bytes a ! 1))"
    using assms(1,5) by (rule header_dissected)
  have "read_packets sc (bytes b) 0 [] = None"
    using assms(8-10) by (intro read_packets_stuck [OF assms(1)]) auto
  then have "message_read sc w c (history s) = None"
    using hd assms(3-7) by (simp add: message_read_def Let_def CONVERT_HEADER_LENGTH_def)
  then show ?thesis
    by (simp add: handle_connection_def py_try_def py_bind_def read_convert_header_eq [OF assms(2)])
qed

definition zero_world :: py_world where
  "zero_world h c = (sample_peer h c)\<lparr>bytes := (case c of
     Py_recv k n \<Rightarrow> if n = 4 then [1, 2, 34, 99] else [0x16, 0, 0, 0] | _ \<Rightarrow> [])\<rparr>"

lemma zero_length_hangs_witness:
  "handle_connection sample_scapy zero_world 1 ((started 3)\<lparr>filenos := [3, 11]\<rparr>) = None"
proof (rule zero_length_hangs [OF sample_scapy_ok _ refl])
  have w: "raised (zero_world h c) = None" for h c by (cases c) (simp_all add: zero_world_def sample_peer_def Let_def)
  show "raised (zero_world (history ((started 3)\<lparr>filenos := [3, 11]\<rparr>)) (Py_recv 1 4)) = None" by (rule w)
  show "raised (zero_world (Py_recv 1 4 # history ((started 3)\<lparr>filenos := [3, 11]\<rparr>)) (Py_recv 1 8)) = None" by (rule w)
qed (simp_all add: zero_world_def fd_at_def)

text \<open>
  C19. When both ends of a connection are ready in the same round and the first one has nothing
  more to say, the connection is taken down, the second end is looked up by the descriptor -1,
  and the \<open>KeyError\<close> ends the loop and with it all other connections.
\<close>

theorem both_ends_crash:
  assumes "dependable w" and "proxying s" and "connected s k j"
    and "a = w (history s) (Py_recv k n)" and "raised a \<noteq> None \<or> bytes a = []"
  shows "\<exists>s'. serve_ready sc w n (k # j # ks) s = Some (Inl Key_error, s')"
proof -
  let ?s1 = "s\<lparr>history := Py_recv k n # history s\<rparr>"
  note c = connectedD [OF assms(2,3)]
  have s1: "proxying ?s1" "connected ?s1 k j" using assms(2,3) by (simp_all add: proxying_history)
  have "serve_socket sc w n k s = Some (Inr (), unregister k j ?s1)"
    using forward_eq [OF assms(1-4) refl] assms(5) c(7) by (auto simp: serve_socket_def)
  moreover have "serve_socket sc w n j (unregister k j ?s1) = Some (Inl Key_error, unregister k j ?s1)"
    using c(8) by (intro closed_socket_raises [OF proxying_unregister [OF s1]]) (simp_all add: unregister_def)
  ultimately show ?thesis using ready_goes_on ready_raises by metis
qed

definition silent_world :: py_world where
  "silent_world h c = (sample_peer h c)\<lparr>bytes := []\<rparr>"

lemma both_ends_crash_witness:
  "\<exists>s'. serve_ready sample_scapy silent_world 4096 [2, 1] sample_state = Some (Inl Key_error, s')"
proof (rule both_ends_crash [OF _ sample_proxying(1) _ refl])
  have w: "raised (sample_peer h c) = None" for h c by (cases c) (simp_all add: sample_peer_def Let_def)
  show "dependable silent_world" by (simp add: dependable_def silent_world_def w)
  show "connected sample_state 2 1" using sample_second by blast
qed (simp add: silent_world_def)

text \<open>
  C20. A client can make the proxy fail one round later: its message has a Connect TLV and behind it a
  TLV of a type that the table does not have. The destination is connected and the pair is
  registered when the unknown type raises a \<open>KeyError\<close>; that one is caught and the client is
  closed, but its socket stays among the inputs, and the next \<open>select\<close> raises a \<open>ValueError\<close>.
\<close>

theorem unknown_type_crash:
  assumes "scapy_ok sc" and "dependable w" and "length addr = 16"
    and "fileno s0 0 \<noteq> -1" and "raised (w (history s0) (Py_accept 0)) = None"
    and "s = s0\<lparr>history := Py_accept 0 # history s0, filenos := filenos s0 @ [fd_number (w (history s0) (Py_accept 0))]\<rparr>"
    and "c = length (filenos s0)" and "fileno s c \<noteq> -1"
    and "message_read sc w c (history s) = Some (Inr (Some (packet_of sc (Tlv_connect port addr) # t # ts)), h)"
    and "kind t = None"
    and "raised (w h Py_socket) = None" and "f = fd_number (w h Py_socket)" and "f \<noteq> -1" and "v = length (filenos s)"
    and "dest = Py_connect v (ipv6_to_ipv4 (Text (ip6_text sc addr))) (unat (ntohs port))"
    and "raised (w (Py_socket # h) dest) = None"
    and "raised (w (dest # Py_socket # h) (Py_send c [1, 1, 34, 99])) = None"
  shows "\<exists>s'. serve_socket sc w n 0 s0 = Some (Inr (), s') \<and> serve_round sc w n s' = Some (Inl Value_error, s')"
proof -
  let ?s1 = "s\<lparr>filenos := filenos s @ [f], history := Py_send c [1, 1, 34, 99] # dest # Py_socket # h\<rparr>"
  let ?s2 = "enroll c v ?s1" let ?s3 = "?s2\<lparr>filenos := (filenos ?s2)[c := -1], history := Py_close c # history ?s2\<rparr>"
  have "handle_tlv_connect sc w (packet_of sc (Tlv_connect port addr)) c (s\<lparr>history := h\<rparr>) = Some (Inr (), ?s2)"
    using connect_tlv [OF assms(1-3,8,11-15,17)] assms(16) by (simp add: Let_def)
  then have "handle_connection sc w c s = Some (Inr False, ?s2)"
    using assms(10) by (simp add: handle_connection_def py_try_def py_bind_def read_convert_header_eq [OF assms(8)]
        assms(9) handle_tlvs_Cons kind_connect [OF assms(3)] py_return_def)
  moreover have "c \<noteq> v" using assms(6,7,14) by simp
  then have "fileno ?s2 c \<noteq> -1" using assms(8,14) fd_at_less [OF assms(8)] by (simp add: enroll_def)
  then have "sock_close w c ?s2 = Some (Inr (), ?s3)"
    using assms(2) by (simp add: sock_close_eq dependable_def)
  moreover have "sock_accept w 0 s0 = Some (Inr c, s)" using assms(4-7) by (simp add: sock_accept_eq)
  ultimately have "serve_socket sc w n 0 s0 = Some (Inr (), ?s3)"
    by (simp add: serve_socket_def py_bind_def)
  moreover have "serve_round sc w n ?s3 = Some (Inl Value_error, ?s3)"
    by (rule closed_input_raises [of c]) (simp_all add: enroll_def)
  ultimately show ?thesis by blast
qed

definition odd_world :: py_world where
  "odd_world h c = (case c of
     Py_recv k n \<Rightarrow> (sample_peer h c)\<lparr>bytes := if n = 4 then [1, 7, 34, 99]
       else encode [Tlv_connect sample_port sample_addr] @ [99, 1, 0, 0]\<rparr>
   | _ \<Rightarrow> sample_peer h c)"

lemma odd_message:
  obtains t where "message_read sample_scapy odd_world k h =
      Some (Inr (Some (packet_of sample_scapy (Tlv_connect sample_port sample_addr) # [t])), Py_recv k 28 # Py_recv k 4 # h)"
    "kind t = None"
proof -
  let ?e = "encode [Tlv_connect sample_port sample_addr]" and ?bs = "[99, 1, 0, 0] :: byte list"
  obtain hd where hd: "dissect sample_scapy Convert_fields [1, 7, 34, 99] = Inr hd" "hd ''total_length'' = Num 7"
    using header_dissected [OF sample_scapy_ok, of "[1, 7, 34, 99]"] by auto
  have wf: "list_all wf_tlv [Tlv_connect sample_port sample_addr]" by (simp add: sample_addr_def)
  let ?t = "(ConvertTLV, field_values sample_scapy (fields_desc ConvertTLV) ?bs)"
  have t: "read_tlv sample_scapy ?bs = Inr ?t"
    using read_tlv_enough [OF sample_scapy_ok, of ?bs] by (simp add: class_of_def Let_def del: fields_desc.simps)
  have len: "length ?e = 20" by (simp add: sample_addr_def)
  have "read_packets sample_scapy (?e @ ?bs) 0 [] = read_packets sample_scapy (?e @ ?bs) 20
      [packet_of sample_scapy (Tlv_connect sample_port sample_addr)]"
    using read_packets_prefix [OF sample_scapy_ok wf, of "[]" ?bs "[]"] len by simp
  also have "\<dots> = Some (Inr [packet_of sample_scapy (Tlv_connect sample_port sample_addr), ?t])"
    using t len tlv_attrs(2) [of sample_scapy ConvertTLV 99 1 "[0, 0]"]
    by (subst read_packets.simps, subst read_packets.simps) (simp del: fields_desc.simps encode_Cons)
  finally have "message_read sample_scapy odd_world k h =
      Some (Inr (Some [packet_of sample_scapy (Tlv_connect sample_port sample_addr), ?t]), Py_recv k 28 # Py_recv k 4 # h)"
    using hd by (simp add: message_read_def Let_def odd_world_def sample_peer_def CONVERT_HEADER_LENGTH_def
        del: fields_desc.simps encode_Cons)
  moreover have "kind ?t = None"
    using tlv_attrs(1) [of sample_scapy ConvertTLV 99 1 "[0, 0]"] by (simp add: kind_def CONVERT_TLVS_def del: fields_desc.simps)
  ultimately show thesis by (rule that)
qed

lemma unknown_type_crash_witness:
  "\<exists>s. serve_socket sample_scapy odd_world 4096 0 (started 3) = Some (Inr (), s) \<and>
     serve_round sample_scapy odd_world 4096 s = Some (Inl Value_error, s)"
proof -
  have w: "raised (odd_world h c) = None" for h c by (cases c) (simp_all add: odd_world_def sample_peer_def Let_def)
  have n: "fd_number (odd_world h c) = 10 + int (length h)" for h c
    by (cases c) (simp_all add: odd_world_def sample_peer_def Let_def)
  obtain t where t: "message_read sample_scapy odd_world 1 [Py_accept 0] =
      Some (Inr (Some (packet_of sample_scapy (Tlv_connect sample_port sample_addr) # [t])), [Py_recv 1 28, Py_recv 1 4, Py_accept 0])"
    "kind t = None" by (rule odd_message)
  show ?thesis
  proof (rule unknown_type_crash [OF sample_scapy_ok _ _ _ w refl refl _ _ t(2) w refl _ refl refl w w, where port = sample_port and ts = "[]"])
    show "dependable odd_world" by (simp add: dependable_def w)
    show "length sample_addr = 16" by (simp add: sample_addr_def)
  qed (use t(1) in \<open>simp_all add: started_def fd_at_def n\<close>)
qed

text \<open>
  C27. A send that takes only a part of a block loses the rest: when a socket brings a block and the
  system takes the first bytes of it for the other side, the round goes on with a server that is the
  same as before, so that the bytes that were not taken are kept nowhere, and the other side gets
  what comes next directly behind the ones that were.
\<close>

theorem partial_send_loses:
  assumes "dependable w" and "proxying s" and "connected s k j"
    and "a = w (history s) (Py_recv k n)" and "raised a = None" and "bytes a \<noteq> []"
    and "b = w (Py_recv k n # history s) (Py_send j (bytes a))" and "raised b = None"
  shows "\<exists>s'. serve_socket sc w n k s = Some (Inr (), s') \<and>
    (\<exists>h. s' = s\<lparr>history := h\<rparr>) \<and>
    came_from w k (history s') = came_from w k (history s) @ bytes a \<and>
    sent_to w j (history s') = sent_to w j (history s) @ take (taken b) (bytes a)"
proof -
  let ?s1 = "s\<lparr>history := Py_recv k n # history s\<rparr>"
  let ?s2 = "s\<lparr>history := Py_send j (bytes a) # Py_recv k n # history s\<rparr>"
  note c = connectedD [OF assms(2,3)]
  have "fileno s j \<noteq> -1" using c(2) by auto
  then have "py_bind (sock_send w j (bytes a)) (\<lambda>_. py_return ()) ?s1 = Some (Inr (), ?s2)"
    using assms(7,8) by (simp add: sock_send_eq py_bind_def py_return_def)
  then have "serve_socket sc w n k s = Some (Inr (), ?s2)"
    using forward_eq [OF assms(1-4) refl] assms(5,6) c(7) by (simp add: serve_socket_def)
  then show ?thesis using assms(4,5,7,8) by fastforce
qed

definition full_world :: py_world where
  "full_world h c = (sample_peer h c)\<lparr>bytes := [65, 66, 67], taken := 1\<rparr>"

lemma partial_send_loses_witness:
  "\<exists>s. serve_socket sample_scapy full_world 4096 2 sample_state = Some (Inr (), s) \<and>
     came_from full_world 2 (history s) = came_from full_world 2 (history sample_state) @ [65, 66, 67] \<and>
     sent_to full_world 1 (history s) = sent_to full_world 1 (history sample_state) @ [65]"
proof -
  have w: "raised (full_world h c) = None" for h c
    by (cases c) (simp_all add: full_world_def sample_peer_def Let_def)
  have d: "dependable full_world" by (simp add: dependable_def w)
  have c: "connected sample_state 2 1" using sample_second by blast
  have b: "bytes (full_world (history sample_state) (Py_recv 2 4096)) \<noteq> []" by (simp add: full_world_def)
  show ?thesis
    using partial_send_loses [OF d sample_proxying(1) c refl w b refl w] by (fastforce simp: full_world_def)
qed

end
