(* ===== verification/EndToEnd.thy ===== *)
theory EndToEnd
  imports Client ProxyFaults
begin

text \<open>
  The client library and the proxy together: what \<open>redirect\<close> sends in
  \<open>lib_convert/convert_client.c\<close> is read by \<open>read_convert_header\<close> in \<open>5GTC/pkg/convert.py\<close>, and what
  \<open>handle_tlv_connect\<close> of \<open>5GTC/main.py\<close> answers is read by \<open>_read_convert\<close> of the library. The two
  sides are the definitions of \<open>Client\<close> and \<open>ProxyServer\<close>; here the kernel of the client and the
  system of the proxy are joined.
\<close>

section \<open>The two sides\<close>

text \<open>What the proxy sends to the client when the client's socket \<open>c\<close> brings the bytes \<open>req\<close>.\<close>

definition proxy_sends :: "scapy \<Rightarrow> py_world \<Rightarrow> server \<Rightarrow> nat \<Rightarrow> byte list \<Rightarrow> byte list" where
  "proxy_sends sc w p c req = (case handle_connection sc (fed w c req) c p of
     None \<Rightarrow> [] | Some (r, p') \<Rightarrow> sent_to (fed w c req) c (history p'))"

text \<open>The kernel of a client that is connected to the proxy: it receives what the proxy answers to its message.\<close>

fun requested :: "call list \<Rightarrow> byte list" where
  "requested [] = []"
| "requested (Send f bs fl # h) = bs"
| "requested (c # h) = requested h"

definition through_proxy :: "scapy \<Rightarrow> py_world \<Rightarrow> server \<Rightarrow> nat \<Rightarrow> kern" where
  "through_proxy sc w p c h x = stream_kern (proxy_sends sc w p c (requested h)) h x"

section \<open>The request at the proxy\<close>

lemma dependable_fed: "dependable w \<Longrightarrow> dependable (fed w c req)"
  by (simp add: dependable_def fed_def)

lemma request_wf:
  assumes "length addr = 16" and "case ck of None \<Rightarrow> True | Some bs \<Rightarrow> align4 (length bs) \<le> 992"
  shows "list_all wf_tlv (request_tlvs ck port addr)"
    "unat (wire (request_tlvs ck port addr) ! 1) * 4 = length (wire (request_tlvs ck port addr))"
proof -
  let ?ts = "request_tlvs ck port addr"
  show "list_all wf_tlv ?ts" using assms by (cases ck) auto
  have "length (encode ?ts) \<le> 1016" "4 dvd length (encode ?ts)"
    using assms(2) request_dvd [OF assms(1)] by (auto simp: length_request [OF assms(1)] split: option.splits)
  then have "4 * unat (wire ?ts ! 1) = length (wire ?ts)"
    unfolding wire_1 by (intro unat_units) simp_all
  then show "unat (wire ?ts ! 1) * 4 = length (wire ?ts)" by (simp only: mult.commute)
qed

lemma wire_parts: "take 4 (wire ts) = header_bytes (4 + length (encode ts))" "drop 4 (wire ts) = encode ts"
  by (simp_all add: wire_def header_bytes_def)

lemma request_read:
  assumes "scapy_ok sc" and "length addr = 16" and "case ck of None \<Rightarrow> True | Some bs \<Rightarrow> align4 (length bs) \<le> 992"
    and "ts = request_tlvs ck port addr" and "asked c h = 0"
  shows "message_read sc (fed w c (wire ts)) c h =
    Some (Inr (Some (map (packet_of sc) ts)), Py_recv c (length (wire ts)) # Py_recv c 4 # h)"
proof -
  note wf = request_wf [OF assms(2,3), of port, folded assms(4)]
  have hdr: "length (take 4 (wire ts)) = 4" "take 4 (wire ts) ! 1 = wire ts ! 1" by simp_all
  obtain hd where hd: "dissect sc Convert_fields (take 4 (wire ts)) = Inr hd" "hd ''total_length'' = Num (unat (wire ts ! 1))"
    using header_dissected [OF assms(1) hdr(1)] hdr(2) by metis
  have "read_packets sc (encode ts) 0 [] = Some (Inr (map (packet_of sc) ts))"
    using read_packets_encoded [OF assms(1) wf(1), of "[]" "[]"] by simp
  moreover have "take (length (wire ts)) (encode ts) = encode ts" by simp
  ultimately show ?thesis
    using hd hdr(1) assms(5) wf(2) by (simp add: message_read_def Let_def CONVERT_HEADER_LENGTH_def wire_parts(2) del: length_wire)
qed

lemma request_is_request:
  assumes "case ck of None \<Rightarrow> True | Some bs \<Rightarrow> align4 (length bs) \<le> 992"
  shows "request_packets sc port addr (map (packet_of sc) (request_tlvs ck port addr))"
proof (cases ck)
  case (Some bs)
  then have "wf_tlv (Tlv_cookie (pad4 bs))" using assms by simp
  then show ?thesis using Some kind_cookie [of "pad4 bs" sc] by (simp add: request_packets_def del: wf_tlv.simps)
qed (simp add: request_packets_def)

lemma to_v4mapped_text:
  assumes "scapy_ok sc"
  shows "ipv6_to_ipv4 (Text (ip6_text sc (to_v4mapped a))) = ascii (dotted (le32 a))"
proof -
  have "to_v4mapped a = replicate 10 0 @ [255, 255] @ le32 a"
  proof -
    have h: "htonl 0xffff = 0xffff0000" by (simp add: htonl_def)
    have "le32 0 = [0, 0, 0, 0]" "le32 (htonl 0xffff) = [0, 0, 255, 255]" unfolding h by (simp_all add: le32_def)
    moreover have "replicate 10 0 = [0, 0, 0, 0, 0, 0, 0, 0, 0, 0 :: byte]" by (simp add: numeral_eq_Suc)
    ultimately show ?thesis by (simp add: to_v4mapped_def)
  qed
  moreover have "length (le32 a) = 4" by simp
  ultimately have "ip6_text sc (to_v4mapped a) = ''::ffff'' @ CHR '':'' # ascii (dotted (le32 a))"
    using assms by (simp add: scapy_ok_def)
  then show ?thesis using behind_colon [OF colon_dotted] by metis
qed

lemma wire_empty: "wire [] = [1, 1, 34, 99]"
  by (simp add: wire_def header_bytes_def encode_def units_def CONVERT_VERSION_def le16_def htons_def CONVERT_MAGIC_NO_def)

section \<open>The answer at the client\<close>

lemma peer_says_proxied:
  "peer_says (through_proxy sc w p c) f False h =
   peer_says (stream_kern (proxy_sends sc w p c (requested h))) f False h"
  by (simp add: peer_says_def through_proxy_def Let_def cong: option.case_cong if_cong)

lemma recv_ok_proxied: "recv_ok (through_proxy sc w p c)"
  by (simp add: recv_ok_def through_proxy_def stream_kern_def Let_def)

lemma says_refuse: "verdict (peer_says (stream_kern []) f False h) = Refuse"
  by (simp add: peer_says_def stream_kern_def Let_def verdict_def header_of_def good_header_def)

section \<open>Properties\<close>

text \<open>
  C13. A connection through the proxy, for an IPv4 destination and no cookie or one of at most 992
  bytes when padded: the application connects a tracked descriptor; the message that the library
  sends makes the proxy connect to the address, in its dotted text, and to the port. If the
  destination accepts, \<open>connect\<close> returns 1 in the application, the library forgets the descriptor, and
  the proxy forwards between the client and the destination in both directions; if it does not,
  the proxy closes the client, and \<open>connect\<close> returns 0. The cookie makes no difference. Of the
  system of the proxy it is assumed that it gives a socket and takes the four bytes of the answer.
\<close>

theorem connect_through_proxy:
  fixes s :: "'z client_scheme"
  assumes "table_abs s T" and "0 \<le> f" and "T f = e # es" and "converter_addr s = Some ca" and "cookie_is s ck"
    and "case ck of None \<Rightarrow> True | Some bs \<Rightarrow> align4 (length bs) \<le> 992" and "consumed (trace s) = 0"
    and "scapy_ok sc" and "dependable w" and "fileno p c \<noteq> -1" and "asked c (history p) = 0" and "sent_to (fed w c req) c (history p) = []"
    and "req = wire (request_tlvs ck port (to_v4mapped a))"
    and "h = Py_recv c (length req) # Py_recv c 4 # history p"
    and "raised (w h Py_socket) = None" and "fd_number (w h Py_socket) \<noteq> -1" and "v = length (filenos p)"
    and "x = Py_connect v (ascii (dotted (le32 a))) (unat (ntohs port))"
    and "b = w (x # Py_socket # h) (Py_send c [1, 1, 34, 99])" and "raised b = None" and "4 \<le> taken b"
  shows "\<exists>p' rc s'. handle_connection sc (fed w c req) c p = Some (Inr True, p') \<and> x \<in> set (history p') \<and>
    connect_call plenty (through_proxy sc w p c) f (Sockaddr_in port a) s = return (rc, s') \<and> table_abs s' (T(f := es)) \<and>
    (if raised (w (Py_socket # h) x) = None
     then rc = 1 \<and> forward_map p' (fileno p' v) = Some c \<and> (fileno p c \<noteq> fileno p' v \<longrightarrow> forward_map p' (fileno p' c) = Some v)
     else rc = 0 \<and> fileno p' c = -1)"
proof -
  let ?ts = "request_tlvs ck port (to_v4mapped a)" and ?k = "through_proxy sc w p c"
  have a16: "length (to_v4mapped a) = 16" by simp
  have cv: "c \<noteq> v" using fd_at_less [OF assms(10)] assms(17) by simp
  have x: "x = Py_connect v (ipv6_to_ipv4 (Text (ip6_text sc (to_v4mapped a)))) (unat (ntohs port))"
    using assms(18) to_v4mapped_text [OF assms(8)] by simp
  have msg: "message_read sc (fed w c req) c (history p) = Some (Inr (Some (map (packet_of sc) ?ts)), h)"
    using request_read [OF assms(8) a16 assms(6) refl assms(11), of w port] assms(13,14) by simp
  define ok where "ok \<longleftrightarrow> raised (w (Py_socket # h) x) = None"
  let ?p1 = "p\<lparr>filenos := filenos p @ [fd_number (w h Py_socket)], history := x # Py_socket # h\<rparr>"
  define p' where "p' = (if ok then enroll c v (?p1\<lparr>history := Py_send c [1, 1, 34, 99] # history ?p1\<rparr>)
    else ?p1\<lparr>filenos := (filenos ?p1)[c := -1], history := Py_close c # history ?p1\<rparr>)"
  have run: "handle_connection sc (fed w c req) c p = Some (Inr True, p')"
    using connect_request [OF assms(8) dependable_fed [OF assms(9)] a16 msg request_is_request [OF assms(6)] assms(10)
        _ _ _ assms(17) x] assms(15,16,18-20)
    by (simp add: p'_def ok_def Let_def)
  have sends: "proxy_sends sc w p c req = (if ok then wire [] else [])"
    using run assms(12,14,18-21) by (simp add: proxy_sends_def p'_def enroll_def wire_empty ok_def)
  let ?c = "Connect f ca" and ?d = "Send f req 0"
  have v: "verdict (peer_says ?k f False (?d # ?c # trace s)) = (if ok then Accept else Refuse)"
    using says_accept [of "?d # ?c # trace s" f] assms(7)
    by (simp add: peer_says_proxied sends says_refuse)
  have fits: "request_fits ck" using assms(6) by (auto simp: request_fits_def split: option.splits)
  have dest: "dest_of (Sockaddr_in port a) = Some (port, to_v4mapped a)" by simp
  have d: "?d = Send f (wire ?ts) 0" using assms(13) by simp
  have ret: "0 \<le> ret (?k (trace s) ?c)" "0 < ret (?k (?c # trace s) ?d)"
    using assms(13) by (simp_all add: through_proxy_def stream_kern_def)
  note connect_answered [OF assms(1-3) recv_ok_proxied assms(4,5) fits dest a16 refl d ret, unfolded v]
  then obtain rc s' where "connect_call plenty ?k f (Sockaddr_in port a) s = return (rc, s')"
    "table_abs s' (T(f := es))" "rc = (if ok then 1 else 0)" by (cases ok) auto
  moreover have "x \<in> set (history p')" by (simp add: p'_def enroll_def)
  moreover have "forward_map p' (fileno p' v) = Some c \<and> (fileno p c \<noteq> fileno p' v \<longrightarrow> forward_map p' (fileno p' c) = Some v)" if ok
    using that cv assms(17) by (simp add: p'_def enroll_def)
  moreover have "fileno p' c = -1" if "\<not> ok" using that by (simp add: p'_def)
  ultimately show ?thesis using run by (auto simp: ok_def)
qed

lemma connect_through_proxy_witness:
  "\<exists>s. connect_call plenty (through_proxy sample_scapy sample_peer ((started 3)\<lparr>filenos := [3, 11]\<rparr>) 1) 5
     (Sockaddr_in 0x5000 1) tracked_client = return (1, s)"
proof -
  let ?p = "(started 3)\<lparr>filenos := [3, 11]\<rparr>"
  have w: "raised (sample_peer h c) = None" for h c by (cases c) (simp_all add: sample_peer_def Let_def)
  have n: "fd_number (sample_peer h Py_socket) \<noteq> -1" for h by (simp add: sample_peer_def Let_def)
  have d: "dependable sample_peer" using sample_steady by (simp add: steady_def)
  have c: "consumed (trace tracked_client) = 0" by (simp add: tracked_client_fields)
  have "(0 :: int) \<le> 5" by simp
  from connect_through_proxy [OF tracked_client_abs this one_state_5 tracked_client_fields(2,3) _ c sample_scapy_ok d _ _ _ refl refl w n refl refl refl w,
      where p = ?p and c = 1 and port = "0x5000" and a = 1]
  show ?thesis by (fastforce simp: w started_def fd_at_def sample_peer_def)
qed

end
