(* ===== verification/EvalServer.thy ===== *)
theory EvalServer
  imports PySockets MptcpClient "HOL-Library.AList"
begin

text \<open>
  The measuring server of \<open>5GTC/evaluation/mptcp_server.py\<close>, with \<open>util.py\<close>: it accepts clients, reads
  the greeting of \<open>mptcp_client.c\<close>, and gives each client a thread that sends, receives or echoes,
  by the type of the client. That a thread is started is a call of the system; what it then does
  is \<open>handle_client\<close>. The command line and printing are not modelled.
\<close>

section \<open>The server\<close>

text \<open>\<open>int.from_bytes(b, "little")\<close>, which reads a number that is never negative.\<close>

definition from_little :: "byte list \<Rightarrow> int" where
  "from_little bs = foldr (\<lambda>b v. 256 * v + int (unat b)) bs 0"

record client_connection =
  conn_socket :: nat
  conn_type :: int
  conn_buffer_size :: int

definition SERVER_MAGIC_NUMBER :: int where
  "SERVER_MAGIC_NUMBER = 0x7F"

definition DEFAULT_BUFFER_SIZE :: int where
  "DEFAULT_BUFFER_SIZE = 1024"

text \<open>\<open>CLIENT_TYPE_UPLINK\<close>, \<open>CLIENT_TYPE_DOWNLINK\<close> and \<open>CLIENT_TYPE_ECHO\<close>.\<close>

definition server_types :: "int list" where
  "server_types = [0, 1, 2]"

definition read_client_header :: "py_world \<Rightarrow> nat \<Rightarrow> ('z psys_scheme, client_connection option) py" where
  "read_client_header w sock =
     py_bind (sock_recv w sock 1) (\<lambda>magic_number.
     if from_little magic_number \<noteq> SERVER_MAGIC_NUMBER then py_return None
     else py_bind (sock_recv w sock 1) (\<lambda>client_type.
       if from_little client_type \<notin> set server_types then py_return None
       else py_bind (sock_recv w sock 4) (\<lambda>buffer_size.
         let n = from_little buffer_size; n = (if n < 0 then DEFAULT_BUFFER_SIZE else n) in
         py_return (Some \<lparr>conn_socket = sock, conn_type = from_little client_type, conn_buffer_size = n\<rparr>))))"

text \<open>Random bytes other than the magic number, so fewer than asked for.\<close>

definition generate_random_data_buffer :: "py_world \<Rightarrow> nat \<Rightarrow> ('z psys_scheme, byte list) py" where
  "generate_random_data_buffer w n =
     py_bind (py_call w (Py_urandom n)) (\<lambda>a. py_return (filter (\<lambda>x. int (unat x) \<noteq> SERVER_MAGIC_NUMBER) (bytes a)))"

partial_function (option) server_echo_loop :: "py_world \<Rightarrow> nat \<Rightarrow> nat \<Rightarrow> 'z psys_scheme \<Rightarrow> ((py_exn + unit) \<times> 'z psys_scheme) option"
where
  "server_echo_loop w k n s =
     (if fileno s k = -1 then Some (Inr (), s)
      else case sock_recv w k n s of
        None \<Rightarrow> None
      | Some (Inl e, s) \<Rightarrow> Some (Inl e, s)
      | Some (Inr block, s) \<Rightarrow>
          if block = [] then Some (Inr (), s)
          else case sock_sendall w k block s of
            None \<Rightarrow> None
          | Some (Inl e, s) \<Rightarrow> Some (Inl e, s)
          | Some (Inr _, s) \<Rightarrow> server_echo_loop w k n s)"

partial_function (option) uplink_loop :: "py_world \<Rightarrow> nat \<Rightarrow> nat \<Rightarrow> 'z psys_scheme \<Rightarrow> ((py_exn + unit) \<times> 'z psys_scheme) option"
where
  "uplink_loop w k n s =
     (if fileno s k = -1 then Some (Inr (), s)
      else case sock_recv w k n s of
        None \<Rightarrow> None
      | Some (Inl e, s) \<Rightarrow> Some (Inl e, s)
      | Some (Inr block, s) \<Rightarrow> if block = [] then Some (Inr (), s) else uplink_loop w k n s)"

partial_function (option) downlink_loop :: "py_world \<Rightarrow> nat \<Rightarrow> nat \<Rightarrow> 'z psys_scheme \<Rightarrow> ((py_exn + unit) \<times> 'z psys_scheme) option"
where
  "downlink_loop w k n s =
     (if fileno s k = -1 then Some (Inr (), s)
      else case generate_random_data_buffer w n s of
        None \<Rightarrow> None
      | Some (Inl e, s) \<Rightarrow> Some (Inl e, s)
      | Some (Inr block, s) \<Rightarrow> (case sock_sendall w k block s of
            None \<Rightarrow> None
          | Some (Inl e, s) \<Rightarrow> Some (Inl e, s)
          | Some (Inr _, s) \<Rightarrow> downlink_loop w k n s))"

definition handle_client :: "py_world \<Rightarrow> client_connection \<Rightarrow> ('z psys_scheme, unit) py" where
  "handle_client w conn =
     (let k = conn_socket conn; n = nat (conn_buffer_size conn) in
      py_bind (if conn_type conn \<in> {0, 1} then sock_sendall w k [word_of_int SERVER_MAGIC_NUMBER] else py_return ()) (\<lambda>_.
      if conn_type conn = 2
      then py_bind (generate_random_data_buffer w n) (\<lambda>block.
           py_bind (sock_sendall w k block) (\<lambda>_. server_echo_loop w k n))
      else if conn_type conn = 0 then uplink_loop w k n
      else if conn_type conn = 1 then downlink_loop w k n
      else py_return ()))"

section \<open>Its loop\<close>

text \<open>
  The attributes of \<open>MPTCPServer\<close>, whose socket 0 listens: what \<open>Thread.start\<close> returned, which is always
  \<open>None\<close>, and the loggers in the order in which their descriptors came. A thread is a call of
  the system, to start \<open>handle_client\<close> on a connection.
\<close>

record eval_server = psys +
  started_threads :: "nat option list"
  performance_loggers :: "(int \<times> nat) list"

definition log_client :: "py_world \<Rightarrow> nat \<Rightarrow> (eval_server, unit) py" where
  "log_client w client =
     py_bind (py_call w (Logger_create client)) (\<lambda>_.
     py_bind (py_set (\<lambda>s. s\<lparr>performance_loggers := AList.update (fileno s client) client (performance_loggers s)\<rparr>)) (\<lambda>_.
     py_bind (py_call w (Logger_run client)) (\<lambda>_. py_return ())))"

definition accept_client :: "py_world \<Rightarrow> bool \<Rightarrow> (eval_server, unit) py" where
  "accept_client w log_perf =
     py_bind (sock_accept w 0) (\<lambda>client.
     py_bind (read_client_header w client) (\<lambda>conn.
     case conn of
       None \<Rightarrow> sock_close w client
     | Some conn \<Rightarrow>
         py_bind (if log_perf then log_client w client else py_return ()) (\<lambda>_.
         py_bind (py_call w (Thread_start (conn_socket conn) (conn_type conn) (conn_buffer_size conn))) (\<lambda>_.
         py_set (\<lambda>s. s\<lparr>started_threads := started_threads s @ [None]\<rparr>)))))"

text \<open>The first \<open>n\<close> rounds of \<open>run\<close>, which has no end of its own.\<close>

fun run_server :: "py_world \<Rightarrow> bool \<Rightarrow> nat \<Rightarrow> (eval_server, unit) py" where
  "run_server w log_perf 0 = py_return ()"
| "run_server w log_perf (Suc n) = py_bind (accept_client w log_perf) (\<lambda>_. run_server w log_perf n)"

text \<open>\<open>None\<close> has no method \<open>join\<close>.\<close>

fun join_threads :: "py_world \<Rightarrow> nat option list \<Rightarrow> (eval_server, unit) py" where
  "join_threads w [] = py_return ()"
| "join_threads w (None # ts) = py_raise Attribute_error"
| "join_threads w (Some t # ts) = py_bind (py_call w (Thread_join t)) (\<lambda>_. join_threads w ts)"

fun stop_loggers :: "py_world \<Rightarrow> nat list \<Rightarrow> (eval_server, unit) py" where
  "stop_loggers w [] = py_return ()"
| "stop_loggers w (k # ks) = py_bind (py_call w (Logger_stop k)) (\<lambda>_. stop_loggers w ks)"

definition server_cleanup :: "py_world \<Rightarrow> (eval_server, unit) py" where
  "server_cleanup w =
     py_bind (py_get (\<lambda>s. (started_threads s, map snd (performance_loggers s)))) (\<lambda>(ts, ks).
     py_bind (join_threads w ts) (\<lambda>_.
     py_bind (stop_loggers w ks) (\<lambda>_.
     sock_close w 0)))"

section \<open>The bytes on a connection\<close>

text \<open>The bytes that \<open>sendall\<close> has sent.\<close>

fun gave :: "py_world \<Rightarrow> nat \<Rightarrow> pcall list \<Rightarrow> byte list" where
  "gave w k [] = []"
| "gave w k (Py_sendall j bs # h) = gave w k h @ (if j = k \<and> raised (w h (Py_sendall j bs)) = None then bs else [])"
| "gave w k (c # h) = gave w k h"

lemma random_no_magic:
  assumes "generate_random_data_buffer w n s = Some (Inr block, s')"
  shows "0x7F \<notin> set block \<and> s' = s\<lparr>history := Py_urandom n # history s\<rparr>"
  using assms
  by (auto simp: generate_random_data_buffer_def py_bind_def py_call_eq py_return_def SERVER_MAGIC_NUMBER_def split: option.splits)

lemma server_echo_loop_fed:
  fixes s :: "'z psys_scheme"
  assumes "0 < n" and "fileno s k \<noteq> -1" and "\<And>h bs. raised (w h (Py_sendall k bs)) = None"
  shows "\<exists>s'. server_echo_loop (fed w k req) k n s = Some (Inr (), s') \<and>
    gave (fed w k req) k (history s') = gave (fed w k req) k (history s) @ drop (asked k (history s)) req"
  using assms(2)
proof (induction "length req - asked k (history s)" arbitrary: s rule: less_induct)
  case less
  let ?w = "fed w k req" and ?c = "Py_recv k n" and ?b = "take n (drop (asked k (history s)) req)"
  let ?s1 = "s\<lparr>history := ?c # history s\<rparr>" let ?s2 = "?s1\<lparr>history := Py_sendall k ?b # history ?s1\<rparr>"
  have send: "raised (?w h (Py_sendall k bs)) = None" for h bs using assms(3) by (simp add: fed_def)
  have recv: "sock_recv ?w k n s = Some (Inr ?b, ?s1)" using less.prems by (simp add: sock_recv_eq)
  show ?case
  proof (cases "?b = []")
    case True
    then have "drop (asked k (history s)) req = []" using assms(1) by simp
    then show ?thesis using True recv less.prems by (subst server_echo_loop.simps) simp
  next
    case False
    then have "length req - asked k (history ?s2) < length req - asked k (history s)" using assms(1) by auto
    from less.hyps [OF this] less.prems
    obtain s' where s': "server_echo_loop ?w k n ?s2 = Some (Inr (), s')"
      "gave ?w k (history s') = gave ?w k (history ?s2) @ drop (asked k (history ?s2)) req" by auto
    have "server_echo_loop ?w k n s = server_echo_loop ?w k n ?s2"
      using False recv less.prems send by (subst server_echo_loop.simps) (simp add: sock_sendall_eq)
    moreover have "?b @ drop (asked k (history ?s2)) req = drop (asked k (history s)) req"
      using append_take_drop_id [of n "drop (asked k (history s)) req"] by simp
    ultimately show ?thesis using s' send by simp
  qed
qed

lemma from_little_le32: "from_little (le32 x) = uint x"
proof -
  let ?n = "unat x"
  have less: "?n < 4294967296" using unsigned_less [of x] by simp
  have b: "unat (ucast (drop_bit k x) :: byte) = ?n div 2 ^ k mod 256" for k
  proof -
    have "unat (ucast (drop_bit k x) :: byte) = drop_bit k ?n mod 256"
      by (simp add: unsigned_ucast_eq take_bit_eq_mod unat_drop_bit_eq)
    then show ?thesis by (simp add: drop_bit_eq_div)
  qed
  have b0: "unat (ucast x :: byte) = ?n mod 256" using b [of 0] by simp
  have d: "?n div 65536 = ?n div 256 div 256" "?n div 16777216 = ?n div 65536 div 256"
    by (simp_all add: div_mult2_eq [symmetric])
  have m: "k mod 256 + 256 * (k div 256) = k" for k :: nat by simp
  have "?n div 16777216 mod 256 = ?n div 16777216" using less by (simp add: less_mult_imp_div_less)
  then have "?n mod 256 + 256 * (?n div 256 mod 256 + 256 * (?n div 65536 mod 256 + 256 * (?n div 16777216 mod 256))) = ?n"
    using m [of ?n] m [of "?n div 256"] m [of "?n div 65536"] d by simp
  moreover have "from_little (le32 x) =
      int (?n mod 256 + 256 * (?n div 256 mod 256 + 256 * (?n div 65536 mod 256 + 256 * (?n div 16777216 mod 256))))"
    using b [of 8] b [of 16] b [of 24] b0
    by (simp add: from_little_def le32_def uint_nat del: of_nat_unat int_nat_eq)
  ultimately show ?thesis by (simp only: uint_nat)
qed

section \<open>The life of the server\<close>

text \<open>A reset of a client during its greeting is not caught: it ends the server.\<close>

lemma header_raises:
  assumes "fileno s 0 \<noteq> -1" and "raised (w (history s) (Py_accept 0)) = None" and "fd_number (w (history s) (Py_accept 0)) \<noteq> -1"
    and "raised (w (Py_accept 0 # history s) (Py_recv (length (filenos s)) 1)) = Some e"
  shows "\<exists>s'. run_server w log_perf (Suc n) s = Some (Inl e, s')"
  using assms by (simp add: accept_client_def py_bind_def sock_accept_eq Let_def read_client_header_def sock_recv_eq)

text \<open>What runs through leaves no thread to join, so the end of a server that had a client raises.\<close>

definition no_threads :: "eval_server \<Rightarrow> bool" where
  "no_threads s \<longleftrightarrow> list_all (\<lambda>t. t = None) (started_threads s)"

text \<open>Computations that leave the list of threads alone.\<close>

definition keeps_threads :: "(eval_server, 'a) py \<Rightarrow> bool" where
  "keeps_threads c \<longleftrightarrow> (\<forall>s r s'. c s = Some (r, s') \<longrightarrow> started_threads s' = started_threads s)"

lemma keeps_threads_bind:
  assumes "keeps_threads c" and "\<And>x. keeps_threads (f x)"
  shows "keeps_threads (py_bind c f)"
  using assms by (fastforce simp: keeps_threads_def py_bind_def split: option.splits sum.splits)

lemma keeps_threads_basic:
  "keeps_threads (py_return x)" "keeps_threads (py_get g)" "keeps_threads (py_call w c)" "keeps_threads (sock_call w k c)"
  "keeps_threads (sock_close w k)"
  by (auto simp: keeps_threads_def py_return_def py_raise_def py_get_def py_call_eq sock_call_def sock_close_def py_bind_def
      split: if_splits option.splits)

lemma keeps_threads_set:
  assumes "\<And>s. started_threads (g s) = started_threads s"
  shows "keeps_threads (py_set g)"
  using assms by (auto simp: keeps_threads_def py_set_def)

lemma keeps_threads_if: "keeps_threads c \<Longrightarrow> keeps_threads d \<Longrightarrow> keeps_threads (if b then c else d)"
  by simp

lemmas keeps_threads_intros = keeps_threads_bind keeps_threads_basic keeps_threads_set keeps_threads_if

lemma keeps_threads_read_client_header: "keeps_threads (read_client_header w k)"
  unfolding read_client_header_def sock_recv_def Let_def by (intro keeps_threads_intros)

lemma keeps_threads_accept: "keeps_threads (sock_accept w k)"
  unfolding sock_accept_def new_object_def by (intro keeps_threads_intros) simp

lemma keeps_threads_log_client: "keeps_threads (log_client w k)"
  unfolding log_client_def by (intro keeps_threads_intros) simp

lemma keeps_threadsD: "keeps_threads c \<Longrightarrow> c s = Some (r, s') \<Longrightarrow> started_threads s' = started_threads s"
  by (simp add: keeps_threads_def)

lemma no_threads_accept:
  assumes "no_threads s" and "accept_client w log_perf s = Some (r, s')"
  shows "no_threads s'"
  using assms unfolding accept_client_def
  by (auto simp: py_bind_def py_return_def py_set_def no_threads_def
      dest!: keeps_threadsD [OF keeps_threads_accept] keeps_threadsD [OF keeps_threads_read_client_header]
        keeps_threadsD [OF keeps_threads_log_client] keeps_threadsD [OF keeps_threads_basic(3)]
        keeps_threadsD [OF keeps_threads_basic(5)]
      split: option.splits sum.splits if_splits)

lemma no_threads_run:
  "no_threads s \<Longrightarrow> run_server w log_perf n s = Some (r, s') \<Longrightarrow> no_threads s'"
  by (induction n arbitrary: s)
    (auto simp: py_bind_def py_return_def dest: no_threads_accept split: option.splits sum.splits)

lemma server_cleanup_raises:
  assumes "no_threads s" and "started_threads s \<noteq> []"
  shows "server_cleanup w s = Some (Inl Attribute_error, s)"
  using assms by (cases "started_threads s") (auto simp: no_threads_def server_cleanup_def py_simps py_bind_def)

lemma server_ends_badly:
  assumes "no_threads s" and "run_server w log_perf n s = Some (r, s')" and "started_threads s' \<noteq> []"
  shows "server_cleanup w s' = Some (Inl Attribute_error, s')"
  by (rule server_cleanup_raises [OF no_threads_run [OF assms(1,2)] assms(3)])

lemma header_read:
  assumes "parse_options ws default_settings = Inr c" and "fileno s k \<noteq> -1" and "asked k (history s) = 0"
  shows "read_client_header (fed w k (concat (greeting c))) k s = Some (Inr (Some
      \<lparr>conn_socket = k, conn_type = CLIENT_TYPE c, conn_buffer_size = buffer_size c mod 2 ^ 32\<rparr>),
      s\<lparr>history := [Py_recv k 4, Py_recv k 1, Py_recv k 1] @ history s\<rparr>)"
proof -
  have ok: "settings_ok c" by (rule settings_ok_parse [OF settings_ok_default assms(1)])
  have ty: "CLIENT_TYPE c \<in> {0, 1, 2}" "int (unat (word_of_int (CLIENT_TYPE c) :: byte)) = CLIENT_TYPE c"
    using ok by (auto simp: settings_ok_def UPLINK_CLIENT_def DOWNLINK_CLIENT_def ECHO_CLIENT_def)
  show ?thesis
    using assms(2,3) ty from_little_le32
    by (auto simp: read_client_header_def py_bind_def sock_recv_eq greeting_def MAGIC_NUMBER_def py_return_def Let_def
        SERVER_MAGIC_NUMBER_def server_types_def from_little_def uint_word_of_int)
qed

section \<open>Properties\<close>

text \<open>
  C21. The server reads what the client of \<open>mptcp_client.c\<close> writes: when a client is accepted and brings
  its greeting, for the settings of any command line, the server starts a thread for it with its
  type and its buffer size, the latter as a number that is not negative: of a negative size the
  client means, the thread gets the value plus \<open>2 ^ 32\<close>. What the server keeps of the thread is
  \<open>None\<close>.
\<close>

theorem greeting_understood:
  assumes "parse_options ws default_settings = Inr c"
    and "k = length (filenos s)" and "fileno s 0 \<noteq> -1" and "raised (w (history s) (Py_accept 0)) = None"
    and "f = fd_number (w (history s) (Py_accept 0))" and "f \<noteq> -1" and "asked k (history s) = 0"
    and "\<And>h x. x \<in> {Logger_create k, Logger_run k, Thread_start k (CLIENT_TYPE c) (buffer_size c mod 2 ^ 32)} \<Longrightarrow>
      raised (w h x) = None"
  shows "\<exists>s'. accept_client (fed w k (concat (greeting c))) log_perf s = Some (Inr (), s') \<and>
    hd (history s') = Thread_start k (CLIENT_TYPE c) (buffer_size c mod 2 ^ 32) \<and>
    started_threads s' = started_threads s @ [None] \<and> fileno s' k = f \<and>
    (log_perf \<longrightarrow> map_of (performance_loggers s') f = Some k)"
proof -
  let ?w = "fed w k (concat (greeting c))" and ?s = "s\<lparr>filenos := filenos s @ [f], history := Py_accept 0 # history s\<rparr>"
  have acc: "sock_accept ?w 0 s = Some (Inr k, ?s)" using assms(2-5) by (simp add: sock_accept_eq fed_def)
  have k: "fileno ?s k \<noteq> -1" "fileno ?s k = f" "asked k (history ?s) = 0" using assms(2,6,7) by simp_all
  have calls: "raised (?w h (Logger_create k)) = None" "raised (?w h (Logger_run k)) = None"
    "raised (?w h (Thread_start k (CLIENT_TYPE c) (buffer_size c mod 2 ^ 32))) = None" for h
    using assms(8) by (simp_all add: fed_def)
  show ?thesis
    using acc header_read [OF assms(1) k(1,3), of w] k(2) calls
    by (cases log_perf)
      (simp_all add: accept_client_def log_client_def py_bind_def py_call_eq py_return_def py_set_def update_conv')
qed

definition quiet_world :: py_world where
  "quiet_world h c = \<lparr>raised = None, fd_number = 4, bytes = [5, 127, 6], ready = [], taken = 0\<rparr>"

definition eval_start :: eval_server where
  "eval_start = \<lparr>filenos = [3], history = [], started_threads = [], performance_loggers = []\<rparr>"

lemma greeting_understood_witness:
  "\<exists>s. accept_client (fed quiet_world 1 [127, 1, 0, 0, 1, 0]) True eval_start = Some (Inr (), s) \<and>
     hd (history s) = Thread_start 1 1 65536 \<and> started_threads s = [None]"
proof -
  let ?ws = "[lit ''--downlink'', lit ''65536'']"
  have c: "parse_options ?ws default_settings = Inr (default_settings\<lparr>CLIENT_TYPE := 1, buffer_size := 65536\<rparr>)"
    by code_simp
  let ?c = "default_settings\<lparr>CLIENT_TYPE := 1, buffer_size := 65536\<rparr>"
  have g: "concat (greeting ?c) = [127, 1, 0, 0, 1, 0]"
    by (simp add: greeting_def MAGIC_NUMBER_def le32_def)
  have s: "1 = length (filenos eval_start)" "fileno eval_start 0 \<noteq> -1" "asked 1 (history eval_start) = 0"
    "started_threads eval_start = []"
    by (simp_all add: eval_start_def fd_at_def)
  have w: "raised (quiet_world h x) = None" "fd_number (quiet_world h x) \<noteq> -1" for h x by (simp_all add: quiet_world_def)
  show ?thesis
    using greeting_understood [where w = quiet_world and log_perf = True, OF c s(1,2) w(1) refl w(2) s(3) w(1)]
    unfolding g s(4) by auto
qed

text \<open>
  C22. The echo: for every finite stream of bytes from an echo client, in blocks of any size, the
  thread of the client comes to its end and has then sent a block of random bytes without the
  magic number and behind it exactly these bytes, in order.
\<close>

theorem server_echoes:
  fixes s :: "'z psys_scheme"
  assumes "0 < n" and "fileno s k \<noteq> -1" and "asked k (history s) = 0" and "\<And>h bs. raised (w h (Py_sendall k bs)) = None"
    and "a = w (history s) (Py_urandom (nat n))" and "raised a = None"
  shows "\<exists>s'. handle_client (fed w k req) \<lparr>conn_socket = k, conn_type = 2, conn_buffer_size = n\<rparr> s = Some (Inr (), s') \<and>
    gave (fed w k req) k (history s') = gave (fed w k req) k (history s) @ filter (\<lambda>b. b \<noteq> 0x7F) (bytes a) @ req"
proof -
  let ?w = "fed w k req" and ?b = "filter (\<lambda>b. b \<noteq> 0x7F) (bytes a)"
  let ?s = "s\<lparr>history := Py_sendall k ?b # Py_urandom (nat n) # history s\<rparr>"
  have magic: "uint b \<noteq> SERVER_MAGIC_NUMBER \<longleftrightarrow> b \<noteq> 0x7F" for b :: byte
    by (simp add: SERVER_MAGIC_NUMBER_def word_uint_eq_iff)
  have send: "raised (?w h (Py_sendall k bs)) = None" for h bs using assms(4) by (simp add: fed_def)
  have "?w (history s) (Py_urandom (nat n)) = a" using assms(5) by (simp add: fed_def)
  then have "generate_random_data_buffer ?w (nat n) s = Some (Inr ?b, s\<lparr>history := Py_urandom (nat n) # history s\<rparr>)"
    using assms(6) by (simp add: generate_random_data_buffer_def py_bind_def py_call_eq py_return_def magic)
  then have "handle_client ?w \<lparr>conn_socket = k, conn_type = 2, conn_buffer_size = n\<rparr> s = server_echo_loop ?w k (nat n) ?s"
    using assms(2) send by (simp add: handle_client_def Let_def py_bind_def py_return_def sock_sendall_eq)
  moreover have "\<exists>s'. server_echo_loop ?w k (nat n) ?s = Some (Inr (), s') \<and>
      gave ?w k (history s') = gave ?w k (history ?s) @ drop (asked k (history ?s)) req"
    by (rule server_echo_loop_fed) (use assms(1,2,4) in simp_all)
  ultimately show ?thesis using assms(3) send by simp
qed

lemma server_echoes_witness:
  "\<exists>s. handle_client (fed quiet_world 0 [1, 2, 3]) \<lparr>conn_socket = 0, conn_type = 2, conn_buffer_size = 2\<rparr> eval_start = Some (Inr (), s) \<and>
     gave (fed quiet_world 0 [1, 2, 3]) 0 (history s) = [5, 6, 1, 2, 3]"
  using server_echoes [of 2 eval_start 0 quiet_world _ "[1, 2, 3]", OF _ _ _ _ refl]
  by (simp add: fd_at_def eval_start_def quiet_world_def)

end
