(* ===== verification/Spec2Isabelle.thy ===== *)
theory Spec2Isabelle
  imports Process SockThreads BsdChecks MptcpUtil LibSock MptcpTransfer EchoPrograms EndToEnd EvalServer
begin

text \<open>
  5G Transport Converter: a model of its C code and of its proxy in Python, and what is proved of them.

  \<^bold>\<open>The program.\<close> \<open>src/lib_convert\<close> is a library that is preloaded into an application. It
  intercepts \<open>socket\<close>, \<open>connect\<close>, \<open>send\<close>, \<open>recv\<close> and \<open>close\<close> (\<open>convert_client.c\<close>): an MPTCP socket is
  remembered in a hash table, its \<open>connect\<close> goes to a transport converter instead, with the real
  destination in a message of the 0-RTT TCP Convert protocol, and the answer of the converter is
  read and taken off the stream. Messages are written and parsed by \<open>convert_util.c\<close>; the
  table is an array of the doubly linked lists of \<open>bsd_queue.h\<close>. \<open>src/5GTC\<close> has the
  converter itself, a proxy in Python (\<open>main.py\<close>, \<open>pkg/convert.py\<close>), a Python module in C that
  reports the state of MPTCP connections (\<open>pkg/mptcp_util\<close>), and a measuring client in C with its
  server in Python (\<open>evaluation/mptcp_client.c\<close>, \<open>evaluation/mptcp_server.py\<close>); \<open>src/deprecated\<close> has a first interposer with a map of its own
  and two sample programs.

  \<^bold>\<open>The machine.\<close> \<open>Prelude\<close>: words of the C types on a little-endian LP64 host, the error
  monad in which undefined behaviour is a value (\<open>fault\<close>), and on top of it an option for
  functions with a loop that may not end (\<open>run\<close>; \<open>None\<close> is not returning, so that a theorem
  about a result says that there is one). \<open>CMem\<close>: numbered blocks of cells with checked
  accesses. Whether \<open>malloc\<close> succeeds is a parameter, an oracle for every allocation; \<open>plenty\<close>
  refuses only what is larger than \<open>PTRDIFF_MAX\<close>, \<open>alloc_sane\<close> is every oracle that refuses
  that. \<open>CText\<close>: \<open>strtol\<close> on checked memory and decimal text. \<open>Kernel\<close>: the process with its
  memory, \<open>errno\<close> and the history of its calls; what the kernel answers is a parameter, a
  function of the history and the call, and \<open>recv_ok\<close> is what \<open>recvfrom\<close> documents. All loops
  over input are \<open>partial_function\<close>s of the option monad or recursions over lists: there is no
  fuel.

  \<^bold>\<open>The protocol.\<close> \<open>ConvertProto\<close> has the numbers, packed structs and macros of \<open>convert.h\<close>
  and \<open>convert_util.h\<close>. \<open>TlvSpec\<close> is the abstract specification: messages as lists of TLVs, their
  encoding, and a decoder with three results, a complete message, a malformed one, and one on
  which the loop of the code never ends. \<open>ConvertParse\<close> is \<open>convert_parse_header\<close>,
  \<open>convert_parse_tlvs\<close> and \<open>convert_free_opts\<close>, and the proof that they compute what the decoder
  says; \<open>ParseProps\<close> states safety, soundness, completeness, the exact condition of divergence and
  the leaks. \<open>ConvertWrite\<close> is \<open>convert_write\<close> with its table of callbacks, and the proof that it
  writes the encoding. \<open>Codec\<close> puts both together: the round trip, and that the announced length
  is right up to 1020 bytes. \<open>ConvertRead\<close> is \<open>read_convert_opts\<close> on a kernel.

  \<^bold>\<open>The client library.\<close> \<open>BsdList\<close> models the LIST macros on a heap of elements with the address
  of the pointer in front of each, relates them to lists, and states what a user relies on in the
  locale \<open>list_array\<close>, interpreted on the macros. \<open>SockTable\<close> is the table (\<open>_hash\<close>, \<open>_lookup\<close>,
  \<open>_alloc\<close>, \<open>_free_state\<close>, \<open>_free\<close>), built on that interface; its contract is the locale
  \<open>fd_table\<close>, a stack of states for every descriptor. \<open>Client\<close> has the intercepted calls and
  the functions they use, with the outcome of each call by the answer of the converter.
  \<open>Session\<close> composes them: an application makes any sequence of calls, and the library gives each
  a result or meets one of the two answers that hang or crash it; calls that are not its business,
  among them all calls behind an accepted connection, are those of the kernel. \<open>Config\<close> is the start and the
  end (\<open>init\<close>, the checks of sysctl and kernel version, the parameters from the environment,
  \<open>fini\<close>); \<open>Process\<close> puts the application between them.

  \<^bold>\<open>The proxy.\<close> \<open>PySockets\<close>: the part of Python that the server uses, computations that change a
  state and may raise an exception or not return, and socket objects, which know their descriptor
  and lose it when they are closed; what the system answers is a function of the history.
  \<open>ProxyConvert\<close> is \<open>pkg/convert.py\<close>: the packet classes as lists of fields and the reader of a
  message; the packet library scapy is a parameter with the laws it documents (\<open>scapy_ok\<close>).
  \<open>ProxyServer\<close> is \<open>TCServer\<close> of \<open>main.py\<close>, method by method, with the invariant that the
  registered sockets are pairs (\<open>proxying\<close>). \<open>ProxyRounds\<close>: the loop serves and relays as long as
  the conditions of \<open>steady\<close> and \<open>no_pair_ready\<close> hold, and completely when the system takes every
  block whole. \<open>ProxyFaults\<close>: what happens when they do not.
  \<open>EndToEnd\<close> joins the two programs: the request of \<open>Client\<close> is read by \<open>ProxyServer\<close>, and its answer
  by \<open>Client\<close>.

  \<^bold>\<open>Lists and queues.\<close> The library only uses the LIST macros of \<open>bsd_queue.h\<close>; the other families
  are modelled beside them. \<open>QueueLoops\<close> has the loops of the traversals and of the REMOVE macros,
  which the families write alike, over the function that follows a link, and the locale
  \<open>linked\<close> with what they rely on. \<open>BsdSlist\<close> (SLIST) also has the chains of forward pointers that
  \<open>BsdStailq\<close> (STAILQ) uses, which adds the address of the last link and the locale \<open>fifo\<close>, the
  contract of a queue for any sequence of calls. \<open>BsdTailq\<close> (TAILQ) shows that its macros do to the
  links what the LIST macros do and carries their lemmas over; new are the last links, the
  appending macros and the way back. Every macro is shown to do to the lists of a heap what
  it says, and to leave the contents of the elements alone. \<open>BsdChecks\<close> has the consistency
  checks of a debugging build and the initial heads.

  \<^bold>\<open>Threads.\<close> \<open>SockThreads\<close> cuts the functions of the table into the steps between which another
  thread can run; a section under \<open>_socket_htable_mutex\<close> is entered, executed and left in two
  steps, and the use of a state, which the code makes without the mutex, is a step of its own. Any thread may take the next step. Proved for every schedule: mutual exclusion;
  safety and the final table of threads that work on different descriptors, and that they finish;
  and that a thread alone does what \<open>SockTable\<close> says. A use of a state ends as the answer of
  the kernel has it, with the state freed or kept. Two threads that use one descriptor, of which the
  first one frees its state, are not safe, by a schedule that is given.

  \<^bold>\<open>The other programs.\<close> \<open>MptcpUtil\<close>: the three functions of the Python module; the kernel's
  structs are the values of their fields, the arrays have the two elements that the code gives
  them. \<open>MptcpClient\<close>: command line, connection, greeting and transfer loop of the measuring
  client, with the rounds of its reporting thread; a download completes under conditions on
  the server and the numbers, and the end of the connection is never noticed. \<open>MptcpTransfer\<close>: the calls of uplink and echo clients in their order,
  and that only the overflow of its counter ends an upload without a size. \<open>EvalServer\<close>: the server on
  the other side, with the loop that accepts clients; it understands the greeting and echoes. \<open>DeprecatedMap\<close>: the map of
  \<open>map.h\<close> against an association list, with the locale \<open>string_map\<close> as its contract; \<open>LibSock\<close>: the
  first interposer, which uses it.
  \<open>EchoPrograms\<close>: the echo client and the sample server.

  \<^bold>\<open>Lemma groups.\<close> In every theory the definitions come first, in the order of the code, then
  the facts about single steps, the invariant or the relation to the abstract state, and at the
  end the properties, each behind a text that states it and followed by an instance with concrete
  inputs for which its hypotheses hold. The collections \<open>layout\<close> and \<open>bindE_simps\<close> hold the facts on
  offsets and on sequencing that all component proofs use.

  \<^bold>\<open>Bounds.\<close> The client's buffer of 1024 bytes holds every request with a cookie of up to 996
  bytes; a header can announce at most 1020 bytes; sizes are 64-bit words whose wrap-around is part
  of the model. Theorems that a call returns assume the allocator \<open>plenty\<close> and the socket calls as
  documented, and nothing else of the peer.

  \<^bold>\<open>Not modelled.\<close> Printing and the log file, which the code never opens. Asynchronous signals:
  an interrupt of the measuring client takes effect at the next test of its loop variable.
  Failures of the Python allocator. The trace buffers of \<open>bsd_queue.h\<close>, which record source lines in
  a debugging build. \<open>deprecated/tc_server\<close>, which does not compile: \<open>tc_server.c\<close> uses
  undeclared identifiers, and its copy of \<open>convert_util.c\<close>, the same text as in \<open>lib_convert\<close>, does
  not fit its own \<open>convert_util.h\<close>. Of the Python code: the start of the proxy and its end, its
  web page and the performance loggers, which read the state of sockets in threads of their own
  (that they are made, run and stopped is modelled); the scripts for plots, and
  \<open>evaluation/client.py\<close>, which its authors call broken.

  \<^bold>\<open>Plan.\<close> What could still be added: the interleaving of two sessions through the proxy call by
  call, with data on both; the threads of the evaluation server beside its accepting loop.
\<close>

end
